(* ===== verification/Sbz_Prelude.thy ===== *)
theory Sbz_Prelude
  imports Main "HOL-Library.Word"
begin

text \<open>
  The prelude of the Sembazuru development: the machine types of the Rust sources, the
  byte-level functions of the Rust standard library the sources call (little-endian
  conversion, UTF-8 validation), the state-and-error monad in which every cursor-style
  decoder is written, and the codec interface (\<open>field_codec\<close>, \<open>canonical_codec\<close>)
  the wire formats instantiate.

  A Rust \<open>String\<close> is modelled by HOL's \<open>string\<close>: its UTF-8 bytes, one \<open>char\<close>
  per byte, with \<open>utf8_str\<close> the invariant Rust keeps. A \<open>usize\<close> is a \<open>nat\<close> with the
  64-bit bound written out where the source uses checked arithmetic.
\<close>

named_theorems reads_intros \<open>facts stating that a decoder reads back an encoded field\<close>
named_theorems sm_simps \<open>evaluation of the state-and-error monad at a state\<close>
named_theorems bytes_simps \<open>byte-level lengths and conversions\<close>

section \<open>Machine types\<close>

type_synonym u8 = "8 word"
type_synonym u16 = "16 word"
type_synonym u32 = "32 word"
type_synonym u64 = "64 word"
type_synonym bytes = "u8 list"

definition usize_bound :: nat where
  "usize_bound = 2 ^ 64"

definition checked_add_usize :: "nat \<Rightarrow> nat \<Rightarrow> nat option" where
  "checked_add_usize a b = (if a + b < usize_bound then Some (a + b) else None)"

definition checked_mul_usize :: "nat \<Rightarrow> nat \<Rightarrow> nat option" where
  "checked_mul_usize a b = (if a * b < usize_bound then Some (a * b) else None)"

section \<open>Little-endian bytes\<close>

primrec le_bytes :: "nat \<Rightarrow> nat \<Rightarrow> bytes" where
  "le_bytes 0 n = []"
| "le_bytes (Suc k) n = word_of_nat (n mod 256) # le_bytes k (n div 256)"

primrec le_val :: "bytes \<Rightarrow> nat" where
  "le_val [] = 0"
| "le_val (b # bs) = unat b + 256 * le_val bs"

definition u16_to_le :: "u16 \<Rightarrow> bytes" where "u16_to_le w = le_bytes 2 (unat w)"
definition u32_to_le :: "u32 \<Rightarrow> bytes" where "u32_to_le w = le_bytes 4 (unat w)"
definition u64_to_le :: "u64 \<Rightarrow> bytes" where "u64_to_le w = le_bytes 8 (unat w)"

definition u16_from_le :: "bytes \<Rightarrow> u16" where "u16_from_le bs = word_of_nat (le_val bs)"
definition u32_from_le :: "bytes \<Rightarrow> u32" where "u32_from_le bs = word_of_nat (le_val bs)"
definition u64_from_le :: "bytes \<Rightarrow> u64" where "u64_from_le bs = word_of_nat (le_val bs)"

lemma length_le_bytes [simp, bytes_simps]: "length (le_bytes k n) = k"
  by (induction k arbitrary: n) auto

lemma unat_byte_mod [simp]: "unat (word_of_nat (n mod 256) :: u8) = n mod 256"
  by (simp add: unat_of_nat)

lemma le_val_le_bytes: "le_val (le_bytes k n) = n mod 256 ^ k"
proof (induction k arbitrary: n)
  case 0
  then show ?case by simp
next
  case (Suc k)
  have "n mod 256 ^ Suc k = n mod 256 + 256 * (n div 256 mod 256 ^ k)"
    by (simp add: mod_mult2_eq)
  with Suc show ?case by simp
qed

lemma unat_u8_less: "unat (b :: u8) < 256"
  using unsigned_less [of b, where ?'a = nat] by simp

lemma le_val_less: "le_val bs < 256 ^ length bs"
proof (induction bs)
  case Nil
  then show ?case by simp
next
  case (Cons b bs)
  have "unat b < 256" by (rule unat_u8_less)
  moreover have "Suc (le_val bs) \<le> 256 ^ length bs" using Cons by simp
  ultimately have "unat b + 256 * le_val bs < 256 * Suc (le_val bs)" by simp
  also have "\<dots> \<le> 256 * 256 ^ length bs"
    using \<open>Suc (le_val bs) \<le> 256 ^ length bs\<close> by (rule mult_le_mono2)
  finally show ?case by simp
qed

lemma le_bytes_le_val: "le_bytes (length bs) (le_val bs) = bs"
proof (induction bs)
  case Nil
  then show ?case by simp
next
  case (Cons b bs)
  have b: "unat b < 256" by (rule unat_u8_less)
  then have "(unat b + 256 * le_val bs) mod 256 = unat b" by simp
  moreover have "(unat b + 256 * le_val bs) div 256 = le_val bs" using b by simp
  ultimately show ?case using Cons by simp
qed

lemma length_u16_to_le [simp, bytes_simps]: "length (u16_to_le w) = 2"
  and length_u32_to_le [simp, bytes_simps]: "length (u32_to_le v) = 4"
  and length_u64_to_le [simp, bytes_simps]: "length (u64_to_le x) = 8"
  by (simp_all add: u16_to_le_def u32_to_le_def u64_to_le_def)

lemma u16_from_to_le [simp]: "u16_from_le (u16_to_le w) = w"
  using unsigned_less [of w, where ?'a = nat] by (simp add: u16_from_le_def u16_to_le_def le_val_le_bytes)

lemma u32_from_to_le [simp]: "u32_from_le (u32_to_le w) = w"
  using unsigned_less [of w, where ?'a = nat] by (simp add: u32_from_le_def u32_to_le_def le_val_le_bytes)

lemma u64_from_to_le [simp]: "u64_from_le (u64_to_le w) = w"
  using unsigned_less [of w, where ?'a = nat] by (simp add: u64_from_le_def u64_to_le_def le_val_le_bytes)

lemma u32_to_from_le: "length bs = 4 \<Longrightarrow> u32_to_le (u32_from_le bs) = bs"
  using le_val_less [of bs] le_bytes_le_val [of bs]
  by (simp add: u32_from_le_def u32_to_le_def unat_of_nat)

lemma u64_to_from_le: "length bs = 8 \<Longrightarrow> u64_to_le (u64_from_le bs) = bs"
  using le_val_less [of bs] le_bytes_le_val [of bs]
  by (simp add: u64_from_le_def u64_to_le_def unat_of_nat)

lemma unat_word32_of_nat: "n < 2 ^ 32 \<Longrightarrow> unat (word_of_nat n :: u32) = n"
  by (simp add: unat_of_nat)

section \<open>Strings and their UTF-8 bytes\<close>

definition as_bytes :: "string \<Rightarrow> bytes" where
  "as_bytes s = map (\<lambda>c. word_of_nat (of_char c)) s"

definition of_bytes :: "bytes \<Rightarrow> string" where
  "of_bytes bs = map (\<lambda>b. char_of (unat b)) bs"

text \<open>
  UTF-8 validity as Rust's \<open>String::from_utf8\<close> checks it (RFC 3629): the lead byte gives
  the range of the second byte and the number of continuation bytes; overlong forms,
  surrogates and values above U+10FFFF are rejected.
\<close>

definition utf8_lead :: "u8 \<Rightarrow> (u8 \<times> u8 \<times> nat) option" where
  "utf8_lead b =
     (if 0xC2 \<le> b \<and> b \<le> 0xDF then Some (0x80, 0xBF, 1)
      else if b = 0xE0 then Some (0xA0, 0xBF, 2)
      else if b = 0xED then Some (0x80, 0x9F, 2)
      else if 0xE1 \<le> b \<and> b \<le> 0xEF then Some (0x80, 0xBF, 2)
      else if b = 0xF0 then Some (0x90, 0xBF, 3)
      else if 0xF1 \<le> b \<and> b \<le> 0xF3 then Some (0x80, 0xBF, 3)
      else if b = 0xF4 then Some (0x80, 0x8F, 3)
      else None)"

definition utf8_cont :: "u8 \<Rightarrow> bool" where
  "utf8_cont b \<longleftrightarrow> 0x80 \<le> b \<and> b \<le> 0xBF"

fun utf8_valid :: "bytes \<Rightarrow> bool" where
  "utf8_valid [] = True"
| "utf8_valid (b # bs) =
     (if b < 0x80 then utf8_valid bs
      else case utf8_lead b of
        None \<Rightarrow> False
      | Some (lo, hi, k) \<Rightarrow>
          k \<le> length bs \<and> lo \<le> hd bs \<and> hd bs \<le> hi \<and>
          list_all utf8_cont (take (k - 1) (tl bs)) \<and> utf8_valid (drop k bs))"

definition from_utf8 :: "bytes \<Rightarrow> string option" where
  "from_utf8 bs = (if utf8_valid bs then Some (of_bytes bs) else None)"

definition utf8_str :: "string \<Rightarrow> bool" where
  "utf8_str s = utf8_valid (as_bytes s)"

lemma length_as_bytes [simp, bytes_simps]: "length (as_bytes s) = length s"
  by (simp add: as_bytes_def)

lemma unat_of_char: "unat (word_of_nat (of_char c) :: u8) = of_char c"
  by (simp add: unat_of_nat)

lemma of_bytes_as_bytes [simp]: "of_bytes (as_bytes s) = s"
  by (simp add: of_bytes_def as_bytes_def o_def unat_of_char map_idI)

lemma word_of_unat_mod [simp]: "word_of_nat (unat (b :: u8) mod 256) = b"
  using unat_u8_less [of b] by simp

lemma as_bytes_of_bytes [simp]: "as_bytes (of_bytes bs) = bs"
  by (simp add: of_bytes_def as_bytes_def o_def map_idI)

lemma as_bytes_inj [simp]: "as_bytes s = as_bytes t \<longleftrightarrow> s = t"
  by (metis of_bytes_as_bytes)

lemma as_bytes_append [simp]: "as_bytes (s @ t) = as_bytes s @ as_bytes t"
  by (simp add: as_bytes_def)

lemma as_bytes_Nil [simp]: "as_bytes [] = []"
  by (simp add: as_bytes_def)

lemma from_utf8_as_bytes [simp]: "utf8_str s \<Longrightarrow> from_utf8 (as_bytes s) = Some s"
  by (simp add: from_utf8_def utf8_str_def)

lemma from_utf8_Some: "from_utf8 bs = Some s \<longleftrightarrow> utf8_str s \<and> bs = as_bytes s"
  by (auto simp: from_utf8_def utf8_str_def)

lemma utf8_str_Nil [simp]: "utf8_str []"
  by (simp add: utf8_str_def)

lemma utf8_valid_ascii: "list_all (\<lambda>b. b < 0x80) bs \<Longrightarrow> utf8_valid bs"
  by (induction bs) auto

section \<open>The state-and-error monad\<close>

text \<open>
  A Rust method \<open>fn f(&mut self) -> Result<A, E>\<close> changes its receiver whether or not it
  fails, so the state is returned on both paths (\<open>Reader::str\<close> advances past the length
  prefix before it can fail, and a caller that ignores the error observes that).
\<close>

type_synonym ('s, 'e, 'a) sm = "'s \<Rightarrow> ('e + 'a) \<times> 's"

definition sm_ret :: "'a \<Rightarrow> ('s, 'e, 'a) sm" where
  "sm_ret a = (\<lambda>s. (Inr a, s))"

definition sm_err :: "'e \<Rightarrow> ('s, 'e, 'a) sm" where
  "sm_err e = (\<lambda>s. (Inl e, s))"

definition sm_bind :: "('s, 'e, 'a) sm \<Rightarrow> ('a \<Rightarrow> ('s, 'e, 'b) sm) \<Rightarrow> ('s, 'e, 'b) sm" where
  "sm_bind m f = (\<lambda>s. case m s of (Inl e, s') \<Rightarrow> (Inl e, s') | (Inr a, s') \<Rightarrow> f a s')"

definition sm_guard :: "bool \<Rightarrow> 'e \<Rightarrow> ('s, 'e, unit) sm" where
  "sm_guard b e = (if b then sm_ret () else sm_err e)"

primrec sm_repeat :: "nat \<Rightarrow> ('s, 'e, 'a) sm \<Rightarrow> ('s, 'e, 'a list) sm" where
  "sm_repeat 0 m = sm_ret []"
| "sm_repeat (Suc n) m = sm_bind m (\<lambda>a. sm_bind (sm_repeat n m) (\<lambda>as. sm_ret (a # as)))"

lemma sm_ret_apply [sm_simps]: "sm_ret a s = (Inr a, s)"
  by (simp add: sm_ret_def)

lemma sm_err_apply [sm_simps]: "sm_err e s = (Inl e, s)"
  by (simp add: sm_err_def)

lemma sm_guard_simps [simp]:
  "sm_guard True e = sm_ret ()" "sm_guard False e = sm_err e"
  by (simp_all add: sm_guard_def)

lemma sm_bind_Inr [simp]: "m s = (Inr a, s') \<Longrightarrow> sm_bind m f s = f a s'"
  by (simp add: sm_bind_def)

lemma sm_bind_Inl [simp]: "m s = (Inl e, s') \<Longrightarrow> sm_bind m f s = (Inl e, s')"
  by (simp add: sm_bind_def)

lemma sm_bind_ret [simp]: "sm_bind (sm_ret a) f = f a"
  by (rule ext) (simp add: sm_bind_def sm_simps)

lemma sm_bind_err [simp]: "sm_bind (sm_err e) f = sm_err e"
  by (rule ext) (simp add: sm_bind_def sm_simps)

lemma sm_bind_eq_Inr:
  "sm_bind m f s = (Inr b, t) \<longleftrightarrow> (\<exists>a s'. m s = (Inr a, s') \<and> f a s' = (Inr b, t))"
  by (auto simp: sm_bind_def split: prod.splits sum.splits)

lemma sm_guard_eq_Inr [simp]: "sm_guard b e s = (Inr u, t) \<longleftrightarrow> b \<and> t = s"
  by (cases b) (auto simp: sm_simps)

section \<open>Byte cursors and the codec interface\<close>

record cursor =
  cbuf :: bytes
  cpos :: nat

definition cur :: "bytes \<Rightarrow> bytes \<Rightarrow> cursor" where
  "cur pre post = \<lparr>cbuf = pre @ post, cpos = length pre\<rparr>"

definition cursor_new :: "bytes \<Rightarrow> cursor" where
  "cursor_new buf = \<lparr>cbuf = buf, cpos = 0\<rparr>"

text \<open>
  The slice \<open>buf.get(pos..pos + n)\<close> of a byte cursor and its advance; \<open>None\<close> when the
  checked addition overflows (first component) or the slice is out of range.
\<close>

definition get_range :: "bytes \<Rightarrow> nat \<Rightarrow> nat \<Rightarrow> bytes option" where
  "get_range buf from end =
     (if from \<le> end \<and> end \<le> length buf then Some (take (end - from) (drop from buf)) else None)"

definition reads :: "(cursor, 'e, 'a) sm \<Rightarrow> bytes \<Rightarrow> 'a \<Rightarrow> bool" where
  "reads m bs a \<longleftrightarrow>
     (\<forall>pre post. length pre + length bs + length post < usize_bound \<longrightarrow>
        m (cur pre (bs @ post)) = (Inr a, cur (pre @ bs) post))"

lemma readsI:
  "(\<And>pre post. length pre + length bs + length post < usize_bound \<Longrightarrow>
      m (cur pre (bs @ post)) = (Inr a, cur (pre @ bs) post)) \<Longrightarrow> reads m bs a"
  by (simp add: reads_def)

lemma readsD:
  "reads m bs a \<Longrightarrow> length pre + length bs + length post < usize_bound \<Longrightarrow>
     m (cur pre (bs @ post)) = (Inr a, cur (pre @ bs) post)"
  by (simp add: reads_def)

lemma get_range_middle [simp]:
  "get_range (pre @ bs @ post) (length pre) (length pre + length bs) = Some bs"
  by (simp add: get_range_def)

lemma cur_advance [simp]:
  "(cur pre (bs @ post))\<lparr>cpos := length pre + length bs\<rparr> = cur (pre @ bs) post"
  by (simp add: cur_def)

lemma cpos_cur [simp]: "cpos (cur pre post) = length pre"
  by (simp add: cur_def)

lemma cbuf_cur [simp]: "cbuf (cur pre post) = pre @ post"
  by (simp add: cur_def)

lemma cursor_new_cur: "cursor_new buf = cur [] buf"
  by (simp add: cursor_new_def cur_def)

lemma reads_ret [reads_intros, intro]: "reads (sm_ret a) [] a"
  by (auto simp: reads_def sm_simps)

lemma reads_bind [reads_intros, intro]:
  assumes "reads m bs a" and "reads (f a) bs' b"
  shows "reads (sm_bind m f) (bs @ bs') b"
proof (rule readsI)
  fix pre post :: bytes
  assume len: "length pre + length (bs @ bs') + length post < usize_bound"
  have "m (cur pre (bs @ (bs' @ post))) = (Inr a, cur (pre @ bs) (bs' @ post))"
    using len by (intro readsD [OF assms(1)]) simp
  moreover have "f a (cur (pre @ bs) (bs' @ post)) = (Inr b, cur ((pre @ bs) @ bs') post)"
    using len by (intro readsD [OF assms(2)]) simp
  ultimately show "sm_bind m f (cur pre ((bs @ bs') @ post)) = (Inr b, cur (pre @ bs @ bs') post)"
    by simp
qed

lemma reads_bind_last [reads_intros]: "reads m bs a \<Longrightarrow> reads (f a) [] b \<Longrightarrow> reads (sm_bind m f) bs b"
  using reads_bind [of m bs a f "[]" b] by simp

lemma reads_ret_eq: "a = b \<Longrightarrow> reads (sm_ret a) [] b"
  by (simp add: reads_ret)

lemma reads_bind_guard: "b \<Longrightarrow> reads (f ()) bs a \<Longrightarrow> reads (sm_bind (sm_guard b e) f) bs a"
  by (auto simp: reads_def sm_bind_def sm_simps)

text \<open>
  A decoder that reads a whole buffer: started at the front it ends exactly at the end.
\<close>

lemma reads_whole:
  assumes "reads m bs a" and "length bs < usize_bound"
  shows "m (cursor_new bs) = (Inr a, \<lparr>cbuf = bs, cpos = length bs\<rparr>)"
  using readsD [OF assms(1), of "[]" "[]"] assms(2) by (simp add: cursor_new_cur cur_def)

text \<open>
  The interface between a message and the codec of one of its fields: the encoder, the
  decoder, and the values the pair is lossless on. Messages with repeated fields use the
  list lemma proved here once.
\<close>

locale field_codec =
  fixes enc :: "'a \<Rightarrow> bytes"
    and dec :: "(cursor, 'e, 'a) sm"
    and ok :: "'a \<Rightarrow> bool"
  assumes reads_enc: "ok a \<Longrightarrow> reads dec (enc a) a"
begin

lemma reads_list:
  "list_all ok xs \<Longrightarrow> reads (sm_repeat (length xs) dec) (concat (map enc xs)) xs"
proof (induction xs)
  case Nil
  then show ?case by (simp add: reads_ret)
next
  case (Cons x xs)
  then have "reads dec (enc x) x" and "reads (sm_repeat (length xs) dec) (concat (map enc xs)) xs"
    by (simp_all add: reads_enc)
  then show ?case by (auto intro: reads_bind reads_bind_last reads_ret)
qed

end

text \<open>
  A codec is canonical when a successful read consumed exactly the encoding of its
  result: no two byte strings decode to the same value.
\<close>

definition consumes :: "(cursor, 'e, 'a) sm \<Rightarrow> ('a \<Rightarrow> bytes) \<Rightarrow> ('a \<Rightarrow> bool) \<Rightarrow> bool" where
  "consumes m en ok \<longleftrightarrow>
     (\<forall>c a c'. cpos c \<le> length (cbuf c) \<longrightarrow> m c = (Inr a, c') \<longrightarrow>
        ok a \<and> cbuf c' = cbuf c \<and> cpos c' = cpos c + length (en a) \<and>
        cpos c' \<le> length (cbuf c) \<and>
        take (length (en a)) (drop (cpos c) (cbuf c)) = en a)"

lemma consumesD:
  assumes "consumes m en ok" and "cpos c \<le> length (cbuf c)" and "m c = (Inr a, c')"
  shows "ok a" "cbuf c' = cbuf c" "cpos c' = cpos c + length (en a)"
    "cpos c' \<le> length (cbuf c)" "take (length (en a)) (drop (cpos c) (cbuf c)) = en a"
  using assms unfolding consumes_def by blast+

lemma take_drop_append:
  assumes "take (length xs) (drop p buf) = xs" and "take (length ys) (drop (p + length xs) buf) = ys"
  shows "take (length xs + length ys) (drop p buf) = xs @ ys"
  using assms by (metis add.commute drop_drop take_add)

text \<open>Sequencing two canonical reads, and closing with a pure result.\<close>

lemma consumes_bind:
  assumes m: "consumes m en ok"
    and f: "\<And>a. ok a \<Longrightarrow> consumes (f a) (en' a) (ok' a)"
    and en'': "\<And>a b. ok a \<Longrightarrow> ok' a b \<Longrightarrow> ok'' b \<and> en'' b = en a @ en' a b"
  shows "consumes (sm_bind m f) en'' ok''"
  unfolding consumes_def
proof (intro allI impI)
  fix c b c'
  assume c: "cpos c \<le> length (cbuf c)" and "sm_bind m f c = (Inr b, c')"
  then obtain a s where ms: "m c = (Inr a, s)" and fs: "f a s = (Inr b, c')"
    by (auto simp: sm_bind_eq_Inr)
  note 1 = consumesD [OF m c ms]
  have s: "cpos s \<le> length (cbuf s)" using 1 by simp
  note 2 = consumesD [OF f [OF 1(1)] s fs]
  have e: "en'' b = en a @ en' a b" and k: "ok'' b" using en'' [OF 1(1) 2(1)] by auto
  have "take (length (en' a b)) (drop (cpos c + length (en a)) (cbuf c)) = en' a b"
    using 1 2 by simp
  then have "take (length (en'' b)) (drop (cpos c) (cbuf c)) = en'' b"
    using take_drop_append [OF 1(5)] e by simp
  then show "ok'' b \<and> cbuf c' = cbuf c \<and> cpos c' = cpos c + length (en'' b) \<and>
      cpos c' \<le> length (cbuf c) \<and> take (length (en'' b)) (drop (cpos c) (cbuf c)) = en'' b"
    using 1 2 e k by simp
qed

lemma consumes_bind_ex:
  assumes "consumes m en ok"
    and "\<And>a. ok a \<Longrightarrow> consumes (f a) en' (P a)"
    and "\<And>a b. ok a \<Longrightarrow> P a b \<Longrightarrow> en'' b = en a @ en' b"
  shows "consumes (sm_bind m f) en'' (\<lambda>b. \<exists>a. ok a \<and> P a b)"
proof (rule consumes_bind [where en' = "\<lambda>_. en'" and ok' = P, OF assms(1)])
  fix a
  assume a: "ok a"
  then show "consumes (f a) en' (P a)" by (rule assms(2))
  fix b
  assume b: "P a b"
  have "\<exists>a. ok a \<and> P a b" using a b by (intro exI conjI)
  moreover have "en'' b = en a @ en' b" using a b by (rule assms(3))
  ultimately show "(\<exists>a. ok a \<and> P a b) \<and> en'' b = en a @ en' b" ..
qed

lemma consumes_bind_guard:
  assumes "b \<Longrightarrow> consumes (f ()) en ok"
  shows "consumes (sm_bind (sm_guard b e) f) en ok"
proof (cases b)
  case True
  then show ?thesis using assms by simp
next
  case False
  then show ?thesis by (simp add: consumes_def) (simp add: sm_simps)
qed

lemma consumes_ret: "consumes (sm_ret a) (\<lambda>_. []) (\<lambda>b. b = a)"
  by (auto simp: consumes_def sm_simps)

lemma consumes_guard: "consumes (sm_guard b e) (\<lambda>_. []) (\<lambda>_. b)"
  by (auto simp: consumes_def sm_simps)

lemma consumes_err: "consumes (sm_err e) en ok"
  by (auto simp: consumes_def sm_simps)

lemma consumes_weaken:
  assumes "consumes m en ok" and "\<And>a. ok a \<Longrightarrow> ok' a \<and> en' a = en a"
  shows "consumes m en' ok'"
  unfolding consumes_def
proof (intro allI impI)
  fix c a c'
  assume "cpos c \<le> length (cbuf c)" and "m c = (Inr a, c')"
  note 1 = consumesD [OF assms(1) this]
  with assms(2) [OF 1(1)] show "ok' a \<and> cbuf c' = cbuf c \<and> cpos c' = cpos c + length (en' a) \<and>
      cpos c' \<le> length (cbuf c) \<and> take (length (en' a)) (drop (cpos c) (cbuf c)) = en' a"
    by simp
qed

text \<open>
  Reading a record field by field: \<open>sel\<close> recovers the field just read from the record at the
  end, \<open>R\<close> collects what is known of the earlier fields, \<open>Q\<close> what the later ones satisfy.
\<close>

lemma consumes_field:
  assumes "consumes m en ok"
    and "\<And>a. ok a \<Longrightarrow> consumes (f a) E (\<lambda>b. (sel b = a \<and> R b) \<and> Q b)"
  shows "consumes (sm_bind m f) (\<lambda>b. en (sel b) @ E b) (\<lambda>b. R b \<and> ok (sel b) \<and> Q b)"
  by (rule consumes_bind [OF assms]) auto

lemma consumes_record_end:
  assumes "R r"
  shows "consumes (sm_ret r) (\<lambda>_. []) (\<lambda>b. R b \<and> True)"
  using assms by (auto simp: consumes_def sm_simps)

lemma consumes_whole:
  assumes "consumes m en ok" and "m (cursor_new bs) = (Inr a, c')" and "cpos c' = length bs"
  shows "ok a \<and> en a = bs"
proof -
  have c: "cpos (cursor_new bs) \<le> length (cbuf (cursor_new bs))"
    by (simp add: cursor_new_def)
  note 1 = consumesD [OF assms(1) c assms(2)]
  then show ?thesis using assms(3) by (simp add: cursor_new_def)
qed

locale canonical_codec = field_codec +
  assumes consumes_enc: "consumes dec enc ok"
begin

lemma consumes_list:
  "consumes (sm_repeat n dec) (\<lambda>xs. concat (map enc xs)) (\<lambda>xs. length xs = n \<and> list_all ok xs)"
proof (induction n)
  case 0
  have "consumes (sm_ret []) (\<lambda>xs. concat (map enc xs)) (\<lambda>xs. length xs = 0 \<and> list_all ok xs)"
    by (rule consumes_weaken [OF consumes_ret]) simp
  then show ?case by simp
next
  case (Suc n)
  have tail: "consumes (sm_bind (sm_repeat n dec) (\<lambda>as. sm_ret (a # as)))
      (\<lambda>xs. concat (map enc (tl xs))) (\<lambda>xs. hd xs = a \<and> length xs = Suc n \<and> list_all ok (tl xs))" for a
    by (rule consumes_bind [OF Suc consumes_ret]) auto
  have cons: "length xs = Suc n \<Longrightarrow> xs = hd xs # tl xs" for xs :: "'a list"
    by (cases xs) auto
  show ?case
    unfolding sm_repeat.simps
  proof (rule consumes_bind [OF consumes_enc tail])
    fix a xs
    assume a: "ok a" and xs: "hd xs = a \<and> length xs = Suc n \<and> list_all ok (tl xs)"
    then obtain ys where "xs = a # ys" by (cases xs) auto
    with a xs show "(length xs = Suc n \<and> list_all ok xs) \<and>
        concat (map enc xs) = enc a @ concat (map enc (tl xs))"
      by simp
  qed
qed

end

section \<open>Files\<close>

text \<open>
  The outcome of \<open>std::fs::read\<close>: the bytes, \<open>ErrorKind::NotFound\<close>, or any other error. The
  operating system decides it, so the operations take it as part of their environment.
\<close>

datatype fs_read = FsOk bytes | FsNotFound | FsError

text \<open>Saturating arithmetic on \<open>u64\<close>.\<close>

definition u64_max :: nat where "u64_max = 2 ^ 64 - 1"
definition saturating_add :: "nat \<Rightarrow> nat \<Rightarrow> nat" where "saturating_add a b = min (a + b) u64_max"
definition saturating_sub :: "nat \<Rightarrow> nat \<Rightarrow> nat" where "saturating_sub a b = a - b"

text \<open>Counting the elements of a list with a property when one element changes.\<close>

lemma length_filter_update:
  assumes "i < length xs"
  shows "length (filter P (xs[i := x])) + of_bool (P (xs ! i)) = length (filter P xs) + of_bool (P x)"
proof -
  have xs: "xs = take i xs @ xs ! i # drop (Suc i) xs" using assms by (simp add: id_take_nth_drop)
  have up: "xs[i := x] = take i xs @ x # drop (Suc i) xs" using assms by (simp add: upd_conv_take_nth_drop)
  have "length (filter P xs) = length (filter P (take i xs)) + of_bool (P (xs ! i)) + length (filter P (drop (Suc i) xs))"
    using arg_cong [OF xs, of "\<lambda>l. length (filter P l)"] by (simp only: filter_append length_append) simp
  then show ?thesis unfolding up by simp
qed

end
