(* ===== verification/Rust_Str.thy ===== *)
theory Rust_Str
  imports Sbz_Prelude "HOL-Library.List_Lexorder" "HOL-Library.Char_ord" "HOL-Library.Sublist"
begin

text \<open>
  The string and container functions of the Rust standard library the components call:
  ASCII case mapping, splitting, prefix stripping, trimming and replacement on strings
  (byte lists), and the ordered map \<open>BTreeMap\<close> as an association list sorted by key. The
  interface \<open>entry_map\<close> states what \<open>get\<close>, \<open>entry\<close>/\<open>or_insert\<close> and \<open>remove\<close>
  promise; the ordered map interprets it, and clients fold updates through it.
\<close>

named_theorems str_simps \<open>evaluation of the string functions\<close>

section \<open>Characters\<close>

abbreviation bsl :: char where "bsl \<equiv> CHR 0x5C"
abbreviation nul :: char where "nul \<equiv> CHR 0x00"

definition is_ascii_upper :: "char \<Rightarrow> bool" where
  "is_ascii_upper c \<longleftrightarrow> 65 \<le> (of_char c :: nat) \<and> (of_char c :: nat) \<le> 90"

definition is_ascii_lower :: "char \<Rightarrow> bool" where
  "is_ascii_lower c \<longleftrightarrow> 97 \<le> (of_char c :: nat) \<and> (of_char c :: nat) \<le> 122"

definition is_ascii_alphabetic :: "char \<Rightarrow> bool" where
  "is_ascii_alphabetic c \<longleftrightarrow> is_ascii_upper c \<or> is_ascii_lower c"

definition is_ascii_digit :: "char \<Rightarrow> bool" where
  "is_ascii_digit c \<longleftrightarrow> 48 \<le> (of_char c :: nat) \<and> (of_char c :: nat) \<le> 57"

definition lower_char :: "char \<Rightarrow> char" where
  "lower_char c = (if is_ascii_upper c then char_of (of_char c + 32 :: nat) else c)"

definition upper_char :: "char \<Rightarrow> char" where
  "upper_char c = (if is_ascii_lower c then char_of (of_char c - 32 :: nat) else c)"

definition to_ascii_lowercase :: "string \<Rightarrow> string" where
  "to_ascii_lowercase s = map lower_char s"

definition to_ascii_uppercase :: "string \<Rightarrow> string" where
  "to_ascii_uppercase s = map upper_char s"

definition eq_ignore_ascii_case :: "string \<Rightarrow> string \<Rightarrow> bool" where
  "eq_ignore_ascii_case s t \<longleftrightarrow> to_ascii_lowercase s = to_ascii_lowercase t"

lemma of_char_lower_char:
  "(of_char (lower_char c) :: nat) = (if is_ascii_upper c then of_char c + 32 else of_char c)"
  by (auto simp: lower_char_def is_ascii_upper_def)

lemma of_char_upper_char:
  "(of_char (upper_char c) :: nat) = (if is_ascii_lower c then of_char c - 32 else of_char c)"
  by (auto simp: upper_char_def is_ascii_lower_def)

lemma lower_char_idem [simp]: "lower_char (lower_char c) = lower_char c"
  by (auto simp: lower_char_def [of "lower_char c"] is_ascii_upper_def of_char_lower_char)

lemma to_ascii_lowercase_idem [simp]: "to_ascii_lowercase (to_ascii_lowercase s) = to_ascii_lowercase s"
  by (simp add: to_ascii_lowercase_def)

lemma length_to_ascii_lowercase [simp]: "length (to_ascii_lowercase s) = length s"
  by (simp add: to_ascii_lowercase_def)

lemma length_to_ascii_uppercase [simp]: "length (to_ascii_uppercase s) = length s"
  by (simp add: to_ascii_uppercase_def)

lemma lower_char_eq_non_upper:
  "\<not> is_ascii_lower d \<Longrightarrow> \<not> is_ascii_upper d \<Longrightarrow> lower_char c = d \<longleftrightarrow> c = d"
proof -
  assume d: "\<not> is_ascii_lower d" "\<not> is_ascii_upper d"
  show "lower_char c = d \<longleftrightarrow> c = d"
  proof
    assume l: "lower_char c = d"
    show "c = d"
    proof (cases "is_ascii_upper c")
      case True
      then have "is_ascii_lower (lower_char c)"
        by (simp add: is_ascii_lower_def is_ascii_upper_def of_char_lower_char)
      with l d show ?thesis by simp
    next
      case False
      with l show ?thesis by (simp add: lower_char_def)
    qed
  qed (use d in \<open>simp add: lower_char_def\<close>)
qed

section \<open>Splitting, stripping, trimming\<close>

fun split_on :: "'a \<Rightarrow> 'a list \<Rightarrow> 'a list list" where
  "split_on c [] = [[]]"
| "split_on c (x # xs) =
     (if x = c then [] # split_on c xs
      else case split_on c xs of [] \<Rightarrow> [[x]] | s # ss \<Rightarrow> (x # s) # ss)"

fun split_once :: "'a \<Rightarrow> 'a list \<Rightarrow> ('a list \<times> 'a list) option" where
  "split_once c [] = None"
| "split_once c (x # xs) =
     (if x = c then Some ([], xs) else map_option (\<lambda>(a, b). (x # a, b)) (split_once c xs))"

fun strip_prefix :: "'a list \<Rightarrow> 'a list \<Rightarrow> 'a list option" where
  "strip_prefix [] xs = Some xs"
| "strip_prefix (p # ps) [] = None"
| "strip_prefix (p # ps) (x # xs) = (if p = x then strip_prefix ps xs else None)"

definition starts_with :: "'a list \<Rightarrow> 'a list \<Rightarrow> bool" where
  "starts_with xs p = prefix p xs"

definition ends_with :: "'a list \<Rightarrow> 'a list \<Rightarrow> bool" where
  "ends_with xs p = suffix p xs"

fun contains_sub :: "'a list \<Rightarrow> 'a list \<Rightarrow> bool" where
  "contains_sub p [] = (p = [])"
| "contains_sub p (x # xs) = (prefix p (x # xs) \<or> contains_sub p xs)"

text \<open>\<open>find\<close> and \<open>rfind\<close> of a character, as indices.\<close>

definition find_char :: "char \<Rightarrow> string \<Rightarrow> nat option" where
  "find_char c s = (if c \<in> set s then Some (length (takeWhile (\<lambda>x. x \<noteq> c) s)) else None)"

definition rfind_char :: "char \<Rightarrow> string \<Rightarrow> nat option" where
  "rfind_char c s =
     (if c \<in> set s then Some (length s - 1 - length (takeWhile (\<lambda>x. x \<noteq> c) (rev s))) else None)"

definition trim_start_char :: "'a \<Rightarrow> 'a list \<Rightarrow> 'a list" where
  "trim_start_char c xs = dropWhile (\<lambda>x. x = c) xs"

definition trim_end_char :: "'a \<Rightarrow> 'a list \<Rightarrow> 'a list" where
  "trim_end_char c xs = rev (dropWhile (\<lambda>x. x = c) (rev xs))"

definition replace_char :: "'a \<Rightarrow> 'a \<Rightarrow> 'a list \<Rightarrow> 'a list" where
  "replace_char a b xs = map (\<lambda>x. if x = a then b else x) xs"

definition is_cont_char :: "char \<Rightarrow> bool" where
  "is_cont_char c \<longleftrightarrow> 128 \<le> (of_char c :: nat) \<and> (of_char c :: nat) < 192"

text \<open>
  \<open>str::replace\<close>: non-overlapping matches from the left; an empty pattern matches before
  every character and at the end.
\<close>

function replace_sub :: "string \<Rightarrow> string \<Rightarrow> string \<Rightarrow> string" where
  "replace_sub pat new [] = (if pat = [] then new else [])"
| "replace_sub pat new (x # xs) =
     (if pat = [] then (if is_cont_char x then [] else new) @ x # replace_sub pat new xs
      else if prefix pat (x # xs) then new @ replace_sub pat new (drop (length pat) (x # xs))
      else x # replace_sub pat new xs)"
  by pat_completeness auto
termination
  by (relation "measure (\<lambda>(pat, new, xs). length xs)") auto

lemma split_on_not_Nil [simp]: "split_on c xs \<noteq> []"
  by (cases xs) (auto split: list.splits)

lemma split_on_no_sep: "c \<notin> set xs \<Longrightarrow> split_on c xs = [xs]"
  by (induction xs) auto

lemma split_on_append_sep:
  "c \<notin> set xs \<Longrightarrow> split_on c (xs @ c # ys) = xs # split_on c ys"
  by (induction xs) auto

lemma split_on_append: "split_on c (xs @ c # ys) = split_on c xs @ split_on c ys"
proof (induction xs)
  case (Cons x xs)
  obtain s ss where "split_on c xs = s # ss" by (cases "split_on c xs") auto
  with Cons show ?case by simp
qed simp

lemma split_on_segments: "seg \<in> set (split_on c xs) \<Longrightarrow> c \<notin> set seg"
proof (induction xs arbitrary: seg)
  case Nil
  then show ?case by simp
next
  case (Cons x xs)
  obtain s ss where ss: "split_on c xs = s # ss" by (cases "split_on c xs") auto
  with Cons show ?case by (auto split: if_splits)
qed

fun join_with :: "'a \<Rightarrow> 'a list list \<Rightarrow> 'a list" where
  "join_with c [] = []"
| "join_with c [s] = s"
| "join_with c (s # ss) = s @ c # join_with c ss"

lemma join_split [simp]: "join_with c (split_on c xs) = xs"
proof (induction xs)
  case Nil
  then show ?case by simp
next
  case (Cons x xs)
  obtain s ss where ss: "split_on c xs = s # ss" by (cases "split_on c xs") auto
  with Cons show ?case by (cases ss) auto
qed

lemma split_join: "ss \<noteq> [] \<Longrightarrow> \<forall>s \<in> set ss. c \<notin> set s \<Longrightarrow> split_on c (join_with c ss) = ss"
proof (induction c ss rule: join_with.induct)
  case (1 c)
  then show ?case by simp
next
  case (2 c s)
  then show ?case by (simp add: split_on_no_sep)
next
  case (3 c s s' ss)
  then show ?case by (simp add: split_on_append_sep)
qed

lemma join_with_inject:
  assumes "join_with c ss = join_with c ts" and "ss \<noteq> []" and "ts \<noteq> []"
    and "\<forall>s \<in> set ss. c \<notin> set s" and "\<forall>t \<in> set ts. c \<notin> set t"
  shows "ss = ts"
  using assms by (metis split_join)

lemma strip_prefix_Some: "strip_prefix p xs = Some r \<longleftrightarrow> xs = p @ r"
  by (induction p xs rule: strip_prefix.induct) auto

lemma strip_prefix_None: "strip_prefix p xs = None \<longleftrightarrow> \<not> prefix p xs"
  by (induction p xs rule: strip_prefix.induct) auto

lemma split_once_Some: "split_once c xs = Some (a, b) \<longleftrightarrow> c \<notin> set a \<and> xs = a @ c # b"
proof (induction xs arbitrary: a)
  case Nil
  then show ?case by simp
next
  case (Cons x xs)
  show ?case
  proof (cases "x = c")
    case True
    then show ?thesis by (cases a) auto
  next
    case False
    then show ?thesis using Cons by (cases a) (auto simp: split_paired_Ex)
  qed
qed

lemma split_once_None: "split_once c xs = None \<longleftrightarrow> c \<notin> set xs"
  by (induction xs) auto

lemma trim_end_char_no_end: "trim_end_char c xs = [] \<or> last (trim_end_char c xs) \<noteq> c"
proof (cases "trim_end_char c xs = []")
  case False
  then have "dropWhile (\<lambda>x. x = c) (rev xs) \<noteq> []" by (simp add: trim_end_char_def)
  then have "hd (dropWhile (\<lambda>x. x = c) (rev xs)) \<noteq> c" by (rule hd_dropWhile)
  then show ?thesis using False by (simp add: trim_end_char_def last_rev)
qed simp

lemma trim_end_char_id: "xs = [] \<or> last xs \<noteq> c \<Longrightarrow> trim_end_char c xs = xs"
  by (cases xs rule: rev_cases) (auto simp: trim_end_char_def)

section \<open>NUL-terminated concatenation\<close>

text \<open>
  Several keys are built by appending strings, each followed by a terminator byte. Such a
  concatenation determines the list when no string contains the terminator.
\<close>

lemma terminated_inject:
  assumes "concat (map (\<lambda>s. s @ [c]) ss) = concat (map (\<lambda>s. s @ [c]) ts)"
    and "\<forall>s \<in> set ss. c \<notin> set s" and "\<forall>t \<in> set ts. c \<notin> set t"
  shows "ss = ts"
  using assms
proof (induction ss arbitrary: ts)
  case Nil
  then show ?case by (cases ts) auto
next
  case (Cons s ss)
  then obtain t ts' where ts: "ts = t # ts'" by (cases ts) auto
  let ?f = "\<lambda>ss. concat (map (\<lambda>s. s @ [c]) ss)"
  have eq: "s @ c # ?f ss = t @ c # ?f ts'" using Cons.prems(1) ts by simp
  have "split_once c (s @ c # ?f ss) = Some (s, ?f ss)"
    using Cons.prems(2) by (simp add: split_once_Some)
  moreover have "split_once c (t @ c # ?f ts') = Some (t, ?f ts')"
    using Cons.prems(3) ts by (simp add: split_once_Some)
  ultimately have "Some (s, ?f ss) = Some (t, ?f ts')" using eq by metis
  then have "s = t" and "?f ss = ?f ts'" by simp_all
  moreover from this have "ss = ts'"
    using Cons.prems(2,3) ts by (intro Cons.IH) auto
  ultimately show ?case using ts by simp
qed

text \<open>
  \<open>s.trim().is_empty()\<close>: only characters with the Unicode property White\_Space, here as their
  UTF-8 byte sequences.
\<close>

definition white_seqs :: "string list" where
  "white_seqs =
     map (\<lambda>n. [char_of n]) [9, 10, 11, 12, 13, 32 :: nat]
     @ [[CHR 0xC2, CHR 0x85], [CHR 0xC2, CHR 0xA0], [CHR 0xE1, CHR 0x9A, CHR 0x80]]
     @ map (\<lambda>n. [CHR 0xE2, CHR 0x80, char_of n])
         [0x80, 0x81, 0x82, 0x83, 0x84, 0x85, 0x86, 0x87, 0x88, 0x89, 0x8A, 0xA8, 0xA9, 0xAF :: nat]
     @ [[CHR 0xE2, CHR 0x81, CHR 0x9F], [CHR 0xE3, CHR 0x80, CHR 0x80]]"

fun is_blank_fuel :: "nat \<Rightarrow> string \<Rightarrow> bool" where
  "is_blank_fuel n [] = True"
| "is_blank_fuel 0 s = False"
| "is_blank_fuel (Suc n) s =
     list_ex (\<lambda>w. case strip_prefix w s of None \<Rightarrow> False | Some r \<Rightarrow> is_blank_fuel n r) white_seqs"

definition is_blank :: "string \<Rightarrow> bool" where
  "is_blank s = is_blank_fuel (length s) s"

text \<open>\<open>str::trim\<close> on valid UTF-8, one white character at a time from each end.\<close>

fun trim_start_fuel :: "nat \<Rightarrow> string \<Rightarrow> string" where
  "trim_start_fuel 0 s = s"
| "trim_start_fuel (Suc n) s =
     (case find (\<lambda>w. starts_with s w) white_seqs of None \<Rightarrow> s | Some w \<Rightarrow> trim_start_fuel n (drop (length w) s))"

fun trim_end_fuel :: "nat \<Rightarrow> string \<Rightarrow> string" where
  "trim_end_fuel 0 s = s"
| "trim_end_fuel (Suc n) s =
     (case find (\<lambda>w. ends_with s w) white_seqs of None \<Rightarrow> s | Some w \<Rightarrow> trim_end_fuel n (take (length s - length w) s))"

definition str_trim :: "string \<Rightarrow> string" where
  "str_trim s = (let t = trim_start_fuel (length s) s in trim_end_fuel (length t) t)"

text \<open>Decimal rendering of an unsigned integer, as \<open>format!("{n}")\<close> prints it.\<close>

fun dec :: "nat \<Rightarrow> string" where
  "dec n = (if n < 10 then [char_of (48 + n)] else dec (n div 10) @ [char_of (48 + n mod 10)])"

declare dec.simps [simp del]

section \<open>Ordered maps\<close>

type_synonym ('k, 'v) btree = "('k \<times> 'v) list"

definition bt_inv :: "('k :: linorder, 'v) btree \<Rightarrow> bool" where
  "bt_inv m \<longleftrightarrow> sorted (map fst m) \<and> distinct (map fst m)"

fun bt_upsert :: "'k :: linorder \<Rightarrow> 'v \<Rightarrow> ('v \<Rightarrow> 'v) \<Rightarrow> ('k, 'v) btree \<Rightarrow> ('k, 'v) btree" where
  "bt_upsert k d f [] = [(k, f d)]"
| "bt_upsert k d f ((a, v) # m) =
     (if k < a then (k, f d) # (a, v) # m
      else if k = a then (a, f v) # m
      else (a, v) # bt_upsert k d f m)"

definition bt_insert :: "'k :: linorder \<Rightarrow> 'v \<Rightarrow> ('k, 'v) btree \<Rightarrow> ('k, 'v) btree" where
  "bt_insert k v = bt_upsert k v (\<lambda>_. v)"

definition bt_remove :: "'k \<Rightarrow> ('k, 'v) btree \<Rightarrow> ('k, 'v) btree" where
  "bt_remove k m = filter (\<lambda>kv. fst kv \<noteq> k) m"

definition bt_values :: "('k, 'v) btree \<Rightarrow> 'v list" where
  "bt_values m = map snd m"

text \<open>
  What the clients of a map rely on: \<open>entry(k).or_insert(d)\<close> followed by an update, and
  \<open>remove\<close>. The lemmas say which keys a fold of updates leaves in the map.
\<close>

locale entry_map =
  fixes look :: "'m \<Rightarrow> 'k \<Rightarrow> 'v option"
    and upsert :: "'k \<Rightarrow> 'v \<Rightarrow> ('v \<Rightarrow> 'v) \<Rightarrow> 'm \<Rightarrow> 'm"
    and remove :: "'k \<Rightarrow> 'm \<Rightarrow> 'm"
    and inv :: "'m \<Rightarrow> bool"
  assumes look_upsert: "inv m \<Longrightarrow>
      look (upsert k d f m) = (look m)(k \<mapsto> f (case look m k of None \<Rightarrow> d | Some v \<Rightarrow> v))"
    and look_remove: "inv m \<Longrightarrow> look (remove k m) = (look m)(k := None)"
    and inv_upsert: "inv m \<Longrightarrow> inv (upsert k d f m)"
    and inv_remove: "inv m \<Longrightarrow> inv (remove k m)"
begin

lemma dom_upsert: "inv m \<Longrightarrow> dom (look (upsert k d f m)) = insert k (dom (look m))"
  by (auto simp: look_upsert)

lemma dom_remove: "inv m \<Longrightarrow> dom (look (remove k m)) = dom (look m) - {k}"
  by (auto simp: look_remove)

lemma inv_fold_upsert: "inv m \<Longrightarrow> inv (fold (\<lambda>x. upsert (key x) (dflt x) (upd x)) xs m)"
  by (induction xs arbitrary: m) (auto simp: inv_upsert)

lemma dom_fold_upsert:
  "inv m \<Longrightarrow> dom (look (fold (\<lambda>x. upsert (key x) (dflt x) (upd x)) xs m)) = key ` set xs \<union> dom (look m)"
  by (induction xs arbitrary: m) (auto simp: inv_upsert dom_upsert)

end

lemma bt_keys_upsert: "set (map fst (bt_upsert k d f m)) = insert k (set (map fst m))"
  by (induction k d f m rule: bt_upsert.induct) (simp_all add: insert_commute)

lemma bt_inv_upsert: "bt_inv m \<Longrightarrow> bt_inv (bt_upsert k d f m)"
proof (induction m)
  case Nil
  then show ?case by (simp add: bt_inv_def)
next
  case (Cons av m)
  obtain a v where av: "av = (a, v)" by (cases av)
  have IH: "bt_inv (bt_upsert k d f m)" using Cons by (simp add: bt_inv_def)
  have "\<forall>x \<in> set (map fst m). a < x"
    using Cons.prems by (auto simp: bt_inv_def av order.strict_iff_order)
  then have "\<forall>x \<in> set (map fst (bt_upsert k d f m)). a < x" if "a < k"
    using that unfolding bt_keys_upsert by auto
  then have "a \<notin> fst ` set (bt_upsert k d f m) \<and> (\<forall>x \<in> set (bt_upsert k d f m). a \<le> fst x)" if "a < k"
    using that by force
  then show ?case using Cons.prems IH
    by (auto simp: bt_inv_def av not_less order.strict_iff_order)
qed

lemma bt_look_upsert:
  "bt_inv m \<Longrightarrow> map_of (bt_upsert k d f m) =
     (map_of m)(k \<mapsto> f (case map_of m k of None \<Rightarrow> d | Some v \<Rightarrow> v))"
proof (induction m)
  case Nil
  then show ?case by simp
next
  case (Cons av m)
  obtain a v where av: "av = (a, v)" by (cases av)
  have "bt_inv m" using Cons.prems by (simp add: bt_inv_def)
  then have IH: "map_of (bt_upsert k d f m) =
      (map_of m)(k \<mapsto> f (case map_of m k of None \<Rightarrow> d | Some v \<Rightarrow> v))"
    by (rule Cons.IH)
  have "map_of m k = None" if "k < a"
    using Cons.prems that by (auto simp: bt_inv_def av map_of_eq_None_iff)
  then show ?case using IH by (auto simp: av fun_eq_iff)
qed

lemma bt_look_remove: "map_of (bt_remove k m) = (map_of m)(k := None)"
  by (induction m) (auto simp: bt_remove_def fun_eq_iff)

lemma bt_inv_remove: "bt_inv m \<Longrightarrow> bt_inv (bt_remove k m)"
  by (auto simp: bt_inv_def bt_remove_def distinct_map_filter sorted_filter)

lemma bt_inv_Nil [simp]: "bt_inv []"
  by (simp add: bt_inv_def)

interpretation bt: entry_map map_of bt_upsert bt_remove bt_inv
  by unfold_locales (simp_all add: bt_look_upsert bt_look_remove bt_inv_upsert bt_inv_remove)

lemma bt_lookup_values: "bt_inv m \<Longrightarrow> v \<in> set (bt_values m) \<longleftrightarrow> (\<exists>k. map_of m k = Some v)"
  by (auto simp: bt_inv_def bt_values_def map_of_eq_Some_iff) (metis eq_snd_iff image_iff)

end
