(* ===== verification/Determinism.thy ===== *)
theory Determinism
  imports Rust_Str
begin

text \<open>
  The determinism harness, \<open>src/crates/tracer/src/determinism.rs\<close>: the hand-written
  SHA-256 that keys the action cache's inputs, the masking of documented
  non-deterministic regions of COFF objects and PE images, the hybrid comparison and
  the mapping of paths to build-root-relative logical paths. Byte buffers that the code
  mutates in place are passed and returned; a loop over a buffer position is a function
  with the remaining length as its measure.
\<close>

unbundle bit_operations_syntax

section \<open>SHA-256\<close>

definition SHA256_K :: "u32 list" where
  "SHA256_K =
    [0x428a2f98, 0x71374491, 0xb5c0fbcf, 0xe9b5dba5, 0x3956c25b, 0x59f111f1, 0x923f82a4, 0xab1c5ed5] @
    [0xd807aa98, 0x12835b01, 0x243185be, 0x550c7dc3, 0x72be5d74, 0x80deb1fe, 0x9bdc06a7, 0xc19bf174] @
    [0xe49b69c1, 0xefbe4786, 0x0fc19dc6, 0x240ca1cc, 0x2de92c6f, 0x4a7484aa, 0x5cb0a9dc, 0x76f988da] @
    [0x983e5152, 0xa831c66d, 0xb00327c8, 0xbf597fc7, 0xc6e00bf3, 0xd5a79147, 0x06ca6351, 0x14292967] @
    [0x27b70a85, 0x2e1b2138, 0x4d2c6dfc, 0x53380d13, 0x650a7354, 0x766a0abb, 0x81c2c92e, 0x92722c85] @
    [0xa2bfe8a1, 0xa81a664b, 0xc24b8b70, 0xc76c51a3, 0xd192e819, 0xd6990624, 0xf40e3585, 0x106aa070] @
    [0x19a4c116, 0x1e376c08, 0x2748774c, 0x34b0bcb5, 0x391c0cb3, 0x4ed8aa4a, 0x5b9cca4f, 0x682e6ff3] @
    [0x748f82ee, 0x78a5636f, 0x84c87814, 0x8cc70208, 0x90befffa, 0xa4506ceb, 0xbef9a3f7, 0xc67178f2]"

definition SHA256_H0 :: "u32 list" where
  "SHA256_H0 =
    [0x6a09e667, 0xbb67ae85, 0x3c6ef372, 0xa54ff53a, 0x510e527f, 0x9b05688c, 0x1f83d9ab, 0x5be0cd19]"

definition rotate_right :: "u32 \<Rightarrow> nat \<Rightarrow> u32" where
  "rotate_right w n = drop_bit n w OR push_bit (32 - n) w"

definition u64_to_be :: "u64 \<Rightarrow> bytes" where "u64_to_be w = rev (u64_to_le w)"
definition u32_to_be :: "u32 \<Rightarrow> bytes" where "u32_to_be w = rev (u32_to_le w)"
definition u32_from_be :: "bytes \<Rightarrow> u32" where "u32_from_be bs = u32_from_le (rev bs)"

lemma pad56_step:
  assumes "l mod 64 \<noteq> (56 :: nat)"
  shows "(120 - Suc l mod 64) mod 64 < (120 - l mod 64) mod 64"
proof -
  define r where "r = l mod 64"
  have r: "r < 64" "r \<noteq> 56" using assms by (simp_all add: r_def)
  have suc: "Suc l mod 64 = (if r = 63 then 0 else Suc r)" by (simp add: r_def mod_Suc)
  have below: "(120 - x) mod 64 = (if x \<le> 56 then 56 - x else 120 - x)" if "x < (64 :: nat)" for x
  proof (cases "x \<le> 56")
    case True
    then have eq: "120 - x = (56 - x) + 64" by simp
    show ?thesis unfolding eq mod_add_self2 using True by simp
  next
    case False
    then show ?thesis using that by simp
  qed
  show ?thesis unfolding r_def[symmetric] suc using r below [of r] below [of "Suc r"] by auto
qed

function pad56 :: "bytes \<Rightarrow> bytes" where
  "pad56 msg = (if length msg mod 64 \<noteq> 56 then pad56 (msg @ [0]) else msg)"
  by pat_completeness auto
termination
  by (relation "measure (\<lambda>m. (120 - length m mod 64) mod 64)") (simp_all add: pad56_step)

declare pad56.simps [simp del]

definition sha256_message :: "bytes \<Rightarrow> bytes" where
  "sha256_message data =
     (let bit_len = word_of_nat (length data) * (8 :: u64) in pad56 (data @ [0x80]) @ u64_to_be bit_len)"

fun chunks_exact :: "nat \<Rightarrow> 'a list \<Rightarrow> 'a list list" where
  "chunks_exact n xs =
     (if n = 0 \<or> length xs < n then [] else take n xs # chunks_exact n (drop n xs))"

declare chunks_exact.simps [simp del]

definition sha_schedule_step :: "nat \<Rightarrow> u32 list \<Rightarrow> u32 list" where
  "sha_schedule_step i w =
     (let x = w ! (i - 15); s0 = rotate_right x 7 XOR rotate_right x 18 XOR drop_bit 3 x;
          y = w ! (i - 2); s1 = rotate_right y 17 XOR rotate_right y 19 XOR drop_bit 10 y
      in w[i := w ! (i - 16) + s0 + w ! (i - 7) + s1])"

definition sha_schedule :: "bytes \<Rightarrow> u32 list" where
  "sha_schedule chunk =
     fold sha_schedule_step [16..<64] (map u32_from_be (chunks_exact 4 chunk) @ replicate 48 0)"

type_synonym sha_regs = "u32 \<times> u32 \<times> u32 \<times> u32 \<times> u32 \<times> u32 \<times> u32 \<times> u32"

definition sha_round :: "u32 list \<Rightarrow> nat \<Rightarrow> sha_regs \<Rightarrow> sha_regs" where
  "sha_round w i = (\<lambda>(a, b, c, d, e, f, g, hh).
     let s1 = rotate_right e 6 XOR rotate_right e 11 XOR rotate_right e 25;
         ch = (e AND f) XOR (NOT e AND g);
         t1 = hh + s1 + ch + SHA256_K ! i + w ! i;
         s0 = rotate_right a 2 XOR rotate_right a 13 XOR rotate_right a 22;
         maj = (a AND b) XOR (a AND c) XOR (b AND c);
         t2 = s0 + maj
     in (t1 + t2, a, b, c, d + t1, e, f, g))"

definition sha_compress :: "u32 list \<Rightarrow> bytes \<Rightarrow> u32 list" where
  "sha_compress h chunk =
     (let w = sha_schedule chunk;
          (a, b, c, d, e, f, g, hh) =
            fold (sha_round w) [0..<64] (h ! 0, h ! 1, h ! 2, h ! 3, h ! 4, h ! 5, h ! 6, h ! 7)
      in [h ! 0 + a, h ! 1 + b, h ! 2 + c, h ! 3 + d, h ! 4 + e, h ! 5 + f, h ! 6 + g, h ! 7 + hh])"

definition sha256 :: "bytes \<Rightarrow> bytes" where
  "sha256 data =
     concat (map u32_to_be (fold (\<lambda>chunk h. sha_compress h chunk) (chunks_exact 64 (sha256_message data)) SHA256_H0))"

definition HEX :: string where "HEX = ''0123456789abcdef''"

definition hex_byte :: "u8 \<Rightarrow> string" where
  "hex_byte b = [HEX ! unat (drop_bit 4 b), HEX ! unat (b AND 0xf)]"

definition hex_of :: "bytes \<Rightarrow> string" where
  "hex_of bs = concat (map hex_byte bs)"

definition sha256_hex :: "bytes \<Rightarrow> string" where
  "sha256_hex data = hex_of (sha256 data)"

section \<open>Masking\<close>

definition REASON_COFF_TIMESTAMP :: string where "REASON_COFF_TIMESTAMP = ''coff-timestamp''"
definition REASON_PE_TIMESTAMP :: string where "REASON_PE_TIMESTAMP = ''pe-timestamp''"
definition REASON_PE_RICH_HEADER :: string where "REASON_PE_RICH_HEADER = ''pe-rich-header''"
definition REASON_COFF_OBJNAME :: string where "REASON_COFF_OBJNAME = ''coff-objname''"

record normalized =
  nz_bytes :: bytes
  nz_reasons :: "string list"

definition read_u16 :: "bytes \<Rightarrow> nat \<Rightarrow> u16 option" where
  "read_u16 b off = map_option u16_from_le (get_range b off (off + 2))"

definition read_u32 :: "bytes \<Rightarrow> nat \<Rightarrow> u32 option" where
  "read_u32 b off = map_option u32_from_le (get_range b off (off + 4))"

text \<open>\<open>s.fill(0)\<close> on the range \<open>[from, to)\<close> of a buffer.\<close>

definition zero_range :: "bytes \<Rightarrow> nat \<Rightarrow> nat \<Rightarrow> bytes" where
  "zero_range b from to = take from b @ replicate (to - from) 0 @ drop to b"

definition zero_u32 :: "bytes \<Rightarrow> nat \<Rightarrow> bool \<times> bytes" where
  "zero_u32 b off =
     (if off + 4 \<le> length b then (True, zero_range b off (off + 4)) else (False, b))"

definition is_known_machine :: "u16 \<Rightarrow> bool" where
  "is_known_machine m \<longleftrightarrow> m = 0x8664 \<or> m = 0x014c \<or> m = 0xAA64 \<or> m = 0x01c4 \<or> m = 0x0200"

definition coff_timestamp_offset :: "bytes \<Rightarrow> nat option" where
  "coff_timestamp_offset b =
     (case read_u16 b 0 of
        None \<Rightarrow> None
      | Some machine \<Rightarrow>
          (case read_u16 b 2 of
             None \<Rightarrow> None
           | Some second \<Rightarrow>
               if machine = 0x0000 \<and> second = 0xFFFF then Some 8
               else if is_known_machine machine then Some 4
               else None))"

definition CV_SIGNATURE_C13 :: u32 where "CV_SIGNATURE_C13 = 4"
definition DEBUG_S_SYMBOLS :: u32 where "DEBUG_S_SYMBOLS = 0xF1"
definition S_OBJNAME :: u16 where "S_OBJNAME = 0x1101"

function mask_symbol_records :: "bytes \<Rightarrow> nat \<Rightarrow> nat \<Rightarrow> bool \<Rightarrow> bool \<times> bytes" where
  "mask_symbol_records b rpos end masked =
     (if rpos + 4 \<le> end then
        case (read_u16 b rpos, read_u16 b (rpos + 2)) of
          (Some reclen_w, Some rectype) \<Rightarrow>
            let reclen = unat reclen_w in
            if reclen < 2 then (masked, b)
            else let rec_end = rpos + 2 + reclen in
              if rec_end > end then (masked, b)
              else if rectype = S_OBJNAME
                then mask_symbol_records (zero_range b (rpos + 4) rec_end) rec_end end True
                else mask_symbol_records b rec_end end masked
        | _ \<Rightarrow> (masked, b)
      else (masked, b))"
  by pat_completeness auto
termination
  by (relation "measure (\<lambda>(b, rpos, end, masked). end - rpos)") auto

declare mask_symbol_records.simps [simp del]

function mask_subsections :: "bytes \<Rightarrow> nat \<Rightarrow> nat \<Rightarrow> bool \<Rightarrow> bool \<times> bytes" where
  "mask_subsections b pos end masked =
     (if pos + 8 \<le> end then
        case (read_u32 b pos, read_u32 b (pos + 4)) of
          (Some kind, Some len_w) \<Rightarrow>
            let len = unat len_w; data_start = pos + 8 in
            (case checked_add_usize data_start len of
               None \<Rightarrow> (masked, b)
             | Some data_end \<Rightarrow>
                 if data_end > end then (masked, b)
                 else let (m, b') = (if kind = DEBUG_S_SYMBOLS
                                     then mask_symbol_records b data_start data_end False
                                     else (False, b))
                      in mask_subsections b' (data_start + (len + 3) div 4 * 4) end (masked \<or> m))
        | _ \<Rightarrow> (masked, b)
      else (masked, b))"
  by pat_completeness auto
termination
  by (relation "measure (\<lambda>(b, pos, end, masked). end - pos)") auto

declare mask_subsections.simps [simp del]

definition mask_debug_s_symbols :: "bytes \<Rightarrow> nat \<Rightarrow> nat \<Rightarrow> bool \<times> bytes" where
  "mask_debug_s_symbols b ptr sz =
     (case checked_add_usize ptr sz of
        None \<Rightarrow> (False, b)
      | Some end \<Rightarrow>
          if end > length b then (False, b)
          else if sz < 4 \<or> read_u32 b ptr \<noteq> Some CV_SIGNATURE_C13 then (False, b)
          else mask_subsections b (ptr + 4) end False)"

fun mask_sections :: "bytes \<Rightarrow> nat \<Rightarrow> nat list \<Rightarrow> bool \<Rightarrow> bool \<times> bytes" where
  "mask_sections b sec_table [] masked = (masked, b)"
| "mask_sections b sec_table (i # is) masked =
     (let sh = sec_table + i * 40 in
      if sh + 40 > length b then (masked, b)
      else if take 8 (drop sh b) \<noteq> as_bytes ''.debug$S'' then mask_sections b sec_table is masked
      else case (read_u32 b (sh + 16), read_u32 b (sh + 20)) of
        (Some raw_size, Some raw_ptr) \<Rightarrow>
          let (m, b') = mask_debug_s_symbols b (unat raw_ptr) (unat raw_size)
          in mask_sections b' sec_table is (masked \<or> m)
      | _ \<Rightarrow> mask_sections b sec_table is masked)"

definition mask_coff_objname :: "bytes \<Rightarrow> string list \<Rightarrow> bytes \<times> string list" where
  "mask_coff_objname b reasons =
     (case (read_u16 b 2, read_u16 b 16) of
        (Some num_sections, Some opt_size) \<Rightarrow>
          let (masked, b') = mask_sections b (20 + unat opt_size) [0..<unat num_sections] False
          in (b', if masked then reasons @ [REASON_COFF_OBJNAME] else reasons)
      | _ \<Rightarrow> (b, reasons))"

fun find_last_rich :: "bytes \<Rightarrow> nat list \<Rightarrow> nat option \<Rightarrow> nat option" where
  "find_last_rich b [] found = found"
| "find_last_rich b (i # is) found =
     find_last_rich b is (if take 4 (drop i b) = as_bytes ''Rich'' then Some i else found)"

fun find_dans :: "bytes \<Rightarrow> u32 \<Rightarrow> nat \<Rightarrow> nat \<Rightarrow> nat option" where
  "find_dans b enc rich p =
     (if p \<ge> 4 then
        let p' = p - 4 in
        if read_u32 b p' = Some enc then Some p'
        else if rich - p' > 0x400 then None
        else find_dans b enc rich p'
      else None)"

declare find_dans.simps [simp del]

definition mask_rich_header :: "bytes \<Rightarrow> nat \<Rightarrow> string list \<Rightarrow> bytes \<times> string list" where
  "mask_rich_header b e_lfanew reasons =
     (let area = min e_lfanew (length b) in
      case find_last_rich b [0..<area - 3] None of
        None \<Rightarrow> (b, reasons)
      | Some rich \<Rightarrow>
          (case read_u32 b (rich + 4) of
             None \<Rightarrow> (b, reasons)
           | Some key \<Rightarrow>
               (case find_dans b (0x536e6144 XOR key) rich rich of
                  None \<Rightarrow> (b, reasons)
                | Some s \<Rightarrow>
                    (zero_range b s (min (rich + 8) (length b)), reasons @ [REASON_PE_RICH_HEADER]))))"

definition normalize_pe :: "bytes \<Rightarrow> string list \<Rightarrow> bytes \<times> string list" where
  "normalize_pe b reasons =
     (case read_u32 b 0x3c of
        None \<Rightarrow> (b, reasons)
      | Some v \<Rightarrow>
          let e_lfanew = unat v in
          if get_range b e_lfanew (e_lfanew + 4) \<noteq> Some [0x50, 0x45, 0, 0] then (b, reasons)
          else let (done, b') = zero_u32 b (e_lfanew + 4 + 4)
               in mask_rich_header b' e_lfanew (if done then reasons @ [REASON_PE_TIMESTAMP] else reasons))"

definition normalize :: "bytes \<Rightarrow> normalized" where
  "normalize input =
     (let (bytes, reasons) =
        (if starts_with input (as_bytes ''MZ'') then normalize_pe input []
         else case coff_timestamp_offset input of
           None \<Rightarrow> (input, [])
         | Some off \<Rightarrow>
             let (done, b) = zero_u32 input off;
                 rs = (if done then [REASON_COFF_TIMESTAMP] else [])
             in if off = 4 then mask_coff_objname b rs else (b, rs))
      in \<lparr>nz_bytes = bytes, nz_reasons = remdups_adj (sort reasons)\<rparr>)"

section \<open>Comparison and logical paths\<close>

datatype verdict = Identical | NormalizedEqual "string list" | Differs

definition add_reason :: "string \<Rightarrow> string list \<Rightarrow> string list" where
  "add_reason r rs = (if r \<in> set rs then rs else rs @ [r])"

definition compare_artifacts :: "bytes \<Rightarrow> bytes \<Rightarrow> verdict" where
  "compare_artifacts a b =
     (if a = b then Identical
      else let na = normalize a; nb = normalize b in
        if nz_bytes na = nz_bytes nb
        then NormalizedEqual (remdups_adj (sort
               (fold add_reason (nz_reasons nb) (nz_reasons na))))
        else Differs)"

definition relativize :: "string \<Rightarrow> string \<Rightarrow> string" where
  "relativize path workroot =
     (let w = trim_end_char bsl workroot in
      if w = [] then path
      else case strip_prefix w path of
        None \<Rightarrow> path
      | Some rest \<Rightarrow>
          (case strip_prefix [bsl] rest of
             None \<Rightarrow> path
           | Some tail \<Rightarrow> if tail = [] then path else trim_start_char bsl tail))"

section \<open>Padding\<close>

lemma pad56_form:
  "length (pad56 msg) mod 64 = 56 \<and> (\<exists>k < 64. pad56 msg = msg @ replicate k 0)"
proof -
  have "length (pad56 msg) mod 64 = 56 \<and>
        (\<exists>k \<le> (120 - length msg mod 64) mod 64. pad56 msg = msg @ replicate k 0)"
  proof (induction msg rule: pad56.induct)
    case (1 msg)
    show ?case
    proof (cases "length msg mod 64 = 56")
      case True
      then show ?thesis by (simp add: pad56.simps [of msg])
    next
      case False
      from 1 [OF False] obtain k where
        k: "k \<le> (120 - Suc (length msg) mod 64) mod 64" "pad56 (msg @ [0]) = (msg @ [0]) @ replicate k 0"
        and l: "length (pad56 (msg @ [0])) mod 64 = 56" by auto
      have "pad56 msg = msg @ replicate (Suc k) 0" using False k by (simp add: pad56.simps [of msg])
      moreover have "Suc k \<le> (120 - length msg mod 64) mod 64" using k pad56_step [OF False] by simp
      ultimately show ?thesis using l False by (metis pad56.simps)
    qed
  qed
  moreover have "(120 - length msg mod 64) mod 64 < 64" by simp
  ultimately show ?thesis by (meson le_less_trans)
qed

lemma length_u64_to_be [simp]: "length (u64_to_be w) = 8"
  by (simp add: u64_to_be_def)

lemma u64_to_be_inj: "u64_to_be v = u64_to_be w \<Longrightarrow> v = w"
  by (metis u64_to_be_def rev_rev_ident u64_from_to_le)

lemma bit_len_inj:
  assumes "m < 2 ^ 61" "n < 2 ^ 61" "word_of_nat m * (8 :: u64) = word_of_nat n * 8"
  shows "m = n"
proof -
  have "unat (word_of_nat k * (8 :: u64)) = k * 8" if "k < 2 ^ 61" for k
  proof -
    have "word_of_nat k * (8 :: u64) = word_of_nat (k * 8)" by simp
    then show ?thesis using that by (simp only: unat_of_nat) simp
  qed
  then show ?thesis using assms by (metis mult_cancel2 zero_neq_numeral)
qed

lemma sha256_message_blocks: "length (sha256_message data) mod 64 = 0"
proof -
  have "length (pad56 (data @ [0x80])) mod 64 = 56" using pad56_form by blast
  then have "(length (pad56 (data @ [0x80])) + 8) mod 64 = 0" by presburger
  then show ?thesis by (simp add: sha256_message_def)
qed

lemma sha256_message_inject:
  assumes "length a < 2 ^ 61" "length b < 2 ^ 61" "sha256_message a = sha256_message b"
  shows "a = b"
proof -
  obtain j k where form: "pad56 (a @ [0x80]) = (a @ [0x80]) @ replicate j 0"
      "pad56 (b @ [0x80]) = (b @ [0x80]) @ replicate k 0"
    using pad56_form by blast
  have parts: "pad56 (a @ [0x80]) = pad56 (b @ [0x80])"
    "u64_to_be (word_of_nat (length a) * 8) = u64_to_be (word_of_nat (length b) * 8)"
    using assms(3) by (simp_all add: sha256_message_def)
  then have len: "length a = length b"
    using assms(1,2) bit_len_inj u64_to_be_inj by blast
  have "take (length a) (pad56 (a @ [0x80])) = a" "take (length b) (pad56 (b @ [0x80])) = b"
    unfolding form by simp_all
  then show ?thesis using parts(1) len by metis
qed

text \<open>
  The message that SHA-256 compresses is a whole number of 64-byte blocks, and the
  padding is injective: two inputs shorter than \<open>2 ^ 61\<close> bytes are compressed as the same
  blocks only when they are the same input, so \<open>chunks_exact\<close> drops nothing and the
  appended wrapping bit length never confuses two inputs.
\<close>
theorem sha256_padding_injective:
  assumes "length a < 2 ^ 61" and "length b < 2 ^ 61"
  shows "length (sha256_message a) mod 64 = 0
    \<and> (sha256_message a = sha256_message b \<longleftrightarrow> a = b)"
  using sha256_message_inject [OF assms] by (auto simp: sha256_message_blocks)

theorem sha256_padding_injective_witness:
  "length (sha256_message [1]) mod 64 = 0 \<and> (sha256_message [1] = sha256_message [1, 0] \<longleftrightarrow> [1] = [1, 0 :: u8])"
  by (rule sha256_padding_injective) simp_all

section \<open>Hexadecimal rendering\<close>

lemma length_hex_of [simp]: "length (hex_of bs) = 2 * length bs"
  by (induction bs) (simp_all add: hex_of_def hex_byte_def)

lemma hex_byte_chars: "set (hex_byte b) \<subseteq> set HEX"
proof -
  have "unat (drop_bit 4 b) < 16"
    using unat_u8_less [of b] by (simp add: drop_bit_eq_div unat_div div_less_iff_less_mult)
  moreover have "unat (b AND 0xf) < 16"
    using word_and_le1 [of b "0xf"] by (simp add: word_le_nat_alt)
  moreover have "length HEX = 16" by (simp add: HEX_def)
  ultimately show ?thesis by (auto simp: hex_byte_def)
qed

lemma hex_of_chars: "c \<in> set (hex_of bs) \<Longrightarrow> c \<in> set HEX"
  using hex_byte_chars by (fastforce simp: hex_of_def)

lemma hex_byte_inj: "hex_byte a = hex_byte b \<Longrightarrow> a = b"
proof -
  have ext: "distinct HEX" "length HEX = 16" by (simp_all add: HEX_def)
  have hi: "unat (drop_bit 4 x) < 16" and lo: "unat (x AND 0xf) < 16" for x :: u8
    using unat_u8_less [of x] word_and_le1 [of x "0xf"]
    by (simp_all add: drop_bit_eq_div unat_div div_less_iff_less_mult word_le_nat_alt)
  assume "hex_byte a = hex_byte b"
  then have "drop_bit 4 a = drop_bit 4 b" "a AND 0xf = b AND 0xf"
    using ext hi lo by (simp_all add: hex_byte_def nth_eq_iff_index_eq word_eq_iff_unsigned [where ?'a = nat])
  moreover have "x = push_bit 4 (drop_bit 4 x) OR (x AND mask 4)" for x :: u8
    by (rule bit_eqI) (auto simp: bit_simps)
  moreover have "(mask 4 :: u8) = 0xf" by (simp add: mask_eq_exp_minus_1)
  ultimately show "a = b" by metis
qed

lemma hex_of_inj: "hex_of as = hex_of bs \<Longrightarrow> as = bs"
proof (induction "as" arbitrary: bs)
  case Nil
  then show ?case by (cases bs) (auto simp: hex_of_def hex_byte_def)
next
  case (Cons a "as")
  then obtain b bs' where bs: "bs = b # bs'" by (cases bs) (auto simp: hex_of_def hex_byte_def)
  have "hex_byte a = hex_byte b \<and> hex_of as = hex_of bs'"
    using Cons.prems by (simp add: bs hex_of_def hex_byte_def)
  then show ?case using Cons.IH hex_byte_inj bs by blast
qed

section \<open>What masking may change\<close>

text \<open>
  \<open>masks b b'\<close>: \<open>b'\<close> is \<open>b\<close> with some bytes overwritten by zero, in place. Every masking
  operation stays within this relation, and one that reports no work returns its buffer.
\<close>

definition masks :: "bytes \<Rightarrow> bytes \<Rightarrow> bool" where
  "masks b b' \<longleftrightarrow> list_all2 (\<lambda>x y. y = x \<or> y = 0) b b'"

definition masks_if :: "bool \<Rightarrow> bytes \<Rightarrow> bytes \<Rightarrow> bool" where
  "masks_if m b b' \<longleftrightarrow> masks b b' \<and> (\<not> m \<longrightarrow> b' = b)"

lemma masks_refl [simp]: "masks b b"
  by (simp add: masks_def list_all2_refl)

lemma masks_trans: "masks a b \<Longrightarrow> masks b c \<Longrightarrow> masks a c"
  unfolding masks_def by (rule list_all2_trans) auto

lemma masks_length: "masks b b' \<Longrightarrow> length b' = length b"
  by (simp add: masks_def list_all2_lengthD)

lemma masks_nth: "masks b b' \<Longrightarrow> i < length b \<Longrightarrow> b' ! i = b ! i \<or> b' ! i = 0"
  unfolding masks_def by (drule list_all2_nthD) auto

lemma masks_if_refl [simp]: "masks_if m b b"
  by (simp add: masks_if_def)

lemma masks_if_True [simp]: "masks_if True b b' \<longleftrightarrow> masks b b'"
  by (simp add: masks_if_def)

lemma masks_if_masks: "masks_if m b b' \<Longrightarrow> masks b b'"
  by (simp add: masks_if_def)

lemma masks_if_trans: "masks_if m a b \<Longrightarrow> masks_if n b c \<Longrightarrow> masks_if (m \<or> n) a c"
  using masks_trans by (auto simp: masks_if_def)

lemma masks_zero_range:
  assumes "from \<le> to" "to \<le> length b"
  shows "masks b (zero_range b from to)"
proof -
  have "b = take from b @ take (to - from) (drop from b) @ drop to b"
    using assms by (metis append_take_drop_id drop_drop le_add_diff_inverse2)
  moreover have "masks (take from b @ take (to - from) (drop from b) @ drop to b) (zero_range b from to)"
    unfolding masks_def zero_range_def
    using assms by (intro list_all2_appendI) (auto simp: list_all2_refl list_all2_conv_all_nth)
  ultimately show ?thesis by simp
qed

lemma zero_u32_masks: "zero_u32 b off = (m, b') \<Longrightarrow> masks_if m b b'"
  by (auto simp: zero_u32_def masks_zero_range split: if_splits)

lemma mask_symbol_records_masks:
  "mask_symbol_records b rpos end masked = (m, b') \<Longrightarrow> end \<le> length b \<Longrightarrow>
   masks_if m b b' \<and> (masked \<longrightarrow> m)"
proof (induction b rpos "end" masked rule: mask_symbol_records.induct)
  case (1 b rpos "end" masked)
  show ?case
  proof (cases "\<exists>l t. rpos + 4 \<le> end \<and> read_u16 b rpos = Some l \<and> read_u16 b (rpos + 2) = Some t
                   \<and> \<not> unat l < 2 \<and> \<not> rpos + 2 + unat l > end")
    case False
    then have "(m, b') = (masked, b)"
      using 1(3) by (auto simp: mask_symbol_records.simps [of b] Let_def split: if_splits option.splits)
    then show ?thesis by simp
  next
    case True
    then obtain l t where c: "rpos + 4 \<le> end" "read_u16 b rpos = Some l" "read_u16 b (rpos + 2) = Some t"
      "\<not> unat l < 2" "\<not> rpos + 2 + unat l > end" by blast
    show ?thesis
    proof (cases "t = S_OBJNAME")
      case True
      let ?z = "zero_range b (rpos + 4) (rpos + 2 + unat l)"
      have z: "masks b ?z" using c 1(4) by (intro masks_zero_range) auto
      have "mask_symbol_records ?z (rpos + 2 + unat l) end True = (m, b')"
        using 1(3) c True by (simp add: mask_symbol_records.simps [of b] Let_def)
      from 1(1) [OF c(1) refl c(2,3) refl c(4) refl c(5) True this] z masks_length [OF z] 1(4)
      have "masks_if m ?z b'" "m" by auto
      then show ?thesis using z masks_trans by auto
    next
      case False
      have "mask_symbol_records b (rpos + 2 + unat l) end masked = (m, b')"
        using 1(3) c False by (simp add: mask_symbol_records.simps [of b] Let_def)
      from 1(2) [OF c(1) refl c(2,3) refl c(4) refl c(5) False this] 1(4) show ?thesis by blast
    qed
  qed
qed

lemma mask_subsections_masks:
  "mask_subsections b pos end masked = (m, b') \<Longrightarrow> end \<le> length b \<Longrightarrow>
   masks_if m b b' \<and> (masked \<longrightarrow> m)"
proof (induction b pos "end" masked rule: mask_subsections.induct)
  case (1 b pos "end" masked)
  show ?case
  proof (cases "\<exists>k l e. pos + 8 \<le> end \<and> read_u32 b pos = Some k \<and> read_u32 b (pos + 4) = Some l
                   \<and> checked_add_usize (pos + 8) (unat l) = Some e \<and> \<not> e > end")
    case False
    then have "(m, b') = (masked, b)"
      using 1(2) by (auto simp: mask_subsections.simps [of b] Let_def split: if_splits option.splits)
    then show ?thesis by simp
  next
    case True
    then obtain k l e where c: "pos + 8 \<le> end" "read_u32 b pos = Some k" "read_u32 b (pos + 4) = Some l"
      "checked_add_usize (pos + 8) (unat l) = Some e" "\<not> e > end" by blast
    define r where "r = (if k = DEBUG_S_SYMBOLS then mask_symbol_records b (pos + 8) e False else (False, b))"
    obtain m1 b1 where r: "r = (m1, b1)" by (cases r)
    have m1: "masks_if m1 b b1"
      using mask_symbol_records_masks [of b "pos + 8" e False m1 b1] r c(5) 1(3)
      by (auto simp: r_def split: if_splits)
    have rec: "mask_subsections b1 (pos + 8 + (unat l + 3) div 4 * 4) end (masked \<or> m1) = (m, b')"
      using 1(2) c r by (simp add: mask_subsections.simps [of b] Let_def r_def)
    have "end \<le> length b1" using masks_length [OF masks_if_masks [OF m1]] 1(3) by simp
    from 1(1) [OF c(1) refl c(2,3) refl refl c(4,5) r [unfolded r_def, symmetric] refl rec this]
    have "masks_if m b1 b'" "masked \<or> m1 \<longrightarrow> m" by auto
    then show ?thesis using masks_if_trans [OF m1, of m b'] by (auto simp: masks_if_def)
  qed
qed

lemma mask_debug_s_symbols_masks:
  "mask_debug_s_symbols b ptr sz = (m, b') \<Longrightarrow> masks_if m b b'"
  using mask_subsections_masks [of b "ptr + 4" _ False m b']
  by (auto simp: mask_debug_s_symbols_def split: option.splits if_splits)

lemma mask_sections_masks:
  "mask_sections b t is masked = (m, b') \<Longrightarrow> masks_if m b b' \<and> (masked \<longrightarrow> m)"
proof (induction "is" arbitrary: b masked)
  case Nil
  then show ?case by simp
next
  case (Cons i "is")
  define A where "A \<longleftrightarrow> t + i * 40 + 40 > length b"
  define B where "B \<longleftrightarrow> take 8 (drop (t + i * 40) b) \<noteq> as_bytes ''.debug$S''"
  define sz where "sz = read_u32 b (t + i * 40 + 16)"
  define ptr where "ptr = read_u32 b (t + i * 40 + 20)"
  obtain m1 b1 where d: "mask_debug_s_symbols b (unat (the ptr)) (unat (the sz)) = (m1, b1)" by fastforce
  note step = Cons.prems [unfolded mask_sections.simps Let_def,
    folded A_def B_def sz_def ptr_def]
  consider "(m, b') = (masked, b)" | "mask_sections b t is masked = (m, b')"
    | "mask_sections b1 t is (masked \<or> m1) = (m, b')"
    using step d by (cases A; cases B; cases sz; cases ptr) simp_all
  then show ?case
  proof cases
    case 3
    from Cons.IH [OF 3] have "masks_if m b1 b'" "masked \<or> m1 \<longrightarrow> m" by auto
    then show ?thesis using masks_if_trans [OF mask_debug_s_symbols_masks [OF d], of m b']
      by (auto simp: masks_if_def)
  qed (use Cons.IH in auto)
qed

text \<open>
  The reasons a masking step appends are the evidence that it masked: \<open>evidence\<close> relates
  a buffer and reason list before a step to those after it.
\<close>

definition evidence :: "bytes \<times> string list \<Rightarrow> bytes \<times> string list \<Rightarrow> bool" where
  "evidence s t \<longleftrightarrow> masks (fst s) (fst t) \<and> (\<exists>new. snd t = snd s @ new \<and> (new = [] \<longrightarrow> fst t = fst s))"

lemma evidence_refl [simp]: "evidence s s"
  by (simp add: evidence_def)

lemma evidence_trans: "evidence r s \<Longrightarrow> evidence s t \<Longrightarrow> evidence r t"
  unfolding evidence_def using masks_trans by fastforce

lemma evidence_step:
  "masks_if m b b' \<Longrightarrow> evidence (b, rs) (b', if m then rs @ [r] else rs)"
  by (auto simp: evidence_def masks_if_def)

lemma mask_coff_objname_evidence: "evidence (b, rs) (mask_coff_objname b rs)"
proof -
  have "evidence (b, rs) (b', if m then rs @ [REASON_COFF_OBJNAME] else rs)"
    if "mask_sections b t is False = (m, b')" for t "is" m b'
    using mask_sections_masks [OF that] evidence_step by blast
  then show ?thesis
    by (auto simp: mask_coff_objname_def split: option.splits prod.splits)
qed

lemma find_dans_bound: "find_dans b enc rich p = Some s \<Longrightarrow> s < p"
proof (induction b enc rich p rule: find_dans.induct)
  case (1 b enc rich p)
  then show ?case by (auto simp: find_dans.simps [of b enc rich p] Let_def split: if_splits)
qed

lemma find_last_rich_bound:
  "find_last_rich b is found = Some i \<Longrightarrow> i \<in> set is \<or> found = Some i"
  by (induction "is" arbitrary: found) (auto split: if_splits)

lemma mask_rich_header_evidence: "evidence (b, rs) (mask_rich_header b e_lfanew rs)"
proof -
  have "masks b (zero_range b s (min (rich + 8) (length b)))"
    if "find_dans b enc rich rich = Some s" "read_u32 b (rich + 4) = Some key" for rich enc s key
  proof -
    have "rich + 8 \<le> length b" using that(2) by (auto simp: read_u32_def get_range_def split: if_splits)
    then show ?thesis using find_dans_bound [OF that(1)] by (intro masks_zero_range) auto
  qed
  then show ?thesis
    by (auto simp: mask_rich_header_def evidence_def Let_def split: option.splits)
qed

lemma normalize_pe_evidence: "evidence (b, rs) (normalize_pe b rs)"
proof -
  have "evidence (b, rs) (mask_rich_header b' e (if m then rs @ [REASON_PE_TIMESTAMP] else rs))"
    if "zero_u32 b off = (m, b')" for off m b' e
    using evidence_trans [OF evidence_step [OF zero_u32_masks [OF that]] mask_rich_header_evidence] .
  then show ?thesis by (auto simp: normalize_pe_def Let_def split: option.splits prod.splits)
qed

lemma normalize_evidence:
  "masks input (nz_bytes (normalize input))
   \<and> (nz_reasons (normalize input) = [] \<longrightarrow> nz_bytes (normalize input) = input)"
proof -
  define r where "r = (if starts_with input (as_bytes ''MZ'') then normalize_pe input []
         else case coff_timestamp_offset input of
           None \<Rightarrow> (input, [])
         | Some off \<Rightarrow>
             let (done, b) = zero_u32 input off;
                 rs = (if done then [REASON_COFF_TIMESTAMP] else [])
             in if off = 4 then mask_coff_objname b rs else (b, rs))"
  have n: "normalize input = \<lparr>nz_bytes = fst r, nz_reasons = remdups_adj (sort (snd r))\<rparr>"
    by (simp add: normalize_def r_def [symmetric] split: prod.splits)
  have coff: "evidence (input, []) (b, if m then [REASON_COFF_TIMESTAMP] else [])"
    if "zero_u32 input off = (m, b)" for off m b
    using evidence_step [OF zero_u32_masks [OF that], of "[]" REASON_COFF_TIMESTAMP] by (cases m) simp_all
  have "evidence (input, []) r"
  proof (cases "starts_with input (as_bytes ''MZ'')")
    case True
    then show ?thesis using normalize_pe_evidence by (simp add: r_def)
  next
    case False
    show ?thesis
    proof (cases "coff_timestamp_offset input")
      case None
      then show ?thesis using False by (simp add: r_def)
    next
      case (Some off)
      obtain m b where z: "zero_u32 input off = (m, b)" by fastforce
      then show ?thesis
        using False Some coff [OF z] evidence_trans [OF coff [OF z] mask_coff_objname_evidence]
        by (auto simp: r_def Let_def)
    qed
  qed
  moreover have "sort (snd r) = [] \<longleftrightarrow> snd r = []" by (metis length_0_conv length_sort)
  ultimately show ?thesis by (auto simp: n evidence_def)
qed

lemma set_fold_add_reason: "set (fold add_reason ys xs) = set xs \<union> set ys"
  by (induction ys arbitrary: xs) (auto simp: add_reason_def)

lemma remdups_adj_sort_Nil: "remdups_adj (sort zs) = [] \<longleftrightarrow> set zs = {}"
  by (metis remdups_adj_set set_empty set_sort)

lemma compare_artifacts_reasons:
  assumes "compare_artifacts a b = NormalizedEqual rs"
  shows "rs \<noteq> []"
proof
  assume "rs = []"
  then have "nz_bytes (normalize a) = nz_bytes (normalize b)" "a \<noteq> b"
    "nz_reasons (normalize a) = []" "nz_reasons (normalize b) = []"
    using assms by (auto simp: compare_artifacts_def Let_def remdups_adj_sort_Nil set_fold_add_reason
        simp del: remdups_adj_Nil_iff split: if_splits)
  then show False using normalize_evidence by metis
qed

lemma normalized_differences_masked:
  assumes "nz_bytes (normalize a) = nz_bytes (normalize b)" "i < length a" "a ! i \<noteq> b ! i"
  shows "length a = length b \<and> nz_bytes (normalize a) ! i = 0"
proof -
  have m: "masks a (nz_bytes (normalize a))" "masks b (nz_bytes (normalize a))"
    using normalize_evidence [of a] normalize_evidence [of b] assms(1) by auto
  then have l: "length a = length b" using masks_length by metis
  show ?thesis using masks_nth [OF m(1) assms(2)] masks_nth [OF m(2), of i] assms(2,3) l by auto
qed

text \<open>
  C38. The verdict \<open>NormalizedEqual\<close> is always explained: the artifacts have the same
  length, the reason list is not empty, and at every position where they differ the
  normalized copy holds the zero that a masking step wrote. A difference outside a masked
  region is never judged equal.
\<close>
theorem compare_normalized_explained:
  assumes "compare_artifacts a b = NormalizedEqual rs"
  shows "length a = length b \<and> rs \<noteq> []
    \<and> (\<forall>i < length a. a ! i \<noteq> b ! i \<longrightarrow> nz_bytes (normalize a) ! i = 0)"
proof -
  have eq: "nz_bytes (normalize a) = nz_bytes (normalize b)"
    using assms by (auto simp: compare_artifacts_def Let_def split: if_splits)
  then have "length a = length b"
    using normalize_evidence masks_length by metis
  then show ?thesis
    using normalized_differences_masked [OF eq] compare_artifacts_reasons [OF assms] by blast
qed

definition coff_stamp1 :: bytes where "coff_stamp1 = [0x64, 0x86, 0, 0, 1, 2, 3, 4]"
definition coff_stamp2 :: bytes where "coff_stamp2 = [0x64, 0x86, 0, 0, 5, 6, 7, 8]"

lemma compare_coff_stamps:
  "compare_artifacts coff_stamp1 coff_stamp2 = NormalizedEqual [REASON_COFF_TIMESTAMP]"
  by (simp add: compare_artifacts_def normalize_def coff_stamp1_def coff_stamp2_def starts_with_def
      as_bytes_def coff_timestamp_offset_def read_u16_def get_range_def u16_from_le_def
      is_known_machine_def zero_u32_def zero_range_def mask_coff_objname_def add_reason_def)

theorem compare_normalized_explained_witness:
  "length coff_stamp1 = length coff_stamp2 \<and> [REASON_COFF_TIMESTAMP] \<noteq> []
    \<and> coff_stamp1 ! 4 \<noteq> coff_stamp2 ! 4 \<and> nz_bytes (normalize coff_stamp1) ! 4 = 0"
  using compare_normalized_explained [OF compare_coff_stamps] by (simp add: coff_stamp1_def coff_stamp2_def)

section \<open>Relocation of logical paths\<close>

lemma relativize_under:
  assumes "trim_end_char bsl root \<noteq> []" "tail \<noteq> []" "hd tail \<noteq> bsl"
  shows "relativize (trim_end_char bsl root @ bsl # tail) root = tail"
proof -
  have "strip_prefix (trim_end_char bsl root) (trim_end_char bsl root @ bsl # tail) = Some (bsl # tail)"
    by (simp add: strip_prefix_Some)
  moreover have "trim_start_char bsl tail = tail"
    using assms(2,3) by (cases tail) (auto simp: trim_start_char_def)
  ultimately show ?thesis using assms by (simp add: relativize_def Let_def)
qed

lemma relativize_outside:
  assumes "\<nexists>tail. tail \<noteq> [] \<and> path = trim_end_char bsl root @ bsl # tail"
  shows "relativize path root = path"
  using assms by (auto simp: relativize_def Let_def strip_prefix_Some split: option.splits)

text \<open>
  An absolute path as \<open>graph\<close> emits it: a drive letter and colon, then no further colon
  (no alternate data stream) and no doubled separator.
\<close>

fun drive_path :: "string \<Rightarrow> bool" where
  "drive_path (d # c # ps) \<longleftrightarrow>
     d \<noteq> CHR '':'' \<and> c = CHR '':'' \<and> CHR '':'' \<notin> set ps \<and> \<not> contains_sub [bsl, bsl] ps"
| "drive_path _ \<longleftrightarrow> False"

lemma drive_path_colon: "drive_path p \<Longrightarrow> CHR '':'' \<in> set p"
  by (cases p rule: drive_path.cases) auto

lemma contains_sub_skip: "contains_sub pat ys \<Longrightarrow> contains_sub pat (xs @ ys)"
  by (induction xs) auto

lemma drive_path_tail:
  assumes "drive_path (w @ bsl # tail)" "w \<noteq> []" "tail \<noteq> []"
  shows "CHR '':'' \<notin> set tail \<and> hd tail \<noteq> bsl"
proof -
  obtain d ps where ps: "w @ bsl # tail = d # CHR '':'' # ps" "CHR '':'' \<notin> set ps"
      "\<not> contains_sub [bsl, bsl] ps"
    using assms(1) by (cases "w @ bsl # tail" rule: drive_path.cases) auto
  obtain v where "ps = v @ bsl # tail"
    using ps(1) assms(2) by (cases w; cases "tl w") auto
  then show ?thesis using ps(2,3) assms(3) contains_sub_skip [of "[bsl, bsl]" "bsl # tail" v]
    by (cases tail) auto
qed

lemma relativize_drive:
  assumes "drive_path p" "trim_end_char bsl root \<noteq> []"
  shows "(\<exists>tail. p = trim_end_char bsl root @ bsl # tail \<and> relativize p root = tail \<and> CHR '':'' \<notin> set tail)
    \<or> relativize p root = p"
proof (cases "\<exists>tail. tail \<noteq> [] \<and> p = trim_end_char bsl root @ bsl # tail")
  case True
  then obtain tail where t: "tail \<noteq> []" "p = trim_end_char bsl root @ bsl # tail" by blast
  then have "CHR '':'' \<notin> set tail" "hd tail \<noteq> bsl"
    using drive_path_tail assms by auto
  then show ?thesis using relativize_under [OF assms(2) t(1)] t(2) by auto
next
  case False
  then show ?thesis using relativize_outside by blast
qed

lemma relativize_collision_free:
  assumes "drive_path p" "drive_path q" "trim_end_char bsl root \<noteq> []"
    and "relativize p root = relativize q root"
  shows "p = q"
  using relativize_drive [OF assms(1,3)] relativize_drive [OF assms(2,3)] assms(4)
    drive_path_colon [OF assms(1)] drive_path_colon [OF assms(2)] by auto

text \<open>
  Logical paths neither lose nor confuse artifacts. Moving a tree from one build root
  to another keeps the logical path of every file below it, and under one root two distinct
  absolute paths never get the same logical path; in particular a sibling directory that
  merely shares the root as a name prefix is not swallowed.
\<close>
theorem relativize_faithful:
  assumes "trim_end_char bsl root \<noteq> []" and "trim_end_char bsl root' \<noteq> []"
    and "drive_path p" and "drive_path q"
  shows "(relativize p root = relativize q root \<longleftrightarrow> p = q)
    \<and> (\<forall>tail. tail \<noteq> [] \<and> hd tail \<noteq> bsl \<longrightarrow>
         relativize (trim_end_char bsl root @ bsl # tail) root
         = relativize (trim_end_char bsl root' @ bsl # tail) root')"
  using relativize_collision_free [OF assms(3,4,1)] relativize_under assms(1,2) by auto

theorem relativize_faithful_witness:
  "let r = ''c:'' @ [bsl] @ ''work''; r' = ''d:'' @ [bsl] @ ''ci'' @ [bsl] in
   (relativize (r @ [bsl] @ ''a.obj'') r = relativize (r @ ''2'' @ [bsl] @ ''a.obj'') r
      \<longleftrightarrow> r @ [bsl] @ ''a.obj'' = r @ ''2'' @ [bsl] @ ''a.obj'')
    \<and> (\<forall>tail. tail \<noteq> [] \<and> hd tail \<noteq> bsl \<longrightarrow>
         relativize (trim_end_char bsl r @ bsl # tail) r
         = relativize (trim_end_char bsl r' @ bsl # tail) r')"
  unfolding Let_def
  by (rule relativize_faithful) (simp_all add: trim_end_char_def)

end
