(* ===== verification/Trace_Format.thy ===== *)
theory Trace_Format
  imports Rust_Str
begin

text \<open>
  The trace model and its binary format, \<open>src/crates/tracer/src/model.rs\<close> and
  \<open>src/crates/tracer/src/format.rs\<close>: record tags and operations, one process's trace, the
  bounds-checked cursor, the header and the record loop. The writer is the interceptor (not
  Rust code); its side of the format is the encoding of \<open>docs/trace-format.md\<close>, written
  down here only to state what the parser makes of such a file and of a prefix of one.
\<close>

section \<open>Events\<close>

definition RT_FILE :: u8 where "RT_FILE = 1"
definition RT_PROCESS :: u8 where "RT_PROCESS = 2"
definition RT_REGISTRY :: u8 where "RT_REGISTRY = 3"
definition RT_ENV :: u8 where "RT_ENV = 4"

datatype file_op =
  OpenRead | OpenWrite | OpenReadWrite | Probe | Enumerate | Delete | Move | CreateDir | RemoveDir

definition file_op_from_u8 :: "u8 \<Rightarrow> file_op option" where
  "file_op_from_u8 v =
     (if v = 1 then Some OpenRead else if v = 2 then Some OpenWrite
      else if v = 3 then Some OpenReadWrite else if v = 4 then Some Probe
      else if v = 5 then Some Enumerate else if v = 6 then Some Delete
      else if v = 7 then Some Move else if v = 8 then Some CreateDir
      else if v = 9 then Some RemoveDir else None)"

datatype process_op = ChildCreated

definition process_op_from_u8 :: "u8 \<Rightarrow> process_op option" where
  "process_op_from_u8 v = (if v = 1 then Some ChildCreated else None)"

datatype registry_op = OpenKey | QueryValue

definition registry_op_from_u8 :: "u8 \<Rightarrow> registry_op option" where
  "registry_op_from_u8 v = (if v = 1 then Some OpenKey else if v = 2 then Some QueryValue else None)"

datatype env_op = EnvRead | EnvBlockRead

definition env_op_from_u8 :: "u8 \<Rightarrow> env_op option" where
  "env_op_from_u8 v = (if v = 1 then Some EnvRead else if v = 2 then Some EnvBlockRead else None)"

datatype event_kind =
  EvFile file_op u64
| EvProcess process_op u32
| EvRegistry registry_op u32
| EvEnv env_op
| EvUnknown u8 u8

record event =
  ev_kind :: event_kind
  ev_status :: u32
  ev_tid :: u32
  ev_qpc :: u64
  ev_path :: string
  ev_aux :: string

definition succeeded :: "event \<Rightarrow> bool" where
  "succeeded ev \<longleftrightarrow> ev_status ev = 0"

datatype access_kind = AkRead | AkWrite | AkProbe | AkProbeMiss | AkEnumerate | AkDelete | AkMove

primrec access_kind_as_str :: "access_kind \<Rightarrow> string" where
  "access_kind_as_str AkRead = ''read''"
| "access_kind_as_str AkWrite = ''write''"
| "access_kind_as_str AkProbe = ''probe''"
| "access_kind_as_str AkProbeMiss = ''probe-miss''"
| "access_kind_as_str AkEnumerate = ''enumerate''"
| "access_kind_as_str AkDelete = ''delete''"
| "access_kind_as_str AkMove = ''move''"

record trace =
  tr_version :: u32
  tr_pid :: u32
  tr_parent_pid :: u32
  tr_qpc_frequency :: u64
  tr_start_qpc :: u64
  tr_start_filetime :: u64
  tr_exe_path :: string
  tr_command_line :: string
  tr_cwd :: string
  tr_events :: "event list"
  tr_truncated :: bool

text \<open>\<open>rsplit(['\\', '/']).next()\<close>: what follows the last separator of either kind.\<close>

definition last_component :: "string \<Rightarrow> string" where
  "last_component s = rev (takeWhile (\<lambda>c. c \<noteq> bsl \<and> c \<noteq> CHR ''/'') (rev s))"

definition exe_name :: "trace \<Rightarrow> string" where
  "exe_name t = to_ascii_lowercase (last_component (tr_exe_path t))"

section \<open>The cursor\<close>

type_synonym 'a trace_reader = "(cursor, unit, 'a) sm"

definition MAGIC :: bytes where "MAGIC = as_bytes ''SBZT''"
definition SUPPORTED_VERSION :: u32 where "SUPPORTED_VERSION = 0"
definition MAX_STRING_UNITS :: nat where "MAX_STRING_UNITS = 2 ^ 24"

definition t_take :: "nat \<Rightarrow> bytes trace_reader" where
  "t_take n = (\<lambda>r.
     case checked_add_usize (cpos r) n of
       None \<Rightarrow> (Inl (), r)
     | Some end \<Rightarrow>
         (case get_range (cbuf r) (cpos r) end of
            None \<Rightarrow> (Inl (), r)
          | Some sl \<Rightarrow> (Inr sl, r\<lparr>cpos := end\<rparr>)))"

definition t_u8 :: "u8 trace_reader" where
  "t_u8 = sm_bind (t_take 1) (\<lambda>b. sm_ret (b ! 0))"

definition t_u16 :: "u16 trace_reader" where
  "t_u16 = sm_bind (t_take 2) (\<lambda>b. sm_ret (u16_from_le b))"

definition t_u32 :: "u32 trace_reader" where
  "t_u32 = sm_bind (t_take 4) (\<lambda>b. sm_ret (u32_from_le b))"

definition t_u64 :: "u64 trace_reader" where
  "t_u64 = sm_bind (t_take 8) (\<lambda>b. sm_ret (u64_from_le b))"

text \<open>
  \<open>String::from_utf16_lossy\<close> of the standard library: a surrogate without its partner
  becomes U+FFFD; the result is stored as UTF-8.
\<close>

definition is_high_surrogate :: "nat \<Rightarrow> bool" where
  "is_high_surrogate u \<longleftrightarrow> 0xD800 \<le> u \<and> u \<le> 0xDBFF"

definition is_low_surrogate :: "nat \<Rightarrow> bool" where
  "is_low_surrogate u \<longleftrightarrow> 0xDC00 \<le> u \<and> u \<le> 0xDFFF"

fun decode_utf16 :: "nat list \<Rightarrow> nat list" where
  "decode_utf16 [] = []"
| "decode_utf16 [u] = [if is_high_surrogate u \<or> is_low_surrogate u then 0xFFFD else u]"
| "decode_utf16 (u # v # us) =
     (if is_high_surrogate u \<and> is_low_surrogate v
      then (0x10000 + (u - 0xD800) * 0x400 + (v - 0xDC00)) # decode_utf16 us
      else (if is_high_surrogate u \<or> is_low_surrogate u then 0xFFFD else u) # decode_utf16 (v # us))"

definition encode_utf8_char :: "nat \<Rightarrow> string" where
  "encode_utf8_char c =
     map (\<lambda>n. char_of n)
       (if c < 0x80 then [c]
        else if c < 0x800 then [0xC0 + c div 64, 0x80 + c mod 64]
        else if c < 0x10000 then [0xE0 + c div 4096, 0x80 + c div 64 mod 64, 0x80 + c mod 64]
        else [0xF0 + c div 262144, 0x80 + c div 4096 mod 64, 0x80 + c div 64 mod 64, 0x80 + c mod 64])"

definition from_utf16_lossy :: "u16 list \<Rightarrow> string" where
  "from_utf16_lossy us = concat (map encode_utf8_char (decode_utf16 (map unat us)))"

fun units_of :: "bytes \<Rightarrow> u16 list" where
  "units_of (a # b # bs) = u16_from_le [a, b] # units_of bs"
| "units_of _ = []"

definition t_string :: "string trace_reader" where
  "t_string = sm_bind t_u32 (\<lambda>count.
     if unat count > MAX_STRING_UNITS then sm_err ()
     else sm_bind (t_take (unat count * 2)) (\<lambda>b. sm_ret (from_utf16_lossy (units_of b))))"

section \<open>Records and the file\<close>

definition kind_of :: "u8 \<Rightarrow> u8 \<Rightarrow> u64 \<Rightarrow> event_kind" where
  "kind_of rt op extra =
     (if rt = RT_FILE then
        (case file_op_from_u8 op of Some f \<Rightarrow> EvFile f extra | None \<Rightarrow> EvUnknown rt op)
      else if rt = RT_PROCESS then
        (case process_op_from_u8 op of Some p \<Rightarrow> EvProcess p (ucast extra) | None \<Rightarrow> EvUnknown rt op)
      else if rt = RT_REGISTRY then
        (case registry_op_from_u8 op of Some r \<Rightarrow> EvRegistry r (ucast extra) | None \<Rightarrow> EvUnknown rt op)
      else if rt = RT_ENV then
        (case env_op_from_u8 op of Some e \<Rightarrow> EvEnv e | None \<Rightarrow> EvUnknown rt op)
      else EvUnknown rt op)"

definition parse_record :: "event trace_reader" where
  "parse_record =
     sm_bind t_u8 (\<lambda>record_type. sm_bind t_u8 (\<lambda>op. sm_bind t_u16 (\<lambda>reserved.
     sm_bind t_u32 (\<lambda>status. sm_bind t_u32 (\<lambda>tid. sm_bind t_u64 (\<lambda>qpc. sm_bind t_u64 (\<lambda>extra.
     sm_bind t_string (\<lambda>path. sm_bind t_string (\<lambda>aux.
       sm_ret \<lparr>ev_kind = kind_of record_type op extra, ev_status = status, ev_tid = tid,
               ev_qpc = qpc, ev_path = path, ev_aux = aux\<rparr>)))))))))"

text \<open>
  A successful read leaves the buffer alone and never moves the cursor back; a successful
  \<open>parse_record\<close> moves it forward within the buffer, which bounds the record loop.
\<close>

definition advances :: "'a trace_reader \<Rightarrow> bool" where
  "advances m \<longleftrightarrow> (\<forall>s a s'. m s = (Inr a, s') \<longrightarrow> cbuf s' = cbuf s \<and> cpos s \<le> cpos s')"

lemma advances_bind [intro]: "advances m \<Longrightarrow> (\<And>a. advances (f a)) \<Longrightarrow> advances (sm_bind m f)"
  unfolding advances_def by (fastforce simp: sm_bind_eq_Inr)

lemma advances_ret [intro]: "advances (sm_ret a)"
  by (simp add: advances_def sm_simps)

lemma advances_err [intro]: "advances (sm_err e)"
  by (simp add: advances_def sm_simps)

lemma advances_take [intro]: "advances (t_take n)"
  by (auto simp: advances_def t_take_def checked_add_usize_def split: option.splits if_splits)

lemma advances_u8: "advances t_u8" unfolding t_u8_def by (intro advances_bind advances_take advances_ret)
lemma advances_u16: "advances t_u16" unfolding t_u16_def by (intro advances_bind advances_take advances_ret)
lemma advances_u32: "advances t_u32" unfolding t_u32_def by (intro advances_bind advances_take advances_ret)
lemma advances_u64: "advances t_u64" unfolding t_u64_def by (intro advances_bind advances_take advances_ret)

lemma advances_string: "advances t_string"
  unfolding t_string_def
  by (intro advances_bind advances_u32) (auto intro!: advances_bind advances_take advances_ret advances_err)

lemma take1_progress:
  "t_u8 s = (Inr a, s') \<Longrightarrow> cbuf s' = cbuf s \<and> cpos s < cpos s' \<and> cpos s' \<le> length (cbuf s)"
  by (auto simp: t_u8_def sm_bind_eq_Inr sm_simps t_take_def checked_add_usize_def get_range_def
      split: option.splits if_splits)

lemma parse_record_progress:
  assumes "parse_record s = (Inr ev, s')"
  shows "cbuf s' = cbuf s \<and> cpos s < cpos s' \<and> cpos s < length (cbuf s)"
proof -
  obtain rt s1 f where s1: "t_u8 s = (Inr rt, s1)" and f: "f s1 = (Inr ev, s')" and adv: "advances f"
  proof -
    let ?rest = "\<lambda>record_type. sm_bind t_u8 (\<lambda>op. sm_bind t_u16 (\<lambda>reserved.
       sm_bind t_u32 (\<lambda>status. sm_bind t_u32 (\<lambda>tid. sm_bind t_u64 (\<lambda>qpc. sm_bind t_u64 (\<lambda>extra.
       sm_bind t_string (\<lambda>path. sm_bind t_string (\<lambda>aux.
         sm_ret \<lparr>ev_kind = kind_of record_type op extra, ev_status = status, ev_tid = tid,
               ev_qpc = qpc, ev_path = path, ev_aux = aux\<rparr>))))))))"
    have "advances (?rest rt)" for rt
      by (intro advances_bind advances_ret advances_u8 advances_u16 advances_u32 advances_u64 advances_string)
    moreover obtain rt s1 where "t_u8 s = (Inr rt, s1)" "?rest rt s1 = (Inr ev, s')"
      using assms unfolding parse_record_def sm_bind_eq_Inr [of t_u8 ?rest] by blast
    ultimately show thesis using that by blast
  qed
  have "cbuf s' = cbuf s1 \<and> cpos s1 \<le> cpos s'" using adv f unfolding advances_def by blast
  then show ?thesis using take1_progress [OF s1] by simp
qed

function parse_records :: "cursor \<Rightarrow> event list \<times> bool" where
  "parse_records c =
     (case parse_record c of
        (Inr ev, c') \<Rightarrow> (let (evs, truncated) = parse_records c' in (ev # evs, truncated))
      | (Inl _, _) \<Rightarrow> ([], cpos c \<noteq> length (cbuf c)))"
  by pat_completeness auto
termination
  by (relation "measure (\<lambda>c. length (cbuf c) - cpos c)")
     (simp, metis parse_record_progress diff_less_mono2 in_measure)

declare parse_records.simps [simp del]

datatype parse_error = BadMagic | ShortHeader | UnsupportedVersion u32

text \<open>\<open>r.ok_or(ParseError::ShortHeader)\<close>.\<close>

definition or_short :: "'a trace_reader \<Rightarrow> (cursor, parse_error, 'a) sm" where
  "or_short m = (\<lambda>c. case m c of (Inl _, c') \<Rightarrow> (Inl ShortHeader, c') | (Inr a, c') \<Rightarrow> (Inr a, c'))"

definition parse_header :: "(cursor, parse_error, trace) sm" where
  "parse_header =
     sm_bind (or_short (t_take 4)) (\<lambda>magic.
     if magic \<noteq> MAGIC then sm_err BadMagic
     else sm_bind (or_short t_u32) (\<lambda>version.
     if version \<noteq> SUPPORTED_VERSION then sm_err (UnsupportedVersion version)
     else sm_bind (or_short t_u32) (\<lambda>pid. sm_bind (or_short t_u32) (\<lambda>parent_pid.
     sm_bind (or_short t_u64) (\<lambda>qpc_frequency. sm_bind (or_short t_u64) (\<lambda>start_qpc.
     sm_bind (or_short t_u64) (\<lambda>start_filetime. sm_bind (or_short t_string) (\<lambda>exe_path.
     sm_bind (or_short t_string) (\<lambda>command_line. sm_bind (or_short t_string) (\<lambda>cwd.
       sm_ret \<lparr>tr_version = version, tr_pid = pid, tr_parent_pid = parent_pid,
               tr_qpc_frequency = qpc_frequency, tr_start_qpc = start_qpc,
               tr_start_filetime = start_filetime, tr_exe_path = exe_path,
               tr_command_line = command_line, tr_cwd = cwd, tr_events = [],
               tr_truncated = False\<rparr>))))))))))"

definition parse :: "bytes \<Rightarrow> parse_error + trace" where
  "parse buf =
     (case parse_header (cursor_new buf) of
        (Inl e, _) \<Rightarrow> Inl e
      | (Inr t, c) \<Rightarrow>
          (let (events, truncated) = parse_records c
           in Inr (t\<lparr>tr_events := events, tr_truncated := truncated\<rparr>)))"

section \<open>Reading what the interceptor wrote\<close>

text \<open>
  \<open>exactly m bs a\<close>: on input that starts with \<open>bs\<close> the reader returns \<open>a\<close> just past it, and
  on input that ends inside \<open>bs\<close> it fails. Sequencing keeps this, which turns the layout of
  a record into the statement about cut-off records.
\<close>

definition exactly :: "'a trace_reader \<Rightarrow> bytes \<Rightarrow> 'a \<Rightarrow> bool" where
  "exactly m bs a \<longleftrightarrow> reads m bs a \<and>
     (\<forall>pre p. strict_prefix p bs \<and> length pre + length p < usize_bound \<longrightarrow> fst (m (cur pre p)) = Inl ())"

lemma exactly_reads: "exactly m bs a \<Longrightarrow> reads m bs a"
  by (simp add: exactly_def)

lemma exactly_short:
  "exactly m bs a \<Longrightarrow> strict_prefix p bs \<Longrightarrow> length pre + length p < usize_bound \<Longrightarrow>
   fst (m (cur pre p)) = Inl ()"
  by (simp add: exactly_def)

lemma exactly_ret: "exactly (sm_ret a) [] a"
  by (simp add: exactly_def reads_ret)

lemma exactly_bind:
  assumes m: "exactly m bs a" and f: "exactly (f a) cs b"
  shows "exactly (sm_bind m f) (bs @ cs) b"
  unfolding exactly_def
proof (intro conjI allI impI)
  show "reads (sm_bind m f) (bs @ cs) b"
    by (rule reads_bind [where a = a and b = b]) (rule exactly_reads [OF m], rule exactly_reads [OF f])
  fix pre p :: bytes assume p: "strict_prefix p (bs @ cs) \<and> length pre + length p < usize_bound"
  show "fst (sm_bind m f (cur pre p)) = Inl ()"
  proof (cases "strict_prefix p bs")
    case True
    then have "fst (m (cur pre p)) = Inl ()" using exactly_short [OF m] p by simp
    then show ?thesis by (cases "m (cur pre p)") simp
  next
    case False
    have "prefix p (bs @ cs)" using p by (simp add: strict_prefix_def)
    then obtain q where "p = bs @ q" "prefix q cs"
      using False by (metis append_Nil2 prefix_append prefix_bot.extremum strict_prefix_def)
    then have q: "p = bs @ q" "strict_prefix q cs"
      using p by (auto simp: strict_prefix_def)
    then have "m (cur pre p) = (Inr a, cur (pre @ bs) q)"
      using readsD [OF exactly_reads [OF m], of pre q] p by simp
    moreover have "fst (f a (cur (pre @ bs) q)) = Inl ()"
      using exactly_short [OF f q(2), of "pre @ bs"] p q(1) by simp
    ultimately show ?thesis by simp
  qed
qed

lemma exactly_bind_last: "exactly m bs a \<Longrightarrow> exactly (f a) [] b \<Longrightarrow> exactly (sm_bind m f) bs b"
  using exactly_bind [of m bs a f "[]" b] by simp

lemma exactly_take: "length bs = n \<Longrightarrow> exactly (t_take n) bs bs"
  unfolding exactly_def
proof (intro conjI allI impI)
  assume n: "length bs = n"
  then show "reads (t_take n) bs bs"
    by (intro readsI) (auto simp: t_take_def checked_add_usize_def)
  fix pre p :: bytes assume "strict_prefix p bs \<and> length pre + length p < usize_bound"
  then have "length p < n" using n prefix_length_less by blast
  then show "fst (t_take n (cur pre p)) = Inl ()"
    by (auto simp: t_take_def get_range_def split: option.splits)
       (auto simp: checked_add_usize_def split: if_splits)
qed

lemma exactly_u8: "exactly t_u8 [v] v"
  unfolding t_u8_def by (rule exactly_bind_last [OF exactly_take]) (auto intro: exactly_ret)

lemma exactly_u16: "exactly t_u16 (u16_to_le v) v"
  unfolding t_u16_def by (rule exactly_bind_last [OF exactly_take]) (auto intro: exactly_ret)

lemma exactly_u32: "exactly t_u32 (u32_to_le v) v"
  unfolding t_u32_def by (rule exactly_bind_last [OF exactly_take]) (auto intro: exactly_ret)

lemma exactly_u64: "exactly t_u64 (u64_to_le v) v"
  unfolding t_u64_def by (rule exactly_bind_last [OF exactly_take]) (auto intro: exactly_ret)

text \<open>The writer's side of the format, \<open>docs/trace-format.md\<close> sections 3 to 5.\<close>

definition encode_units :: "u16 list \<Rightarrow> bytes" where
  "encode_units us = u32_to_le (word_of_nat (length us)) @ concat (map u16_to_le us)"

record raw_record =
  rr_type :: u8
  rr_op :: u8
  rr_reserved :: u16
  rr_status :: u32
  rr_tid :: u32
  rr_qpc :: u64
  rr_extra :: u64
  rr_path :: "u16 list"
  rr_aux :: "u16 list"

definition encode_record :: "raw_record \<Rightarrow> bytes" where
  "encode_record r =
     [rr_type r] @ [rr_op r] @ u16_to_le (rr_reserved r) @ u32_to_le (rr_status r) @ u32_to_le (rr_tid r)
     @ u64_to_le (rr_qpc r) @ u64_to_le (rr_extra r) @ encode_units (rr_path r) @ encode_units (rr_aux r)"

definition raw_ok :: "raw_record \<Rightarrow> bool" where
  "raw_ok r \<longleftrightarrow> length (rr_path r) \<le> MAX_STRING_UNITS \<and> length (rr_aux r) \<le> MAX_STRING_UNITS"

definition event_of :: "raw_record \<Rightarrow> event" where
  "event_of r = \<lparr>ev_kind = kind_of (rr_type r) (rr_op r) (rr_extra r), ev_status = rr_status r,
     ev_tid = rr_tid r, ev_qpc = rr_qpc r, ev_path = from_utf16_lossy (rr_path r),
     ev_aux = from_utf16_lossy (rr_aux r)\<rparr>"

record raw_header =
  rh_pid :: u32
  rh_parent :: u32
  rh_freq :: u64
  rh_qpc :: u64
  rh_filetime :: u64
  rh_exe :: "u16 list"
  rh_cmd :: "u16 list"
  rh_cwd :: "u16 list"

definition encode_header :: "raw_header \<Rightarrow> bytes" where
  "encode_header h =
     MAGIC @ u32_to_le SUPPORTED_VERSION @ u32_to_le (rh_pid h) @ u32_to_le (rh_parent h)
     @ u64_to_le (rh_freq h) @ u64_to_le (rh_qpc h) @ u64_to_le (rh_filetime h)
     @ encode_units (rh_exe h) @ encode_units (rh_cmd h) @ encode_units (rh_cwd h)"

definition header_ok :: "raw_header \<Rightarrow> bool" where
  "header_ok h \<longleftrightarrow> length (rh_exe h) \<le> MAX_STRING_UNITS \<and> length (rh_cmd h) \<le> MAX_STRING_UNITS
     \<and> length (rh_cwd h) \<le> MAX_STRING_UNITS"

definition trace_of :: "raw_header \<Rightarrow> event list \<Rightarrow> bool \<Rightarrow> trace" where
  "trace_of h evs tr = \<lparr>tr_version = SUPPORTED_VERSION, tr_pid = rh_pid h, tr_parent_pid = rh_parent h,
     tr_qpc_frequency = rh_freq h, tr_start_qpc = rh_qpc h, tr_start_filetime = rh_filetime h,
     tr_exe_path = from_utf16_lossy (rh_exe h), tr_command_line = from_utf16_lossy (rh_cmd h),
     tr_cwd = from_utf16_lossy (rh_cwd h), tr_events = evs, tr_truncated = tr\<rparr>"

lemma units_of_encode: "units_of (concat (map u16_to_le us)) = us"
proof (induction us)
  case (Cons u us)
  obtain a b where ab: "u16_to_le u = [a, b]"
    using length_u16_to_le [of u] by (metis (no_types) length_0_conv length_Suc_conv numeral_2_eq_2)
  then have "u16_from_le [a, b] = u" using u16_from_to_le by metis
  then show ?case using Cons ab by simp
qed simp

lemma length_units: "length (concat (map u16_to_le us)) = length us * 2"
  by (induction us) auto

lemma exactly_string:
  assumes "length us \<le> MAX_STRING_UNITS"
  shows "exactly t_string (encode_units us) (from_utf16_lossy us)"
proof -
  have n: "unat (word_of_nat (length us) :: u32) = length us"
    using assms by (intro unat_word32_of_nat) (simp add: MAX_STRING_UNITS_def)
  have tail: "exactly (sm_bind (t_take (length us * 2)) (\<lambda>b. sm_ret (from_utf16_lossy (units_of b))))
          (concat (map u16_to_le us)) (from_utf16_lossy us)"
    using exactly_ret [of "from_utf16_lossy us"]
    by (intro exactly_bind_last [OF exactly_take]) (simp_all add: length_units units_of_encode)
  show ?thesis
    unfolding t_string_def encode_units_def
    by (rule exactly_bind [OF exactly_u32]) (use n assms tail in simp)
qed

lemma exactly_record:
  assumes "raw_ok r"
  shows "exactly parse_record (encode_record r) (event_of r)"
proof -
  have p: "length (rr_path r) \<le> MAX_STRING_UNITS" and a: "length (rr_aux r) \<le> MAX_STRING_UNITS"
    using assms by (auto simp: raw_ok_def)
  show ?thesis
    unfolding parse_record_def encode_record_def event_of_def
    by (rule exactly_bind [OF exactly_u8] exactly_bind [OF exactly_u16] exactly_bind [OF exactly_u32]
        exactly_bind [OF exactly_u64] exactly_bind [OF exactly_string [OF p]]
        exactly_bind_last [OF exactly_string [OF a]] exactly_ret)+
qed

lemma parse_records_encoded:
  assumes "list_all raw_ok rs" "raw_ok r" "strict_prefix p (encode_record r)"
  shows "length pre + length (concat (map encode_record rs) @ p) < usize_bound \<Longrightarrow>
    parse_records (cur pre (concat (map encode_record rs) @ p)) = (map event_of rs, p \<noteq> [])"
  using assms(1)
proof (induction rs arbitrary: pre)
  case Nil
  have "fst (parse_record (cur pre p)) = Inl ()"
    using exactly_short [OF exactly_record [OF assms(2)] assms(3)] Nil.prems by simp
  then show ?case by (auto simp: parse_records.simps [of "cur pre p"] split: prod.splits)
next
  case (Cons x xs)
  let ?rest = "concat (map encode_record xs) @ p"
  have "parse_record (cur pre (encode_record x @ ?rest)) = (Inr (event_of x), cur (pre @ encode_record x) ?rest)"
    using readsD [OF exactly_reads [OF exactly_record], of x pre ?rest] Cons.prems by simp
  moreover have "parse_records (cur (pre @ encode_record x) ?rest) = (map event_of xs, p \<noteq> [])"
    using Cons.IH [of "pre @ encode_record x"] Cons.prems by simp
  ultimately show ?case
    by (simp add: parse_records.simps [of "cur pre (encode_record x @ ?rest)"])
qed

lemma reads_or_short: "reads m bs a \<Longrightarrow> reads (or_short m) bs a"
  by (auto simp: reads_def or_short_def)

lemma exactly_or_short: "exactly m bs a \<Longrightarrow> reads (or_short m) bs a"
  by (rule reads_or_short [OF exactly_reads])

lemma exactly_magic: "exactly (t_take 4) MAGIC MAGIC"
  by (rule exactly_take) (simp add: MAGIC_def)

lemmas header_reads =
  reads_bind [OF exactly_or_short [OF exactly_u32]] reads_bind [OF exactly_or_short [OF exactly_u64]]

lemma reads_header:
  assumes "header_ok h"
  shows "reads parse_header (encode_header h) (trace_of h [] False)"
proof -
  have e: "length (rh_exe h) \<le> MAX_STRING_UNITS" and c: "length (rh_cmd h) \<le> MAX_STRING_UNITS"
    and w: "length (rh_cwd h) \<le> MAX_STRING_UNITS"
    using assms by (auto simp: header_ok_def)
  show ?thesis
    unfolding parse_header_def encode_header_def trace_of_def
    apply (rule reads_bind [OF exactly_or_short [OF exactly_magic]])
    apply (simp only: not_True_eq_False if_False simp_thms)
    apply (rule reads_bind [OF exactly_or_short [OF exactly_u32]])
    apply (simp only: not_True_eq_False if_False simp_thms)
    by (rule header_reads reads_bind [OF exactly_or_short [OF exactly_string [OF e]]]
        reads_bind [OF exactly_or_short [OF exactly_string [OF c]]]
        reads_bind_last [OF exactly_or_short [OF exactly_string [OF w]]] reads_ret)+
qed

lemma parse_encoded:
  assumes "header_ok h" "list_all raw_ok rs" "raw_ok r" "strict_prefix p (encode_record r)"
    and "length (encode_header h @ concat (map encode_record rs) @ p) < usize_bound"
  shows "parse (encode_header h @ concat (map encode_record rs) @ p)
    = Inr (trace_of h (map event_of rs) (p \<noteq> []))"
proof -
  let ?rest = "concat (map encode_record rs) @ p"
  have "parse_header (cursor_new (encode_header h @ ?rest)) = (Inr (trace_of h [] False), cur (encode_header h) ?rest)"
    using readsD [OF reads_header [OF assms(1)], of "[]" ?rest] assms(5) by (simp add: cursor_new_cur)
  moreover have "parse_records (cur (encode_header h) ?rest) = (map event_of rs, p \<noteq> [])"
    using parse_records_encoded [OF assms(2-4)] assms(5) by simp
  ultimately show ?thesis by (simp add: parse_def trace_of_def)
qed

text \<open>
  A trace file whose writer died at any byte of its last record still parses: every
  complete record, one with unknown tags included, becomes one event, in order, nothing of
  the cut-off record is reported, and \<open>truncated\<close> is set exactly when such a partial record
  is there.
\<close>
theorem parse_crash_tolerant:
  assumes "header_ok h" "list_all raw_ok rs" "raw_ok r" "strict_prefix p (encode_record r)"
    and "length (encode_header h @ concat (map encode_record rs) @ p) < usize_bound"
  shows "parse (encode_header h @ concat (map encode_record rs) @ p)
    = Inr (trace_of h (map event_of rs) (p \<noteq> []))"
  by (rule parse_encoded [OF assms])

definition sample_header :: raw_header where
  "sample_header = \<lparr>rh_pid = 100, rh_parent = 50, rh_freq = 10000000, rh_qpc = 1, rh_filetime = 2,
     rh_exe = [99, 108], rh_cmd = [99], rh_cwd = []\<rparr>"

definition sample_record :: raw_record where
  "sample_record = \<lparr>rr_type = 99, rr_op = 1, rr_reserved = 0, rr_status = 0, rr_tid = 7, rr_qpc = 123,
     rr_extra = 0, rr_path = [120], rr_aux = []\<rparr>"

theorem parse_crash_tolerant_witness:
  "parse (encode_header sample_header @ concat (map encode_record [sample_record]) @ [1, 2, 0])
    = Inr (trace_of sample_header (map event_of [sample_record]) ([1, 2, 0] \<noteq> ([] :: bytes)))"
proof (rule parse_crash_tolerant)
  let ?r = "sample_record\<lparr>rr_type := 1, rr_op := 2\<rparr>"
  show "header_ok sample_header" by (simp add: header_ok_def sample_header_def MAX_STRING_UNITS_def)
  show "list_all raw_ok [sample_record]" "raw_ok ?r"
    by (simp_all add: raw_ok_def sample_record_def MAX_STRING_UNITS_def)
  show "strict_prefix [1, 2, 0] (encode_record ?r)"
    by (simp add: encode_record_def sample_record_def u16_to_le_def strict_prefix_def numeral_2_eq_2)
  show "length (encode_header sample_header @ concat (map encode_record [sample_record]) @ [1, 2, 0]) < usize_bound"
    by (simp add: encode_header_def encode_record_def encode_units_def sample_header_def sample_record_def
        MAGIC_def usize_bound_def)
qed

end
