(* ===== verification/Dep_Graph.thy ===== *)
theory Dep_Graph
  imports Trace_Format "HOL-Library.Product_Lexorder"
begin

text \<open>
  Dependency-graph construction, \<open>src/crates/tracer/src/graph.rs\<close>: lexical path
  normalization, the accumulator of input, output and deletion sets, the fold of one file
  event, and \<open>build_graph\<close> with its process tree, warnings and root choice. A \<open>BTreeMap\<close>
  is a sorted association list, a set of pids or access kinds a HOL set, and a fold over
  events threads the accumulator and the set of paths the process produced.
\<close>

section \<open>Path normalization\<close>

datatype path_kind = UncOrDevice | DriveAbsolute | Verbatim | Relative

definition classify :: "string \<Rightarrow> path_kind" where
  "classify p =
     (if starts_with p [bsl, bsl] then UncOrDevice
      else if length p \<ge> 2 \<and> is_ascii_alphabetic (p ! 0) \<and> p ! 1 = CHR '':'' then
        (if length p > 2 \<and> p ! 2 = bsl then DriveAbsolute else Verbatim)
      else if p \<noteq> [] \<and> p ! 0 = bsl then Verbatim
      else Relative)"

definition unify :: "string \<Rightarrow> string" where
  "unify raw =
     (let lower = to_ascii_lowercase (replace_char (CHR ''/'') bsl raw) in
      case strip_prefix ([bsl, bsl] @ ''?'' @ [bsl] @ ''unc'' @ [bsl]) lower of
        Some rest \<Rightarrow> [bsl, bsl] @ rest
      | None \<Rightarrow>
          (case strip_prefix ([bsl, bsl] @ ''?'' @ [bsl]) lower of
             Some rest \<Rightarrow> rest
           | None \<Rightarrow>
               (case strip_prefix ([bsl] @ ''??'' @ [bsl]) lower of
                  Some rest \<Rightarrow> rest
                | None \<Rightarrow> lower)))"

fun resolve_segments :: "string list \<Rightarrow> string list \<Rightarrow> string list" where
  "resolve_segments comps [] = comps"
| "resolve_segments comps (seg # segs) =
     (if seg = [] \<or> seg = ''.'' then resolve_segments comps segs
      else if seg = ''..'' then resolve_segments (butlast comps) segs
      else resolve_segments (comps @ [seg]) segs)"

definition canonicalize :: "string \<Rightarrow> string" where
  "canonicalize p =
     take 2 p @ concat (map (\<lambda>c. bsl # c) (resolve_segments [] (split_on bsl (drop 2 p))))"

fun collapse_runs :: "bool \<Rightarrow> string \<Rightarrow> string" where
  "collapse_runs prev_sep [] = []"
| "collapse_runs prev_sep (c # cs) =
     (if c = bsl then (if prev_sep then [] else [bsl]) @ collapse_runs True cs
      else c # collapse_runs False cs)"

definition collapse_separators :: "string \<Rightarrow> string" where
  "collapse_separators p =
     (if starts_with p [bsl, bsl] then
        [bsl, bsl] @
        (case dropWhile (\<lambda>c. c = bsl) p of
           [] \<Rightarrow> []
         | c # cs \<Rightarrow> c # collapse_runs False cs)
      else collapse_runs False p)"

definition normalize_path :: "string \<Rightarrow> string \<Rightarrow> string" where
  "normalize_path raw cwd =
     (let u = unify raw in
      case classify u of
        DriveAbsolute \<Rightarrow> canonicalize u
      | Relative \<Rightarrow>
          if cwd \<noteq> [] then
            let base = unify cwd; joined = trim_end_char bsl base @ [bsl] @ u in
            (case classify base of
               DriveAbsolute \<Rightarrow> canonicalize joined
             | _ \<Rightarrow> collapse_separators joined)
          else collapse_separators u
      | _ \<Rightarrow> collapse_separators u)"

definition normalize_for_compare :: "string \<Rightarrow> string" where
  "normalize_for_compare path = normalize_path path []"

section \<open>The accumulator\<close>

definition TELEMETRY_EXES :: "string list" where "TELEMETRY_EXES = [''vctip.exe'']"
definition ENV_BLOCK_NAME :: string where "ENV_BLOCK_NAME = ''<environment-block>''"

record process_node =
  pn_pid :: u32
  pn_parent_pid :: u32
  pn_exe :: string
  pn_command_line :: string
  pn_children :: "u32 list"
  pn_tags :: "string list"

record path_access =
  pa_path :: string
  pa_kinds :: "access_kind set"
  pa_pids :: "u32 set"

record registry_access =
  ra_key :: string
  ra_value :: string
  ra_pids :: "u32 set"

record env_access =
  ea_name :: string
  ea_found :: bool
  ea_pids :: "u32 set"

record dependency_graph =
  dg_root_pid :: u32
  dg_processes :: "process_node list"
  dg_inputs :: "path_access list"
  dg_outputs :: "path_access list"
  dg_deletions :: "path_access list"
  dg_registry :: "registry_access list"
  dg_env :: "env_access list"
  dg_warnings :: "string list"

definition empty_graph :: dependency_graph where
  "empty_graph = \<lparr>dg_root_pid = 0, dg_processes = [], dg_inputs = [], dg_outputs = [],
     dg_deletions = [], dg_registry = [], dg_env = [], dg_warnings = []\<rparr>"

datatype bucket = BInput | BOutput | BDeletion

record accumulator =
  ac_inputs :: "(string, path_access) btree"
  ac_outputs :: "(string, path_access) btree"
  ac_deletions :: "(string, path_access) btree"
  ac_registry :: "(string \<times> string, registry_access) btree"
  ac_env :: "(string, env_access) btree"

definition accumulator_new :: accumulator where
  "accumulator_new =
     \<lparr>ac_inputs = [], ac_outputs = [], ac_deletions = [], ac_registry = [], ac_env = []\<rparr>"

fun bucket_map :: "bucket \<Rightarrow> accumulator \<Rightarrow> (string, path_access) btree" where
  "bucket_map BInput acc = ac_inputs acc"
| "bucket_map BOutput acc = ac_outputs acc"
| "bucket_map BDeletion acc = ac_deletions acc"

fun set_bucket_map :: "bucket \<Rightarrow> (string, path_access) btree \<Rightarrow> accumulator \<Rightarrow> accumulator" where
  "set_bucket_map BInput m acc = acc\<lparr>ac_inputs := m\<rparr>"
| "set_bucket_map BOutput m acc = acc\<lparr>ac_outputs := m\<rparr>"
| "set_bucket_map BDeletion m acc = acc\<lparr>ac_deletions := m\<rparr>"

definition add_path :: "bucket \<Rightarrow> string \<Rightarrow> access_kind \<Rightarrow> u32 \<Rightarrow> accumulator \<Rightarrow> accumulator" where
  "add_path b norm kind pid acc =
     set_bucket_map b
       (bt_upsert norm \<lparr>pa_path = norm, pa_kinds = {}, pa_pids = {}\<rparr>
          (\<lambda>e. e\<lparr>pa_kinds := insert kind (pa_kinds e), pa_pids := insert pid (pa_pids e)\<rparr>)
          (bucket_map b acc)) acc"

definition remove_path_for_pid :: "bucket \<Rightarrow> string \<Rightarrow> u32 \<Rightarrow> accumulator \<Rightarrow> accumulator" where
  "remove_path_for_pid b norm pid acc =
     (let m = bucket_map b acc in
      case map_of m norm of
        None \<Rightarrow> acc
      | Some e \<Rightarrow>
          (let e' = e\<lparr>pa_pids := pa_pids e - {pid}\<rparr> in
           if pa_pids e' = {} then set_bucket_map b (bt_remove norm m) acc
           else set_bucket_map b (bt_insert norm e' m) acc))"

definition is_device :: "string \<Rightarrow> bool" where
  "is_device norm \<longleftrightarrow>
     starts_with norm ([bsl, bsl] @ ''.'' @ [bsl]) \<or> contains_sub ([bsl] @ ''pipe'' @ [bsl]) norm"

section \<open>Folding events\<close>

definition fold_file ::
    "u32 \<Rightarrow> file_op \<Rightarrow> event \<Rightarrow> string \<Rightarrow> accumulator \<times> string set \<Rightarrow> accumulator \<times> string set" where
  "fold_file pid op ev cwd = (\<lambda>(acc, produced).
     let norm = normalize_path (ev_path ev) cwd; ok = succeeded ev in
     if is_device norm then (acc, produced)
     else case op of
       OpenRead \<Rightarrow> (add_path BInput norm (if ok then AkRead else AkProbeMiss) pid acc, produced)
     | OpenReadWrite \<Rightarrow>
         (add_path BOutput norm AkWrite pid (add_path BInput norm AkRead pid acc), insert norm produced)
     | OpenWrite \<Rightarrow> (add_path BOutput norm AkWrite pid acc, insert norm produced)
     | Probe \<Rightarrow> (add_path BInput norm (if ok then AkProbe else AkProbeMiss) pid acc, produced)
     | Enumerate \<Rightarrow> (add_path BInput norm AkEnumerate pid acc, produced)
     | Delete \<Rightarrow>
         (let acc1 = (if ok \<and> norm \<in> produced then remove_path_for_pid BOutput norm pid acc else acc)
          in (add_path BDeletion norm AkDelete pid acc1, produced))
     | Move \<Rightarrow>
         (let acc1 = (if ok \<and> norm \<in> produced
                      then remove_path_for_pid BInput norm pid (remove_path_for_pid BOutput norm pid acc)
                      else acc);
              acc2 = add_path BDeletion norm AkMove pid acc1
          in if ok \<and> ev_aux ev \<noteq> [] then
               let dst = normalize_path (ev_aux ev) cwd in
               if \<not> is_device dst then (add_path BOutput dst AkWrite pid acc2, insert dst produced)
               else (acc2, produced)
             else (acc2, produced))
     | CreateDir \<Rightarrow> (add_path BOutput norm AkWrite pid acc, insert norm produced)
     | RemoveDir \<Rightarrow>
         (let acc1 = (if ok \<and> norm \<in> produced then remove_path_for_pid BOutput norm pid acc else acc)
          in (add_path BDeletion norm AkDelete pid acc1, produced)))"

definition fold_event ::
    "u32 \<Rightarrow> string \<Rightarrow> event \<Rightarrow> accumulator \<times> string set \<Rightarrow> accumulator \<times> string set" where
  "fold_event pid cwd ev = (\<lambda>(acc, produced).
     case ev_kind ev of
       EvFile op extra \<Rightarrow> fold_file pid op ev cwd (acc, produced)
     | EvRegistry QueryValue vt \<Rightarrow>
         (acc\<lparr>ac_registry := bt_upsert (ev_path ev, ev_aux ev)
            \<lparr>ra_key = ev_path ev, ra_value = ev_aux ev, ra_pids = {}\<rparr>
            (\<lambda>e. e\<lparr>ra_pids := insert pid (ra_pids e)\<rparr>) (ac_registry acc)\<rparr>, produced)
     | EvEnv EnvRead \<Rightarrow>
         (acc\<lparr>ac_env := bt_upsert (ev_path ev) \<lparr>ea_name = ev_path ev, ea_found = False, ea_pids = {}\<rparr>
            (\<lambda>e. e\<lparr>ea_found := ea_found e \<or> succeeded ev, ea_pids := insert pid (ea_pids e)\<rparr>)
            (ac_env acc)\<rparr>, produced)
     | EvEnv EnvBlockRead \<Rightarrow>
         (acc\<lparr>ac_env := bt_upsert ENV_BLOCK_NAME \<lparr>ea_name = ENV_BLOCK_NAME, ea_found = True, ea_pids = {}\<rparr>
            (\<lambda>e. e\<lparr>ea_pids := insert pid (ea_pids e)\<rparr>) (ac_env acc)\<rparr>, produced)
     | _ \<Rightarrow> (acc, produced))"

definition is_telemetry :: "trace \<Rightarrow> bool" where
  "is_telemetry t \<longleftrightarrow> exe_name t \<in> set TELEMETRY_EXES"

definition fold_trace :: "trace \<Rightarrow> accumulator \<Rightarrow> accumulator" where
  "fold_trace t acc =
     (if is_telemetry t then acc
      else fst (fold (fold_event (tr_pid t) (tr_cwd t)) (tr_events t) (acc, {})))"

section \<open>The graph\<close>

definition dec_u32 :: "u32 \<Rightarrow> string" where "dec_u32 w = dec (unat w)"

definition node_of :: "trace \<Rightarrow> process_node" where
  "node_of t = \<lparr>pn_pid = tr_pid t, pn_parent_pid = tr_parent_pid t, pn_exe = tr_exe_path t,
     pn_command_line = tr_command_line t, pn_children = [],
     pn_tags = (if is_telemetry t then [''telemetry''] else []) @ (if tr_truncated t then [''truncated''] else [])\<rparr>"

definition truncated_warnings :: "trace list \<Rightarrow> string list" where
  "truncated_warnings ts =
     map (\<lambda>t. ''trace for pid '' @ dec_u32 (tr_pid t) @ '' is truncated (process killed mid-write?)'')
       (filter tr_truncated ts)"

definition link_children :: "(u32, process_node) btree \<Rightarrow> (u32, process_node) btree" where
  "link_children nodes =
     fold (\<lambda>(pid, parent_pid) ns.
             if parent_pid \<noteq> pid then
               (case map_of ns parent_pid of
                  None \<Rightarrow> ns
                | Some parent \<Rightarrow> bt_insert parent_pid (parent\<lparr>pn_children := pn_children parent @ [pid]\<rparr>) ns)
             else ns)
       (map (\<lambda>n. (pn_pid n, pn_parent_pid n)) (bt_values nodes)) nodes"

definition gap_warning :: "u32 set \<Rightarrow> u32 \<Rightarrow> event \<Rightarrow> string list" where
  "gap_warning pids pid ev =
     (case ev_kind ev of
        EvProcess ChildCreated child_pid \<Rightarrow>
          if child_pid \<noteq> 0 \<and> succeeded ev \<and> child_pid \<notin> pids
          then [''pid '' @ dec_u32 pid @ '' spawned child '' @ dec_u32 child_pid
                @ '' but no trace file exists (injection into the child failed?)'']
          else []
      | _ \<Rightarrow> [])"

definition gap_warnings :: "u32 set \<Rightarrow> trace list \<Rightarrow> string list" where
  "gap_warnings pids ts = concat (map (\<lambda>t. concat (map (gap_warning pids (tr_pid t)) (tr_events t))) ts)"

definition start_of :: "trace list \<Rightarrow> u32 \<Rightarrow> u64" where
  "start_of ts pid = (case find (\<lambda>t. tr_pid t = pid) ts of Some t \<Rightarrow> tr_start_filetime t | None \<Rightarrow> -1)"

definition graph_roots :: "u32 set \<Rightarrow> trace list \<Rightarrow> (u32, process_node) btree \<Rightarrow> u32 list" where
  "graph_roots pids ts nodes =
     sort_key (start_of ts)
       (map pn_pid (filter (\<lambda>n. pn_parent_pid n \<notin> pids \<or> pn_parent_pid n = pn_pid n) (bt_values nodes)))"

definition build_graph :: "trace list \<Rightarrow> dependency_graph" where
  "build_graph ts =
     (if ts = [] then empty_graph\<lparr>dg_warnings := [''no traces provided'']\<rparr>
      else
        let pids = tr_pid ` set ts;
            nodes = link_children (fold (\<lambda>t. bt_insert (tr_pid t) (node_of t)) ts []);
            roots = graph_roots pids ts nodes;
            root_pid = (case roots of [] \<Rightarrow> tr_pid (hd ts) | r # _ \<Rightarrow> r);
            warnings = truncated_warnings ts @ gap_warnings pids ts
              @ (if length roots > 1
                 then [dec (length roots) @ '' root processes found; using earliest-started pid ''
                       @ dec_u32 root_pid @ '' as root'']
                 else []);
            acc = fold fold_trace ts accumulator_new
        in \<lparr>dg_root_pid = root_pid, dg_processes = bt_values nodes, dg_inputs = bt_values (ac_inputs acc),
            dg_outputs = bt_values (ac_outputs acc), dg_deletions = bt_values (ac_deletions acc),
            dg_registry = bt_values (ac_registry acc), dg_env = bt_values (ac_env acc),
            dg_warnings = warnings\<rparr>)"

section \<open>The accumulator refines a set of (bucket, path, pid) triples\<close>

definition touched :: "bucket \<Rightarrow> string \<Rightarrow> u32 \<Rightarrow> accumulator \<Rightarrow> bool" where
  "touched b n p acc \<longleftrightarrow> (\<exists>e. map_of (bucket_map b acc) n = Some e \<and> p \<in> pa_pids e)"

definition acc_inv :: "accumulator \<Rightarrow> bool" where
  "acc_inv acc \<longleftrightarrow> (\<forall>b. bt_inv (bucket_map b acc)
     \<and> (\<forall>n e. map_of (bucket_map b acc) n = Some e \<longrightarrow> pa_path e = n \<and> pa_pids e \<noteq> {}))"

lemma bucket_map_set [simp]:
  "bucket_map b (set_bucket_map b' m acc) = (if b = b' then m else bucket_map b acc)"
  by (cases b; cases b') auto

lemma bucket_map_other [simp]:
  "bucket_map b (acc\<lparr>ac_registry := r\<rparr>) = bucket_map b acc"
  "bucket_map b (acc\<lparr>ac_env := v\<rparr>) = bucket_map b acc"
  by (cases b; simp)+

lemma touched_other [simp]:
  "touched b n p (acc\<lparr>ac_registry := r\<rparr>) = touched b n p acc"
  "touched b n p (acc\<lparr>ac_env := v\<rparr>) = touched b n p acc"
  by (simp_all add: touched_def)

lemma acc_inv_other [simp]:
  "acc_inv (acc\<lparr>ac_registry := r\<rparr>) = acc_inv acc"
  "acc_inv (acc\<lparr>ac_env := v\<rparr>) = acc_inv acc"
  by (simp_all add: acc_inv_def)

lemma acc_inv_new [simp]: "acc_inv accumulator_new"
proof -
  have "bucket_map b accumulator_new = []" for b by (cases b) (simp_all add: accumulator_new_def)
  then show ?thesis by (simp add: acc_inv_def)
qed

lemma touched_new [simp]: "\<not> touched b n p accumulator_new"
  by (cases b) (simp_all add: touched_def accumulator_new_def)

lemma acc_inv_bt: "acc_inv acc \<Longrightarrow> bt_inv (bucket_map b acc)"
  by (simp add: acc_inv_def)

lemma bucket_map_add:
  assumes "acc_inv acc"
  shows "map_of (bucket_map b (add_path b n k p acc)) = (map_of (bucket_map b acc))
    (n \<mapsto> (let e = (case map_of (bucket_map b acc) n of
                       None \<Rightarrow> \<lparr>pa_path = n, pa_kinds = {}, pa_pids = {}\<rparr> | Some e \<Rightarrow> e)
            in e\<lparr>pa_kinds := insert k (pa_kinds e), pa_pids := insert p (pa_pids e)\<rparr>))"
  by (simp add: add_path_def bt.look_upsert [OF acc_inv_bt [OF assms]] Let_def)

lemma bucket_map_add_other: "b' \<noteq> b \<Longrightarrow> bucket_map b' (add_path b n k p acc) = bucket_map b' acc"
  by (simp add: add_path_def)

lemma acc_inv_add [simp]:
  assumes "acc_inv acc"
  shows "acc_inv (add_path b n k p acc)"
  unfolding acc_inv_def
proof (intro allI)
  fix b'
  have bt: "bt_inv (bucket_map b' (add_path b n k p acc))"
    using assms by (simp add: add_path_def acc_inv_bt bt.inv_upsert)
  have "pa_path e = m \<and> pa_pids e \<noteq> {}"
    if "map_of (bucket_map b' (add_path b n k p acc)) m = Some e" for m e
  proof (cases "b' = b \<and> m = n")
    case True
    then show ?thesis using that assms
      by (auto simp: bucket_map_add [OF assms] Let_def acc_inv_def split: option.splits)
  next
    case False
    then have "map_of (bucket_map b' acc) m = Some e"
      using that by (cases "b' = b") (auto simp: bucket_map_add [OF assms] bucket_map_add_other)
    then show ?thesis using assms by (auto simp: acc_inv_def)
  qed
  then show "bt_inv (bucket_map b' (add_path b n k p acc)) \<and>
    (\<forall>m e. map_of (bucket_map b' (add_path b n k p acc)) m = Some e \<longrightarrow> pa_path e = m \<and> pa_pids e \<noteq> {})"
    using bt by blast
qed

lemma touched_add [simp]:
  assumes "acc_inv acc"
  shows "touched b' n' p' (add_path b n k p acc) \<longleftrightarrow> touched b' n' p' acc \<or> (b', n', p') = (b, n, p)"
  by (cases "b' = b"; cases "n' = n")
     (auto simp: touched_def bucket_map_add [OF assms] bucket_map_add_other Let_def split: option.splits)

lemma bt_insert_look: "bt_inv m \<Longrightarrow> map_of (bt_insert k v m) = (map_of m)(k \<mapsto> v)"
  by (simp add: bt_insert_def bt.look_upsert)

lemma bt_inv_insert: "bt_inv m \<Longrightarrow> bt_inv (bt_insert k v m)"
  by (simp add: bt_insert_def bt.inv_upsert)

lemma bucket_map_remove:
  assumes "acc_inv acc"
  shows "map_of (bucket_map b (remove_path_for_pid b n p acc)) =
    (case map_of (bucket_map b acc) n of
       None \<Rightarrow> map_of (bucket_map b acc)
     | Some e \<Rightarrow> (map_of (bucket_map b acc))
         (n := if pa_pids e - {p} = {} then None else Some (e\<lparr>pa_pids := pa_pids e - {p}\<rparr>)))"
  using acc_inv_bt [OF assms]
  by (auto simp: remove_path_for_pid_def Let_def bt.look_remove bt_insert_look split: option.splits)

lemma bucket_map_remove_other: "b' \<noteq> b \<Longrightarrow> bucket_map b' (remove_path_for_pid b n p acc) = bucket_map b' acc"
  by (auto simp: remove_path_for_pid_def Let_def split: option.splits)

lemma acc_inv_remove [simp]:
  assumes "acc_inv acc"
  shows "acc_inv (remove_path_for_pid b n p acc)"
  unfolding acc_inv_def
proof (intro allI)
  fix b'
  have bt: "bt_inv (bucket_map b' (remove_path_for_pid b n p acc))"
    using acc_inv_bt [OF assms]
    by (auto simp: remove_path_for_pid_def Let_def bt.inv_remove bt_inv_insert split: option.splits)
  have "pa_path e = m \<and> pa_pids e \<noteq> {}"
    if "map_of (bucket_map b' (remove_path_for_pid b n p acc)) m = Some e" for m e
  proof (cases "b' = b")
    case True
    then show ?thesis using that assms
      by (auto simp: bucket_map_remove [OF assms] acc_inv_def split: option.splits if_splits)
  next
    case False
    then show ?thesis using that assms by (auto simp: bucket_map_remove_other acc_inv_def)
  qed
  then show "bt_inv (bucket_map b' (remove_path_for_pid b n p acc)) \<and>
    (\<forall>m e. map_of (bucket_map b' (remove_path_for_pid b n p acc)) m = Some e \<longrightarrow> pa_path e = m \<and> pa_pids e \<noteq> {})"
    using bt by blast
qed

lemma touched_remove [simp]:
  assumes "acc_inv acc"
  shows "touched b' n' p' (remove_path_for_pid b n p acc) \<longleftrightarrow> touched b' n' p' acc \<and> (b', n', p') \<noteq> (b, n, p)"
  by (cases "b' = b"; cases "n' = n")
     (auto simp: touched_def bucket_map_remove [OF assms] bucket_map_remove_other split: option.splits)

section \<open>What one event means for one path\<close>

definition names :: "string \<Rightarrow> event \<Rightarrow> string \<Rightarrow> bool" where
  "names cwd ev n \<longleftrightarrow> normalize_path (ev_path ev) cwd = n \<and> \<not> is_device n"

definition file_op_of :: "event \<Rightarrow> file_op option" where
  "file_op_of ev = (case ev_kind ev of EvFile op _ \<Rightarrow> Some op | _ \<Rightarrow> None)"

definition reads_path :: "string \<Rightarrow> event \<Rightarrow> string \<Rightarrow> bool" where
  "reads_path cwd ev n \<longleftrightarrow> names cwd ev n \<and>
     file_op_of ev \<in> {Some OpenRead, Some OpenReadWrite, Some Probe, Some Enumerate}"

definition renames_onto :: "string \<Rightarrow> event \<Rightarrow> string \<Rightarrow> bool" where
  "renames_onto cwd ev n \<longleftrightarrow>
     file_op_of ev = Some Move \<and> succeeded ev \<and> ev_aux ev \<noteq> [] \<and> \<not> is_device (normalize_path (ev_path ev) cwd)
     \<and> normalize_path (ev_aux ev) cwd = n \<and> \<not> is_device n"

definition writes_path :: "string \<Rightarrow> event \<Rightarrow> string \<Rightarrow> bool" where
  "writes_path cwd ev n \<longleftrightarrow>
     names cwd ev n \<and> file_op_of ev \<in> {Some OpenWrite, Some OpenReadWrite, Some CreateDir}
     \<or> renames_onto cwd ev n"

definition renames_away :: "string \<Rightarrow> event \<Rightarrow> string \<Rightarrow> bool" where
  "renames_away cwd ev n \<longleftrightarrow> names cwd ev n \<and> file_op_of ev = Some Move \<and> succeeded ev"

definition unlinks :: "string \<Rightarrow> event \<Rightarrow> string \<Rightarrow> bool" where
  "unlinks cwd ev n \<longleftrightarrow> names cwd ev n \<and> succeeded ev \<and> file_op_of ev \<in> {Some Delete, Some Move, Some RemoveDir}"

text \<open>
  The specification follows one path through one trace: whether the process has produced it
  so far, and whether it currently counts as an input (an output).
\<close>

definition input_step :: "string \<Rightarrow> string \<Rightarrow> event \<Rightarrow> bool \<times> bool \<Rightarrow> bool \<times> bool" where
  "input_step cwd n ev = (\<lambda>(made, inp).
     (made \<or> writes_path cwd ev n,
      reads_path cwd ev n \<or> (inp \<and> \<not> (made \<and> renames_away cwd ev n))))"

definition output_step :: "string \<Rightarrow> string \<Rightarrow> event \<Rightarrow> bool \<times> bool \<Rightarrow> bool \<times> bool" where
  "output_step cwd n ev = (\<lambda>(made, out).
     (made \<or> writes_path cwd ev n,
      writes_path cwd ev n \<or> (out \<and> \<not> (made \<and> unlinks cwd ev n))))"

definition path_fate ::
    "(string \<Rightarrow> string \<Rightarrow> event \<Rightarrow> bool \<times> bool \<Rightarrow> bool \<times> bool) \<Rightarrow> string \<Rightarrow> trace \<Rightarrow> bool \<Rightarrow> bool" where
  "path_fate step n t b = snd (fold (step (tr_cwd t) n) (tr_events t) (False, b))"

definition spec_member ::
    "(string \<Rightarrow> string \<Rightarrow> event \<Rightarrow> bool \<times> bool \<Rightarrow> bool \<times> bool) \<Rightarrow> trace list \<Rightarrow> string \<Rightarrow> u32 \<Rightarrow> bool" where
  "spec_member step ts n p =
     fold (path_fate step n) (filter (\<lambda>t. tr_pid t = p \<and> \<not> is_telemetry t) ts) False"

lemmas event_meaning = names_def file_op_of_def reads_path_def renames_onto_def writes_path_def
  renames_away_def unlinks_def

lemma fold_event_step:
  assumes inv: "acc_inv acc"
  shows "acc_inv (fst (fold_event pid cwd ev (acc, produced)))"
    and "n \<in> snd (fold_event pid cwd ev (acc, produced)) \<longleftrightarrow> n \<in> produced \<or> writes_path cwd ev n"
    and "touched BInput n p (fst (fold_event pid cwd ev (acc, produced))) \<longleftrightarrow>
      (if pid = p then snd (input_step cwd n ev (n \<in> produced, touched BInput n p acc))
       else touched BInput n p acc)"
    and "touched BOutput n p (fst (fold_event pid cwd ev (acc, produced))) \<longleftrightarrow>
      (if pid = p then snd (output_step cwd n ev (n \<in> produced, touched BOutput n p acc))
       else touched BOutput n p acc)"
  unfolding fold_event_def
  by (cases "ev_kind ev"; simp add: inv event_meaning input_step_def output_step_def
        split: registry_op.splits env_op.splits;
      rename_tac op extra; case_tac op;
      auto simp: inv fold_file_def event_meaning input_step_def output_step_def Let_def)+

lemma fold_events:
  assumes "acc_inv acc"
  shows "acc_inv (fst (fold (fold_event pid cwd) evs (acc, produced)))
    \<and> (touched BInput n p (fst (fold (fold_event pid cwd) evs (acc, produced))) \<longleftrightarrow>
        (if pid = p then snd (fold (input_step cwd n) evs (n \<in> produced, touched BInput n p acc))
         else touched BInput n p acc))
    \<and> (touched BOutput n p (fst (fold (fold_event pid cwd) evs (acc, produced))) \<longleftrightarrow>
        (if pid = p then snd (fold (output_step cwd n) evs (n \<in> produced, touched BOutput n p acc))
         else touched BOutput n p acc))"
  using assms
proof (induction evs arbitrary: acc produced)
  case Nil
  then show ?case by simp
next
  case (Cons e evs)
  obtain acc1 prod1 where s: "fold_event pid cwd e (acc, produced) = (acc1, prod1)" by fastforce
  note step = fold_event_step [OF Cons.prems, where pid = pid and cwd = cwd and ev = e and produced = produced,
      unfolded s fst_conv snd_conv]
  have io: "input_step cwd n e (n \<in> produced, touched BInput n p acc) = (n \<in> prod1, touched BInput n p acc1)"
    "output_step cwd n e (n \<in> produced, touched BOutput n p acc) = (n \<in> prod1, touched BOutput n p acc1)"
    if "pid = p"
    using step(2) [of n] step(3,4) [of n p] that by (auto intro!: prod_eqI simp: input_step_def output_step_def)
  have "pid \<noteq> p \<Longrightarrow> touched BInput n p acc1 = touched BInput n p acc"
    "pid \<noteq> p \<Longrightarrow> touched BOutput n p acc1 = touched BOutput n p acc"
    using step(3,4) [of n p] by simp_all
  then show ?case
    using Cons.IH [OF step(1), of prod1] io unfolding fold_simps(2) s by (cases "pid = p") simp_all
qed

lemma fold_traces:
  assumes "acc_inv acc"
  shows "acc_inv (fold fold_trace ts acc)
    \<and> (touched BInput n p (fold fold_trace ts acc) \<longleftrightarrow>
        fold (path_fate input_step n) (filter (\<lambda>t. tr_pid t = p \<and> \<not> is_telemetry t) ts) (touched BInput n p acc))
    \<and> (touched BOutput n p (fold fold_trace ts acc) \<longleftrightarrow>
        fold (path_fate output_step n) (filter (\<lambda>t. tr_pid t = p \<and> \<not> is_telemetry t) ts) (touched BOutput n p acc))"
  using assms
proof (induction ts arbitrary: acc)
  case Nil
  then show ?case by simp
next
  case (Cons t ts)
  note f = fold_events [OF Cons.prems, of "tr_pid t" "tr_cwd t" "tr_events t" "{}" n p]
  have inv: "acc_inv (fold_trace t acc)" using f Cons.prems by (simp add: fold_trace_def)
  have step: "touched BInput n p (fold_trace t acc) =
      (if tr_pid t = p \<and> \<not> is_telemetry t then path_fate input_step n t (touched BInput n p acc)
       else touched BInput n p acc)"
    "touched BOutput n p (fold_trace t acc) =
      (if tr_pid t = p \<and> \<not> is_telemetry t then path_fate output_step n t (touched BOutput n p acc)
       else touched BOutput n p acc)"
    using f by (auto simp: fold_trace_def path_fate_def)
  show ?case using Cons.IH [OF inv] step by (simp add: comp_def)
qed

lemma fold_traces_inv: "acc_inv (fold fold_trace ts accumulator_new)"
  using fold_traces [OF acc_inv_new] by blast

lemma touched_values:
  assumes "acc_inv acc"
  shows "(\<exists>pa \<in> set (bt_values (bucket_map b acc)). pa_path pa = n \<and> p \<in> pa_pids pa) \<longleftrightarrow> touched b n p acc"
proof -
  have "pa_path e = m" if "map_of (bucket_map b acc) m = Some e" for m e
    using assms that unfolding acc_inv_def by blast
  then show ?thesis
    unfolding touched_def bt_lookup_values [OF acc_inv_bt [OF assms]] Bex_def by metis
qed

lemma build_graph_sets:
  "dg_inputs (build_graph ts) = bt_values (bucket_map BInput (fold fold_trace ts accumulator_new))"
  "dg_outputs (build_graph ts) = bt_values (bucket_map BOutput (fold fold_trace ts accumulator_new))"
  by (simp_all add: build_graph_def empty_graph_def accumulator_new_def bt_values_def Let_def)

lemma graph_inputs_spec:
  "(\<exists>pa \<in> set (dg_inputs (build_graph ts)). pa_path pa = n \<and> p \<in> pa_pids pa) \<longleftrightarrow> spec_member input_step ts n p"
  unfolding build_graph_sets touched_values [OF fold_traces_inv] spec_member_def
  using fold_traces [OF acc_inv_new, of ts n p] by simp

lemma graph_outputs_spec:
  "(\<exists>pa \<in> set (dg_outputs (build_graph ts)). pa_path pa = n \<and> p \<in> pa_pids pa) \<longleftrightarrow> spec_member output_step ts n p"
  unfolding build_graph_sets touched_values [OF fold_traces_inv] spec_member_def
  using fold_traces [OF acc_inv_new, of ts n p] by simp


text \<open>
  The output set refines its specification in the same way: a write, a directory
  creation or the destination of a successful rename makes \<open>n\<close> an output of \<open>p\<close>, and only a
  successful delete, rename or directory removal by the same trace, after it wrote \<open>n\<close>, takes it
  away. A failed delete or one by another process never drops an output.
\<close>
theorem graph_outputs_refine:
  "(\<exists>pa \<in> set (dg_outputs (build_graph ts)). pa_path pa = n \<and> p \<in> pa_pids pa) \<longleftrightarrow> spec_member output_step ts n p"
  by (rule graph_outputs_spec)

section \<open>Reads survive\<close>

lemma input_fold_kept:
  assumes "\<forall>ev \<in> set evs. \<not> renames_away cwd ev n"
  shows "snd (fold (input_step cwd n) evs (m, b)) \<longleftrightarrow> b \<or> (\<exists>ev \<in> set evs. reads_path cwd ev n)"
  using assms by (induction evs arbitrary: m b) (auto simp: input_step_def)

lemma input_kept_unmade:
  assumes "\<forall>ev \<in> set evs. \<not> writes_path cwd ev n"
  shows "snd (fold (input_step cwd n) evs (False, b)) \<longleftrightarrow> b \<or> (\<exists>ev \<in> set evs. reads_path cwd ev n)"
  using assms by (induction evs arbitrary: b) (auto simp: input_step_def)

definition keeps_reads :: "string \<Rightarrow> trace \<Rightarrow> bool" where
  "keeps_reads n t \<longleftrightarrow>
     (\<forall>ev \<in> set (tr_events t). \<not> writes_path (tr_cwd t) ev n)
     \<or> (\<forall>ev \<in> set (tr_events t). \<not> renames_away (tr_cwd t) ev n)"

lemma path_fate_keeps:
  "keeps_reads n t \<Longrightarrow>
   path_fate input_step n t b \<longleftrightarrow> b \<or> (\<exists>ev \<in> set (tr_events t). reads_path (tr_cwd t) ev n)"
  unfolding keeps_reads_def path_fate_def
  using input_fold_kept [of "tr_events t" "tr_cwd t" n False b] input_kept_unmade [of "tr_events t" "tr_cwd t" n b]
  by argo

lemma fold_path_fate_keeps:
  assumes "\<forall>t \<in> set ts. keeps_reads n t"
  shows "fold (path_fate input_step n) ts b \<longleftrightarrow>
    b \<or> (\<exists>t \<in> set ts. \<exists>ev \<in> set (tr_events t). reads_path (tr_cwd t) ev n)"
  using assms by (induction ts arbitrary: b) (auto simp: path_fate_keeps)

lemma read_is_input:
  assumes "t \<in> set ts" "\<not> is_telemetry t" "ev \<in> set (tr_events t)" "reads_path (tr_cwd t) ev n"
    and "\<forall>t' \<in> set ts. tr_pid t' = tr_pid t \<longrightarrow> keeps_reads n t'"
  shows "spec_member input_step ts n (tr_pid t)"
proof -
  have keep: "\<forall>t' \<in> set (filter (\<lambda>t'. tr_pid t' = tr_pid t \<and> \<not> is_telemetry t') ts). keeps_reads n t'"
    using assms(5) by auto
  show ?thesis
    unfolding spec_member_def fold_path_fate_keeps [OF keep] using assms(1-4) by auto
qed

text \<open>
  Reads are never lost by location: whatever a traced process reads, probes or lists
  under a non-device path is an input of the graph unless a trace of the same pid both
  writes that path and successfully renames it away; in particular a pre-existing file that
  is only read and then moved or deleted stays an input.
\<close>
theorem read_never_dropped:
  assumes "t \<in> set ts" "\<not> is_telemetry t" "ev \<in> set (tr_events t)" "reads_path (tr_cwd t) ev n"
    and "\<forall>t' \<in> set ts. tr_pid t' = tr_pid t \<longrightarrow> keeps_reads n t'"
  shows "\<exists>pa \<in> set (dg_inputs (build_graph ts)). pa_path pa = n \<and> tr_pid t \<in> pa_pids pa"
  using read_is_input [OF assms] by (simp add: graph_inputs_spec)

definition sample_event :: "file_op \<Rightarrow> string \<Rightarrow> string \<Rightarrow> u32 \<Rightarrow> event" where
  "sample_event op path aux status = \<lparr>ev_kind = EvFile op 0, ev_status = status, ev_tid = 1, ev_qpc = 0,
     ev_path = path, ev_aux = aux\<rparr>"

definition sample_trace :: "event list \<Rightarrow> trace" where
  "sample_trace evs = \<lparr>tr_version = 0, tr_pid = 10, tr_parent_pid = 1, tr_qpc_frequency = 1, tr_start_qpc = 0,
     tr_start_filetime = 10, tr_exe_path = ''cl.exe'', tr_command_line = [], tr_cwd = [], tr_events = evs,
     tr_truncated = False\<rparr>"

lemma sample_not_telemetry: "\<not> is_telemetry (sample_trace evs)"
  by (simp add: is_telemetry_def exe_name_def last_component_def sample_trace_def TELEMETRY_EXES_def
      to_ascii_lowercase_def lower_char_def is_ascii_upper_def)

lemmas sample_simps = sample_event_def sample_trace_def event_meaning succeeded_def normalize_path_def unify_def
  classify_def canonicalize_def is_device_def starts_with_def to_ascii_lowercase_def lower_char_def
  is_ascii_upper_def is_ascii_lower_def is_ascii_alphabetic_def replace_char_def

definition sample_h :: string where "sample_h = ''c:'' @ [bsl] @ ''a.h''"
definition sample_t :: string where "sample_t = ''c:'' @ [bsl] @ ''a.t''"
definition sample_pipe_h :: string where "sample_pipe_h = ''c:'' @ [bsl] @ ''pipe'' @ [bsl] @ ''a.h''"

lemma sample_paths:
  "normalize_path sample_h [] = sample_h" "\<not> is_device sample_h"
  "normalize_path sample_t [] = sample_t" "\<not> is_device sample_t"
  "normalize_path sample_pipe_h [] = sample_pipe_h" "is_device sample_pipe_h" "sample_h \<noteq> sample_t"
  by (simp_all add: sample_simps sample_h_def sample_t_def sample_pipe_h_def)

lemmas sample_event_simps = sample_event_def event_meaning succeeded_def sample_paths

theorem read_never_dropped_witness:
  "\<exists>pa \<in> set (dg_inputs (build_graph [sample_trace [sample_event OpenRead sample_h [] 0, sample_event Delete sample_h [] 0]])).
     pa_path pa = sample_h \<and> tr_pid (sample_trace []) \<in> pa_pids pa"
proof -
  let ?e = "sample_event OpenRead sample_h [] 0"
  let ?t = "sample_trace [?e, sample_event Delete sample_h [] 0]"
  have "\<exists>pa \<in> set (dg_inputs (build_graph [?t])). pa_path pa = sample_h \<and> tr_pid ?t \<in> pa_pids pa"
  proof (rule read_never_dropped)
    show "?t \<in> set [?t]" by simp
    show "\<not> is_telemetry ?t" by (rule sample_not_telemetry)
    show "?e \<in> set (tr_events ?t)" by (simp add: sample_trace_def)
    show "reads_path (tr_cwd ?t) ?e sample_h" by (simp add: sample_event_simps sample_trace_def)
    show "\<forall>t' \<in> set [?t]. tr_pid t' = tr_pid ?t \<longrightarrow> keeps_reads sample_h t'"
      by (simp add: keeps_reads_def sample_event_simps sample_trace_def)
  qed
  then show ?thesis by (simp add: sample_trace_def)
qed

section \<open>Where reads are lost\<close>

lemma input_has_pid:
  assumes "pa \<in> set (dg_inputs (build_graph ts))"
  shows "\<exists>p. spec_member input_step ts (pa_path pa) p"
proof -
  let ?acc = "fold fold_trace ts accumulator_new"
  obtain k where "map_of (bucket_map BInput ?acc) k = Some pa"
    using assms bt_lookup_values [OF acc_inv_bt [OF fold_traces_inv]] unfolding build_graph_sets by blast
  then have "pa_pids pa \<noteq> {}" using fold_traces_inv [of ts] unfolding acc_inv_def by blast
  then show ?thesis using graph_inputs_spec assms by blast
qed

lemma input_fold_made:
  "fst (fold (input_step cwd n) evs (m, b)) \<longleftrightarrow> m \<or> (\<exists>ev \<in> set evs. writes_path cwd ev n)"
  by (induction evs arbitrary: m b) (auto simp: input_step_def)

lemma rename_forgets:
  assumes "tr_events t = evs @ [mv]" "w \<in> set evs" "writes_path (tr_cwd t) w n" "renames_away (tr_cwd t) mv n"
  shows "\<not> path_fate input_step n t b"
proof -
  have "fst (fold (input_step (tr_cwd t) n) evs (False, b))" using assms input_fold_made by blast
  moreover have "\<not> reads_path (tr_cwd t) mv n" using assms(4) by (auto simp: renames_away_def reads_path_def)
  ultimately show ?thesis using assms(1,4)
    by (cases "fold (input_step (tr_cwd t) n) evs (False, b)") (simp add: path_fate_def input_step_def)
qed

text \<open>
  The rename rule forgets more than the process's own temporary files: once a trace
  holds any write event for \<open>n\<close>, one that failed included, a later successful rename of \<open>n\<close>
  removes it from the inputs, although an earlier event of the trace may have read the
  pre-existing file's contents.
\<close>
theorem rename_drops_earlier_read:
  assumes "tr_events t = evs @ [mv]" "w \<in> set evs" "writes_path (tr_cwd t) w n" "renames_away (tr_cwd t) mv n"
  shows "\<forall>pa \<in> set (dg_inputs (build_graph [t])). pa_path pa \<noteq> n"
proof
  fix pa assume pa: "pa \<in> set (dg_inputs (build_graph [t]))"
  show "pa_path pa \<noteq> n"
  proof
    assume "pa_path pa = n"
    then obtain p where "spec_member input_step [t] n p" using input_has_pid [OF pa] by auto
    then show False using rename_forgets [OF assms] by (auto simp: spec_member_def split: if_splits)
  qed
qed

theorem rename_drops_earlier_read_witness:
  "sample_h \<notin> pa_path ` set (dg_inputs (build_graph [sample_trace [sample_event OpenRead sample_h [] 0,
      sample_event OpenWrite sample_h [] 5, sample_event Move sample_h sample_t 0]]))"
proof -
  have "\<forall>pa \<in> set (dg_inputs (build_graph [sample_trace [sample_event OpenRead sample_h [] 0,
      sample_event OpenWrite sample_h [] 5, sample_event Move sample_h sample_t 0]])). pa_path pa \<noteq> sample_h"
    by (rule rename_drops_earlier_read [where w = "sample_event OpenWrite sample_h [] 5"
          and evs = "[sample_event OpenRead sample_h [] 0, sample_event OpenWrite sample_h [] 5]"
          and mv = "sample_event Move sample_h sample_t 0"])
       (simp_all add: sample_event_simps sample_trace_def)
  then show ?thesis by (metis imageE)
qed

lemma spec_member_not_device:
  assumes "is_device n"
  shows "\<not> spec_member input_step ts n p"
proof -
  have "\<not> reads_path cwd ev n" for cwd ev using assms by (simp add: reads_path_def names_def)
  then have "snd (fold (input_step cwd n) evs (m, False)) = False" for cwd evs m
    by (induction evs arbitrary: m) (auto simp: input_step_def)
  then have "\<not> path_fate input_step n t False" for t by (simp add: path_fate_def)
  then have "\<not> fold (path_fate input_step n) ts' False" for ts'
    by (induction ts') auto
  then show ?thesis by (simp add: spec_member_def)
qed

text \<open>
  A path with a directory component \<open>pipe\<close> is taken for a device: whatever traces are
  given, no such path is ever an input, so a header read from an ordinary directory of that
  name is dropped by location.
\<close>
theorem pipe_directory_never_input:
  assumes "contains_sub ([bsl] @ ''pipe'' @ [bsl]) n"
  shows "\<forall>pa \<in> set (dg_inputs (build_graph ts)). pa_path pa \<noteq> n"
  using input_has_pid spec_member_not_device assms by (metis is_device_def)

theorem pipe_directory_never_input_witness:
  "sample_pipe_h \<notin> pa_path ` set (dg_inputs (build_graph [sample_trace [sample_event OpenRead sample_pipe_h [] 0]]))"
proof -
  have "\<forall>pa \<in> set (dg_inputs (build_graph [sample_trace [sample_event OpenRead sample_pipe_h [] 0]])).
     pa_path pa \<noteq> sample_pipe_h"
    by (rule pipe_directory_never_input) (simp add: sample_pipe_h_def)
  then show ?thesis by (metis imageE)
qed

section \<open>Normal forms\<close>

definition plain_char :: "char \<Rightarrow> bool" where
  "plain_char c \<longleftrightarrow> lower_char c = c \<and> c \<noteq> CHR ''/''"

lemma lower_char_not_slash: "lower_char c = CHR ''/'' \<Longrightarrow> c = CHR ''/''"
  by (subst (asm) lower_char_eq_non_upper) (simp_all add: is_ascii_lower_def is_ascii_upper_def)

lemma plain_char_bsl [simp]: "plain_char bsl"
  by (simp add: plain_char_def lower_char_def is_ascii_upper_def)

lemma plain_lower_char: "d \<noteq> CHR ''/'' \<Longrightarrow> plain_char (lower_char d)"
  using lower_char_not_slash by (auto simp: plain_char_def)

lemma unify_plain: "c \<in> set (unify raw) \<Longrightarrow> plain_char c"
proof -
  define low where "low = to_ascii_lowercase (replace_char (CHR ''/'') bsl raw)"
  have low: "plain_char c" if cl: "c \<in> set low" for c
  proof -
    obtain d where "c = lower_char (if d = CHR ''/'' then bsl else d)"
      using cl by (auto simp: low_def to_ascii_lowercase_def replace_char_def)
    then show ?thesis by (simp add: plain_lower_char)
  qed
  assume "c \<in> set (unify raw)"
  then consider "c \<in> set low" | "c = bsl"
    unfolding unify_def Let_def low_def [symmetric]
    by (auto simp: strip_prefix_Some split: option.splits)
  then show ?thesis using low by cases auto
qed

lemma plain_unify:
  assumes "\<forall>c \<in> set p. plain_char c" "\<not> starts_with p [bsl]"
  shows "unify p = p"
proof -
  have "replace_char (CHR ''/'') bsl p = p" "to_ascii_lowercase p = p"
    using assms(1) by (induction p) (auto simp: replace_char_def to_ascii_lowercase_def plain_char_def)
  moreover have "\<not> prefix (bsl # q) p" for q using assms(2) by (auto simp: starts_with_def prefix_def)
  then have "strip_prefix (bsl # q) p = None" for q by (simp add: strip_prefix_None)
  ultimately show ?thesis by (simp add: unify_def)
qed

definition good_segment :: "string \<Rightarrow> bool" where
  "good_segment s \<longleftrightarrow> s \<noteq> [] \<and> s \<noteq> ''.'' \<and> s \<noteq> ''..'' \<and> bsl \<notin> set s"

lemma resolve_segments_good:
  "list_all good_segment comps \<Longrightarrow> \<forall>s \<in> set segs. bsl \<notin> set s \<Longrightarrow>
   list_all good_segment (resolve_segments comps segs)"
proof (induction comps segs rule: resolve_segments.induct)
  case (2 comps seg segs)
  have "list_all good_segment (butlast comps)"
    using 2(4) by (auto simp: list_all_iff dest: in_set_butlastD)
  moreover have "good_segment seg" if "seg \<noteq> []" "seg \<noteq> ''.''" "seg \<noteq> ''..''"
    using that 2(5) by (simp add: good_segment_def)
  ultimately show ?case using 2 by auto
qed simp

lemma resolve_segments_id:
  "list_all good_segment segs \<Longrightarrow> resolve_segments comps segs = comps @ segs"
  by (induction segs arbitrary: comps) (auto simp: good_segment_def)

lemma resolve_segments_chars:
  "s \<in> set (resolve_segments comps segs) \<Longrightarrow> s \<in> set comps \<union> set segs"
  by (induction comps segs rule: resolve_segments.induct) (auto split: if_splits dest: in_set_butlastD)

lemma split_on_chars: "s \<in> set (split_on x xs) \<Longrightarrow> c \<in> set s \<Longrightarrow> c \<in> set xs"
proof (induction xs arbitrary: s)
  case (Cons y ys)
  obtain z zs where "split_on x ys = z # zs" by (cases "split_on x ys") auto
  then show ?case using Cons.prems Cons.IH [of z] Cons.IH [of s] by (auto split: if_splits)
qed simp

lemma split_on_segments_of:
  "list_all good_segment ss \<Longrightarrow> ss \<noteq> [] \<Longrightarrow> split_on bsl (concat (map (\<lambda>c. bsl # c) ss)) = [] # ss"
proof (induction ss)
  case (Cons s ss)
  have s: "bsl \<notin> set s" using Cons.prems by (simp add: good_segment_def)
  show ?case
  proof (cases "ss = []")
    case True
    then show ?thesis using s by (simp add: split_on_no_sep)
  next
    case False
    then obtain r where r: "concat (map (\<lambda>c. bsl # c) ss) = bsl # r" by (cases ss) auto
    then have "split_on bsl r = ss" using Cons False by simp
    then show ?thesis using s r by (simp add: split_on_append_sep)
  qed
qed simp

definition drive_rooted :: "string \<Rightarrow> bool" where
  "drive_rooted p \<longleftrightarrow> (\<exists>d rest. p = d # CHR '':'' # rest \<and> is_ascii_alphabetic d) \<and> (\<forall>c \<in> set p. plain_char c)"

lemma bsl_not_alphabetic [simp]: "\<not> is_ascii_alphabetic bsl"
  by (simp add: is_ascii_alphabetic_def is_ascii_upper_def is_ascii_lower_def)

lemma canonical_normal:
  assumes "drive_rooted p"
  shows "normalize_path (canonicalize p) cwd = canonicalize p"
proof -
  obtain d rest where p: "p = d # CHR '':'' # rest" "is_ascii_alphabetic d"
    using assms by (auto simp: drive_rooted_def)
  define comps where "comps = resolve_segments [] (split_on bsl rest)"
  have good: "list_all good_segment comps"
    unfolding comps_def by (rule resolve_segments_good) (auto dest: split_on_segments)
  have r: "canonicalize p = d # CHR '':'' # concat (map (\<lambda>c. bsl # c) comps)"
    by (simp add: canonicalize_def p comps_def numeral_2_eq_2)
  have "plain_char c" if cp: "c \<in> set (canonicalize p)" for c
  proof -
    have "c = bsl \<or> c \<in> set p"
    proof (rule ccontr)
      assume no: "\<not> (c = bsl \<or> c \<in> set p)"
      then obtain seg where "seg \<in> set comps" "c \<in> set seg"
        using cp [unfolded r] unfolding p(1) by (auto split: if_splits)
      then show False using no resolve_segments_chars [of seg "[]"] split_on_chars [of seg bsl rest c]
        unfolding comps_def p(1) by simp
    qed
    then show ?thesis using assms by (auto simp: drive_rooted_def)
  qed
  moreover have "d \<noteq> bsl" using p(2) by auto
  ultimately have u: "unify (canonicalize p) = canonicalize p"
    by (intro plain_unify) (auto simp: r starts_with_def)
  show ?thesis
  proof (cases "comps = []")
    case True
    then show ?thesis using u p(2) \<open>d \<noteq> bsl\<close> unfolding r
      by (simp add: normalize_path_def classify_def starts_with_def collapse_separators_def)
  next
    case False
    then obtain c cs where c: "concat (map (\<lambda>c. bsl # c) comps) = bsl # cs" by (cases comps) auto
    have "classify (canonicalize p) = DriveAbsolute"
      using p(2) \<open>d \<noteq> bsl\<close> by (simp add: r c classify_def starts_with_def)
    moreover have "canonicalize (canonicalize p) = canonicalize p"
      unfolding r canonicalize_def [of "d # CHR '':'' # concat (map (\<lambda>c. bsl # c) comps)"]
      using split_on_segments_of [OF good False] resolve_segments_id [OF good, of "[]"]
      by (simp add: numeral_2_eq_2)
    ultimately show ?thesis using u by (simp add: normalize_path_def)
  qed
qed

lemma classify_drive:
  assumes "classify p = DriveAbsolute"
  shows "\<exists>d rest. p = d # CHR '':'' # bsl # rest \<and> is_ascii_alphabetic d"
proof -
  have c: "length p > 2" "is_ascii_alphabetic (p ! 0)" "p ! 1 = CHR '':''" "p ! 2 = bsl"
    using assms by (auto simp: classify_def split: if_splits)
  obtain a b c' rest where "p = a # b # c' # rest"
    using c(1) by (cases p; cases "tl p"; cases "tl (tl p)") auto
  then show ?thesis using c by (simp add: numeral_2_eq_2)
qed

lemma trim_end_drive:
  assumes "b = d # CHR '':'' # rest"
  shows "\<exists>rest'. trim_end_char bsl b = d # CHR '':'' # rest' \<and> set rest' \<subseteq> set rest"
proof -
  have "trim_end_char bsl b = d # CHR '':'' # trim_end_char bsl rest"
    by (simp add: assms trim_end_char_def dropWhile_append)
  moreover have "set (trim_end_char bsl rest) \<subseteq> set rest"
    by (auto simp: trim_end_char_def dest: set_dropWhileD)
  ultimately show ?thesis by blast
qed

text \<open>
  Normalization reaches a normal form: the path of a drive-absolute access, or of a
  relative access with a drive-absolute working directory, is unchanged by normalizing it
  again, under any working directory. Anchoring and re-reading a recorded path therefore
  names the same entry.
\<close>
theorem normalize_path_idempotent:
  assumes "classify (unify raw) = DriveAbsolute
    \<or> classify (unify raw) = Relative \<and> cwd \<noteq> [] \<and> classify (unify cwd) = DriveAbsolute"
  shows "normalize_path (normalize_path raw cwd) cwd' = normalize_path raw cwd"
  using assms
proof
  assume a: "classify (unify raw) = DriveAbsolute"
  have "drive_rooted (unify raw)"
    using classify_drive [OF a] unify_plain by (auto simp: drive_rooted_def)
  then show ?thesis using canonical_normal a by (simp add: normalize_path_def)
next
  assume a: "classify (unify raw) = Relative \<and> cwd \<noteq> [] \<and> classify (unify cwd) = DriveAbsolute"
  let ?j = "trim_end_char bsl (unify cwd) @ [bsl] @ unify raw"
  obtain d rest where d: "unify cwd = d # CHR '':'' # bsl # rest" "is_ascii_alphabetic d"
    using classify_drive a by blast
  obtain rest' where rest': "trim_end_char bsl (unify cwd) = d # CHR '':'' # rest'" "set rest' \<subseteq> set (bsl # rest)"
    using trim_end_drive [OF d(1)] by blast
  have "plain_char c" if "c \<in> set ?j" for c
    using that rest' unify_plain [of c raw] unify_plain [of c cwd] unify_plain [of bsl cwd] d(1) by auto
  then have "drive_rooted ?j" using rest'(1) d(2) by (auto simp: drive_rooted_def)
  then show ?thesis using canonical_normal [of ?j] a by (simp add: normalize_path_def)
qed

theorem normalize_path_idempotent_witness:
  "normalize_path (normalize_path (''..'' @ [bsl] @ ''A.h'') sample_h) [] = normalize_path (''..'' @ [bsl] @ ''A.h'') sample_h"
  by (rule normalize_path_idempotent) (simp add: sample_simps sample_h_def)

end
