(* ===== verification/Action_Key.thy ===== *)
theory Action_Key
  imports Determinism Dep_Graph
begin

text \<open>
  The observed-input fingerprint of a traced action, \<open>src/crates/tracer/src/action_key.rs\<close>:
  loading a run, the scope guard for logical paths, the input manifest with its fail-closed
  side-effect policy, and the strong-fingerprint hash that re-reads every input. The file
  system the code reads is a parameter: the outcome of \<open>std::fs::read\<close> and of
  \<open>metadata(..).is_dir()\<close> for each path, which two builds may see differently.
\<close>

section \<open>The file system the key reads\<close>

record filesystem =
  fs_file :: "string \<Rightarrow> fs_read"
  fs_is_dir :: "string \<Rightarrow> bool"

section \<open>Loading a run\<close>

text \<open>\<open>Path::extension\<close> of the file name: what follows its last dot, if anything precedes it.\<close>

definition path_extension :: "string \<Rightarrow> string option" where
  "path_extension path =
     (let name = last_component path; ext = rev (takeWhile (\<lambda>c. c \<noteq> CHR ''.'') (rev name)) in
      if name = ''..'' \<or> CHR ''.'' \<notin> set name \<or> length ext + 1 = length name then None else Some ext)"

definition is_sbzt :: "string \<Rightarrow> bool" where
  "is_sbzt path = (case path_extension path of None \<Rightarrow> False | Some ext \<Rightarrow> eq_ignore_ascii_case ext ''sbzt'')"

primrec parse_error_display :: "parse_error \<Rightarrow> string" where
  "parse_error_display BadMagic = ''not a Sembazuru trace (bad magic)''"
| "parse_error_display ShortHeader = ''file too short for a trace header''"
| "parse_error_display (UnsupportedVersion v) = ''unsupported trace version '' @ dec_u32 v"

text \<open>
  A directory listing is a list of entries, an entry the error text of the iterator or a
  path; \<open>rd\<close> is the outcome of reading one file, with the error text on failure.
\<close>

fun load_entries ::
    "string \<Rightarrow> (string \<Rightarrow> string + bytes) \<Rightarrow> (string + string) list \<Rightarrow> trace list \<Rightarrow> string list
     \<Rightarrow> string + (trace list \<times> string list)" where
  "load_entries dir rd [] traces skipped = Inr (traces, skipped)"
| "load_entries dir rd (Inl e # es) traces skipped =
     Inl (''error iterating '' @ [CHR 0x27] @ dir @ [CHR 0x27] @ '': '' @ e)"
| "load_entries dir rd (Inr path # es) traces skipped =
     (if \<not> is_sbzt path then load_entries dir rd es traces skipped
      else case rd path of
        Inl e \<Rightarrow> load_entries dir rd es traces
          (skipped @ [''trace file unreadable, dropped from the run: '' @ path @ '' ('' @ e @ '')''])
      | Inr bs \<Rightarrow>
          (case parse bs of
             Inr t \<Rightarrow> load_entries dir rd es (traces @ [t]) skipped
           | Inl e \<Rightarrow> load_entries dir rd es traces
               (skipped @ [''trace file failed to parse, dropped from the run: '' @ path
                           @ '' ('' @ parse_error_display e @ '')''])))"

definition load_traces_from_dir ::
    "string \<Rightarrow> string + (string + string) list \<Rightarrow> (string \<Rightarrow> string + bytes)
     \<Rightarrow> string + (trace list \<times> string list)" where
  "load_traces_from_dir dir listing rd =
     (case listing of
        Inl e \<Rightarrow> Inl (''cannot read directory '' @ [CHR 0x27] @ dir @ [CHR 0x27] @ '': '' @ e)
      | Inr es \<Rightarrow> load_entries dir rd es [] [])"

definition load_run_from_dir ::
    "string \<Rightarrow> string + (string + string) list \<Rightarrow> (string \<Rightarrow> string + bytes)
     \<Rightarrow> string + (dependency_graph \<times> string)" where
  "load_run_from_dir dir listing rd =
     (case load_traces_from_dir dir listing rd of
        Inl e \<Rightarrow> Inl e
      | Inr (traces, skipped) \<Rightarrow>
          (let g = build_graph traces; graph = g\<lparr>dg_warnings := dg_warnings g @ skipped\<rparr>;
               cwd = (case find (\<lambda>t. tr_pid t = dg_root_pid graph) traces of
                        Some t \<Rightarrow> normalize_for_compare (tr_cwd t) | None \<Rightarrow> [])
           in Inr (graph, cwd)))"

section \<open>Scope guard\<close>

definition logical_outputs :: "dependency_graph \<Rightarrow> string \<Rightarrow> string list" where
  "logical_outputs graph cwd = sort (remdups (map (\<lambda>out. relativize (pa_path out) cwd) (dg_outputs graph)))"

definition is_reserved_stem :: "string \<Rightarrow> bool" where
  "is_reserved_stem s \<longleftrightarrow>
     s \<in> {''CON'', ''PRN'', ''AUX'', ''NUL'', ''CONIN$'', ''CONOUT$''}
     \<or> length s = 4 \<and> take 3 s \<in> {''COM'', ''LPT''} \<and> CHR ''1'' \<le> s ! 3 \<and> s ! 3 \<le> CHR ''9''"

definition is_short_alias :: "string \<Rightarrow> bool" where
  "is_short_alias component =
     (let (name, ext) = (case split_once (CHR ''.'') component of
                           Some (name, ext) \<Rightarrow> (name, Some ext) | None \<Rightarrow> (component, None))
      in case split_once (CHR ''~'') name of
           None \<Rightarrow> False
         | Some (pre, generation) \<Rightarrow>
             pre \<noteq> [] \<and> length pre \<le> 6 \<and> generation \<noteq> [] \<and> list_all is_ascii_digit generation
             \<and> (case ext of None \<Rightarrow> True
                | Some e \<Rightarrow> e \<noteq> [] \<and> length e \<le> 3 \<and> CHR ''.'' \<notin> set e))"

definition is_ambiguous_windows_component :: "string \<Rightarrow> bool" where
  "is_ambiguous_windows_component component \<longleftrightarrow>
     component \<noteq> [] \<and> component \<noteq> ''.''
     \<and> (CHR '':'' \<in> set component \<or> ends_with component ''.'' \<or> ends_with component '' ''
        \<or> is_reserved_stem (to_ascii_uppercase (hd (split_on (CHR ''.'') component)))
        \<or> is_short_alias component)"

definition is_under_build_root :: "string \<Rightarrow> bool" where
  "is_under_build_root logical =
     (let u = replace_char (CHR ''/'') bsl logical in
      if length u \<ge> 2 \<and> u ! 1 = CHR '':'' then False
      else if starts_with u [bsl] then False
      else if list_ex (\<lambda>c. c = ''..'') (split_on bsl u) then False
      else if list_ex is_ambiguous_windows_component (split_on bsl u) then False
      else True)"

definition is_drive_absolute :: "string \<Rightarrow> bool" where
  "is_drive_absolute p \<longleftrightarrow>
     length p \<ge> 3 \<and> is_ascii_alphabetic (p ! 0) \<and> p ! 1 = CHR '':'' \<and> p ! 2 = bsl"

definition anchor :: "string \<Rightarrow> string \<Rightarrow> string option" where
  "anchor root path =
     (let n = normalize_path path root in if is_drive_absolute n then Some n else None)"

definition is_content_read :: "path_access \<Rightarrow> bool" where
  "is_content_read inp \<longleftrightarrow> AkRead \<in> pa_kinds inp"

section \<open>Input hash of a run\<close>

definition CMD_MARKER :: string where "CMD_MARKER = ''--cmd--''"

definition input_components :: "filesystem \<Rightarrow> dependency_graph \<Rightarrow> string \<Rightarrow> string list \<Rightarrow> string list" where
  "input_components fs graph cwd outputs =
     (let entry = (\<lambda>inp.
            let logical = relativize (pa_path inp) cwd in
            if logical \<in> set outputs then []
            else case fs_file fs (pa_path inp) of
              FsOk bs \<Rightarrow> [logical @ [nul] @ sha256_hex bs]
            | _ \<Rightarrow> if is_under_build_root logical then [] else [logical @ [nul] @ ''absent'']);
          entries = sort (concat (map entry (dg_inputs graph)));
          cmds = sort (map (\<lambda>p. replace_sub cwd ''.'' (to_ascii_lowercase (pn_command_line p))) (dg_processes graph))
      in entries @ [CMD_MARKER] @ cmds)"

definition components_blob :: "string list \<Rightarrow> bytes" where
  "components_blob cs = as_bytes (concat (map (\<lambda>c. c @ [CHR 0x0A]) cs))"

definition hash_components :: "string list \<Rightarrow> string" where
  "hash_components cs = sha256_hex (components_blob cs)"

definition input_hash :: "filesystem \<Rightarrow> dependency_graph \<Rightarrow> string \<Rightarrow> string" where
  "input_hash fs graph cwd = hash_components (input_components fs graph cwd (logical_outputs graph cwd))"

section \<open>The manifest\<close>

datatype input_kind = Content | Absent

record input_entry =
  ie_logical :: string
  ie_absolute :: string
  ie_kind :: input_kind

record input_manifest =
  im_inputs :: "input_entry list"
  im_cmds :: "string list"
  im_cacheable :: bool

record side_effect_policy =
  allow_env_block :: bool
  allowed_registry :: "(string \<times> string) list"
  allowed_enumerate :: "string list"

definition conservative :: side_effect_policy where
  "conservative = \<lparr>allow_env_block = False, allowed_registry = [], allowed_enumerate = []\<rparr>"

definition allows_registry :: "side_effect_policy \<Rightarrow> string \<Rightarrow> string \<Rightarrow> bool" where
  "allows_registry policy key val \<longleftrightarrow> list_ex (\<lambda>(k, v). k = key \<and> v = val) (allowed_registry policy)"

definition allows_enumerate :: "side_effect_policy \<Rightarrow> string \<Rightarrow> bool" where
  "allows_enumerate policy dir \<longleftrightarrow> list_ex (\<lambda>s. s = dir) (allowed_enumerate policy)"

definition is_cache_blocking_warning :: "string \<Rightarrow> bool" where
  "is_cache_blocking_warning w \<longleftrightarrow> \<not> contains_sub ''root processes found'' w"

text \<open>One turn of the input loop: the entries it pushes and whether it keeps \<open>cacheable\<close>.\<close>

definition classify_input ::
    "filesystem \<Rightarrow> string \<Rightarrow> string list \<Rightarrow> path_access \<Rightarrow> input_entry list \<times> bool" where
  "classify_input fs root outputs inp =
     (let logical = relativize (pa_path inp) root in
      if logical \<in> set outputs then ([], True)
      else case anchor root (pa_path inp) of
        Some absolute \<Rightarrow>
          (case fs_file fs absolute of
             FsOk _ \<Rightarrow> ([\<lparr>ie_logical = logical, ie_absolute = absolute, ie_kind = Content\<rparr>], True)
           | _ \<Rightarrow>
               if fs_is_dir fs absolute then ([], True)
               else if AkProbeMiss \<in> pa_kinds inp
               then ([\<lparr>ie_logical = logical, ie_absolute = absolute, ie_kind = Absent\<rparr>], True)
               else ([], False))
      | None \<Rightarrow> ([], \<not> is_content_read inp))"

definition side_effects_allowed :: "side_effect_policy \<Rightarrow> dependency_graph \<Rightarrow> bool" where
  "side_effects_allowed policy graph \<longleftrightarrow>
     \<not> list_ex (\<lambda>r. \<not> allows_registry policy (ra_key r) (ra_value r)) (dg_registry graph)
     \<and> \<not> (\<not> allow_env_block policy \<and> list_ex (\<lambda>e. ea_name e = ENV_BLOCK_NAME) (dg_env graph))
     \<and> \<not> list_ex (\<lambda>i. AkEnumerate \<in> pa_kinds i \<and> \<not> allows_enumerate policy (pa_path i)) (dg_inputs graph)"

definition input_manifest_with_policy ::
    "filesystem \<Rightarrow> dependency_graph \<Rightarrow> string \<Rightarrow> side_effect_policy \<Rightarrow> input_manifest" where
  "input_manifest_with_policy fs graph root policy =
     (let outputs = logical_outputs graph root;
          unblocked = (filter is_cache_blocking_warning (dg_warnings graph) = []);
          classified = map (classify_input fs root outputs) (dg_inputs graph);
          cacheable1 = (unblocked \<and> list_all snd classified);
          cacheable2 = (cacheable1 \<and> side_effects_allowed policy graph);
          cmds = sort (map (\<lambda>p. replace_sub root ''.'' (to_ascii_lowercase (pn_command_line p))) (dg_processes graph))
      in \<lparr>im_inputs = concat (map fst classified), im_cmds = cmds, im_cacheable = cacheable2\<rparr>)"

definition input_manifest_of :: "filesystem \<Rightarrow> dependency_graph \<Rightarrow> string \<Rightarrow> input_manifest" where
  "input_manifest_of fs graph root = input_manifest_with_policy fs graph root conservative"

definition input_token :: "filesystem \<Rightarrow> input_entry \<Rightarrow> string option" where
  "input_token fs inp =
     (case ie_kind inp of
        Content \<Rightarrow>
          (case fs_file fs (ie_absolute inp) of
             FsOk bs \<Rightarrow> Some (sha256_hex bs) | FsNotFound \<Rightarrow> Some ''<missing>'' | FsError \<Rightarrow> None)
      | Absent \<Rightarrow>
          (case fs_file fs (ie_absolute inp) of
             FsOk bs \<Rightarrow> Some (''appeared:'' @ sha256_hex bs) | FsNotFound \<Rightarrow> Some ''absent'' | FsError \<Rightarrow> None))"

fun manifest_entries :: "filesystem \<Rightarrow> input_entry list \<Rightarrow> string list option" where
  "manifest_entries fs [] = Some []"
| "manifest_entries fs (inp # inps) =
     (case input_token fs inp of
        None \<Rightarrow> None
      | Some token \<Rightarrow>
          (case manifest_entries fs inps of
             None \<Rightarrow> None | Some es \<Rightarrow> Some ((ie_logical inp @ [nul] @ token) # es)))"

definition manifest_components :: "filesystem \<Rightarrow> input_manifest \<Rightarrow> string list option" where
  "manifest_components fs m =
     map_option (\<lambda>es. sort es @ [CMD_MARKER] @ im_cmds m) (manifest_entries fs (im_inputs m))"

definition manifest_hash :: "filesystem \<Rightarrow> input_manifest \<Rightarrow> string option" where
  "manifest_hash fs m = map_option hash_components (manifest_components fs m)"

section \<open>Lost traces block caching\<close>

lemma dec_digits: "c \<in> set (dec n) \<Longrightarrow> c \<noteq> CHR ''o''"
proof (induction n rule: dec.induct)
  case (1 n)
  have digit: "char_of (48 + k) \<noteq> CHR ''o''" if "k < 10" for k :: nat
  proof
    assume "char_of (48 + k) = CHR ''o''"
    then have "of_char (char_of (48 + k) :: char) = (111 :: nat)" by simp
    then show False using that by simp
  qed
  show ?case
  proof (cases "n < 10")
    case True
    then show ?thesis using 1(2) digit [of n] by (simp add: dec.simps [of n])
  next
    case False
    then show ?thesis using 1 digit [of "n mod 10"] by (auto simp: dec.simps [of n])
  qed
qed

lemma contains_sub_prefix: "prefix p xs \<Longrightarrow> contains_sub p xs"
  by (cases xs) auto

lemma contains_sub_sub:
  assumes "contains_sub (a @ p @ b) xs"
  shows "contains_sub p xs"
  using assms
proof (induction xs)
  case (Cons x xs)
  show ?case
  proof (cases "prefix (a @ p @ b) (x # xs)")
    case True
    then obtain zs where "x # xs = a @ (p @ b @ zs)" by (auto simp: prefix_def)
    moreover have "contains_sub p (a @ (p @ b @ zs))"
      by (intro contains_sub_skip contains_sub_prefix) simp
    ultimately show ?thesis by metis
  next
    case False
    then show ?thesis using Cons by simp
  qed
qed simp

definition no_oo :: "string \<Rightarrow> bool" where
  "no_oo s \<longleftrightarrow> \<not> contains_sub ''oo'' s"

lemma no_oo_Nil: "no_oo []"
  by (simp add: no_oo_def)

lemma no_oo_append_digits: "\<forall>c \<in> set ds. c \<noteq> CHR ''o'' \<Longrightarrow> no_oo (ds @ s) = no_oo s"
  by (induction ds) (auto simp: no_oo_def)

lemma no_oo_Cons: "no_oo (c # s) \<longleftrightarrow> \<not> (c = CHR ''o'' \<and> s \<noteq> [] \<and> hd s = CHR ''o'') \<and> no_oo s"
  by (cases s) (auto simp: no_oo_def)

lemma no_oo_blocking: "no_oo w \<Longrightarrow> is_cache_blocking_warning w"
  using contains_sub_sub [of "''r''" "''oo''" "''t processes found''" w]
  by (auto simp: no_oo_def is_cache_blocking_warning_def)

lemma dec_u32_no_oo: "no_oo (dec_u32 n @ s) = no_oo s"
  unfolding dec_u32_def by (rule no_oo_append_digits) (use dec_digits in blast)

lemma dec_not_Nil [simp]: "dec n \<noteq> []"
  by (simp add: dec.simps [of n])

lemma hd_dec_u32: "hd (dec_u32 n @ s) \<noteq> CHR ''o''"
proof -
  have "dec_u32 n \<noteq> []" by (simp add: dec_u32_def)
  then show ?thesis using dec_digits [of "hd (dec_u32 n)" "unat n"] by (simp add: dec_u32_def)
qed

lemmas no_oo_simps = no_oo_Cons no_oo_Nil dec_u32_no_oo hd_dec_u32

lemma no_oo_truncated: "no_oo (''trace for pid '' @ dec_u32 p @ '' is truncated (process killed mid-write?)'')"
  by (simp add: no_oo_simps)

lemma no_oo_gap:
  "no_oo (''pid '' @ dec_u32 p @ '' spawned child '' @ dec_u32 c
     @ '' but no trace file exists (injection into the child failed?)'')"
  by (simp add: no_oo_simps)

lemma truncated_blocking: "w \<in> set (truncated_warnings ts) \<Longrightarrow> is_cache_blocking_warning w"
  using no_oo_blocking [OF no_oo_truncated] unfolding truncated_warnings_def by auto

lemma gap_warning_blocking: "w \<in> set (gap_warning pids p ev) \<Longrightarrow> is_cache_blocking_warning w"
proof (cases "ev_kind ev")
  case (EvProcess op child)
  moreover assume "w \<in> set (gap_warning pids p ev)"
  ultimately show ?thesis using no_oo_blocking [OF no_oo_gap]
    by (cases op) (simp add: gap_warning_def split: if_splits)
qed (simp_all add: gap_warning_def)

lemma gap_blocking: "w \<in> set (gap_warnings pids ts) \<Longrightarrow> is_cache_blocking_warning w"
  using gap_warning_blocking by (auto simp: gap_warnings_def)

lemma graph_warnings:
  "ts \<noteq> [] \<Longrightarrow> set (truncated_warnings ts) \<union> set (gap_warnings (tr_pid ` set ts) ts) \<subseteq> set (dg_warnings (build_graph ts))"
  by (auto simp: build_graph_def Let_def)

lemma blocked_uncacheable:
  assumes "w \<in> set (dg_warnings graph)" "is_cache_blocking_warning w"
  shows "\<not> im_cacheable (input_manifest_with_policy fs graph root policy)"
  using assms by (auto simp: input_manifest_with_policy_def Let_def filter_empty_conv)

definition spawns_untraced :: "trace list \<Rightarrow> trace \<Rightarrow> bool" where
  "spawns_untraced ts t \<longleftrightarrow> list_ex (\<lambda>ev. \<exists>child. ev_kind ev = EvProcess ChildCreated child
       \<and> child \<noteq> 0 \<and> succeeded ev \<and> child \<notin> tr_pid ` set ts) (tr_events t)"

lemma spawns_untraced_warns:
  assumes "t \<in> set ts" "spawns_untraced ts t"
  shows "gap_warnings (tr_pid ` set ts) ts \<noteq> []"
proof -
  obtain ev child where ev: "ev \<in> set (tr_events t)" "ev_kind ev = EvProcess ChildCreated child"
      "child \<noteq> 0 \<and> succeeded ev \<and> child \<notin> tr_pid ` set ts"
    using assms(2) by (auto simp: spawns_untraced_def list_ex_iff)
  then have "gap_warning (tr_pid ` set ts) (tr_pid t) ev \<noteq> []" by (simp add: gap_warning_def)
  then show ?thesis using assms(1) ev(1) by (auto simp: gap_warnings_def)
qed

text \<open>
  An incomplete observation is never cached: if the trace of any process of the run is
  truncated, or any process successfully spawned a child without a trace, the manifest is
  uncacheable, whatever the file system holds and whatever the side-effect policy allows.
\<close>
theorem incomplete_run_uncacheable:
  assumes "t \<in> set ts" and "tr_truncated t \<or> spawns_untraced ts t"
  shows "\<not> im_cacheable (input_manifest_with_policy fs (build_graph ts) root policy)"
proof -
  have "\<exists>w \<in> set (truncated_warnings ts) \<union> set (gap_warnings (tr_pid ` set ts) ts). is_cache_blocking_warning w"
    using assms(2)
  proof
    assume "tr_truncated t"
    then have "truncated_warnings ts \<noteq> []" using assms(1) by (auto simp: truncated_warnings_def filter_empty_conv)
    then show ?thesis using truncated_blocking by (metis UnI1 last_in_set)
  next
    assume "spawns_untraced ts t"
    then show ?thesis using spawns_untraced_warns [OF assms(1)] gap_blocking by (metis UnI2 last_in_set)
  qed
  then show ?thesis using graph_warnings [of ts] assms(1) blocked_uncacheable by (metis empty_iff list.set(1) subsetD)
qed

theorem incomplete_run_uncacheable_witness:
  "\<not> im_cacheable (input_manifest_with_policy \<lparr>fs_file = \<lambda>_. FsOk [], fs_is_dir = \<lambda>_. False\<rparr>
     (build_graph [sample_trace [], (sample_trace [])\<lparr>tr_pid := 11, tr_truncated := True\<rparr>]) ''c:'' conservative)"
  by (rule incomplete_run_uncacheable [where t = "(sample_trace [])\<lparr>tr_pid := 11, tr_truncated := True\<rparr>"])
     simp_all

section \<open>The scope guard keeps joins inside the root\<close>

lemma resolve_segments_append:
  "resolve_segments comps (xs @ ys) = resolve_segments (resolve_segments comps xs) ys"
  by (induction comps xs rule: resolve_segments.induct) auto

lemma resolve_segments_no_up:
  "''..'' \<notin> set segs \<Longrightarrow> resolve_segments comps segs = comps @ filter (\<lambda>s. s \<noteq> [] \<and> s \<noteq> ''.'') segs"
  by (induction segs arbitrary: comps) auto

lemma under_build_root_segments:
  assumes "is_under_build_root logical" "seg \<in> set (split_on bsl (replace_char (CHR ''/'') bsl logical))"
  shows "seg \<noteq> ''..'' \<and> \<not> is_ambiguous_windows_component seg"
  using assms by (auto simp: is_under_build_root_def Let_def list_ex_iff split: if_splits)

text \<open>
  The scope guard is sound for joining: when \<open>is_under_build_root\<close> accepts a logical
  path, resolving it below any drive-rooted build root only appends components to the
  resolved root, none of which is \<open>..\<close>, a device name, an alternate data stream or a short
  name, so the result cannot name a file outside the root.
\<close>
theorem under_build_root_contained:
  assumes "is_under_build_root logical" and "drive_rooted root"
  shows "\<exists>segs. canonicalize (root @ bsl # replace_char (CHR ''/'') bsl logical)
           = canonicalize root @ concat (map (\<lambda>c. bsl # c) segs)
         \<and> list_all (\<lambda>c. c \<noteq> [] \<and> c \<noteq> ''.'' \<and> c \<noteq> ''..'' \<and> \<not> is_ambiguous_windows_component c) segs"
proof -
  let ?u = "replace_char (CHR ''/'') bsl logical"
  obtain d rest where root: "root = d # CHR '':'' # rest" using assms(2) by (auto simp: drive_rooted_def)
  have "''..'' \<notin> set (split_on bsl ?u)" using under_build_root_segments [OF assms(1)] by blast
  then have "canonicalize (root @ bsl # ?u)
      = canonicalize root @ concat (map (\<lambda>c. bsl # c) (filter (\<lambda>s. s \<noteq> [] \<and> s \<noteq> ''.'') (split_on bsl ?u)))"
    by (simp add: root canonicalize_def numeral_2_eq_2 split_on_append resolve_segments_append resolve_segments_no_up)
  moreover have "list_all (\<lambda>c. c \<noteq> [] \<and> c \<noteq> ''.'' \<and> c \<noteq> ''..'' \<and> \<not> is_ambiguous_windows_component c)
      (filter (\<lambda>s. s \<noteq> [] \<and> s \<noteq> ''.'') (split_on bsl ?u))"
    using under_build_root_segments [OF assms(1)] by (auto simp: list_all_iff)
  ultimately show ?thesis by blast
qed

theorem under_build_root_contained_witness:
  "\<exists>segs. canonicalize (sample_h @ bsl # replace_char (CHR ''/'') bsl ''build/mainx.obj'')
           = canonicalize sample_h @ concat (map (\<lambda>c. bsl # c) segs)
         \<and> list_all (\<lambda>c. c \<noteq> [] \<and> c \<noteq> ''.'' \<and> c \<noteq> ''..'' \<and> \<not> is_ambiguous_windows_component c) segs"
proof (rule under_build_root_contained)
  show "is_under_build_root ''build/mainx.obj''"
    by (simp add: is_under_build_root_def replace_char_def starts_with_def is_ambiguous_windows_component_def
        ends_with_def suffix_def is_reserved_stem_def is_short_alias_def to_ascii_uppercase_def upper_char_def
        is_ascii_lower_def Let_def)
  show "drive_rooted sample_h"
    by (simp add: sample_h_def drive_rooted_def plain_char_def lower_char_def is_ascii_upper_def
        is_ascii_lower_def is_ascii_alphabetic_def)
qed

section \<open>A cacheable manifest covers what was read\<close>

lemma cacheable_parts:
  assumes "im_cacheable (input_manifest_with_policy fs graph root policy)"
  shows "\<forall>inp \<in> set (dg_inputs graph). snd (classify_input fs root (logical_outputs graph root) inp)"
    and "side_effects_allowed policy graph"
  using assms by (auto simp: input_manifest_with_policy_def Let_def list_all_iff)

lemma manifest_inputs:
  "e \<in> set (im_inputs (input_manifest_with_policy fs graph root policy)) \<longleftrightarrow>
   (\<exists>inp \<in> set (dg_inputs graph). e \<in> set (fst (classify_input fs root (logical_outputs graph root) inp)))"
  by (auto simp: input_manifest_with_policy_def Let_def)

definition covers :: "filesystem \<Rightarrow> path_access \<Rightarrow> string \<Rightarrow> input_entry \<Rightarrow> bool" where
  "covers fs inp root e \<longleftrightarrow>
     ie_logical e = relativize (pa_path inp) root \<and> anchor root (pa_path inp) = Some (ie_absolute e)
     \<and> (case fs_file fs (ie_absolute e) of FsOk _ \<Rightarrow> ie_kind e = Content
        | _ \<Rightarrow> ie_kind e = Absent \<and> AkProbeMiss \<in> pa_kinds inp)"


definition sample_read :: path_access where
  "sample_read = \<lparr>pa_path = sample_h, pa_kinds = {AkRead}, pa_pids = {10}\<rparr>"

definition sample_graph :: dependency_graph where
  "sample_graph = empty_graph\<lparr>dg_inputs := [sample_read]\<rparr>"

definition sample_fs :: filesystem where
  "sample_fs = \<lparr>fs_file = \<lambda>_. FsOk [1, 2, 3], fs_is_dir = \<lambda>_. False\<rparr>"

lemma sample_anchor: "anchor [] sample_h = Some sample_h"
  by (simp add: anchor_def sample_paths)
     (simp add: is_drive_absolute_def sample_h_def is_ascii_alphabetic_def is_ascii_lower_def)

lemma sample_manifest_cacheable: "im_cacheable (input_manifest_with_policy sample_fs sample_graph [] conservative)"
  by (simp add: input_manifest_with_policy_def sample_graph_def empty_graph_def sample_read_def sample_fs_def
      classify_input_def sample_anchor logical_outputs_def side_effects_allowed_def)


section \<open>The strong hash sees every change\<close>

lemma length_sha256 [simp]: "length (sha256 data) = 32"
proof -
  have step: "length (sha_compress h c) = 8" for h c by (simp add: sha_compress_def split: prod.splits)
  have "length (fold (\<lambda>chunk h. sha_compress h chunk) cs h) = 8" if "length h = 8" for cs h
    using that by (induction cs arbitrary: h) (auto simp: step)
  moreover have "length SHA256_H0 = 8" by (simp add: SHA256_H0_def)
  moreover have "length (concat (map u32_to_be ws)) = 4 * length ws" for ws
    by (induction ws) (simp_all add: u32_to_be_def)
  ultimately show ?thesis by (simp add: sha256_def)
qed

lemma length_sha256_hex [simp]: "length (sha256_hex data) = 64"
  by (simp add: sha256_hex_def)

lemma sha256_hex_chars: "c \<in> set (sha256_hex data) \<Longrightarrow> c \<in> set HEX"
  using hex_of_chars by (simp add: sha256_hex_def)

lemma sha256_hex_no_sep: "nul \<notin> set (sha256_hex data)" "CHR 0x0A \<notin> set (sha256_hex data)"
  using sha256_hex_chars by (auto simp: HEX_def)

lemma token_no_newline: "input_token fs e = Some tok \<Longrightarrow> CHR 0x0A \<notin> set tok"
  by (auto simp: input_token_def sha256_hex_no_sep split: input_kind.splits fs_read.splits)

definition entry_line :: "filesystem \<Rightarrow> input_entry \<Rightarrow> string" where
  "entry_line fs e = ie_logical e @ [nul] @ the (input_token fs e)"

lemma manifest_entries_Some:
  "manifest_entries fs es = Some cs \<Longrightarrow>
   cs = map (entry_line fs) es \<and> (\<forall>e \<in> set es. \<exists>tok. input_token fs e = Some tok)"
  by (induction es arbitrary: cs) (auto simp: entry_line_def split: option.splits)

text \<open>
  The names a manifest may carry: no separator the hashed blob uses, one entry per name.
\<close>

definition manifest_wf :: "input_manifest \<Rightarrow> bool" where
  "manifest_wf m \<longleftrightarrow> distinct (map ie_logical (im_inputs m))
     \<and> (\<forall>e \<in> set (im_inputs m). nul \<notin> set (ie_logical e) \<and> CHR 0x0A \<notin> set (ie_logical e))
     \<and> (\<forall>c \<in> set (im_cmds m). CHR 0x0A \<notin> set c)"

lemma manifest_components_Some:
  assumes "manifest_components fs m = Some cs"
  shows "cs = sort (map (entry_line fs) (im_inputs m)) @ [CMD_MARKER] @ im_cmds m"
    and "\<forall>e \<in> set (im_inputs m). \<exists>tok. input_token fs e = Some tok"
  using assms manifest_entries_Some [of fs "im_inputs m"] by (auto simp: manifest_components_def)

lemma manifest_components_no_newline:
  assumes "manifest_wf m" "manifest_components fs m = Some cs" "c \<in> set cs"
  shows "CHR 0x0A \<notin> set c"
proof -
  have "CHR 0x0A \<notin> set (entry_line fs e)" if e: "e \<in> set (im_inputs m)" for e
  proof -
    obtain tok where "input_token fs e = Some tok" using manifest_components_Some(2) [OF assms(2)] e by blast
    then show ?thesis using token_no_newline [of fs e tok] assms(1) e by (simp add: entry_line_def manifest_wf_def)
  qed
  then show ?thesis using assms(1,3) unfolding manifest_components_Some(1) [OF assms(2)]
    by (auto simp: manifest_wf_def CMD_MARKER_def)
qed

lemma components_blob_inj:
  assumes "components_blob cs = components_blob ds" "\<forall>c \<in> set cs. CHR 0x0A \<notin> set c" "\<forall>d \<in> set ds. CHR 0x0A \<notin> set d"
  shows "cs = ds"
  using assms unfolding components_blob_def as_bytes_inj by (intro terminated_inject [of "CHR 0x0A"]) auto

lemma entry_line_inj:
  assumes "nul \<notin> set (ie_logical e)" "nul \<notin> set (ie_logical e')" "entry_line fs e = entry_line fs' e'"
  shows "ie_logical e = ie_logical e' \<and> the (input_token fs e) = the (input_token fs' e')"
proof -
  have "split_once nul (entry_line fs e) = Some (ie_logical e, the (input_token fs e))"
    "split_once nul (entry_line fs' e') = Some (ie_logical e', the (input_token fs' e'))"
    using assms(1,2) by (simp_all add: split_once_Some entry_line_def)
  then show ?thesis using assms(3) by simp
qed

lemma same_components_same_tokens:
  assumes "manifest_wf m" "manifest_components fs m = Some cs" "manifest_components fs' m = Some cs"
    and e: "e \<in> set (im_inputs m)"
  shows "input_token fs e = input_token fs' e"
proof -
  have "sort (map (entry_line fs) (im_inputs m)) = sort (map (entry_line fs') (im_inputs m))"
    using manifest_components_Some(1) [OF assms(2)] manifest_components_Some(1) [OF assms(3)] by simp
  then have "set (map (entry_line fs) (im_inputs m)) = set (map (entry_line fs') (im_inputs m))"
    by (metis set_sort)
  then obtain e' where e': "e' \<in> set (im_inputs m)" "entry_line fs e = entry_line fs' e'"
    using e by auto
  have no: "nul \<notin> set (ie_logical e)" "nul \<notin> set (ie_logical e')"
    using assms(1) e e'(1) by (simp_all add: manifest_wf_def)
  note eq = entry_line_inj [OF no e'(2)]
  have "e = e'" using assms(1) e e'(1) eq by (auto simp: manifest_wf_def distinct_map inj_on_def)
  then show ?thesis
    using eq manifest_components_Some(2) [OF assms(2)] manifest_components_Some(2) [OF assms(3)] e
    by (metis option.sel)
qed

definition file_contents :: "filesystem \<Rightarrow> input_manifest \<Rightarrow> bytes set" where
  "file_contents fs m = {bs. \<exists>e \<in> set (im_inputs m). fs_file fs (ie_absolute e) = FsOk bs}"

lemma sha256_hex_not_missing [simp]: "sha256_hex b \<noteq> ''<missing>''" "''<missing>'' \<noteq> sha256_hex b"
proof -
  have "length (sha256_hex b) \<noteq> length ''<missing>''" by simp
  then show "sha256_hex b \<noteq> ''<missing>''" "''<missing>'' \<noteq> sha256_hex b" by metis+
qed

lemma same_token_same_file:
  assumes tok: "input_token fs e = Some tok" "input_token fs' e = Some tok"
    and inj: "\<And>b b'. fs_file fs (ie_absolute e) = FsOk b \<Longrightarrow> fs_file fs' (ie_absolute e) = FsOk b' \<Longrightarrow>
           sha256_hex b = sha256_hex b' \<Longrightarrow> b = b'"
  shows "fs_file fs (ie_absolute e) = fs_file fs' (ie_absolute e)"
proof (cases "fs_file fs (ie_absolute e)"; cases "fs_file fs' (ie_absolute e)")
  fix b b' assume b: "fs_file fs (ie_absolute e) = FsOk b" "fs_file fs' (ie_absolute e) = FsOk b'"
  then have "sha256_hex b = sha256_hex b'"
    using tok by (auto simp: input_token_def split: input_kind.splits)
  then show ?thesis using inj b by simp
qed (use tok in \<open>auto simp: input_token_def split: input_kind.splits\<close>)

text \<open>
  The hash of a manifest as a function of the components it covers, and the assumption on
  SHA-256 the cache rests on: no two of the byte strings it hashes here collide.
\<close>

definition hashed :: "filesystem \<Rightarrow> input_manifest \<Rightarrow> bytes set" where
  "hashed fs m = file_contents fs m \<union> (components_blob ` set_option (manifest_components fs m))"

lemma manifest_hash_same_files:
  assumes "manifest_wf m" "manifest_hash fs m = Some h" "manifest_hash fs' m = Some h"
    and inj: "inj_on sha256_hex (hashed fs m \<union> hashed fs' m)"
    and e: "e \<in> set (im_inputs m)"
  shows "fs_file fs (ie_absolute e) = fs_file fs' (ie_absolute e)"
proof -
  obtain cs ds where c: "manifest_components fs m = Some cs" "manifest_components fs' m = Some ds"
    and h: "hash_components cs = h" "hash_components ds = h"
    using assms(2,3) by (auto simp: manifest_hash_def)
  have "components_blob cs \<in> hashed fs m" "components_blob ds \<in> hashed fs' m"
    using c by (simp_all add: hashed_def)
  then have "components_blob cs = components_blob ds"
    using inj h unfolding hash_components_def inj_on_def by auto
  then have "cs = ds"
    using components_blob_inj manifest_components_no_newline [OF assms(1)] c by metis
  then have eq: "input_token fs e = input_token fs' e"
    using same_components_same_tokens [OF assms(1)] c e by blast
  obtain tok where "input_token fs e = Some tok" using manifest_components_Some(2) [OF c(1)] e by blast
  moreover have "b = b'" if b: "fs_file fs (ie_absolute e) = FsOk b" "fs_file fs' (ie_absolute e) = FsOk b'"
      "sha256_hex b = sha256_hex b'" for b b'
  proof -
    have "b \<in> hashed fs m" "b' \<in> hashed fs' m" using b e by (auto simp: hashed_def file_contents_def)
    then show ?thesis using inj b(3) by (auto dest: inj_onD)
  qed
  ultimately show ?thesis using eq same_token_same_file by metis
qed

text \<open>
  The strong hash re-evaluates every input: if one manifest hashes to the same value
  under two states of the file system, then every input it names reads the same in both,
  contents, deletions and appearances included, unless SHA-256 collides on the strings
  hashed.
\<close>
theorem manifest_hash_detects_change:
  assumes "manifest_wf m" "manifest_hash fs m = Some h" "manifest_hash fs' m = Some h"
    and "inj_on sha256_hex (hashed fs m \<union> hashed fs' m)"
    and "e \<in> set (im_inputs m)"
  shows "fs_file fs (ie_absolute e) = fs_file fs' (ie_absolute e)"
  by (rule manifest_hash_same_files [OF assms])

definition sample_manifest :: input_manifest where
  "sample_manifest = \<lparr>im_inputs = [\<lparr>ie_logical = ''a.h'', ie_absolute = sample_h, ie_kind = Content\<rparr>,
     \<lparr>ie_logical = ''b.h'', ie_absolute = sample_t, ie_kind = Absent\<rparr>], im_cmds = [''cl''], im_cacheable = True\<rparr>"

definition empty_fs :: "bool \<Rightarrow> filesystem" where
  "empty_fs d = \<lparr>fs_file = \<lambda>_. FsNotFound, fs_is_dir = \<lambda>_. d\<rparr>"

theorem manifest_hash_detects_change_witness:
  "fs_file (empty_fs True) (ie_absolute (hd (im_inputs sample_manifest)))
   = fs_file (empty_fs False) (ie_absolute (hd (im_inputs sample_manifest)))"
proof (rule manifest_hash_detects_change [where m = sample_manifest])
  have c: "manifest_components (empty_fs d) sample_manifest = manifest_components (empty_fs True) sample_manifest" for d
    by (simp add: manifest_components_def sample_manifest_def input_token_def empty_fs_def)
  show "manifest_wf sample_manifest" by (simp add: manifest_wf_def sample_manifest_def)
  show "manifest_hash (empty_fs True) sample_manifest
      = Some (hash_components (the (manifest_components (empty_fs True) sample_manifest)))"
    by (simp add: manifest_hash_def manifest_components_def sample_manifest_def input_token_def empty_fs_def)
  then show "manifest_hash (empty_fs False) sample_manifest
      = Some (hash_components (the (manifest_components (empty_fs True) sample_manifest)))"
    unfolding manifest_hash_def c [of False] .
  have "file_contents (empty_fs d) sample_manifest = {}" for d
    by (simp add: file_contents_def empty_fs_def)
  then have "hashed (empty_fs d) sample_manifest = components_blob ` set_option (manifest_components (empty_fs True) sample_manifest)" for d
    by (simp add: hashed_def c [of d])
  then show "inj_on sha256_hex (hashed (empty_fs True) sample_manifest \<union> hashed (empty_fs False) sample_manifest)"
    by (cases "manifest_components (empty_fs True) sample_manifest") simp_all
  show "hd (im_inputs sample_manifest) \<in> set (im_inputs sample_manifest)" by (simp add: sample_manifest_def)
qed

end
