(* ===== verification/Cas_Digest.thy ===== *)
theory Cas_Digest
  imports Determinism
begin

text \<open>
  Content digests, \<open>src/crates/cas/src/lib.rs\<close>: the digest type with its validated
  constructors and canonical string form, and the codec checksum. BLAKE3 is a third-party
  crate and stays a parameter \<open>blake3\<close> of the definitions that hash; what the code relies on
  is its 32-byte output (\<open>blake3_output\<close>) and, in the theorems about keys, that it does not
  collide on the strings hashed there.
\<close>

type_synonym hash_fn = "bytes \<Rightarrow> bytes"

definition blake3_output :: "hash_fn \<Rightarrow> bool" where
  "blake3_output blake3 \<longleftrightarrow> (\<forall>bs. length (blake3 bs) = 32)"

definition codec_checksum :: "hash_fn \<Rightarrow> bytes \<Rightarrow> bytes" where
  "codec_checksum blake3 bs = take 8 (blake3 bs)"

datatype digest_algo = Blake3

primrec algo_hex_len :: "digest_algo \<Rightarrow> nat" where "algo_hex_len Blake3 = 64"
primrec algo_tag :: "digest_algo \<Rightarrow> string" where "algo_tag Blake3 = ''blake3''"

definition algo_from_tag :: "string \<Rightarrow> digest_algo option" where
  "algo_from_tag t = (if t = ''blake3'' then Some Blake3 else None)"

record digest =
  di_algo :: digest_algo
  di_hex :: string

datatype digest_error = WrongLength nat nat | NotLowerHex | UnknownAlgo

definition digest_of :: "hash_fn \<Rightarrow> bytes \<Rightarrow> digest" where
  "digest_of blake3 bs = \<lparr>di_algo = Blake3, di_hex = hex_of (blake3 bs)\<rparr>"

definition is_lower_hex :: "char \<Rightarrow> bool" where
  "is_lower_hex c \<longleftrightarrow> is_ascii_digit c \<or> CHR ''a'' \<le> c \<and> c \<le> CHR ''f''"

definition digest_from_hex :: "digest_algo \<Rightarrow> string \<Rightarrow> digest_error + digest" where
  "digest_from_hex algo hex =
     (let expected = algo_hex_len algo in
      if length hex \<noteq> expected then Inl (WrongLength expected (length hex))
      else if \<not> list_all is_lower_hex hex then Inl NotLowerHex
      else Inr \<lparr>di_algo = algo, di_hex = hex\<rparr>)"

definition digest_parse :: "string \<Rightarrow> digest_error + digest" where
  "digest_parse s =
     (case split_once (CHR '':'') s of
        Some (tag, hex) \<Rightarrow>
          (case algo_from_tag tag of None \<Rightarrow> Inl UnknownAlgo | Some algo \<Rightarrow> digest_from_hex algo hex)
      | None \<Rightarrow> Inl UnknownAlgo)"

definition digest_canonical :: "digest \<Rightarrow> string" where
  "digest_canonical d = algo_tag (di_algo d) @ '':'' @ di_hex d"

text \<open>A digest as the constructors build it: the path-safety boundary of the store.\<close>

definition digest_ok :: "digest \<Rightarrow> bool" where
  "digest_ok d \<longleftrightarrow> length (di_hex d) = algo_hex_len (di_algo d) \<and> list_all is_lower_hex (di_hex d)"

lemma digest_from_hex_ok: "digest_from_hex algo hex = Inr d \<longleftrightarrow> digest_ok d \<and> d = \<lparr>di_algo = algo, di_hex = hex\<rparr>"
  by (auto simp: digest_from_hex_def digest_ok_def Let_def)

lemma digest_parse_iff: "digest_parse s = Inr d \<longleftrightarrow> digest_ok d \<and> s = digest_canonical d"
proof
  assume p: "digest_parse s = Inr d"
  then obtain tag hex where s: "split_once (CHR '':'') s = Some (tag, hex)"
    by (auto simp: digest_parse_def split: option.splits)
  then have t: "tag = ''blake3''" and d: "digest_from_hex Blake3 hex = Inr d"
    using p by (auto simp: digest_parse_def algo_from_tag_def split: if_splits)
  then show "digest_ok d \<and> s = digest_canonical d"
    using s by (auto simp: digest_from_hex_ok digest_canonical_def split_once_Some)
next
  assume d: "digest_ok d \<and> s = digest_canonical d"
  obtain hex where hex: "d = \<lparr>di_algo = Blake3, di_hex = hex\<rparr>" by (metis digest.cases digest_algo.exhaust)
  have "split_once (CHR '':'') (''blake3'' @ CHR '':'' # hex) = Some (''blake3'', hex)"
    by (subst split_once_Some) simp
  then show "digest_parse s = Inr d"
    using d digest_from_hex_ok [of Blake3 hex d] by (simp add: digest_parse_def algo_from_tag_def digest_canonical_def hex)
qed

lemma HEX_lower: "c \<in> set HEX \<Longrightarrow> is_lower_hex c"
  by (auto simp: HEX_def is_lower_hex_def is_ascii_digit_def less_eq_char_def)

lemma digest_of_ok: "blake3_output blake3 \<Longrightarrow> digest_ok (digest_of blake3 bs)"
  using hex_of_chars HEX_lower by (auto simp: digest_ok_def digest_of_def blake3_output_def list_all_iff)

lemma digest_of_inj: "inj_on blake3 {a, b} \<Longrightarrow> digest_of blake3 a = digest_of blake3 b \<Longrightarrow> a = b"
  by (auto simp: digest_of_def dest: hex_of_inj)

lemma digest_canonical_inj: "digest_canonical d = digest_canonical d' \<Longrightarrow> d = d'"
  by (cases d; cases d'; case_tac di_algo; case_tac di_algoa) (simp add: digest_canonical_def)

lemma lower_hex_not_special:
  "is_lower_hex c \<Longrightarrow> c \<noteq> bsl \<and> c \<noteq> CHR ''/'' \<and> c \<noteq> CHR ''.'' \<and> c \<noteq> CHR '':'' \<and> c \<noteq> nul \<and> c \<noteq> CHR 0x0A"
  by (auto simp: is_lower_hex_def is_ascii_digit_def less_eq_char_def)

text \<open>
  \<open>Digest::parse\<close> accepts exactly the canonical strings of valid digests, so one digest has
  one spelling, and a parsed digest carries no path separator, dot or drive colon.
\<close>
theorem digest_parse_exact:
  "(digest_parse s = Inr d \<longleftrightarrow> digest_ok d \<and> s = digest_canonical d)
   \<and> (digest_ok d \<longrightarrow> (\<forall>c \<in> set (di_hex d). c \<noteq> bsl \<and> c \<noteq> CHR ''/'' \<and> c \<noteq> CHR ''.'' \<and> c \<noteq> CHR '':''))"
  using digest_parse_iff lower_hex_not_special by (auto simp: digest_ok_def list_all_iff)

theorem digest_parse_exact_witness:
  "let d = \<lparr>di_algo = Blake3, di_hex = replicate 64 (CHR ''a'')\<rparr> in
   (digest_parse (digest_canonical d) = Inr d \<longleftrightarrow> digest_ok d \<and> digest_canonical d = digest_canonical d)
   \<and> (digest_ok d \<longrightarrow> (\<forall>c \<in> set (di_hex d). c \<noteq> bsl \<and> c \<noteq> CHR ''/'' \<and> c \<noteq> CHR ''.'' \<and> c \<noteq> CHR '':''))"
  unfolding Let_def by (rule digest_parse_exact)

end
