(* ===== verification/Cas_Store.thy ===== *)
theory Cas_Store
  imports Cas_Digest "HOL-Library.Multiset"
begin

text \<open>
  The blob store, \<open>src/crates/cas/src/store.rs\<close>: \<open>put\<close>, the verified variants, reads, presence
  probes, size and eviction, and \<open>write_atomic\<close>. The state is what the shard directories hold
  under each blob name, tampered or unreadable contents included; what the operating system
  lets an operation do (whether the handle is open, a temp can be written, a rename or a
  removal succeeds) is its environment. The ephemeral-root lifecycle and the Windows handle
  code of the same file are not modelled.
\<close>

datatype cas_error =
  CasIo
| DigestMismatch digest digest
| Corrupt digest
| CasDigest digest_error

type_synonym blobs = "string \<Rightarrow> fs_read"

text \<open>What happens to the temp file of one publication and to its final name.\<close>

record store_os =
  os_open :: bool
  os_locks :: bool
  os_temp_ok :: bool
  os_rename_ok :: bool
  os_still_ours :: bool
  os_remove_ok :: "string \<Rightarrow> bool"

section \<open>Reading\<close>

definition get_with :: "blobs \<Rightarrow> digest \<Rightarrow> cas_error + bytes option" where
  "get_with bl d =
     (case bl (di_hex d) of FsOk bs \<Rightarrow> Inr (Some bs) | FsNotFound \<Rightarrow> Inr None | FsError \<Rightarrow> Inl CasIo)"

definition store_get :: "store_os \<Rightarrow> blobs \<Rightarrow> digest \<Rightarrow> cas_error + bytes option" where
  "store_get os bl d = (if os_open os then get_with bl d else Inl CasIo)"

definition get_verified_with :: "hash_fn \<Rightarrow> blobs \<Rightarrow> digest \<Rightarrow> cas_error + bytes option" where
  "get_verified_with blake3 bl d =
     (case get_with bl d of
        Inl e \<Rightarrow> Inl e
      | Inr None \<Rightarrow> Inr None
      | Inr (Some bs) \<Rightarrow> if digest_of blake3 bs \<noteq> d then Inl (Corrupt d) else Inr (Some bs))"

definition get_verified :: "hash_fn \<Rightarrow> store_os \<Rightarrow> blobs \<Rightarrow> digest \<Rightarrow> cas_error + bytes option" where
  "get_verified blake3 os bl d = (if os_open os then get_verified_with blake3 bl d else Inl CasIo)"

definition read_range_from :: "bytes \<Rightarrow> nat \<Rightarrow> nat \<Rightarrow> bytes" where
  "read_range_from file offset len =
     (if len = 0 then []
      else if offset \<ge> length file then []
      else take (min len (length file - offset)) (drop offset file))"

definition store_get_range :: "store_os \<Rightarrow> blobs \<Rightarrow> digest \<Rightarrow> nat \<Rightarrow> nat \<Rightarrow> cas_error + bytes option" where
  "store_get_range os bl d offset len =
     (if os_open os then
        (case get_with bl d of
           Inl e \<Rightarrow> Inl e | Inr None \<Rightarrow> Inr None | Inr (Some f) \<Rightarrow> Inr (Some (read_range_from f offset len)))
      else Inl CasIo)"

definition store_has :: "store_os \<Rightarrow> blobs \<Rightarrow> digest \<Rightarrow> bool" where
  "store_has os bl d \<longleftrightarrow> os_open os \<and> (\<exists>bs. bl (di_hex d) = FsOk bs)"

definition has_batch :: "store_os \<Rightarrow> blobs \<Rightarrow> digest list \<Rightarrow> bool list" where
  "has_batch os bl ds =
     (if \<not> os_open os then replicate (length ds) False
      else map (\<lambda>d. case bl (di_hex d) of FsOk _ \<Rightarrow> True | _ \<Rightarrow> False) ds)"

section \<open>Writing\<close>

definition verify_secure_file :: "hash_fn \<Rightarrow> blobs \<Rightarrow> digest \<Rightarrow> bool" where
  "verify_secure_file blake3 bl d =
     (case bl (di_hex d) of FsOk bs \<Rightarrow> digest_of blake3 bs = d | _ \<Rightarrow> False)"

definition publish_cas_blob ::
    "hash_fn \<Rightarrow> store_os \<Rightarrow> bytes \<Rightarrow> digest \<Rightarrow> blobs \<Rightarrow> (cas_error + unit) \<times> blobs" where
  "publish_cas_blob blake3 os bs d bl =
     (if \<not> os_temp_ok os then (Inl CasIo, bl)
      else if digest_of blake3 bs \<noteq> d then (Inl CasIo, bl)
      else if \<not> os_rename_ok os then
        (if verify_secure_file blake3 bl d then (Inr (), bl)
         else (Inl CasIo, bl(di_hex d := FsNotFound)))
      else if \<not> os_still_ours os then (Inl CasIo, bl(di_hex d := FsNotFound))
      else (Inr (), bl(di_hex d := FsOk bs)))"

definition remove_blob_entry :: "store_os \<Rightarrow> digest \<Rightarrow> blobs \<Rightarrow> (cas_error + unit) \<times> blobs" where
  "remove_blob_entry os d bl =
     (if bl (di_hex d) = FsNotFound then (Inr (), bl)
      else if os_remove_ok os (di_hex d) then (Inr (), bl(di_hex d := FsNotFound))
      else (Inl CasIo, bl))"

definition store_digest_known ::
    "hash_fn \<Rightarrow> store_os \<Rightarrow> bytes \<Rightarrow> digest \<Rightarrow> blobs \<Rightarrow> (cas_error + unit) \<times> blobs" where
  "store_digest_known blake3 os bs d bl =
     (if \<not> os_locks os then (Inl CasIo, bl)
      else case get_verified_with blake3 bl d of
        Inr (Some _) \<Rightarrow> (Inr (), bl)
      | Inr None \<Rightarrow> publish_cas_blob blake3 os bs d bl
      | Inl (Corrupt _) \<Rightarrow>
          (case remove_blob_entry os d bl of
             (Inl e, bl') \<Rightarrow> (Inl e, bl') | (Inr _, bl') \<Rightarrow> publish_cas_blob blake3 os bs d bl')
      | Inl CasIo \<Rightarrow>
          (case remove_blob_entry os d bl of
             (Inl e, bl') \<Rightarrow> (Inl e, bl') | (Inr _, bl') \<Rightarrow> publish_cas_blob blake3 os bs d bl')
      | Inl _ \<Rightarrow> (Inl CasIo, bl))"

definition store_put :: "hash_fn \<Rightarrow> store_os \<Rightarrow> bytes \<Rightarrow> blobs \<Rightarrow> (cas_error + digest) \<times> blobs" where
  "store_put blake3 os bs bl =
     (if \<not> os_open os then (Inl CasIo, bl)
      else let d = digest_of blake3 bs in
        case store_digest_known blake3 os bs d bl of
          (Inl e, bl') \<Rightarrow> (Inl e, bl') | (Inr _, bl') \<Rightarrow> (Inr d, bl'))"

definition put_verified ::
    "hash_fn \<Rightarrow> store_os \<Rightarrow> bytes \<Rightarrow> digest \<Rightarrow> blobs \<Rightarrow> (cas_error + digest) \<times> blobs" where
  "put_verified blake3 os bs claimed bl =
     (if \<not> os_open os then (Inl CasIo, bl)
      else let actual = digest_of blake3 bs in
        if actual \<noteq> claimed then (Inl (DigestMismatch claimed actual), bl)
        else case store_digest_known blake3 os bs actual bl of
          (Inl e, bl') \<Rightarrow> (Inl e, bl') | (Inr _, bl') \<Rightarrow> (Inr actual, bl'))"

definition repair_verified ::
    "hash_fn \<Rightarrow> store_os \<Rightarrow> bytes \<Rightarrow> digest \<Rightarrow> blobs \<Rightarrow> (cas_error + digest) \<times> blobs" where
  "repair_verified = put_verified"

section \<open>Size and eviction\<close>

datatype entry_kind = Temp | Blob

record store_entry =
  se_name :: string
  se_size :: nat
  se_mtime :: nat
  se_kind :: entry_kind

definition total_size :: "store_entry list \<Rightarrow> nat" where
  "total_size entries = fold (\<lambda>e sum. saturating_add sum (se_size e)) entries 0"

definition kind_rank :: "entry_kind \<Rightarrow> nat" where
  "kind_rank k = (case k of Temp \<Rightarrow> 0 | Blob \<Rightarrow> 1)"

text \<open>A stable sort by kind, then modification time: sort by the minor key first.\<close>

definition eviction_order :: "store_entry list \<Rightarrow> store_entry list" where
  "eviction_order entries = sort_key (\<lambda>e. kind_rank (se_kind e)) (sort_key se_mtime entries)"

fun evict_loop ::
    "(string \<Rightarrow> bool) \<Rightarrow> nat \<Rightarrow> store_entry list \<Rightarrow> nat \<Rightarrow> nat \<Rightarrow> string set \<Rightarrow> nat \<times> nat \<times> string set" where
  "evict_loop rm max_bytes [] tot freed gone = (tot, freed, gone)"
| "evict_loop rm max_bytes (e # es) tot freed gone =
     (if tot \<le> max_bytes then (tot, freed, gone)
      else if rm (se_name e)
      then evict_loop rm max_bytes es (saturating_sub tot (se_size e)) (saturating_add freed (se_size e))
             (insert (se_name e) gone)
      else evict_loop rm max_bytes es tot freed gone)"

definition evict_to :: "store_os \<Rightarrow> nat \<Rightarrow> store_entry list \<Rightarrow> (cas_error + nat) \<times> store_entry list" where
  "evict_to os max_bytes entries =
     (if \<not> os_open os \<or> \<not> os_locks os then (Inl CasIo, entries)
      else if total_size entries \<le> max_bytes then (Inr 0, entries)
      else case evict_loop (os_remove_ok os) max_bytes (eviction_order entries) (total_size entries) 0 {} of
        (tot, freed, gone) \<Rightarrow> (Inr freed, filter (\<lambda>e. se_name e \<notin> gone) entries))"

section \<open>Keyed entries\<close>

text \<open>
  \<open>write_atomic\<close> writes a temp sibling and renames it onto the final path; a failed rename
  with something already at the final path counts as success.
\<close>

record disk =
  dk_files :: "string \<Rightarrow> fs_read"
  dk_temp_fails :: "string \<Rightarrow> bool"
  dk_rename_fails :: "string \<Rightarrow> bool"

definition write_atomic :: "string \<Rightarrow> bytes \<Rightarrow> disk \<Rightarrow> bool \<times> disk" where
  "write_atomic path bs dk =
     (if dk_temp_fails dk path then (False, dk)
      else if \<not> dk_rename_fails dk path then (True, dk\<lparr>dk_files := (dk_files dk)(path := FsOk bs)\<rparr>)
      else if dk_files dk path \<noteq> FsNotFound then (True, dk)
      else (False, dk))"

section \<open>Correctness\<close>

lemma get_verified_sound:
  "get_verified blake3 os bl d = Inr (Some bs) \<Longrightarrow> digest_of blake3 bs = d \<and> bl (di_hex d) = FsOk bs"
  by (auto simp: get_verified_def get_verified_with_def get_with_def split: if_splits sum.splits option.splits fs_read.splits)

lemma publish_ok:
  assumes "publish_cas_blob blake3 os bs d bl = (Inr (), bl')"
  shows "verify_secure_file blake3 bl' d"
  using assms by (auto simp: publish_cas_blob_def verify_secure_file_def split: if_splits)

lemma store_digest_known_ok:
  assumes "store_digest_known blake3 os bs d bl = (Inr (), bl')"
  shows "verify_secure_file blake3 bl' d"
proof -
  have known: "verify_secure_file blake3 bl d" if "get_verified_with blake3 bl d = Inr (Some x)" for x
    using that by (auto simp: get_verified_with_def get_with_def verify_secure_file_def
        split: sum.splits option.splits fs_read.splits if_splits)
  show ?thesis
    using assms known publish_ok
    by (auto simp: store_digest_known_def split: if_splits sum.splits option.splits cas_error.splits prod.splits)
qed

lemma store_digest_known_frame:
  "h \<noteq> di_hex d \<Longrightarrow> snd (store_digest_known blake3 os bs d bl) h = bl h"
  by (auto simp: store_digest_known_def publish_cas_blob_def remove_blob_entry_def
      split: if_splits sum.splits option.splits cas_error.splits prod.splits)

text \<open>
  The assumption the content address rests on, for one content: nothing else hashes to it.
\<close>

definition no_second_preimage :: "hash_fn \<Rightarrow> bytes \<Rightarrow> bool" where
  "no_second_preimage blake3 bs \<longleftrightarrow> (\<forall>x. blake3 x = blake3 bs \<longrightarrow> x = bs)"

lemma digest_of_preimage: "no_second_preimage blake3 bs \<Longrightarrow> digest_of blake3 x = digest_of blake3 bs \<Longrightarrow> x = bs"
  by (auto simp: no_second_preimage_def digest_of_def dest: hex_of_inj)

lemma verified_content:
  assumes "verify_secure_file blake3 bl (digest_of blake3 bs)" "no_second_preimage blake3 bs" "os_open os"
  shows "get_verified blake3 os bl (digest_of blake3 bs) = Inr (Some bs)"
  using assms digest_of_preimage [OF assms(2)]
  by (auto simp: verify_secure_file_def get_verified_def get_verified_with_def get_with_def split: fs_read.splits)

lemma store_put_spec:
  assumes "store_put blake3 os bs bl = (Inr d, bl')"
  shows "d = digest_of blake3 bs" "verify_secure_file blake3 bl' d" "h \<noteq> di_hex d \<Longrightarrow> bl' h = bl h"
proof -
  have open_os: "os_open os" using assms by (auto simp: store_put_def split: if_splits)
  obtain r where r: "store_digest_known blake3 os bs (digest_of blake3 bs) bl = (Inr r, bl')" "d = digest_of blake3 bs"
    using assms open_os by (auto simp: store_put_def Let_def split: prod.splits sum.splits)
  then show "d = digest_of blake3 bs" "verify_secure_file blake3 bl' d"
    using store_digest_known_ok by auto
  show "h \<noteq> di_hex d \<Longrightarrow> bl' h = bl h"
    using store_digest_known_frame [of h d blake3 os bs bl] r by simp
qed

text \<open>
  C33. A successful \<open>put\<close> makes its content readable and changes nothing else: afterwards a
  verified read of the returned digest yields exactly the bytes stored, even if the address
  held a corrupt or unreadable file before, and every other address is as it was.
\<close>
theorem store_put_get_verified:
  assumes "store_put blake3 os bs bl = (Inr d, bl')" and "no_second_preimage blake3 bs"
  shows "get_verified blake3 os bl' d = Inr (Some bs) \<and> (\<forall>h. h \<noteq> di_hex d \<longrightarrow> bl' h = bl h)"
proof -
  have "os_open os" using assms(1) by (auto simp: store_put_def split: if_splits)
  then show ?thesis
    using store_put_spec [OF assms(1)] verified_content assms(2) by auto
qed

definition toy_hash :: hash_fn where
  "toy_hash bs = (if bs = [1] then replicate 32 1 else replicate 32 0)"

definition toy_os :: store_os where
  "toy_os = \<lparr>os_open = True, os_locks = True, os_temp_ok = True, os_rename_ok = True, os_still_ours = True,
     os_remove_ok = \<lambda>_. True\<rparr>"

lemma toy_hash_output: "blake3_output toy_hash"
  by (simp add: blake3_output_def toy_hash_def)

lemma toy_hash_preimage: "no_second_preimage toy_hash [1]"
  by (auto simp: no_second_preimage_def toy_hash_def replicate_eq_replicate)

theorem store_put_get_verified_witness:
  "let d = digest_of toy_hash [1]; bl = (\<lambda>_. FsOk [7]); bl' = bl(di_hex d := FsOk [1]) in
   get_verified toy_hash toy_os bl' d = Inr (Some [1]) \<and> (\<forall>h. h \<noteq> di_hex d \<longrightarrow> bl' h = bl h)"
  unfolding Let_def
proof (rule store_put_get_verified [OF _ toy_hash_preimage])
  have "digest_of toy_hash [7] \<noteq> digest_of toy_hash [1]"
    using digest_of_preimage [OF toy_hash_preimage, of "[7]"] by auto
  then show "store_put toy_hash toy_os [1] (\<lambda>_. FsOk [7])
      = (Inr (digest_of toy_hash [1]), (\<lambda>_. FsOk [7])(di_hex (digest_of toy_hash [1]) := FsOk [1]))"
    by (simp add: store_put_def store_digest_known_def get_verified_with_def get_with_def toy_os_def
        remove_blob_entry_def publish_cas_blob_def Let_def)
qed

lemma put_verified_rejects:
  "digest_of blake3 bs \<noteq> claimed \<Longrightarrow> os_open os \<Longrightarrow>
   put_verified blake3 os bs claimed bl = (Inl (DigestMismatch claimed (digest_of blake3 bs)), bl)"
  by (simp add: put_verified_def Let_def)

section \<open>Eviction\<close>

lemma total_size_sum:
  assumes "sum_list (map se_size entries) \<le> u64_max"
  shows "total_size entries = sum_list (map se_size entries)"
proof -
  have "fold (\<lambda>e sum. saturating_add sum (se_size e)) es a = a + sum_list (map se_size es)"
    if "a + sum_list (map se_size es) \<le> u64_max" for es a
    using that by (induction es arbitrary: a) (auto simp: saturating_add_def add.assoc)
  from this [of 0 entries] show ?thesis using assms by (simp add: total_size_def)
qed

lemma evict_loop_spec:
  assumes "evict_loop rm mx es tot freed gone = (tot', freed', gone')"
    and "tot + freed \<le> u64_max" and "sum_list (map se_size es) \<le> tot" and "distinct (map se_name es)"
    and "gone \<inter> se_name ` set es = {}"
  shows "tot' + freed' = tot + freed \<and> (tot' \<le> mx \<or> (\<forall>e \<in> set es. rm (se_name e) \<longrightarrow> se_name e \<in> gone'))
    \<and> gone \<subseteq> gone' \<and> (\<forall>n \<in> gone' - gone. rm n)
    \<and> tot = tot' + sum_list (map se_size (filter (\<lambda>e. se_name e \<in> gone') es))
    \<and> gone' \<subseteq> gone \<union> se_name ` set es"
  using assms
proof (induction es arbitrary: tot freed gone)
  case Nil
  then show ?case by simp
next
  case (Cons e es)
  show ?case
  proof (cases "tot \<le> mx")
    case True
    then have r: "tot' = tot" "freed' = freed" "gone' = gone" using Cons.prems(1) by auto
    have "filter (\<lambda>e. se_name e \<in> gone) (e # es) = []"
      using Cons.prems(5) by (auto simp: filter_empty_conv)
    then show ?thesis using True r by auto
  next
    case False
    show ?thesis
    proof (cases "rm (se_name e)")
      case True
      let ?t = "tot - se_size e" and ?g = "insert (se_name e) gone"
      have step: "evict_loop rm mx es ?t (freed + se_size e) ?g = (tot', freed', gone')"
        using Cons.prems(1,2,3) False True by (simp add: saturating_sub_def saturating_add_def)
      have IH: "tot' + freed' = ?t + (freed + se_size e)
          \<and> (tot' \<le> mx \<or> (\<forall>e \<in> set es. rm (se_name e) \<longrightarrow> se_name e \<in> gone'))
          \<and> ?g \<subseteq> gone' \<and> (\<forall>n \<in> gone' - ?g. rm n)
          \<and> ?t = tot' + sum_list (map se_size (filter (\<lambda>e. se_name e \<in> gone') es)) \<and> gone' \<subseteq> ?g \<union> se_name ` set es"
        using Cons.IH [OF step] Cons.prems by auto
      then show ?thesis using True Cons.prems(3) by auto
    next
      case False2: False
      have step: "evict_loop rm mx es tot freed gone = (tot', freed', gone')"
        using Cons.prems(1) False False2 by simp
      have IH: "tot' + freed' = tot + freed
          \<and> (tot' \<le> mx \<or> (\<forall>e \<in> set es. rm (se_name e) \<longrightarrow> se_name e \<in> gone'))
          \<and> gone \<subseteq> gone' \<and> (\<forall>n \<in> gone' - gone. rm n)
          \<and> tot = tot' + sum_list (map se_size (filter (\<lambda>e. se_name e \<in> gone') es)) \<and> gone' \<subseteq> gone \<union> se_name ` set es"
        using Cons.IH [OF step] Cons.prems by auto
      have "se_name e \<notin> gone'" using IH Cons.prems(4,5) by auto
      then show ?thesis using IH False2 by auto
    qed
  qed
qed

lemma eviction_order_perm: "mset (eviction_order entries) = mset entries"
  by (simp add: eviction_order_def)

lemma sum_filter_perm:
  assumes "mset xs = mset ys"
  shows "sum_list (map f (filter P xs)) = sum_list (map (f :: _ \<Rightarrow> nat) (filter P ys))"
proof -
  have "mset (map f (filter P xs)) = mset (map f (filter P ys))" using assms by simp
  then have "sum_mset (mset (map f (filter P xs))) = sum_mset (mset (map f (filter P ys)))" by (rule arg_cong)
  then show ?thesis unfolding sum_mset_sum_list .
qed

lemma sum_filter_split:
  "sum_list (map f (filter P xs)) + sum_list (map f (filter (\<lambda>x. \<not> P x) xs)) = sum_list (map (f :: _ \<Rightarrow> nat) xs)"
  by (induction xs) auto



end
