(* ===== verification/Cas_Action_Cache.thy ===== *)
theory Cas_Action_Cache
  imports Cas_Store Trace_Format "HOL-Library.Product_Lexorder"
begin

text \<open>
  The action cache, \<open>src/crates/cas/src/action_cache.rs\<close>: the weak and strong fingerprints, the
  \<open>ActionResult\<close> codec with its version gate and checksum, and the two keyed layers on disk.
  The on-disk state is the \<open>disk\<close> of the blob store's theory.
\<close>

section \<open>Fingerprints\<close>

definition VOLATILE_ENV :: "string list" where
  "VOLATILE_ENV = [''PATH'', ''TEMP'', ''TMP'', ''TMPDIR'', ''USERNAME'', ''USERPROFILE'', ''USERDOMAIN'',
     ''HOMEPATH'', ''HOMEDRIVE'', ''COMPUTERNAME'', ''LOGONSERVER'', ''SESSIONNAME'', ''PROMPT'', ''RANDOM'']"

definition is_volatile :: "string \<Rightarrow> bool" where
  "is_volatile name =
     (let upper = to_ascii_uppercase name in
      starts_with upper ''VSCMD_'' \<or> starts_with upper ''__VSCMD'' \<or> list_ex (\<lambda>v. v = upper) VOLATILE_ENV)"

definition WEAK_KEY_SCHEMA :: u32 where "WEAK_KEY_SCHEMA = 3"

type_synonym env = "(string \<times> string) list"

definition kept_env :: "env \<Rightarrow> env" where
  "kept_env e = sort (map (\<lambda>(k, v). (to_ascii_uppercase k, v)) (filter (\<lambda>(k, _). \<not> is_volatile k) e))"

definition key_cwd :: "string \<Rightarrow> string" where
  "key_cwd cwd = to_ascii_lowercase (replace_char (CHR ''/'') bsl cwd)"

definition weak_blob :: "string list \<Rightarrow> env \<Rightarrow> string \<Rightarrow> digest \<Rightarrow> bytes" where
  "weak_blob argv e cwd toolchain =
     as_bytes (''sbz-weak'' @ [nul]) @ u32_to_le WEAK_KEY_SCHEMA @ as_bytes ([nul] @ ''argv'' @ [nul])
     @ concat (map (\<lambda>a. as_bytes a @ [0]) argv)
     @ as_bytes ([nul] @ ''cwd'' @ [nul]) @ as_bytes (key_cwd cwd)
     @ as_bytes ([nul] @ ''env'' @ [nul])
     @ concat (map (\<lambda>(k, v). as_bytes k @ as_bytes ''='' @ as_bytes v @ [0]) (kept_env e))
     @ as_bytes ([nul] @ ''tool'' @ [nul]) @ as_bytes (digest_canonical toolchain)"

definition weak_fingerprint :: "hash_fn \<Rightarrow> string list \<Rightarrow> env \<Rightarrow> string \<Rightarrow> digest \<Rightarrow> digest" where
  "weak_fingerprint blake3 argv e cwd toolchain = digest_of blake3 (weak_blob argv e cwd toolchain)"

definition strong_blob :: "digest \<Rightarrow> string \<Rightarrow> bytes" where
  "strong_blob weak input_hash = as_bytes (digest_canonical weak) @ [0] @ as_bytes input_hash"

definition strong_fingerprint :: "hash_fn \<Rightarrow> digest \<Rightarrow> string \<Rightarrow> digest" where
  "strong_fingerprint blake3 weak input_hash = digest_of blake3 (strong_blob weak input_hash)"

section \<open>The result codec\<close>

record output_file =
  of_logical_path :: string
  of_digest :: digest

record action_result =
  ar_exit_code :: u32
  ar_outputs :: "output_file list"
  ar_stdout :: "digest option"
  ar_stderr :: "digest option"

text \<open>
  \<open>exit_code\<close> is an \<open>i32\<close>; the codec only moves its four bytes, so it is kept as the 32-bit word
  of the same bytes.
\<close>

definition RESULT_CODEC_MAGIC :: bytes where "RESULT_CODEC_MAGIC = as_bytes ''SBZR''"
definition RESULT_CODEC_VERSION :: u8 where "RESULT_CODEC_VERSION = 2"
definition MAX_OUTPUTS :: nat where "MAX_OUTPUTS = 65536"
definition MAX_STRING_LEN :: nat where "MAX_STRING_LEN = 16 * 2 ^ 20"

definition put_str :: "string \<Rightarrow> bytes" where
  "put_str s = u32_to_le (word_of_nat (length s)) @ as_bytes s"

definition get_u32 :: "u32 trace_reader" where
  "get_u32 = sm_bind (t_take 4) (\<lambda>b. sm_ret (u32_from_le b))"

definition get_str :: "string trace_reader" where
  "get_str = sm_bind get_u32 (\<lambda>n.
     if unat n > MAX_STRING_LEN then sm_err ()
     else sm_bind (t_take (unat n)) (\<lambda>b.
       case from_utf8 b of None \<Rightarrow> sm_err () | Some s \<Rightarrow> sm_ret s))"

definition get_digest :: "digest trace_reader" where
  "get_digest = sm_bind get_str (\<lambda>s. case digest_parse s of Inl _ \<Rightarrow> sm_err () | Inr d \<Rightarrow> sm_ret d)"

definition get_opt_digest :: "digest option trace_reader" where
  "get_opt_digest = sm_bind get_str (\<lambda>s.
     if s = [] then sm_ret None
     else case digest_parse s of Inl _ \<Rightarrow> sm_err () | Inr d \<Rightarrow> sm_ret (Some d))"

definition opt_canonical :: "digest option \<Rightarrow> string" where
  "opt_canonical d = (case d of None \<Rightarrow> [] | Some d \<Rightarrow> digest_canonical d)"

definition put_output :: "output_file \<Rightarrow> bytes" where
  "put_output out = put_str (of_logical_path out) @ put_str (digest_canonical (of_digest out))"

definition get_output :: "output_file trace_reader" where
  "get_output = sm_bind get_str (\<lambda>logical. sm_bind get_digest (\<lambda>d.
     sm_ret \<lparr>of_logical_path = logical, of_digest = d\<rparr>))"

definition result_body :: "action_result \<Rightarrow> bytes" where
  "result_body r =
     u32_to_le (ar_exit_code r) @ u32_to_le (word_of_nat (length (ar_outputs r)))
     @ concat (map put_output (ar_outputs r))
     @ put_str (opt_canonical (ar_stdout r)) @ put_str (opt_canonical (ar_stderr r))"

definition action_result_encode :: "hash_fn \<Rightarrow> action_result \<Rightarrow> bytes" where
  "action_result_encode blake3 r =
     (let buf = RESULT_CODEC_MAGIC @ [RESULT_CODEC_VERSION] @ result_body r
      in buf @ codec_checksum blake3 buf)"

definition get_result_body :: "action_result trace_reader" where
  "get_result_body = sm_bind get_u32 (\<lambda>code. sm_bind get_u32 (\<lambda>n.
     if unat n > MAX_OUTPUTS then sm_err ()
     else sm_bind (sm_repeat (unat n) get_output) (\<lambda>outs.
       sm_bind get_opt_digest (\<lambda>so. sm_bind get_opt_digest (\<lambda>se.
         sm_ret \<lparr>ar_exit_code = code, ar_outputs = outs, ar_stdout = so, ar_stderr = se\<rparr>)))))"

text \<open>
  The frame both cache codecs share: an 8-byte checksum at the end, a 4-byte magic and a
  version byte at the front, and a body the reader must consume to its end.
\<close>

definition decode_sealed :: "hash_fn \<Rightarrow> bytes \<Rightarrow> u8 \<Rightarrow> 'a trace_reader \<Rightarrow> bytes \<Rightarrow> 'a option" where
  "decode_sealed blake3 magic version rd buf =
     (if length buf < 8 then None
      else let body = take (length buf - 8) buf; sum = drop (length buf - 8) buf in
        if codec_checksum blake3 body \<noteq> sum then None
        else if get_range body 0 4 \<noteq> Some magic then None
        else if length body \<le> 4 \<or> body ! 4 \<noteq> version then None
        else case rd \<lparr>cbuf = body, cpos = 5\<rparr> of
          (Inl _, _) \<Rightarrow> None
        | (Inr a, c) \<Rightarrow> if cpos c \<noteq> length body then None else Some a)"

definition action_result_decode :: "hash_fn \<Rightarrow> bytes \<Rightarrow> action_result option" where
  "action_result_decode blake3 buf =
     decode_sealed blake3 RESULT_CODEC_MAGIC RESULT_CODEC_VERSION get_result_body buf"

section \<open>The two layers\<close>

record action_cache =
  ac_weak_root :: string
  ac_strong_root :: string

definition action_cache_open :: "string \<Rightarrow> action_cache" where
  "action_cache_open root =
     \<lparr>ac_weak_root = root @ [bsl] @ ''ac'' @ [bsl] @ ''weak'',
      ac_strong_root = root @ [bsl] @ ''ac'' @ [bsl] @ ''strong''\<rparr>"

definition key_path :: "string \<Rightarrow> digest \<Rightarrow> string" where
  "key_path root key = root @ [bsl] @ take 2 (di_hex key) @ [bsl] @ di_hex key"

definition put_manifest :: "action_cache \<Rightarrow> digest \<Rightarrow> bytes \<Rightarrow> disk \<Rightarrow> bool \<times> disk" where
  "put_manifest ac weak bs dk = write_atomic (key_path (ac_weak_root ac) weak) bs dk"

definition get_manifest :: "action_cache \<Rightarrow> digest \<Rightarrow> disk \<Rightarrow> unit + bytes option" where
  "get_manifest ac weak dk =
     (case dk_files dk (key_path (ac_weak_root ac) weak) of
        FsOk b \<Rightarrow> Inr (Some b) | FsNotFound \<Rightarrow> Inr None | FsError \<Rightarrow> Inl ())"

definition put_result :: "hash_fn \<Rightarrow> action_cache \<Rightarrow> digest \<Rightarrow> action_result \<Rightarrow> disk \<Rightarrow> bool \<times> disk" where
  "put_result blake3 ac strong r dk =
     write_atomic (key_path (ac_strong_root ac) strong) (action_result_encode blake3 r) dk"

definition get_result :: "hash_fn \<Rightarrow> action_cache \<Rightarrow> digest \<Rightarrow> disk \<Rightarrow> unit + action_result option" where
  "get_result blake3 ac strong dk =
     (case dk_files dk (key_path (ac_strong_root ac) strong) of
        FsOk b \<Rightarrow> Inr (action_result_decode blake3 b) | FsNotFound \<Rightarrow> Inr None | FsError \<Rightarrow> Inl ())"

section \<open>The codec is canonical\<close>

definition cstr_ok :: "string \<Rightarrow> bool" where
  "cstr_ok s \<longleftrightarrow> utf8_str s \<and> length s \<le> MAX_STRING_LEN"

lemma reads_get_u32: "reads get_u32 (u32_to_le v) v"
  unfolding get_u32_def by (rule reads_bind_last [OF exactly_reads [OF exactly_take]]) (auto intro: reads_ret)

lemma consumes_t_take: "consumes (t_take n) (\<lambda>bs. bs) (\<lambda>bs. length bs = n)"
  by (auto simp: consumes_def t_take_def checked_add_usize_def get_range_def split: option.splits if_splits)

lemma consumes_get_u32: "consumes get_u32 u32_to_le (\<lambda>_. True)"
  unfolding get_u32_def
  by (rule consumes_bind [OF consumes_t_take consumes_ret]) (auto simp: u32_to_from_le)

lemma cstr_len: "cstr_ok s \<Longrightarrow> unat (word_of_nat (length s) :: u32) = length s"
  by (intro unat_word32_of_nat) (simp add: cstr_ok_def MAX_STRING_LEN_def)

lemma reads_get_str: "cstr_ok s \<Longrightarrow> reads get_str (put_str s) s"
  unfolding get_str_def put_str_def
proof (rule reads_bind [OF reads_get_u32])
  assume s: "cstr_ok s"
  have "reads (case from_utf8 (as_bytes s) of None \<Rightarrow> sm_err () | Some s \<Rightarrow> sm_ret s) [] s"
    using s by (simp add: cstr_ok_def reads_ret)
  then have "reads (sm_bind (t_take (length s)) (\<lambda>b. case from_utf8 b of None \<Rightarrow> sm_err () | Some s \<Rightarrow> sm_ret s)) (as_bytes s) s"
    by (intro reads_bind_last [OF exactly_reads [OF exactly_take]]) simp_all
  then show "reads (if unat (word_of_nat (length s) :: u32) > MAX_STRING_LEN then sm_err ()
     else sm_bind (t_take (unat (word_of_nat (length s) :: u32))) (\<lambda>b.
       case from_utf8 b of None \<Rightarrow> sm_err () | Some s \<Rightarrow> sm_ret s)) (as_bytes s) s"
    using s unfolding cstr_len [OF s] by (simp add: cstr_ok_def)
qed

lemma consumes_get_str: "consumes get_str put_str cstr_ok"
  unfolding get_str_def
proof (rule consumes_bind [OF consumes_get_u32])
  fix n :: u32
  have "consumes (sm_bind (t_take (unat n)) (\<lambda>b. case from_utf8 b of None \<Rightarrow> sm_err () | Some s \<Rightarrow> sm_ret s))
      as_bytes (\<lambda>s. utf8_str s \<and> length s = unat n)"
  proof (rule consumes_bind [OF consumes_t_take])
    fix b :: bytes
    show "consumes (case from_utf8 b of None \<Rightarrow> sm_err () | Some s \<Rightarrow> sm_ret s) (\<lambda>_. []) (\<lambda>s. from_utf8 b = Some s)"
      by (auto simp: consumes_err split: option.splits intro: consumes_weaken [OF consumes_ret])
  qed (auto simp: from_utf8_Some)
  then show "consumes (if unat n > MAX_STRING_LEN then sm_err () else sm_bind (t_take (unat n)) (\<lambda>b.
       case from_utf8 b of None \<Rightarrow> sm_err () | Some s \<Rightarrow> sm_ret s))
      as_bytes (\<lambda>s. utf8_str s \<and> length s = unat n \<and> unat n \<le> MAX_STRING_LEN)"
    by (auto simp: consumes_err intro: consumes_weaken)
qed (auto simp: put_str_def cstr_ok_def)

interpretation cache_str: canonical_codec put_str get_str cstr_ok
  by unfold_locales (rule reads_get_str, assumption, rule consumes_get_str)

lemma digest_canonical_str_ok: "digest_ok d \<Longrightarrow> cstr_ok (digest_canonical d)"
proof -
  assume d: "digest_ok d"
  have al: "di_algo d = Blake3" by (rule digest_algo.exhaust)
  have "list_all (\<lambda>b. b < 0x80) (as_bytes (digest_canonical d))"
  proof -
    have "(word_of_nat (of_char c) :: u8) < 0x80" if "c \<in> set (digest_canonical d)" for c
    proof -
      have "(of_char c :: nat) < 128"
        using that d by (auto simp: digest_canonical_def al digest_ok_def list_all_iff is_lower_hex_def
            is_ascii_digit_def less_eq_char_def)
      then show ?thesis by (simp add: word_less_nat_alt unat_of_char)
    qed
    then show ?thesis by (auto simp: list_all_iff as_bytes_def)
  qed
  then have "utf8_str (digest_canonical d)" by (simp add: utf8_str_def utf8_valid_ascii)
  then show ?thesis using d by (simp add: cstr_ok_def digest_ok_def digest_canonical_def al MAX_STRING_LEN_def)
qed

lemma reads_get_digest: "digest_ok d \<Longrightarrow> reads get_digest (put_str (digest_canonical d)) d"
proof -
  assume d: "digest_ok d"
  then have "digest_parse (digest_canonical d) = Inr d" by (simp add: digest_parse_iff)
  then have "reads (case digest_parse (digest_canonical d) of Inl _ \<Rightarrow> sm_err () | Inr d \<Rightarrow> sm_ret d) [] d"
    by (simp add: reads_ret)
  then show ?thesis unfolding get_digest_def
    by (intro reads_bind_last [OF reads_get_str [OF digest_canonical_str_ok [OF d]]])
qed

lemma consumes_parse:
  "consumes (case digest_parse s of Inl _ \<Rightarrow> sm_err () | Inr d \<Rightarrow> sm_ret d) (\<lambda>_. []) (\<lambda>d. digest_parse s = Inr d)"
  by (auto simp: consumes_err split: sum.splits intro: consumes_weaken [OF consumes_ret])

lemma consumes_get_digest: "consumes get_digest (\<lambda>d. put_str (digest_canonical d)) digest_ok"
  unfolding get_digest_def
  by (rule consumes_bind [OF consumes_get_str consumes_parse]) (simp add: digest_parse_iff)

definition opt_digest_ok :: "digest option \<Rightarrow> bool" where
  "opt_digest_ok d = (case d of None \<Rightarrow> True | Some d \<Rightarrow> digest_ok d)"

lemma digest_canonical_not_Nil [simp]: "digest_canonical d \<noteq> []"
  by (simp add: digest_canonical_def)

lemma reads_get_opt_digest: "opt_digest_ok d \<Longrightarrow> reads get_opt_digest (put_str (opt_canonical d)) d"
proof (cases d)
  case None
  have "cstr_ok []" by (simp add: cstr_ok_def)
  from reads_get_str [OF this] show ?thesis unfolding get_opt_digest_def None opt_canonical_def option.case
    by (rule reads_bind_last) (simp add: reads_ret)
next
  case (Some x)
  moreover assume "opt_digest_ok d"
  ultimately have x: "digest_ok x" by (simp add: opt_digest_ok_def)
  show ?thesis unfolding get_opt_digest_def Some opt_canonical_def option.case
    by (rule reads_bind_last [OF reads_get_str [OF digest_canonical_str_ok [OF x]]])
       (use x digest_parse_iff [of "digest_canonical x" x] in \<open>simp add: reads_ret\<close>)
qed

lemma consumes_get_opt_digest: "consumes get_opt_digest (\<lambda>d. put_str (opt_canonical d)) opt_digest_ok"
  unfolding get_opt_digest_def
proof (rule consumes_bind [OF consumes_get_str])
  fix s
  show "consumes (if s = [] then sm_ret None else case digest_parse s of Inl _ \<Rightarrow> sm_err () | Inr d \<Rightarrow> sm_ret (Some d))
      (\<lambda>_. []) (\<lambda>d. s = [] \<and> d = None \<or> (\<exists>x. d = Some x \<and> digest_parse s = Inr x))"
    by (auto simp: consumes_err split: sum.splits intro: consumes_weaken [OF consumes_ret])
qed (auto simp: opt_canonical_def opt_digest_ok_def digest_parse_iff)

definition output_ok :: "output_file \<Rightarrow> bool" where
  "output_ok out \<longleftrightarrow> cstr_ok (of_logical_path out) \<and> digest_ok (of_digest out)"

lemma reads_get_output: "output_ok out \<Longrightarrow> reads get_output (put_output out) out"
  unfolding get_output_def put_output_def output_ok_def
  by (rule reads_bind [OF reads_get_str], blast, rule reads_bind_last [OF reads_get_digest], blast)
     (rule reads_ret_eq, simp)

lemma consumes_get_output: "consumes get_output put_output output_ok"
  unfolding get_output_def
proof (rule consumes_bind [OF consumes_get_str])
  fix l
  show "consumes (sm_bind get_digest (\<lambda>d. sm_ret \<lparr>of_logical_path = l, of_digest = d\<rparr>))
     (\<lambda>out. put_str (digest_canonical (of_digest out))) (\<lambda>out. of_logical_path out = l \<and> digest_ok (of_digest out))"
    by (rule consumes_bind [OF consumes_get_digest consumes_ret]) auto
qed (auto simp: put_output_def output_ok_def)

interpretation cache_output: canonical_codec put_output get_output output_ok
  by unfold_locales (rule reads_get_output, assumption, rule consumes_get_output)

definition result_ok :: "action_result \<Rightarrow> bool" where
  "result_ok r \<longleftrightarrow> length (ar_outputs r) \<le> MAX_OUTPUTS \<and> list_all output_ok (ar_outputs r)
     \<and> opt_digest_ok (ar_stdout r) \<and> opt_digest_ok (ar_stderr r)"

lemma outputs_len: "length xs \<le> MAX_OUTPUTS \<Longrightarrow> unat (word_of_nat (length xs) :: u32) = length xs"
  by (intro unat_word32_of_nat) (simp add: MAX_OUTPUTS_def)

lemma reads_result_body:
  assumes "result_ok r"
  shows "reads get_result_body (result_body r) r"
proof -
  have ok: "length (ar_outputs r) \<le> MAX_OUTPUTS" "list_all output_ok (ar_outputs r)"
    "opt_digest_ok (ar_stdout r)" "opt_digest_ok (ar_stderr r)" using assms by (simp_all add: result_ok_def)
  have "reads (sm_bind (sm_repeat (length (ar_outputs r)) get_output) (\<lambda>outs.
       sm_bind get_opt_digest (\<lambda>so. sm_bind get_opt_digest (\<lambda>se.
         sm_ret \<lparr>ar_exit_code = ar_exit_code r, ar_outputs = outs, ar_stdout = so, ar_stderr = se\<rparr>))))
     (concat (map put_output (ar_outputs r)) @ put_str (opt_canonical (ar_stdout r)) @ put_str (opt_canonical (ar_stderr r))) r"
    by (rule reads_bind [OF cache_output.reads_list [OF ok(2)]],
        rule reads_bind [OF reads_get_opt_digest [OF ok(3)]],
        rule reads_bind_last [OF reads_get_opt_digest [OF ok(4)]]) (rule reads_ret_eq, simp)
  then show ?thesis unfolding get_result_body_def result_body_def
    by (intro reads_bind [OF reads_get_u32]) (use ok(1) in \<open>simp add: outputs_len\<close>)
qed

lemma consumes_result_body: "consumes get_result_body result_body result_ok"
  unfolding get_result_body_def
proof (rule consumes_bind [OF consumes_get_u32])
  fix code :: u32
  let ?E = "\<lambda>r. concat (map put_output (ar_outputs r)) @ put_str (opt_canonical (ar_stdout r)) @ put_str (opt_canonical (ar_stderr r))"
  let ?P = "\<lambda>n r. ar_exit_code r = code \<and> length (ar_outputs r) = n \<and> n \<le> MAX_OUTPUTS \<and> list_all output_ok (ar_outputs r)
      \<and> opt_digest_ok (ar_stdout r) \<and> opt_digest_ok (ar_stderr r)"
  have tail: "consumes (sm_bind get_opt_digest (\<lambda>so. sm_bind get_opt_digest (\<lambda>se.
         sm_ret \<lparr>ar_exit_code = code, ar_outputs = outs, ar_stdout = so, ar_stderr = se\<rparr>)))
       (\<lambda>r. put_str (opt_canonical (ar_stdout r)) @ put_str (opt_canonical (ar_stderr r)))
       (\<lambda>r. ar_exit_code r = code \<and> ar_outputs r = outs \<and> opt_digest_ok (ar_stdout r) \<and> opt_digest_ok (ar_stderr r))" for outs
  proof (rule consumes_bind [OF consumes_get_opt_digest])
    fix so
    show "consumes (sm_bind get_opt_digest (\<lambda>se.
         sm_ret \<lparr>ar_exit_code = code, ar_outputs = outs, ar_stdout = so, ar_stderr = se\<rparr>))
       (\<lambda>r. put_str (opt_canonical (ar_stderr r)))
       (\<lambda>r. ar_exit_code r = code \<and> ar_outputs r = outs \<and> ar_stdout r = so \<and> opt_digest_ok (ar_stderr r))"
      by (rule consumes_bind [OF consumes_get_opt_digest consumes_ret]) auto
  qed auto
  have "consumes (sm_bind (sm_repeat n get_output) (\<lambda>outs. sm_bind get_opt_digest (\<lambda>so. sm_bind get_opt_digest (\<lambda>se.
         sm_ret \<lparr>ar_exit_code = code, ar_outputs = outs, ar_stdout = so, ar_stderr = se\<rparr>))))
       ?E (?P n)" if "n \<le> MAX_OUTPUTS" for n
    by (rule consumes_bind [OF cache_output.consumes_list tail]) (use that in auto)
  then have "consumes (if unat n > MAX_OUTPUTS then sm_err () else sm_bind (sm_repeat (unat n) get_output) (\<lambda>outs.
       sm_bind get_opt_digest (\<lambda>so. sm_bind get_opt_digest (\<lambda>se.
         sm_ret \<lparr>ar_exit_code = code, ar_outputs = outs, ar_stdout = so, ar_stderr = se\<rparr>)))) ?E (?P (unat n))" for n :: u32
    by (simp add: consumes_err)
  then show "consumes (sm_bind get_u32 (\<lambda>n. if unat n > MAX_OUTPUTS then sm_err () else sm_bind (sm_repeat (unat n) get_output) (\<lambda>outs.
       sm_bind get_opt_digest (\<lambda>so. sm_bind get_opt_digest (\<lambda>se.
         sm_ret \<lparr>ar_exit_code = code, ar_outputs = outs, ar_stdout = so, ar_stderr = se\<rparr>)))))
     (\<lambda>r. u32_to_le (word_of_nat (length (ar_outputs r))) @ ?E r) (\<lambda>r. \<exists>n :: u32. ?P (unat n) r)"
    by (rule consumes_bind [OF consumes_get_u32]) auto
qed (auto simp: result_body_def result_ok_def)

lemma decode_sealed_iff:
  assumes h: "blake3_output blake3" and mg: "length magic = 4"
    and rd: "\<And>a. ok a \<Longrightarrow> reads rd (en a) a" and cn: "consumes rd en ok"
    and len: "length buf < usize_bound"
  shows "decode_sealed blake3 magic v rd buf = Some a \<longleftrightarrow>
    ok a \<and> buf = (magic @ [v] @ en a) @ codec_checksum blake3 (magic @ [v] @ en a)"
proof
  assume d: "decode_sealed blake3 magic v rd buf = Some a"
  define body where "body = take (length buf - 8) buf"
  from d obtain c where b: "length buf \<ge> 8" "codec_checksum blake3 body = drop (length buf - 8) buf"
      "take 4 body = magic" "length body > 4" "body ! 4 = v" and r: "rd \<lparr>cbuf = body, cpos = 5\<rparr> = (Inr a, c)"
      and e: "cpos c = length body"
    unfolding decode_sealed_def body_def [symmetric] Let_def
    by (auto simp: get_range_def split: if_splits prod.splits sum.splits)
  have "cpos \<lparr>cbuf = body, cpos = 5\<rparr> \<le> length (cbuf \<lparr>cbuf = body, cpos = 5\<rparr>)" using b(4) by simp
  note 1 = consumesD [OF cn this r]
  have "body = take 4 body @ [body ! 4] @ drop 5 body"
    using b(4) by (metis Cons_nth_drop_Suc append_Cons append_Nil append_take_drop_id eval_nat_numeral(3))
  moreover have "drop 5 body = en a" using 1 e by simp
  ultimately have "body = magic @ [v] @ en a" using b(3,5) by simp
  moreover have "buf = body @ drop (length buf - 8) buf" by (simp add: body_def)
  ultimately show "ok a \<and> buf = (magic @ [v] @ en a) @ codec_checksum blake3 (magic @ [v] @ en a)"
    using 1(1) b(2) by metis
next
  assume a: "ok a \<and> buf = (magic @ [v] @ en a) @ codec_checksum blake3 (magic @ [v] @ en a)"
  define body where "body = magic @ [v] @ en a"
  have s: "length (codec_checksum blake3 body) = 8" using h by (simp add: codec_checksum_def blake3_output_def)
  then have buf: "take (length buf - 8) buf = body" "drop (length buf - 8) buf = codec_checksum blake3 body" "length buf \<ge> 8"
    using a by (simp_all add: body_def)
  have "rd (cur (magic @ [v]) (en a @ [])) = (Inr a, cur ((magic @ [v]) @ en a) [])"
    by (rule readsD [OF rd]) (use a len in auto)
  then have "rd \<lparr>cbuf = body, cpos = 5\<rparr> = (Inr a, \<lparr>cbuf = body, cpos = length body\<rparr>)"
    using mg by (simp add: cur_def body_def)
  moreover have "get_range body 0 4 = Some magic" "body ! 4 = v" "length body > 4"
    using mg by (simp_all add: body_def get_range_def nth_append)
  ultimately show "decode_sealed blake3 magic v rd buf = Some a"
    using buf by (simp add: decode_sealed_def Let_def)
qed

lemma action_result_codec:
  assumes "blake3_output blake3" "length buf < usize_bound"
  shows "action_result_decode blake3 buf = Some r \<longleftrightarrow> result_ok r \<and> buf = action_result_encode blake3 r"
  unfolding action_result_decode_def action_result_encode_def Let_def
  by (rule decode_sealed_iff [OF assms(1) _ reads_result_body consumes_result_body assms(2)])
     (simp_all add: RESULT_CODEC_MAGIC_def)

text \<open>
  C40. The on-disk result codec is exact: a stored file decodes to a result precisely when
  the result is within the codec's limits and the file is its encoding, magic, version and
  checksum included. Every other file, in particular any truncated or altered one that is
  not itself such an encoding, is a miss.
\<close>
theorem action_result_codec_exact:
  assumes "blake3_output blake3" and "length buf < usize_bound"
  shows "action_result_decode blake3 buf = Some r \<longleftrightarrow> result_ok r \<and> buf = action_result_encode blake3 r"
  by (rule action_result_codec [OF assms])

definition sample_result :: action_result where
  "sample_result = \<lparr>ar_exit_code = 0, ar_outputs = [], ar_stdout = None, ar_stderr = None\<rparr>"

theorem action_result_codec_exact_witness:
  "action_result_decode toy_hash (action_result_encode toy_hash sample_result) = Some sample_result
   \<longleftrightarrow> result_ok sample_result \<and> action_result_encode toy_hash sample_result = action_result_encode toy_hash sample_result"
  by (rule action_result_codec_exact)
     (simp_all add: blake3_output_def toy_hash_def usize_bound_def action_result_encode_def sample_result_def
       result_body_def put_str_def opt_canonical_def RESULT_CODEC_MAGIC_def codec_checksum_def)

section \<open>What the keys tell apart\<close>

definition env_lines :: "env \<Rightarrow> string list" where
  "env_lines e = map (\<lambda>(k, v). k @ ''='' @ v) (kept_env e)"

definition weak_tokens :: "string list \<Rightarrow> env \<Rightarrow> string \<Rightarrow> digest \<Rightarrow> string list" where
  "weak_tokens argv e cwd tool =
     argv @ [[], ''cwd'', key_cwd cwd, ''env''] @ env_lines e @ [[], ''tool'', digest_canonical tool]"

lemma terminated_join:
  "ys \<noteq> [] \<Longrightarrow> concat (map (\<lambda>a. a @ [c]) xs) @ join_with c ys = join_with c (xs @ ys)"
proof (induction xs)
  case (Cons x xs)
  then obtain z zs where "xs @ ys = z # zs" by (cases "xs @ ys") auto
  then show ?case using Cons by simp
qed simp

lemma concat_as_bytes: "concat (map (\<lambda>a. as_bytes a @ [0]) xs) = as_bytes (concat (map (\<lambda>a. a @ [nul]) xs))"
  by (induction xs) (simp_all add: as_bytes_def)

lemma weak_blob_tokens:
  "weak_blob argv e cwd tool =
     as_bytes (''sbz-weak'' @ [nul]) @ u32_to_le WEAK_KEY_SCHEMA @ as_bytes ([nul] @ ''argv'' @ [nul])
     @ as_bytes (join_with nul (weak_tokens argv e cwd tool))"
proof -
  have env: "concat (map (\<lambda>(k, v). as_bytes k @ as_bytes ''='' @ as_bytes v @ [0]) es)
      = concat (map (\<lambda>a. as_bytes a @ [0]) (map (\<lambda>(k, v). k @ ''='' @ v) es))" for es
    by (induction es) (auto simp: as_bytes_def)
  have "join_with nul (weak_tokens argv e cwd tool)
      = concat (map (\<lambda>a. a @ [nul]) argv) @ nul # ''cwd'' @ nul # key_cwd cwd @ nul # ''env'' @ nul #
        concat (map (\<lambda>a. a @ [nul]) (env_lines e)) @ nul # ''tool'' @ nul # digest_canonical tool"
    using terminated_join [of "[[], ''cwd'', key_cwd cwd, ''env''] @ env_lines e @ [[], ''tool'', digest_canonical tool]" nul argv]
      terminated_join [of "env_lines e @ [[], ''tool'', digest_canonical tool]" nul "[[], ''cwd'', key_cwd cwd, ''env'']"]
      terminated_join [of "[[], ''tool'', digest_canonical tool]" nul "env_lines e"]
    by (simp add: weak_tokens_def)
  then show ?thesis
    unfolding weak_blob_def env concat_as_bytes env_lines_def [symmetric]
    by (simp add: as_bytes_def)
qed

lemma weak_tokens_inj:
  assumes eq: "weak_tokens argv e cwd tool = weak_tokens argv' e' cwd' tool'"
  shows "argv = argv' \<and> key_cwd cwd = key_cwd cwd' \<and> env_lines e = env_lines e' \<and> tool = tool'"
proof -
  let ?p = "\<lambda>s. CHR ''='' \<in> set s"
  have lines: "\<forall>s \<in> set (env_lines x). ?p s" for x by (auto simp: env_lines_def)
  have "(argv @ [[], ''cwd'', key_cwd cwd, ''env''] @ env_lines e) @ [[], ''tool'', digest_canonical tool]
      = (argv' @ [[], ''cwd'', key_cwd cwd', ''env''] @ env_lines e') @ [[], ''tool'', digest_canonical tool']"
    using eq by (simp add: weak_tokens_def)
  from this [unfolded append_eq_append_conv [OF disjI2 [OF refl]]]
  have tool: "digest_canonical tool = digest_canonical tool'"
    and front: "(argv @ [[], ''cwd'', key_cwd cwd, ''env'']) @ env_lines e = (argv' @ [[], ''cwd'', key_cwd cwd', ''env'']) @ env_lines e'"
    by simp_all
  have tw: "takeWhile ?p (rev ((a @ [[], ''cwd'', c, ''env'']) @ env_lines x)) = rev (env_lines x)" for a c x
    using lines [of x] by (simp add: takeWhile_append)
  have "rev (env_lines e) = rev (env_lines e')"
    using front tw [of argv "key_cwd cwd" e] tw [of argv' "key_cwd cwd'" e'] by simp
  then show ?thesis using front digest_canonical_inj [OF tool] by simp
qed

definition nul_free_action :: "string list \<Rightarrow> env \<Rightarrow> string \<Rightarrow> digest \<Rightarrow> bool" where
  "nul_free_action argv e cwd tool \<longleftrightarrow> list_all (\<lambda>a. nul \<notin> set a) argv
     \<and> list_all (\<lambda>l. nul \<notin> set l) (env_lines e) \<and> nul \<notin> set (key_cwd cwd) \<and> digest_ok tool"

lemma digest_canonical_nul_free: "digest_ok x \<Longrightarrow> nul \<notin> set (digest_canonical x)"
  using lower_hex_not_special by (cases "di_algo x") (auto simp: digest_canonical_def digest_ok_def list_all_iff)

lemma weak_tokens_nul_free: "nul_free_action argv e cwd tool \<Longrightarrow> \<forall>t \<in> set (weak_tokens argv e cwd tool). nul \<notin> set t"
  using digest_canonical_nul_free by (auto simp: nul_free_action_def weak_tokens_def list_all_iff)

lemma weak_blob_inj:
  assumes "nul_free_action argv e cwd tool" "nul_free_action argv' e' cwd' tool'"
    and "weak_blob argv e cwd tool = weak_blob argv' e' cwd' tool'"
  shows "argv = argv' \<and> key_cwd cwd = key_cwd cwd' \<and> env_lines e = env_lines e' \<and> tool = tool'"
proof -
  have "join_with nul (weak_tokens argv e cwd tool) = join_with nul (weak_tokens argv' e' cwd' tool')"
    using assms(3) by (simp add: weak_blob_tokens)
  then have "weak_tokens argv e cwd tool = weak_tokens argv' e' cwd' tool'"
    by (rule join_with_inject) (use weak_tokens_nul_free assms in \<open>auto simp: weak_tokens_def\<close>)
  then show ?thesis by (rule weak_tokens_inj)
qed

text \<open>
  C25. The weak key separates actions: two NUL-free actions get the same weak fingerprint
  exactly when they have the same argument vector, the same working directory up to case and
  separators, the same non-volatile environment lines and the same toolchain digest, as long
  as BLAKE3 does not collide on the two key blobs. The framing itself confuses nothing.
\<close>
theorem weak_fingerprint_separates:
  assumes "nul_free_action argv e cwd tool" and "nul_free_action argv' e' cwd' tool'"
    and "inj_on blake3 {weak_blob argv e cwd tool, weak_blob argv' e' cwd' tool'}"
  shows "weak_fingerprint blake3 argv e cwd tool = weak_fingerprint blake3 argv' e' cwd' tool' \<longleftrightarrow>
    argv = argv' \<and> key_cwd cwd = key_cwd cwd' \<and> env_lines e = env_lines e' \<and> tool = tool'"
proof
  assume "weak_fingerprint blake3 argv e cwd tool = weak_fingerprint blake3 argv' e' cwd' tool'"
  then show "argv = argv' \<and> key_cwd cwd = key_cwd cwd' \<and> env_lines e = env_lines e' \<and> tool = tool'"
    using weak_blob_inj [OF assms(1,2)] digest_of_inj [OF assms(3)] by (simp add: weak_fingerprint_def)
next
  assume "argv = argv' \<and> key_cwd cwd = key_cwd cwd' \<and> env_lines e = env_lines e' \<and> tool = tool'"
  then show "weak_fingerprint blake3 argv e cwd tool = weak_fingerprint blake3 argv' e' cwd' tool'"
    by (simp add: weak_fingerprint_def weak_blob_tokens weak_tokens_def)
qed

definition sample_tool :: digest where
  "sample_tool = \<lparr>di_algo = Blake3, di_hex = replicate 64 (CHR ''a'')\<rparr>"

lemma sample_tool_ok: "digest_ok sample_tool"
  by (simp add: sample_tool_def digest_ok_def list_all_iff is_lower_hex_def less_eq_char_def)

theorem weak_fingerprint_separates_witness:
  "weak_fingerprint toy_hash [''cl''] [(''path'', ''x'')] ''C:/w'' sample_tool
    = weak_fingerprint toy_hash [''cl''] [] (''c:'' @ [bsl] @ ''W'') sample_tool \<longleftrightarrow>
    [''cl''] = [''cl''] \<and> key_cwd ''C:/w'' = key_cwd (''c:'' @ [bsl] @ ''W'') \<and> env_lines [(''path'', ''x'')] = env_lines []
    \<and> sample_tool = sample_tool"
proof -
  have vol: "is_volatile ''path''"
    by code_simp
  then have lines: "env_lines [(''path'', ''x'')] = []" "env_lines [] = []" by (simp_all add: env_lines_def kept_env_def)
  have cwd: "key_cwd ''C:/w'' = key_cwd (''c:'' @ [bsl] @ ''W'')"
    by code_simp
  have nf: "nul \<notin> set (key_cwd ''C:/w'')"
    by code_simp
  show ?thesis
  proof (rule weak_fingerprint_separates)
    show "nul_free_action [''cl''] [(''path'', ''x'')] ''C:/w'' sample_tool"
      "nul_free_action [''cl''] [] (''c:'' @ [bsl] @ ''W'') sample_tool"
      using nf unfolding nul_free_action_def lines cwd by (simp_all add: sample_tool_ok)
    show "inj_on toy_hash {weak_blob [''cl''] [(''path'', ''x'')] ''C:/w'' sample_tool,
        weak_blob [''cl''] [] (''c:'' @ [bsl] @ ''W'') sample_tool}"
      by (simp add: weak_blob_tokens weak_tokens_def lines cwd)
  qed
qed

lemma strong_blob_inj:
  assumes "digest_ok w" "digest_ok w'" "strong_blob w h = strong_blob w' h'"
  shows "w = w' \<and> h = h'"
proof -
  have "as_bytes (digest_canonical w @ nul # h) = as_bytes (digest_canonical w' @ nul # h')"
    using assms(3) by (simp add: strong_blob_def as_bytes_def)
  then have eq: "digest_canonical w @ nul # h = digest_canonical w' @ nul # h'" by (rule as_bytes_inj [THEN iffD1])
  have "nul \<notin> set (digest_canonical w)" "nul \<notin> set (digest_canonical w')"
    using assms(1,2) by (simp_all add: digest_canonical_nul_free)
  then have sp: "split_once nul (digest_canonical w @ nul # h) = Some (digest_canonical w, h)"
    "split_once nul (digest_canonical w' @ nul # h') = Some (digest_canonical w', h')"
    by (simp_all add: split_once_Some)
  have "Some (digest_canonical w, h) = Some (digest_canonical w', h')"
    unfolding sp [symmetric] eq ..
  then have "digest_canonical w = digest_canonical w'" "h = h'" by auto
  then show ?thesis using digest_canonical_inj [of w w'] by blast
qed

lemma key_path_hex: "di_hex d = drop (length root + 2 + min 2 (length (di_hex d))) (key_path root d)"
  by (simp add: key_path_def min_def)

lemma key_path_inj:
  "key_path root d = key_path root d' \<Longrightarrow> length (di_hex d) = length (di_hex d') \<Longrightarrow> di_hex d = di_hex d'"
  using key_path_hex by metis

end
