(* ===== verification/Hash_Map.thy ===== *)
theory Hash_Map
  imports Rust_Str "HOL-Library.Multiset"
begin

text \<open>
  The standard library's \<open>HashMap\<close> as an association list without repeated keys. The list
  order stands for the iteration order, which the library leaves open: no theorem about a
  client depends on more than the list having each entry once. The map interprets the
  interface \<open>entry_map\<close>, like the ordered map does.
\<close>

type_synonym ('k, 'v) hmap = "('k \<times> 'v) list"

definition hm_inv :: "('k, 'v) hmap \<Rightarrow> bool" where
  "hm_inv m \<longleftrightarrow> distinct (map fst m)"

fun hm_upsert :: "'k \<Rightarrow> 'v \<Rightarrow> ('v \<Rightarrow> 'v) \<Rightarrow> ('k, 'v) hmap \<Rightarrow> ('k, 'v) hmap" where
  "hm_upsert k d f [] = [(k, f d)]"
| "hm_upsert k d f ((a, v) # m) = (if k = a then (a, f v) # m else (a, v) # hm_upsert k d f m)"

definition hm_insert :: "'k \<Rightarrow> 'v \<Rightarrow> ('k, 'v) hmap \<Rightarrow> ('k, 'v) hmap" where
  "hm_insert k v = hm_upsert k v (\<lambda>_. v)"

definition hm_remove :: "'k \<Rightarrow> ('k, 'v) hmap \<Rightarrow> ('k, 'v) hmap" where
  "hm_remove k m = filter (\<lambda>kv. fst kv \<noteq> k) m"

definition hm_retain :: "('v \<Rightarrow> bool) \<Rightarrow> ('k, 'v) hmap \<Rightarrow> ('k, 'v) hmap" where
  "hm_retain p m = filter (\<lambda>kv. p (snd kv)) m"

definition hm_values :: "('k, 'v) hmap \<Rightarrow> 'v list" where
  "hm_values m = map snd m"

text \<open>\<open>get_mut(k)\<close> followed by an update of the entry, when there is one.\<close>

definition hm_modify :: "'k \<Rightarrow> ('v \<Rightarrow> 'v) \<Rightarrow> ('k, 'v) hmap \<Rightarrow> ('k, 'v) hmap" where
  "hm_modify k f m = map (\<lambda>(a, v). if a = k then (a, f v) else (a, v)) m"

lemma hm_inv_Nil [simp]: "hm_inv []"
  by (simp add: hm_inv_def)

lemma hm_keys_upsert: "fst ` set (hm_upsert k d f m) = insert k (fst ` set m)"
  by (induction k d f m rule: hm_upsert.induct) auto

lemma hm_inv_upsert: "hm_inv m \<Longrightarrow> hm_inv (hm_upsert k d f m)"
proof (induction m)
  case (Cons av m)
  then show ?case by (cases av) (auto simp: hm_inv_def hm_keys_upsert)
qed (simp add: hm_inv_def)

lemma hm_look_upsert:
  "map_of (hm_upsert k d f m) = (map_of m)(k \<mapsto> f (case map_of m k of None \<Rightarrow> d | Some v \<Rightarrow> v))"
  by (induction k d f m rule: hm_upsert.induct) (auto simp: fun_eq_iff)

lemma hm_look_remove: "map_of (hm_remove k m) = (map_of m)(k := None)"
  by (induction m) (auto simp: hm_remove_def fun_eq_iff)

lemma hm_remove_Nil [simp]: "hm_remove k [] = []"
  by (simp add: hm_remove_def)

lemma hm_remove_absent: "map_of m k = None \<Longrightarrow> hm_remove k m = m"
  by (auto simp: hm_remove_def map_of_eq_None_iff filter_id_conv)

lemma hm_inv_remove: "hm_inv m \<Longrightarrow> hm_inv (hm_remove k m)"
  by (simp add: hm_inv_def hm_remove_def distinct_map_filter)

interpretation hm: entry_map map_of hm_upsert hm_remove hm_inv
  by unfold_locales (simp_all add: hm_look_upsert hm_look_remove hm_inv_upsert hm_inv_remove)

lemma hm_look_insert [simp]: "map_of (hm_insert k v m) = (map_of m)(k \<mapsto> v)"
  by (simp add: hm_insert_def hm_look_upsert)

lemma hm_inv_insert: "hm_inv m \<Longrightarrow> hm_inv (hm_insert k v m)"
  by (simp add: hm_insert_def hm_inv_upsert)

lemma hm_inv_retain: "hm_inv m \<Longrightarrow> hm_inv (hm_retain p m)"
  by (simp add: hm_inv_def hm_retain_def distinct_map_filter)

lemma hm_look_retain: "hm_inv m \<Longrightarrow> map_of (hm_retain p m) k = Some v \<longleftrightarrow> map_of m k = Some v \<and> p v"
  by (auto simp: hm_inv_def hm_retain_def map_of_eq_Some_iff distinct_map_filter)

lemma hm_look_modify: "map_of (hm_modify k f m) = (map_of m)(k := map_option f (map_of m k))"
  by (induction m) (auto simp: hm_modify_def fun_eq_iff)

lemma length_hm_modify [simp]: "length (hm_modify k f m) = length m"
  by (simp add: hm_modify_def)

lemma hm_inv_modify: "hm_inv m \<Longrightarrow> hm_inv (hm_modify k f m)"
proof -
  have "map fst (hm_modify k f m) = map fst m" by (auto simp: hm_modify_def)
  then show "hm_inv m \<Longrightarrow> hm_inv (hm_modify k f m)" by (simp add: hm_inv_def)
qed

lemma hm_values_iff: "hm_inv m \<Longrightarrow> v \<in> set (hm_values m) \<longleftrightarrow> (\<exists>k. map_of m k = Some v)"
  by (auto simp: hm_inv_def hm_values_def map_of_eq_Some_iff) (metis eq_snd_iff image_iff)

lemmas hm_invs = hm_inv_insert hm_inv_remove hm_inv_retain hm_inv_modify hm_inv_upsert

section \<open>The multiset of values\<close>

lemma hm_split:
  assumes "hm_inv m" "map_of m k = Some v"
  obtains xs ys where "m = xs @ (k, v) # ys" "k \<notin> fst ` set xs" "k \<notin> fst ` set ys"
proof -
  have "(k, v) \<in> set m" using assms(2) by (rule map_of_SomeD)
  then obtain xs ys where m: "m = xs @ (k, v) # ys" by (meson split_list)
  with assms(1) have "k \<notin> fst ` set xs" "k \<notin> fst ` set ys" by (auto simp: hm_inv_def)
  with m show ?thesis by (rule that)
qed

lemma hm_vals_modify:
  assumes "hm_inv m" "map_of m k = Some v"
  shows "mset (hm_values (hm_modify k f m)) = mset (hm_values m) - {#v#} + {#f v#}"
proof -
  obtain xs ys where m: "m = xs @ (k, v) # ys" and x: "k \<notin> fst ` set xs" and y: "k \<notin> fst ` set ys"
    using hm_split [OF assms] .
  have same: "hm_modify k f zs = zs" if "k \<notin> fst ` set zs" for zs
    using that by (induction zs) (auto simp: hm_modify_def)
  have "hm_modify k f m = xs @ (k, f v) # ys"
    using same [OF x] same [OF y] by (simp add: m hm_modify_def)
  then show ?thesis by (simp add: m hm_values_def)
qed

lemma hm_vals_remove:
  assumes "hm_inv m" "map_of m k = Some v"
  shows "mset (hm_values (hm_remove k m)) = mset (hm_values m) - {#v#}" "length (hm_remove k m) = length m - 1"
proof -
  obtain xs ys where m: "m = xs @ (k, v) # ys" and x: "k \<notin> fst ` set xs" and y: "k \<notin> fst ` set ys"
    using hm_split [OF assms] .
  have same: "hm_remove k zs = zs" if "k \<notin> fst ` set zs" for zs
    using that by (induction zs) (auto simp: hm_remove_def)
  have "hm_remove k m = xs @ ys"
    using same [OF x] same [OF y] by (simp add: m hm_remove_def)
  then show "mset (hm_values (hm_remove k m)) = mset (hm_values m) - {#v#}" "length (hm_remove k m) = length m - 1"
    by (simp_all add: m hm_values_def)
qed

lemma hm_insert_new: "map_of m k = None \<Longrightarrow> hm_insert k v m = m @ [(k, v)]"
  by (induction m) (auto simp: hm_insert_def split: if_splits)

lemma hm_vals_insert: "map_of m k = None \<Longrightarrow> mset (hm_values (hm_insert k v m)) = add_mset v (mset (hm_values m))"
  by (simp add: hm_insert_new hm_values_def)

lemma hm_vals_member: "map_of m k = Some v \<Longrightarrow> v \<in># mset (hm_values m)"
  by (auto simp: hm_values_def dest: map_of_SomeD intro: rev_image_eqI)

end
