(* ===== verification/Win_Path.thy ===== *)
theory Win_Path
  imports Rust_Str
begin

text \<open>
  \<open>std::path\<close> of the Rust standard library on Windows, as far as the components use it: the
  prefix of a path, its components, \<open>is_absolute\<close>, \<open>has_root\<close>, \<open>push\<close>/\<open>join\<close>, \<open>file_name\<close>,
  \<open>file_stem\<close> and \<open>extension\<close>. A path is a string; both \<open>/\<close> and the backslash separate, except
  under a verbatim prefix, where only the backslash does.
\<close>

section \<open>Prefixes\<close>

datatype win_prefix =
    PVerbatim string
  | PVerbatimUNC string string
  | PVerbatimDisk char
  | PDeviceNS string
  | PUNC string string
  | PDisk char

definition is_sep :: "char \<Rightarrow> bool" where
  "is_sep c \<longleftrightarrow> c = bsl \<or> c = CHR ''/''"

definition sep_for :: "bool \<Rightarrow> char \<Rightarrow> bool" where
  "sep_for verbatim c \<longleftrightarrow> (if verbatim then c = bsl else is_sep c)"

text \<open>The next component and what follows its separator.\<close>

definition next_component :: "bool \<Rightarrow> string \<Rightarrow> string \<times> string" where
  "next_component verbatim p =
     (takeWhile (\<lambda>c. \<not> sep_for verbatim c) p, drop 1 (dropWhile (\<lambda>c. \<not> sep_for verbatim c) p))"

definition parse_drive :: "string \<Rightarrow> char option" where
  "parse_drive p = (case p of c # d # _ \<Rightarrow> if is_ascii_alphabetic c \<and> d = CHR '':'' then Some (upper_char c) else None | _ \<Rightarrow> None)"

definition parse_drive_exact :: "string \<Rightarrow> char option" where
  "parse_drive_exact p =
     (case p of
        [c, d] \<Rightarrow> if is_ascii_alphabetic c \<and> d = CHR '':'' then Some (upper_char c) else None
      | c # d # e # _ \<Rightarrow> if is_ascii_alphabetic c \<and> d = CHR '':'' \<and> is_sep e then Some (upper_char c) else None
      | _ \<Rightarrow> None)"

text \<open>A literal prefix, with \<open>/\<close> read as the backslash.\<close>

definition strip_sep_prefix :: "string \<Rightarrow> string \<Rightarrow> string option" where
  "strip_sep_prefix lit p =
     (if length lit \<le> length p \<and> map (\<lambda>c. if is_sep c then bsl else c) (take (length lit) p) = lit
      then Some (drop (length lit) p) else None)"

definition parse_prefix :: "string \<Rightarrow> win_prefix option" where
  "parse_prefix p =
     (case strip_sep_prefix [bsl, bsl] p of
        None \<Rightarrow> map_option PDisk (parse_drive p)
      | Some p1 \<Rightarrow>
          (case strip_sep_prefix [CHR ''?'', bsl] p1 of
             Some p2 \<Rightarrow>
               if CHR ''/'' \<notin> set (take 4 p) then
                 (case strip_sep_prefix (''UNC'' @ [bsl]) p2 of
                    Some p3 \<Rightarrow>
                      (let (server, p4) = next_component True p3; (share, _) = next_component True p4
                       in Some (PVerbatimUNC server share))
                  | None \<Rightarrow>
                      (case parse_drive_exact p2 of
                         Some d \<Rightarrow> Some (PVerbatimDisk d)
                       | None \<Rightarrow> Some (PVerbatim (fst (next_component True p2)))))
               else
                 (let (server, p4) = next_component False p1; (share, _) = next_component False p4
                  in if server \<noteq> [] \<and> share \<noteq> [] then Some (PUNC server share) else None)
           | None \<Rightarrow>
               (case strip_sep_prefix [CHR ''.'', bsl] p1 of
                  Some p2 \<Rightarrow> Some (PDeviceNS (fst (next_component False p2)))
                | None \<Rightarrow>
                    (let (server, p4) = next_component False p1; (share, _) = next_component False p4
                     in if server \<noteq> [] \<and> share \<noteq> [] then Some (PUNC server share) else None))))"

fun prefix_len :: "win_prefix \<Rightarrow> nat" where
  "prefix_len (PVerbatim x) = 4 + length x"
| "prefix_len (PVerbatimUNC x y) = 8 + length x + (if y \<noteq> [] then 1 + length y else 0)"
| "prefix_len (PVerbatimDisk d) = 6"
| "prefix_len (PDeviceNS x) = 4 + length x"
| "prefix_len (PUNC x y) = 2 + length x + (if y \<noteq> [] then 1 + length y else 0)"
| "prefix_len (PDisk d) = 2"

fun is_verbatim :: "win_prefix \<Rightarrow> bool" where
  "is_verbatim (PVerbatim x) = True"
| "is_verbatim (PVerbatimUNC x y) = True"
| "is_verbatim (PVerbatimDisk d) = True"
| "is_verbatim _ = False"

fun is_drive :: "win_prefix \<Rightarrow> bool" where
  "is_drive (PDisk d) = True"
| "is_drive _ = False"

definition has_implicit_root :: "win_prefix \<Rightarrow> bool" where
  "has_implicit_root pre \<longleftrightarrow> \<not> is_drive pre"

section \<open>Components\<close>

datatype component = CPrefix string | RootDir | CurDir | ParentDir | Normal string

definition prefix_text :: "string \<Rightarrow> string" where
  "prefix_text p = (case parse_prefix p of None \<Rightarrow> [] | Some pre \<Rightarrow> take (prefix_len pre) p)"

definition after_prefix :: "string \<Rightarrow> string" where
  "after_prefix p = (case parse_prefix p of None \<Rightarrow> p | Some pre \<Rightarrow> drop (prefix_len pre) p)"

definition prefix_verbatim :: "string \<Rightarrow> bool" where
  "prefix_verbatim p = (case parse_prefix p of None \<Rightarrow> False | Some pre \<Rightarrow> is_verbatim pre)"

definition has_physical_root :: "string \<Rightarrow> bool" where
  "has_physical_root p = (case after_prefix p of [] \<Rightarrow> False | c # _ \<Rightarrow> is_sep c)"

definition has_root :: "string \<Rightarrow> bool" where
  "has_root p \<longleftrightarrow> has_physical_root p \<or> (case parse_prefix p of None \<Rightarrow> False | Some pre \<Rightarrow> has_implicit_root pre)"

definition is_absolute :: "string \<Rightarrow> bool" where
  "is_absolute p \<longleftrightarrow> has_root p \<and> parse_prefix p \<noteq> None"

definition body_component :: "bool \<Rightarrow> string \<Rightarrow> component list" where
  "body_component verbatim s =
     (if s = ''.'' then (if verbatim then [CurDir] else [])
      else if s = ''..'' then [ParentDir]
      else if s = [] then []
      else [Normal s])"

fun split_seps :: "bool \<Rightarrow> string \<Rightarrow> string list" where
  "split_seps v [] = [[]]"
| "split_seps v (c # cs) =
     (if sep_for v c then [] # split_seps v cs
      else case split_seps v cs of [] \<Rightarrow> [[c]] | s # ss \<Rightarrow> (c # s) # ss)"

definition start_dir :: "string \<Rightarrow> component list" where
  "start_dir p =
     (if has_physical_root p then [RootDir]
      else case parse_prefix p of
        Some pre \<Rightarrow> if has_implicit_root pre \<and> \<not> is_verbatim pre then [RootDir] else []
      | None \<Rightarrow>
          (case p of
             [] \<Rightarrow> []
           | [c] \<Rightarrow> if c = CHR ''.'' then [CurDir] else []
           | c # d # _ \<Rightarrow> if c = CHR ''.'' \<and> is_sep d then [CurDir] else []))"

definition components :: "string \<Rightarrow> component list" where
  "components p =
     (if prefix_text p = [] then [] else [CPrefix (prefix_text p)])
     @ start_dir p
     @ concat (map (body_component (prefix_verbatim p)) (split_seps (prefix_verbatim p) (after_prefix p)))"

fun component_str :: "component \<Rightarrow> string" where
  "component_str (CPrefix s) = s"
| "component_str RootDir = [bsl]"
| "component_str CurDir = ''.''"
| "component_str ParentDir = ''..''"
| "component_str (Normal s) = s"

text \<open>
  Two paths are equal when their components are; a prefix is compared as parsed, so a drive
  letter without regard to case.
\<close>

definition path_key :: "string \<Rightarrow> win_prefix option \<times> component list" where
  "path_key p = (parse_prefix p, filter (\<lambda>c. case c of CPrefix _ \<Rightarrow> False | _ \<Rightarrow> True) (components p))"

section \<open>Joining\<close>

definition ends_in_sep :: "string \<Rightarrow> bool" where
  "ends_in_sep p \<longleftrightarrow> p \<noteq> [] \<and> is_sep (last p)"

text \<open>The components a verbatim path is rebuilt from, with \<open>.\<close> and \<open>..\<close> resolved.\<close>

fun verbatim_push :: "component list \<Rightarrow> component list \<Rightarrow> component list" where
  "verbatim_push buf [] = buf"
| "verbatim_push buf (RootDir # cs) = verbatim_push (take 1 buf @ [RootDir]) cs"
| "verbatim_push buf (CurDir # cs) = verbatim_push buf cs"
| "verbatim_push buf (ParentDir # cs) =
     verbatim_push (if buf \<noteq> [] \<and> (case last buf of Normal _ \<Rightarrow> True | _ \<Rightarrow> False) then butlast buf else buf) cs"
| "verbatim_push buf (c # cs) = verbatim_push (buf @ [c]) cs"

fun verbatim_str :: "bool \<Rightarrow> component list \<Rightarrow> string" where
  "verbatim_str need_sep [] = []"
| "verbatim_str need_sep (c # cs) =
     (if need_sep \<and> c \<noteq> RootDir then [bsl] else []) @ component_str c
     @ verbatim_str (case c of RootDir \<Rightarrow> False | CPrefix s \<Rightarrow> \<not> (case parse_prefix s of Some pre \<Rightarrow> is_drive pre | None \<Rightarrow> False) \<and> s \<noteq> [] | _ \<Rightarrow> True) cs"

definition path_push :: "string \<Rightarrow> string \<Rightarrow> string" where
  "path_push p q =
     (let need_sep = (p \<noteq> [] \<and> \<not> is_sep (last p)
            \<and> \<not> (case parse_prefix p of Some pre \<Rightarrow> is_drive pre \<and> length p = 2 | None \<Rightarrow> False)) in
      if is_absolute q \<or> parse_prefix q \<noteq> None then q
      else if prefix_verbatim p \<and> q \<noteq> [] then verbatim_str False (verbatim_push (components p) (components q))
      else if has_root q then prefix_text p @ q
      else p @ (if need_sep then [bsl] else []) @ q)"

section \<open>File names\<close>

definition file_name :: "string \<Rightarrow> string option" where
  "file_name p = (case components p of [] \<Rightarrow> None | cs \<Rightarrow> (case last cs of Normal s \<Rightarrow> Some s | _ \<Rightarrow> None))"

text \<open>
  The parent and the file name of a path, for the normalized paths the components hold: drive
  letter, backslashes, no empty, \<open>.\<close> or \<open>..\<close> segment. The parent of a file directly below the
  drive's root keeps the root's separator.
\<close>

definition parent_and_name :: "string \<Rightarrow> (string \<times> string) option" where
  "parent_and_name p =
     (case (file_name p, rfind_char bsl p) of
        (Some name, Some i) \<Rightarrow> Some (if i = 2 then take 3 p else take i p, name)
      | _ \<Rightarrow> None)"

text \<open>\<open>rsplit_file_at_dot\<close>: the name before and after its last dot.\<close>

definition rsplit_dot :: "string \<Rightarrow> string option \<times> string option" where
  "rsplit_dot s =
     (if s = ''..'' then (Some s, None)
      else let after = rev (takeWhile (\<lambda>c. c \<noteq> CHR ''.'') (rev s)) in
        if CHR ''.'' \<notin> set s then (Some s, None)
        else let before = take (length s - length after - 1) s in
          if before = [] then (Some s, None) else (Some before, Some after))"

definition file_stem :: "string \<Rightarrow> string option" where
  "file_stem p = (case file_name p of None \<Rightarrow> None | Some s \<Rightarrow> fst (rsplit_dot s))"

definition path_ext :: "string \<Rightarrow> string option" where
  "path_ext p = (case file_name p of None \<Rightarrow> None | Some s \<Rightarrow> snd (rsplit_dot s))"

end
