(* ===== verification/Toolchain.thy ===== *)
theory Toolchain
  imports Cas_Store Hash_Map Win_Path
begin

text \<open>
  The identity of a compiler, \<open>src/crates/cas/src/toolchain.rs\<close>: resolving \<open>argv[0]\<close> to a file,
  hashing the file, and the memo of digests with its two-second trust window. The file system
  is a function of time; a call has an instant for each thing it looks at. The memo is shared
  by all threads behind a lock that a call takes twice, so a call has the map it finds at its
  lookup and the one it finds at its insertion.
\<close>

section \<open>Streaming digests\<close>

text \<open>
  \<open>DigestHasher\<close> over BLAKE3, whose incremental interface hashes the concatenation of what it
  was fed: the state is the bytes so far.
\<close>

type_synonym digest_hasher = bytes

definition hasher_new :: digest_hasher where "hasher_new = []"

definition hasher_update :: "digest_hasher \<Rightarrow> bytes \<Rightarrow> digest_hasher" where
  "hasher_update h bs = h @ bs"

definition hasher_finalize :: "hash_fn \<Rightarrow> digest_hasher \<Rightarrow> digest" where
  "hasher_finalize blake3 h = digest_of blake3 h"

text \<open>
  The reads of an open file: each returns a chunk or fails; an empty chunk, or the end of the
  sequence, is the end of the file.
\<close>

fun stream_hash :: "digest_hasher \<Rightarrow> bytes option list \<Rightarrow> digest_hasher option" where
  "stream_hash h [] = Some h"
| "stream_hash h (None # rs) = None"
| "stream_hash h (Some [] # rs) = Some h"
| "stream_hash h (Some (b # bs) # rs) = stream_hash (hasher_update h (b # bs)) rs"

section \<open>Resolution\<close>

datatype tool_identity = ContentTool digest string | NameOnly digest string

primrec identity_digest :: "tool_identity \<Rightarrow> digest" where
  "identity_digest (ContentTool d _) = d"
| "identity_digest (NameOnly d _) = d"

primrec is_content :: "tool_identity \<Rightarrow> bool" where
  "is_content (ContentTool _ _) = True"
| "is_content (NameOnly _ _) = False"

text \<open>
  The host's files at one instant: which paths are files; the modification time in nanoseconds
  since the epoch, where the system gives one that is not before it, with the length; and the
  reads of the opened file.
\<close>

record tool_fs =
  tf_is_file :: "string \<Rightarrow> bool"
  tf_metadata :: "string \<Rightarrow> (nat option \<times> nat) option"
  tf_open :: "string \<Rightarrow> bytes option list option"

definition toolchain_name_constant :: "hash_fn \<Rightarrow> string \<Rightarrow> digest" where
  "toolchain_name_constant blake3 argv0 = digest_of blake3 (as_bytes (''toolchain-name:'' @ argv0))"

definition candidate_with_exe :: "tool_fs \<Rightarrow> string \<Rightarrow> string option" where
  "candidate_with_exe fs p =
     (if tf_is_file fs p then Some p
      else let exe = p @ ''.exe'' in if tf_is_file fs exe then Some exe else None)"

fun first_candidate :: "tool_fs \<Rightarrow> string \<Rightarrow> string list \<Rightarrow> string option" where
  "first_candidate fs argv0 [] = None"
| "first_candidate fs argv0 (dir # dirs) =
     (case candidate_with_exe fs (path_push dir argv0) of
        Some found \<Rightarrow> Some found
      | None \<Rightarrow> first_candidate fs argv0 dirs)"

definition has_separator :: "string \<Rightarrow> bool" where
  "has_separator argv0 \<longleftrightarrow> bsl \<in> set argv0 \<or> CHR ''/'' \<in> set argv0
     \<or> (case argv0 of _ # d # _ \<Rightarrow> d = CHR '':'' | _ \<Rightarrow> False)"

definition path_dirs :: "string option \<Rightarrow> string list" where
  "path_dirs path_env = filter (\<lambda>s. s \<noteq> []) (split_on (CHR '';'') (case path_env of None \<Rightarrow> [] | Some p \<Rightarrow> p))"

definition resolve_program :: "tool_fs \<Rightarrow> string \<Rightarrow> string option \<Rightarrow> string \<Rightarrow> string option" where
  "resolve_program fs argv0 path_env cwd =
     (if argv0 = [] then None
      else if has_separator argv0 then
        candidate_with_exe fs (path_push (if cwd = [] then ''.'' else cwd) argv0)
      else first_candidate fs argv0 (path_dirs path_env))"

section \<open>Memoised digests\<close>

text \<open>Instants and durations in nanoseconds.\<close>

definition TOOL_DIGEST_TTL :: nat where "TOOL_DIGEST_TTL = 2 * 10 ^ 9"

type_synonym tool_key = "(win_prefix option \<times> component list) \<times> nat \<times> nat"

type_synonym tool_digests = "(tool_key, digest \<times> nat) hmap"

text \<open>When a call takes the metadata, takes the lock to look, reads the file, and inserts.\<close>

record call_times =
  ct_stat :: nat
  ct_look :: nat
  ct_read :: nat
  ct_done :: nat

definition memo_key :: "tool_fs \<Rightarrow> string \<Rightarrow> tool_key option" where
  "memo_key fs path =
     map_option (\<lambda>(modified, len). (path_key path, case modified of None \<Rightarrow> 0 | Some ns \<Rightarrow> ns, len)) (tf_metadata fs path)"

text \<open>The fast path: an entry for the key that was inserted less than the window ago.\<close>

definition memo_lookup :: "tool_digests \<Rightarrow> tool_key \<Rightarrow> nat \<Rightarrow> digest option" where
  "memo_lookup memo key now =
     (case map_of memo key of
        Some (d, hashed_at) \<Rightarrow> if now - hashed_at < TOOL_DIGEST_TTL then Some d else None
      | None \<Rightarrow> None)"

definition hash_file :: "hash_fn \<Rightarrow> tool_fs \<Rightarrow> string \<Rightarrow> digest option" where
  "hash_file blake3 fs path =
     (case tf_open fs path of
        None \<Rightarrow> None
      | Some rs \<Rightarrow> map_option (hasher_finalize blake3) (stream_hash hasher_new rs))"

definition digest_file_memoized ::
    "hash_fn \<Rightarrow> (nat \<Rightarrow> tool_fs) \<Rightarrow> call_times \<Rightarrow> string \<Rightarrow> tool_digests \<Rightarrow> tool_digests
     \<Rightarrow> digest option \<times> tool_digests" where
  "digest_file_memoized blake3 world ct path memo memo' =
     (case memo_key (world (ct_stat ct)) path of
        None \<Rightarrow> (None, memo')
      | Some key \<Rightarrow>
          (case memo_lookup memo key (ct_look ct) of
             Some d \<Rightarrow> (Some d, memo')
           | None \<Rightarrow>
               (case hash_file blake3 (world (ct_read ct)) path of
                  None \<Rightarrow> (None, memo')
                | Some d \<Rightarrow> (Some d, hm_insert key (d, ct_done ct) memo'))))"

definition toolchain_identity ::
    "hash_fn \<Rightarrow> (nat \<Rightarrow> tool_fs) \<Rightarrow> nat \<Rightarrow> call_times \<Rightarrow> string \<Rightarrow> string option \<Rightarrow> string
     \<Rightarrow> tool_digests \<Rightarrow> tool_digests \<Rightarrow> tool_identity \<times> tool_digests" where
  "toolchain_identity blake3 world t0 ct argv0 path_env cwd memo memo' =
     (case resolve_program (world t0) argv0 path_env cwd of
        Some resolved \<Rightarrow>
          (case digest_file_memoized blake3 world ct resolved memo memo' of
             (Some d, m) \<Rightarrow> (ContentTool d resolved, m)
           | (None, m) \<Rightarrow> (NameOnly (toolchain_name_constant blake3 argv0) argv0, m))
      | None \<Rightarrow> (NameOnly (toolchain_name_constant blake3 argv0) argv0, memo'))"

definition toolchain_digest ::
    "hash_fn \<Rightarrow> (nat \<Rightarrow> tool_fs) \<Rightarrow> nat \<Rightarrow> call_times \<Rightarrow> string \<Rightarrow> string option \<Rightarrow> string
     \<Rightarrow> tool_digests \<Rightarrow> tool_digests \<Rightarrow> digest \<times> tool_digests" where
  "toolchain_digest blake3 world t0 ct argv0 path_env cwd memo memo' =
     map_prod identity_digest id (toolchain_identity blake3 world t0 ct argv0 path_env cwd memo memo')"

section \<open>Which file is found\<close>

lemma candidate_is_file: "candidate_with_exe fs p = Some q \<Longrightarrow> tf_is_file fs q \<and> (q = p \<or> q = p @ ''.exe'')"
  by (auto simp: candidate_with_exe_def Let_def split: if_splits)

lemma first_candidate_Some:
  "first_candidate fs argv0 dirs = Some q \<longleftrightarrow>
     (\<exists>i < length dirs. candidate_with_exe fs (path_push (dirs ! i) argv0) = Some q
        \<and> (\<forall>j < i. candidate_with_exe fs (path_push (dirs ! j) argv0) = None))"
proof (induction dirs)
  case (Cons d dirs)
  show ?case
  proof (cases "candidate_with_exe fs (path_push d argv0)")
    case None
    then show ?thesis by (simp add: Cons.IH Ex_less_Suc2 All_less_Suc2)
  next
    case (Some p)
    then show ?thesis by (auto simp: Ex_less_Suc2 All_less_Suc2)
  qed
qed simp

text \<open>
  The program found is the first one on the path: a bare, non-empty name resolves to \<open>q\<close> exactly
  when some directory of the submitted path has the name, or the name with \<open>.exe\<close> appended, as
  a file, \<open>q\<close> is that file, and no earlier directory has either; the working directory plays no
  part. The file itself is preferred to the one with the extension.
\<close>
theorem resolve_program_first:
  assumes "argv0 \<noteq> []" and "\<not> has_separator argv0"
  shows "resolve_program fs argv0 path_env cwd = Some q \<longleftrightarrow>
    (\<exists>i < length (path_dirs path_env).
       (let p = path_push (path_dirs path_env ! i) argv0 in
          tf_is_file fs p \<and> q = p \<or> \<not> tf_is_file fs p \<and> tf_is_file fs (p @ ''.exe'') \<and> q = p @ ''.exe'')
       \<and> (\<forall>j < i. \<not> tf_is_file fs (path_push (path_dirs path_env ! j) argv0)
             \<and> \<not> tf_is_file fs (path_push (path_dirs path_env ! j) argv0 @ ''.exe'')))"
proof -
  have some: "candidate_with_exe fs p = Some q \<longleftrightarrow>
      tf_is_file fs p \<and> q = p \<or> \<not> tf_is_file fs p \<and> tf_is_file fs (p @ ''.exe'') \<and> q = p @ ''.exe''" for p
    by (auto simp: candidate_with_exe_def Let_def)
  have none: "candidate_with_exe fs p = None \<longleftrightarrow> \<not> tf_is_file fs p \<and> \<not> tf_is_file fs (p @ ''.exe'')" for p
    by (auto simp: candidate_with_exe_def Let_def)
  show ?thesis using assms by (simp add: resolve_program_def first_candidate_Some some none Let_def)
qed

definition tool_demo_fs :: "bytes \<Rightarrow> tool_fs" where
  "tool_demo_fs content = \<lparr>tf_is_file = (\<lambda>p. p = ''C:'' @ [bsl] @ ''vc'' @ [bsl] @ ''cl.exe''),
     tf_metadata = (\<lambda>p. if p = ''C:'' @ [bsl] @ ''vc'' @ [bsl] @ ''cl.exe'' then Some (Some 5, length content) else None),
     tf_open = (\<lambda>p. if p = ''C:'' @ [bsl] @ ''vc'' @ [bsl] @ ''cl.exe'' then Some [Some content] else None)\<rparr>"

definition tool_demo_path :: "string option" where
  "tool_demo_path = Some (''C:'' @ [bsl] @ ''bin;C:'' @ [bsl] @ ''vc'')"

lemma tool_demo_dirs: "path_dirs tool_demo_path = [''C:'' @ [bsl] @ ''bin'', ''C:'' @ [bsl] @ ''vc'']"
  by code_simp

lemma tool_demo_push:
  "path_push (''C:'' @ [bsl] @ ''vc'') ''cl'' = ''C:'' @ [bsl] @ ''vc'' @ [bsl] @ ''cl''"
  "path_push (''C:'' @ [bsl] @ ''bin'') ''cl'' = ''C:'' @ [bsl] @ ''bin'' @ [bsl] @ ''cl''"
  by code_simp+

theorem resolve_program_first_witness:
  "resolve_program (tool_demo_fs [1]) ''cl'' tool_demo_path ''C:'' = Some (''C:'' @ [bsl] @ ''vc'' @ [bsl] @ ''cl.exe'')"
proof -
  have "''cl'' \<noteq> []" "\<not> has_separator ''cl''" by code_simp+
  from resolve_program_first [OF this, of "tool_demo_fs [1]" tool_demo_path "''C:''" "''C:'' @ [bsl] @ ''vc'' @ [bsl] @ ''cl.exe''"]
  show ?thesis
    by (simp add: tool_demo_dirs Ex_less_Suc2 tool_demo_push tool_demo_push [simplified] tool_demo_fs_def)
qed

section \<open>How old a digest can be\<close>

text \<open>
  The maps that calls of all threads produce, each call finding at its lookup some map of the
  run and at its insertion the current one; the log has the calls by insertion.
\<close>

inductive memo_reach :: "hash_fn \<Rightarrow> (nat \<Rightarrow> tool_fs) \<Rightarrow> (string \<times> call_times) list \<Rightarrow> tool_digests \<Rightarrow> bool"
  for blake3 world where
  memo_start: "memo_reach blake3 world [] []"
| memo_call: "\<lbrakk>memo_reach blake3 world calls memo'; memo_reach blake3 world earlier memo; set earlier \<subseteq> set calls;
    digest_file_memoized blake3 world ct path memo memo' = (r, memo'')\<rbrakk>
    \<Longrightarrow> memo_reach blake3 world ((path, ct) # calls) memo''"

text \<open>The call \<open>(path, ct)\<close> hashed the file under the key.\<close>

definition hashed_under :: "hash_fn \<Rightarrow> (nat \<Rightarrow> tool_fs) \<Rightarrow> tool_key \<Rightarrow> digest \<Rightarrow> string \<times> call_times \<Rightarrow> bool" where
  "hashed_under blake3 world key d call \<longleftrightarrow> (case call of (path, ct) \<Rightarrow>
     memo_key (world (ct_stat ct)) path = Some key \<and> hash_file blake3 (world (ct_read ct)) path = Some d)"

lemma memo_reach_justified:
  "memo_reach blake3 world calls memo \<Longrightarrow> map_of memo key = Some (d, at)
   \<Longrightarrow> \<exists>call \<in> set calls. hashed_under blake3 world key d call \<and> ct_done (snd call) = at"
proof (induction arbitrary: key d at rule: memo_reach.induct)
  case (memo_call calls memo' earlier memo ct path r memo'')
  consider "map_of memo' key = Some (d, at)"
    | "memo_key (world (ct_stat ct)) path = Some key" "hash_file blake3 (world (ct_read ct)) path = Some d" "at = ct_done ct"
    using memo_call.hyps(4) memo_call.prems
    by (auto simp: digest_file_memoized_def split: option.splits if_splits)
  then show ?case
  proof cases
    case 1
    then show ?thesis using memo_call.IH(1) by fastforce
  next
    case 2
    then show ?thesis by (auto simp: hashed_under_def)
  qed
qed simp

text \<open>
  C28. A compiler's digest is never older than the trust window: whatever the other threads do,
  a digest that a call returns was computed from bytes read from that file, under the same
  modification time and length, by this call itself or by an earlier one that finished less
  than two seconds before this call looked. So a same-length replacement that keeps the time
  stamp goes unnoticed for at most the window, and an upgrade that moves the time stamp or the
  length for no time at all.
\<close>
theorem tool_digest_fresh:
  assumes "memo_reach blake3 world earlier memo"
    and "digest_file_memoized blake3 world ct path memo memo' = (Some d, memo'')"
  shows "\<exists>path' ct' key. (path', ct') \<in> set ((path, ct) # earlier) \<and> path_key path' = path_key path
    \<and> memo_key (world (ct_stat ct)) path = Some key \<and> memo_key (world (ct_stat ct')) path' = Some key
    \<and> hash_file blake3 (world (ct_read ct')) path' = Some d
    \<and> ((path', ct') = (path, ct) \<or> ct_look ct - ct_done ct' < TOOL_DIGEST_TTL)"
proof -
  obtain key where k: "memo_key (world (ct_stat ct)) path = Some key"
    using assms(2) by (auto simp: digest_file_memoized_def split: option.splits)
  show ?thesis
  proof (cases "memo_lookup memo key (ct_look ct)")
    case None
    then have "hash_file blake3 (world (ct_read ct)) path = Some d"
      using assms(2) k by (auto simp: digest_file_memoized_def split: option.splits)
    then show ?thesis using k by auto
  next
    case (Some e)
    then have "e = d" using assms(2) k by (simp add: digest_file_memoized_def)
    then obtain at where at: "map_of memo key = Some (d, at)" "ct_look ct - at < TOOL_DIGEST_TTL"
      using Some by (auto simp: memo_lookup_def split: option.splits if_splits)
    from memo_reach_justified [OF assms(1) at(1)] obtain path' ct' where
      c: "(path', ct') \<in> set earlier" "hashed_under blake3 world key d (path', ct')" "ct_done ct' = at" by fastforce
    moreover from c(2) k have "path_key path' = path_key path"
      by (auto simp: hashed_under_def memo_key_def)
    ultimately show ?thesis using k at(2) by (auto simp: hashed_under_def)
  qed
qed

definition tool_demo_cl :: string where "tool_demo_cl = ''C:'' @ [bsl] @ ''vc'' @ [bsl] @ ''cl.exe''"

text \<open>A compiler replaced at instant 10 by one of the same length and time stamp.\<close>

definition tool_demo_world :: "nat \<Rightarrow> tool_fs" where
  "tool_demo_world t = tool_demo_fs (if t < 10 then [1] else [2])"

definition tool_demo_call :: "nat \<Rightarrow> call_times" where
  "tool_demo_call t = \<lparr>ct_stat = t, ct_look = t, ct_read = t, ct_done = t\<rparr>"

definition tool_demo_memo :: tool_digests where
  "tool_demo_memo = snd (digest_file_memoized toy_hash tool_demo_world (tool_demo_call 0) tool_demo_cl [] [])"

lemma tool_demo_hash: "hash_file toy_hash (tool_demo_world 0) tool_demo_cl = Some (digest_of toy_hash [1])"
  by (simp add: hash_file_def tool_demo_world_def tool_demo_fs_def tool_demo_cl_def hasher_new_def hasher_update_def hasher_finalize_def)

lemma tool_demo_key: "memo_key (tool_demo_world t) tool_demo_cl = Some (path_key tool_demo_cl, 5, 1)"
  by (simp add: memo_key_def tool_demo_world_def tool_demo_fs_def tool_demo_cl_def)

lemma tool_demo_memo_eq: "tool_demo_memo = [((path_key tool_demo_cl, 5, 1), (digest_of toy_hash [1], 0))]"
  by (simp add: tool_demo_memo_def digest_file_memoized_def tool_demo_key tool_demo_hash tool_demo_call_def memo_lookup_def hm_insert_def)

theorem tool_digest_fresh_witness:
  "digest_file_memoized toy_hash tool_demo_world (tool_demo_call 20) tool_demo_cl tool_demo_memo tool_demo_memo = (Some (digest_of toy_hash [1]), tool_demo_memo)
   \<and> (\<exists>path' ct' key. (path', ct') \<in> set ((tool_demo_cl, tool_demo_call 20) # [(tool_demo_cl, tool_demo_call 0)]) \<and> path_key path' = path_key tool_demo_cl
    \<and> memo_key (tool_demo_world (ct_stat (tool_demo_call 20))) tool_demo_cl = Some key \<and> memo_key (tool_demo_world (ct_stat ct')) path' = Some key
    \<and> hash_file toy_hash (tool_demo_world (ct_read ct')) path' = Some (digest_of toy_hash [1])
    \<and> ((path', ct') = (tool_demo_cl, tool_demo_call 20) \<or> ct_look (tool_demo_call 20) - ct_done ct' < TOOL_DIGEST_TTL))"
proof -
  have reach: "memo_reach toy_hash tool_demo_world [(tool_demo_cl, tool_demo_call 0)] tool_demo_memo"
    unfolding tool_demo_memo_def
    by (rule memo_call [OF memo_start memo_start _ prod.collapse [symmetric]]) simp
  have run: "digest_file_memoized toy_hash tool_demo_world (tool_demo_call 20) tool_demo_cl tool_demo_memo tool_demo_memo
      = (Some (digest_of toy_hash [1]), tool_demo_memo)"
    by (simp add: digest_file_memoized_def tool_demo_key tool_demo_memo_eq memo_lookup_def tool_demo_call_def TOOL_DIGEST_TTL_def)
  from tool_digest_fresh [OF reach run] run show ?thesis by blast
qed

end
