(* ===== verification/Agent_Cache.thy ===== *)
theory Agent_Cache
  imports Action_Key Cas_Action_Cache Toolchain
begin

text \<open>
  The agent's side of the action cache, \<open>src/crates/agent/src/action_cache.rs\<close>: resolving an
  action from cache with a two-pass publish, recording a run, the verified-tool side-effect
  policy, and the manifest codec. The state is the keyed disk, the blob store and the files
  below the build root; what the operating system does with each staged output is part of
  the environment of a call. The stage and commit helpers' temp names are not tracked, only
  what ends up under the final names.
\<close>

section \<open>Roots and policies\<close>

definition effective_root :: "string option \<Rightarrow> string \<Rightarrow> string" where
  "effective_root root_override trace_cwd =
     (case root_override of
        Some r \<Rightarrow> if \<not> is_blank r then normalize_for_compare r else trace_cwd
      | None \<Rightarrow> trace_cwd)"

definition is_drive_root_like :: "string \<Rightarrow> bool" where
  "is_drive_root_like path \<longleftrightarrow> length path = 2 \<and> is_ascii_alphabetic (path ! 0) \<and> path ! 1 = CHR '':''"

definition drive_root_tail :: "string \<Rightarrow> string option" where
  "drive_root_tail path =
     (if length path > 3 \<and> is_ascii_alphabetic (path ! 0) \<and> path ! 1 = CHR '':'' \<and> path ! 2 = bsl
      then Some (drop 3 path) else None)"

definition is_unc_share_root :: "string \<Rightarrow> bool" where
  "is_unc_share_root path =
     (case strip_prefix [bsl, bsl] path of
        None \<Rightarrow> False
      | Some tail \<Rightarrow> length (filter (\<lambda>part. part \<noteq> []) (split_on bsl tail)) = 2)"

definition is_broad_enumerate_root :: "string \<Rightarrow> bool" where
  "is_broad_enumerate_root path =
     (if is_drive_root_like path \<or> is_unc_share_root path then True
      else case drive_root_tail path of
        None \<Rightarrow> False
      | Some tail \<Rightarrow> tail \<in> {''program files'', ''program files (x86)'',
            ''program files'' @ [bsl] @ ''microsoft visual studio'',
            ''program files (x86)'' @ [bsl] @ ''microsoft visual studio''})"

definition normalized_parent :: "string \<Rightarrow> string option" where
  "normalized_parent path =
     (let trimmed = trim_end_char bsl path in
      if trimmed = [] then None
      else case rfind_char bsl trimmed of
        None \<Rightarrow> None
      | Some idx \<Rightarrow>
          if idx = 0 then None
          else
            let unc_stop = (case strip_prefix [bsl, bsl] trimmed of
                  None \<Rightarrow> False
                | Some unc_tail \<Rightarrow>
                    (case find_char bsl unc_tail of None \<Rightarrow> True | Some i \<Rightarrow> idx \<le> i + 2));
                parent = take idx trimmed
            in if unc_stop \<or> is_broad_enumerate_root parent then None else Some parent)"

lemma normalized_parent_shorter: "normalized_parent path = Some p \<Longrightarrow> length p < length path"
proof -
  assume n: "normalized_parent path = Some p"
  let ?t = "trim_end_char bsl path"
  obtain idx where i: "rfind_char bsl ?t = Some idx" "p = take idx ?t" "?t \<noteq> []"
    using n by (auto simp: normalized_parent_def Let_def split: if_splits option.splits)
  have "idx < length ?t" using i(1,3) by (auto simp: rfind_char_def split: if_splits)
  moreover have "length ?t \<le> length path"
    using length_dropWhile_le [of "\<lambda>x. x = bsl" "rev path"] by (simp add: trim_end_char_def)
  ultimately show ?thesis using i(2) by simp
qed

function path_and_ancestors :: "string \<Rightarrow> string list \<Rightarrow> string list" where
  "path_and_ancestors current entries =
     (if current = [] \<or> is_broad_enumerate_root current then entries
      else
        let entries' = (if current \<in> set entries then entries else entries @ [current]) in
        (case normalized_parent current of
           None \<Rightarrow> entries'
         | Some parent \<Rightarrow> path_and_ancestors parent entries'))"
  by pat_completeness auto
termination
  by (relation "measure (\<lambda>(c, _). length c)") (auto dest: normalized_parent_shorter)

declare path_and_ancestors.simps [simp del]

definition normalized_path_and_ancestors :: "string \<Rightarrow> string list" where
  "normalized_path_and_ancestors path = path_and_ancestors (normalize_for_compare path) []"

definition NDP_KEY :: string where
  "NDP_KEY = ''HKLM'' @ [bsl] @ ''SOFTWARE'' @ [bsl] @ ''Microsoft'' @ [bsl] @ ''NET Framework Setup'' @ [bsl]
     @ ''NDP'' @ [bsl] @ ''v4'' @ [bsl] @ ''Client''"

definition verified_tool_side_effect_policy :: "tool_identity \<Rightarrow> side_effect_policy" where
  "verified_tool_side_effect_policy identity =
     (case identity of
        ContentTool _ path \<Rightarrow>
          \<lparr>allow_env_block = True, allowed_registry = [(NDP_KEY, ''Version'')],
           allowed_enumerate = normalized_path_and_ancestors path\<rparr>
      | NameOnly _ _ \<Rightarrow> conservative)"

definition cacheable_outputs :: "string list \<Rightarrow> string list" where
  "cacheable_outputs outputs =
     (if list_ex (\<lambda>p. \<not> is_under_build_root p) outputs then [] else outputs)"

section \<open>Manifest codec\<close>

definition MANIFEST_CODEC_MAGIC :: bytes where "MANIFEST_CODEC_MAGIC = as_bytes ''SBZM''"
definition MANIFEST_CODEC_VERSION :: u8 where "MANIFEST_CODEC_VERSION = 1"
definition MAX_INPUTS :: nat where "MAX_INPUTS = 2 ^ 20"
definition MAX_CMDS :: nat where "MAX_CMDS = 65536"

primrec kind_byte :: "input_kind \<Rightarrow> u8" where
  "kind_byte Content = 0"
| "kind_byte Absent = 1"

definition kind_from_byte :: "u8 \<Rightarrow> input_kind option" where
  "kind_from_byte b = (if b = 0 then Some Content else if b = 1 then Some Absent else None)"

definition put_entry :: "input_entry \<Rightarrow> bytes" where
  "put_entry e = put_str (ie_logical e) @ put_str (ie_absolute e) @ [kind_byte (ie_kind e)]"

definition get_kind :: "input_kind trace_reader" where
  "get_kind = sm_bind t_u8 (\<lambda>b. case kind_from_byte b of None \<Rightarrow> sm_err () | Some k \<Rightarrow> sm_ret k)"

definition get_entry :: "input_entry trace_reader" where
  "get_entry = sm_bind get_str (\<lambda>logical. sm_bind get_str (\<lambda>absolute. sm_bind get_kind (\<lambda>kind.
     sm_ret \<lparr>ie_logical = logical, ie_absolute = absolute, ie_kind = kind\<rparr>)))"

definition manifest_body :: "input_manifest \<Rightarrow> bytes" where
  "manifest_body m =
     [if im_cacheable m then 1 else 0] @ u32_to_le (word_of_nat (length (im_inputs m)))
     @ concat (map put_entry (im_inputs m))
     @ u32_to_le (word_of_nat (length (im_cmds m))) @ concat (map put_str (im_cmds m))"

definition encode_manifest :: "hash_fn \<Rightarrow> input_manifest \<Rightarrow> bytes" where
  "encode_manifest blake3 m =
     (let buf = MANIFEST_CODEC_MAGIC @ [MANIFEST_CODEC_VERSION] @ manifest_body m
      in buf @ codec_checksum blake3 buf)"

definition get_manifest_body :: "input_manifest trace_reader" where
  "get_manifest_body = sm_bind t_u8 (\<lambda>cb.
     if cb \<noteq> 0 \<and> cb \<noteq> 1 then sm_err ()
     else sm_bind get_u32 (\<lambda>n.
       if unat n > MAX_INPUTS then sm_err ()
       else sm_bind (sm_repeat (unat n) get_entry) (\<lambda>inputs.
         sm_bind get_u32 (\<lambda>k.
           if unat k > MAX_CMDS then sm_err ()
           else sm_bind (sm_repeat (unat k) get_str) (\<lambda>cmds.
             sm_ret \<lparr>im_inputs = inputs, im_cmds = cmds, im_cacheable = (cb = 1)\<rparr>)))))"

definition decode_manifest :: "hash_fn \<Rightarrow> bytes \<Rightarrow> input_manifest option" where
  "decode_manifest blake3 buf =
     decode_sealed blake3 MANIFEST_CODEC_MAGIC MANIFEST_CODEC_VERSION get_manifest_body buf"

section \<open>Resolving\<close>

datatype cache_lookup = Hit u32 bytes bytes | Miss

datatype agent_error = AgentIo | OutsideRoot

datatype commit_outcome = CommitOk | CommitKept | CommitRemoved

record agent_env =
  ae_fs :: filesystem
  ae_os :: store_os
  ae_root_ok :: bool
  ae_stage_ok :: "string \<Rightarrow> bool"
  ae_commit :: "string \<Rightarrow> commit_outcome"

record agent_state =
  as_disk :: disk
  as_blobs :: blobs
  as_root :: "string \<Rightarrow> fs_read"

definition root_rel :: "string \<Rightarrow> string" where
  "root_rel logical = replace_char (CHR ''/'') bsl logical"

fun stage_outputs ::
    "hash_fn \<Rightarrow> agent_env \<Rightarrow> blobs \<Rightarrow> output_file list \<Rightarrow> agent_error + ((string \<times> bytes) list) option" where
  "stage_outputs blake3 env bl [] = Inr (Some [])"
| "stage_outputs blake3 env bl (out # outs) =
     (if \<not> is_under_build_root (of_logical_path out) then Inl OutsideRoot
      else case get_verified blake3 (ae_os env) bl (of_digest out) of
        Inl CasIo \<Rightarrow> Inl AgentIo
      | Inl _ \<Rightarrow> Inr None
      | Inr None \<Rightarrow> Inr None
      | Inr (Some bs) \<Rightarrow>
          if \<not> ae_stage_ok env (root_rel (of_logical_path out)) then Inl AgentIo
          else (case stage_outputs blake3 env bl outs of
                  Inl e \<Rightarrow> Inl e
                | Inr None \<Rightarrow> Inr None
                | Inr (Some staged) \<Rightarrow> Inr (Some ((root_rel (of_logical_path out), bs) # staged))))"

fun commit_outputs ::
    "agent_env \<Rightarrow> (string \<times> bytes) list \<Rightarrow> (string \<Rightarrow> fs_read) \<Rightarrow> bool \<times> (string \<Rightarrow> fs_read)" where
  "commit_outputs env [] root = (True, root)"
| "commit_outputs env ((rel, bs) # staged) root =
     (case ae_commit env rel of
        CommitOk \<Rightarrow> commit_outputs env staged (root(rel := FsOk bs))
      | CommitKept \<Rightarrow> (False, root)
      | CommitRemoved \<Rightarrow> (False, root(rel := FsNotFound)))"

definition replay_stream :: "hash_fn \<Rightarrow> agent_env \<Rightarrow> blobs \<Rightarrow> digest option \<Rightarrow> bytes" where
  "replay_stream blake3 env bl d =
     (case d of
        None \<Rightarrow> []
      | Some d \<Rightarrow> (case get_verified blake3 (ae_os env) bl d of Inr (Some bs) \<Rightarrow> bs | _ \<Rightarrow> []))"

definition publish_result ::
    "hash_fn \<Rightarrow> agent_env \<Rightarrow> action_result \<Rightarrow> agent_state \<Rightarrow> (agent_error + cache_lookup) \<times> agent_state" where
  "publish_result blake3 env result st =
     (if \<not> ae_root_ok env then (Inl AgentIo, st)
      else case stage_outputs blake3 env (as_blobs st) (ar_outputs result) of
        Inl e \<Rightarrow> (Inl e, st)
      | Inr None \<Rightarrow> (Inr Miss, st)
      | Inr (Some staged) \<Rightarrow>
          (case commit_outputs env staged (as_root st) of
             (False, root) \<Rightarrow> (Inl AgentIo, st\<lparr>as_root := root\<rparr>)
           | (True, root) \<Rightarrow>
               (Inr (Hit (ar_exit_code result) (replay_stream blake3 env (as_blobs st) (ar_stdout result))
                         (replay_stream blake3 env (as_blobs st) (ar_stderr result))),
                st\<lparr>as_root := root\<rparr>)))"

definition resolve ::
    "hash_fn \<Rightarrow> action_cache \<Rightarrow> agent_env \<Rightarrow> digest \<Rightarrow> agent_state
     \<Rightarrow> (agent_error + cache_lookup) \<times> agent_state" where
  "resolve blake3 ac env weak st =
     (case get_manifest ac weak (as_disk st) of
        Inl _ \<Rightarrow> (Inl AgentIo, st)
      | Inr None \<Rightarrow> (Inr Miss, st)
      | Inr (Some bytes) \<Rightarrow>
          (case decode_manifest blake3 bytes of
             None \<Rightarrow> (Inr Miss, st)
           | Some manifest \<Rightarrow>
               if \<not> im_cacheable manifest then (Inr Miss, st)
               else (case manifest_hash (ae_fs env) manifest of
                  None \<Rightarrow> (Inr Miss, st)
                | Some ih \<Rightarrow>
                    (case get_result blake3 ac (strong_fingerprint blake3 weak ih) (as_disk st) of
                       Inl _ \<Rightarrow> (Inl AgentIo, st)
                     | Inr None \<Rightarrow> (Inr Miss, st)
                     | Inr (Some result) \<Rightarrow> publish_result blake3 env result st))))"

section \<open>Recording\<close>

fun ingest_outputs ::
    "hash_fn \<Rightarrow> agent_env \<Rightarrow> (string \<Rightarrow> fs_read) \<Rightarrow> string list \<Rightarrow> blobs \<Rightarrow> (output_file list) option \<times> blobs" where
  "ingest_outputs blake3 env root [] bl = (Some [], bl)"
| "ingest_outputs blake3 env root (logical # ls) bl =
     (case root (root_rel logical) of
        FsOk bs \<Rightarrow>
          (case store_put blake3 (ae_os env) bs bl of
             (Inl _, bl') \<Rightarrow> (None, bl')
           | (Inr d, bl') \<Rightarrow>
               (case ingest_outputs blake3 env root ls bl' of
                  (None, bl'') \<Rightarrow> (None, bl'')
                | (Some outs, bl'') \<Rightarrow> (Some (\<lparr>of_logical_path = logical, of_digest = d\<rparr> # outs), bl'')))
      | _ \<Rightarrow> (None, bl))"

definition ingest_stream :: "hash_fn \<Rightarrow> agent_env \<Rightarrow> bytes \<Rightarrow> blobs \<Rightarrow> (digest option) option \<times> blobs" where
  "ingest_stream blake3 env bs bl =
     (if bs = [] then (Some None, bl)
      else case store_put blake3 (ae_os env) bs bl of
        (Inl _, bl') \<Rightarrow> (None, bl') | (Inr d, bl') \<Rightarrow> (Some (Some d), bl'))"

text \<open>
  Everything \<open>record\<close> does after the manifest is stored and before the result is: the outputs,
  then the strong key, then the streams. \<open>Inr None\<close> is the silent decline when the strong key
  cannot be computed.
\<close>

definition prepare_result ::
    "hash_fn \<Rightarrow> agent_env \<Rightarrow> digest \<Rightarrow> input_manifest \<Rightarrow> string list \<Rightarrow> u32 \<Rightarrow> bytes \<Rightarrow> bytes
     \<Rightarrow> (string \<Rightarrow> fs_read) \<Rightarrow> blobs \<Rightarrow> (agent_error + (digest \<times> action_result) option) \<times> blobs" where
  "prepare_result blake3 env weak manifest outs exit_code stdout stderr root bl =
     (case ingest_outputs blake3 env root outs bl of
        (None, bl1) \<Rightarrow> (Inl AgentIo, bl1)
      | (Some outputs, bl1) \<Rightarrow>
          (case manifest_hash (ae_fs env) manifest of
             None \<Rightarrow> (Inr None, bl1)
           | Some ih \<Rightarrow>
               (case ingest_stream blake3 env stdout bl1 of
                  (None, bl2) \<Rightarrow> (Inl AgentIo, bl2)
                | (Some so, bl2) \<Rightarrow>
                    (case ingest_stream blake3 env stderr bl2 of
                       (None, bl3) \<Rightarrow> (Inl AgentIo, bl3)
                     | (Some se, bl3) \<Rightarrow>
                         (Inr (Some (strong_fingerprint blake3 weak ih,
                            \<lparr>ar_exit_code = exit_code, ar_outputs = outputs, ar_stdout = so, ar_stderr = se\<rparr>)), bl3)))))"

definition record_action ::
    "hash_fn \<Rightarrow> action_cache \<Rightarrow> agent_env \<Rightarrow> digest \<Rightarrow> input_manifest \<Rightarrow> string list \<Rightarrow> u32 \<Rightarrow> bytes \<Rightarrow> bytes
     \<Rightarrow> agent_state \<Rightarrow> (agent_error + unit) \<times> agent_state" where
  "record_action blake3 ac env weak manifest outs exit_code stdout stderr st =
     (if \<not> im_cacheable manifest then (Inr (), st)
      else if list_ex (\<lambda>l. \<not> is_under_build_root l) outs then (Inl OutsideRoot, st)
      else if \<not> ae_root_ok env then (Inl AgentIo, st)
      else case put_manifest ac weak (encode_manifest blake3 manifest) (as_disk st) of
        (False, dk) \<Rightarrow> (Inl AgentIo, st\<lparr>as_disk := dk\<rparr>)
      | (True, dk) \<Rightarrow>
          (case prepare_result blake3 env weak manifest outs exit_code stdout stderr (as_root st) (as_blobs st) of
             (Inl e, bl) \<Rightarrow> (Inl e, st\<lparr>as_disk := dk, as_blobs := bl\<rparr>)
           | (Inr None, bl) \<Rightarrow> (Inr (), st\<lparr>as_disk := dk, as_blobs := bl\<rparr>)
           | (Inr (Some (strong, result)), bl) \<Rightarrow>
               (case put_result blake3 ac strong result dk of
                  (ok, dk') \<Rightarrow> (if ok then Inr () else Inl AgentIo, st\<lparr>as_disk := dk', as_blobs := bl\<rparr>))))"

section \<open>The manifest codec is exact\<close>

lemma kind_from_byte_Some: "kind_from_byte b = Some k \<longleftrightarrow> b = kind_byte k"
  by (cases k) (auto simp: kind_from_byte_def)

lemma consumes_t_u8: "consumes t_u8 (\<lambda>v. [v]) (\<lambda>_. True)"
  unfolding t_u8_def
  by (rule consumes_bind [OF consumes_t_take consumes_ret]) (auto simp: length_Suc_conv)

lemma reads_get_kind: "reads get_kind [kind_byte k] k"
proof -
  have "kind_from_byte (kind_byte k) = Some k" by (simp add: kind_from_byte_Some)
  then have "reads (case kind_from_byte (kind_byte k) of None \<Rightarrow> sm_err () | Some k \<Rightarrow> sm_ret k) [] k"
    by (simp add: reads_ret)
  then show ?thesis unfolding get_kind_def by (rule reads_bind_last [OF exactly_reads [OF exactly_u8]])
qed

lemma consumes_get_kind: "consumes get_kind (\<lambda>k. [kind_byte k]) (\<lambda>_. True)"
  unfolding get_kind_def
proof (rule consumes_bind [OF consumes_t_u8])
  fix b
  show "consumes (case kind_from_byte b of None \<Rightarrow> sm_err () | Some k \<Rightarrow> sm_ret k) (\<lambda>_. []) (\<lambda>k. kind_from_byte b = Some k)"
    by (auto simp: consumes_err split: option.splits intro: consumes_weaken [OF consumes_ret])
qed (simp add: kind_from_byte_Some)

definition entry_ok :: "input_entry \<Rightarrow> bool" where
  "entry_ok e \<longleftrightarrow> cstr_ok (ie_logical e) \<and> cstr_ok (ie_absolute e)"

lemma reads_get_entry: "entry_ok e \<Longrightarrow> reads get_entry (put_entry e) e"
  unfolding get_entry_def put_entry_def entry_ok_def
  by (rule reads_bind [OF reads_get_str], blast, rule reads_bind [OF reads_get_str], blast,
      rule reads_bind_last [OF reads_get_kind]) (rule reads_ret_eq, simp)

lemma consumes_get_entry: "consumes get_entry put_entry entry_ok"
  unfolding get_entry_def
proof (rule consumes_bind [OF consumes_get_str])
  fix l
  show "consumes (sm_bind get_str (\<lambda>absolute. sm_bind get_kind (\<lambda>kind.
       sm_ret \<lparr>ie_logical = l, ie_absolute = absolute, ie_kind = kind\<rparr>)))
     (\<lambda>e. put_str (ie_absolute e) @ [kind_byte (ie_kind e)]) (\<lambda>e. ie_logical e = l \<and> cstr_ok (ie_absolute e))"
  proof (rule consumes_bind [OF consumes_get_str])
    fix a
    show "consumes (sm_bind get_kind (\<lambda>kind. sm_ret \<lparr>ie_logical = l, ie_absolute = a, ie_kind = kind\<rparr>))
       (\<lambda>e. [kind_byte (ie_kind e)]) (\<lambda>e. ie_logical e = l \<and> ie_absolute e = a)"
      by (rule consumes_bind [OF consumes_get_kind consumes_ret]) auto
  qed auto
qed (auto simp: put_entry_def entry_ok_def)

interpretation manifest_entry: canonical_codec put_entry get_entry entry_ok
  by unfold_locales (rule reads_get_entry, assumption, rule consumes_get_entry)

definition manifest_ok :: "input_manifest \<Rightarrow> bool" where
  "manifest_ok m \<longleftrightarrow> length (im_inputs m) \<le> MAX_INPUTS \<and> list_all entry_ok (im_inputs m)
     \<and> length (im_cmds m) \<le> MAX_CMDS \<and> list_all cstr_ok (im_cmds m)"

lemma manifest_lens:
  "length xs \<le> MAX_INPUTS \<Longrightarrow> unat (word_of_nat (length xs) :: u32) = length xs"
  "length ys \<le> MAX_CMDS \<Longrightarrow> unat (word_of_nat (length ys) :: u32) = length ys"
  by (intro unat_word32_of_nat; simp add: MAX_INPUTS_def MAX_CMDS_def)+

lemma reads_manifest_body:
  assumes "manifest_ok m"
  shows "reads get_manifest_body (manifest_body m) m"
proof -
  have ok: "length (im_inputs m) \<le> MAX_INPUTS" "list_all entry_ok (im_inputs m)"
    "length (im_cmds m) \<le> MAX_CMDS" "list_all cstr_ok (im_cmds m)" using assms by (simp_all add: manifest_ok_def)
  let ?fin = "\<lambda>inputs cmds. sm_ret \<lparr>im_inputs = inputs, im_cmds = cmds, im_cacheable = im_cacheable m\<rparr> :: input_manifest trace_reader"
  let ?cmds = "\<lambda>inputs. sm_bind get_u32 (\<lambda>k. if unat k > MAX_CMDS then sm_err ()
           else sm_bind (sm_repeat (unat k) get_str) (?fin inputs))"
  have fin: "reads (?fin (im_inputs m) (im_cmds m)) [] m" by (rule reads_ret_eq) simp
  have cmds: "reads (sm_bind get_u32 (\<lambda>k. if unat k > MAX_CMDS then sm_err ()
           else sm_bind (sm_repeat (unat k) get_str) (?fin (im_inputs m))))
       (u32_to_le (word_of_nat (length (im_cmds m))) @ concat (map put_str (im_cmds m))) m"
    by (rule reads_bind [OF reads_get_u32])
       (use ok(3) reads_bind_last [where f = "?fin (im_inputs m)", OF cache_str.reads_list [OF ok(4)] fin] in
        \<open>simp add: manifest_lens\<close>)
  have ins: "reads (sm_bind get_u32 (\<lambda>n. if unat n > MAX_INPUTS then sm_err ()
       else sm_bind (sm_repeat (unat n) get_entry) (\<lambda>inputs. sm_bind get_u32 (\<lambda>k. if unat k > MAX_CMDS then sm_err ()
           else sm_bind (sm_repeat (unat k) get_str) (?fin inputs)))))
     (u32_to_le (word_of_nat (length (im_inputs m))) @ concat (map put_entry (im_inputs m))
      @ u32_to_le (word_of_nat (length (im_cmds m))) @ concat (map put_str (im_cmds m))) m"
    by (rule reads_bind [OF reads_get_u32])
       (use ok(1) reads_bind [where f = ?cmds, OF manifest_entry.reads_list [OF ok(2)] cmds] in \<open>simp add: manifest_lens\<close>)
  have cb: "((if im_cacheable m then 1 else (0 :: u8)) = 1) = im_cacheable m"
    "((if im_cacheable m then 1 else (0 :: u8)) \<noteq> 0 \<and> \<not> im_cacheable m) = False"
    by simp_all
  show ?thesis unfolding get_manifest_body_def manifest_body_def
    by (rule reads_bind [OF exactly_reads [OF exactly_u8]]) (use ins in \<open>simp only: cb if_False\<close>)
qed

lemma consumes_manifest_body: "consumes get_manifest_body manifest_body manifest_ok"
  unfolding get_manifest_body_def
proof (rule consumes_bind [OF consumes_t_u8])
  fix cb :: u8
  let ?fin = "\<lambda>inputs cmds. sm_ret \<lparr>im_inputs = inputs, im_cmds = cmds, im_cacheable = (cb = 1)\<rparr> :: input_manifest trace_reader"
  let ?cmds = "\<lambda>inputs. sm_bind get_u32 (\<lambda>k. if unat k > MAX_CMDS then sm_err ()
           else sm_bind (sm_repeat (unat k) get_str) (?fin inputs))"
  let ?Ec = "\<lambda>m. u32_to_le (word_of_nat (length (im_cmds m))) @ concat (map put_str (im_cmds m))"
  let ?Pc = "\<lambda>m. im_cacheable m = (cb = 1) \<and> length (im_cmds m) \<le> MAX_CMDS \<and> list_all cstr_ok (im_cmds m)"
  have cmds: "consumes (?cmds inputs) ?Ec (\<lambda>m. im_inputs m = inputs \<and> ?Pc m)" for inputs
  proof (rule consumes_bind [OF consumes_get_u32])
    fix k :: u32
    have "consumes (sm_bind (sm_repeat (unat k) get_str) (?fin inputs)) (\<lambda>m. concat (map put_str (im_cmds m)))
       (\<lambda>m. im_inputs m = inputs \<and> im_cacheable m = (cb = 1) \<and> length (im_cmds m) = unat k \<and> list_all cstr_ok (im_cmds m))"
      by (rule consumes_bind [OF cache_str.consumes_list consumes_ret]) auto
    then show "consumes (if unat k > MAX_CMDS then sm_err () else sm_bind (sm_repeat (unat k) get_str) (?fin inputs))
       (\<lambda>m. concat (map put_str (im_cmds m)))
       (\<lambda>m. im_inputs m = inputs \<and> im_cacheable m = (cb = 1) \<and> length (im_cmds m) = unat k \<and> unat k \<le> MAX_CMDS
          \<and> list_all cstr_ok (im_cmds m))"
      by (auto simp: consumes_err intro: consumes_weaken)
  qed auto
  let ?ins = "sm_bind get_u32 (\<lambda>n. if unat n > MAX_INPUTS then sm_err ()
       else sm_bind (sm_repeat (unat n) get_entry) ?cmds)"
  let ?Ei = "\<lambda>m. u32_to_le (word_of_nat (length (im_inputs m))) @ concat (map put_entry (im_inputs m)) @ ?Ec m"
  have ins: "consumes ?ins ?Ei (\<lambda>m. length (im_inputs m) \<le> MAX_INPUTS \<and> list_all entry_ok (im_inputs m) \<and> ?Pc m)"
  proof (rule consumes_bind [OF consumes_get_u32])
    fix n :: u32
    have "consumes (sm_bind (sm_repeat (unat n) get_entry) ?cmds) (\<lambda>m. concat (map put_entry (im_inputs m)) @ ?Ec m)
       (\<lambda>m. length (im_inputs m) = unat n \<and> list_all entry_ok (im_inputs m) \<and> ?Pc m)"
      by (rule consumes_bind [OF manifest_entry.consumes_list cmds]) auto
    then show "consumes (if unat n > MAX_INPUTS then sm_err () else sm_bind (sm_repeat (unat n) get_entry) ?cmds)
       (\<lambda>m. concat (map put_entry (im_inputs m)) @ ?Ec m)
       (\<lambda>m. length (im_inputs m) = unat n \<and> unat n \<le> MAX_INPUTS \<and> list_all entry_ok (im_inputs m) \<and> ?Pc m)"
      by (auto simp: consumes_err intro: consumes_weaken)
  qed auto
  show "consumes (if cb \<noteq> 0 \<and> cb \<noteq> 1 then sm_err () else ?ins) ?Ei
     (\<lambda>m. (cb = 0 \<or> cb = 1) \<and> length (im_inputs m) \<le> MAX_INPUTS \<and> list_all entry_ok (im_inputs m) \<and> ?Pc m)"
    using ins by (auto simp: consumes_err intro: consumes_weaken)
qed (auto simp: manifest_body_def manifest_ok_def)

lemma manifest_codec:
  assumes "blake3_output blake3" "length buf < usize_bound"
  shows "decode_manifest blake3 buf = Some m \<longleftrightarrow> manifest_ok m \<and> buf = encode_manifest blake3 m"
  unfolding decode_manifest_def encode_manifest_def Let_def
  by (rule decode_sealed_iff [OF assms(1) _ reads_manifest_body consumes_manifest_body assms(2)])
     (simp_all add: MANIFEST_CODEC_MAGIC_def)

text \<open>
  The manifest codec is exact in the same way: a stored file decodes to a manifest
  precisely when it is the encoding of a manifest within the limits.
\<close>
theorem manifest_codec_exact:
  assumes "blake3_output blake3" and "length buf < usize_bound"
  shows "decode_manifest blake3 buf = Some m \<longleftrightarrow> manifest_ok m \<and> buf = encode_manifest blake3 m"
  by (rule manifest_codec [OF assms])

definition sample_stored :: input_manifest where
  "sample_stored = \<lparr>im_inputs = [\<lparr>ie_logical = ''a.h'', ie_absolute = ''x'', ie_kind = Absent\<rparr>], im_cmds = [''cl''],
     im_cacheable = True\<rparr>"

lemma sample_stored_length: "length (encode_manifest toy_hash sample_stored) < usize_bound"
  by (simp add: encode_manifest_def sample_stored_def manifest_body_def put_entry_def put_str_def
      MANIFEST_CODEC_MAGIC_def codec_checksum_def toy_hash_def usize_bound_def)

theorem manifest_codec_exact_witness:
  "decode_manifest toy_hash (encode_manifest toy_hash sample_stored) = Some sample_stored
   \<longleftrightarrow> manifest_ok sample_stored \<and> encode_manifest toy_hash sample_stored = encode_manifest toy_hash sample_stored"
  by (rule manifest_codec_exact [OF toy_hash_output sample_stored_length])

section \<open>Publishing is all or nothing\<close>

lemma stage_outputs_spec:
  assumes "stage_outputs blake3 env bl outs = Inr (Some staged)"
  shows "list_all2 (\<lambda>out (rel, bs). is_under_build_root (of_logical_path out) \<and> rel = root_rel (of_logical_path out)
           \<and> digest_of blake3 bs = of_digest out) outs staged"
  using assms
proof (induction outs arbitrary: staged)
  case (Cons out outs)
  obtain bs rest where g: "is_under_build_root (of_logical_path out)"
      "get_verified blake3 (ae_os env) bl (of_digest out) = Inr (Some bs)"
      "stage_outputs blake3 env bl outs = Inr (Some rest)" "staged = (root_rel (of_logical_path out), bs) # rest"
    using Cons.prems by (auto split: if_splits sum.splits option.splits cas_error.splits)
  then show ?case using Cons.IH [OF g(3)] get_verified_sound [OF g(2)] by simp
qed simp

lemma commit_outputs_frame:
  "rel \<notin> fst ` set staged \<Longrightarrow> snd (commit_outputs env staged root) rel = root rel"
  by (induction env staged root rule: commit_outputs.induct) (auto split: commit_outcome.splits)

lemma commit_outputs_ok:
  assumes "commit_outputs env staged root = (True, root')" "distinct (map fst staged)" "(rel, bs) \<in> set staged"
  shows "root' rel = FsOk bs"
  using assms
proof (induction env staged root rule: commit_outputs.induct)
  case (2 env r b staged root)
  have c: "commit_outputs env staged (root(r := FsOk b)) = (True, root')" "ae_commit env r = CommitOk"
    using 2(2) by (auto split: commit_outcome.splits)
  show ?case
  proof (cases "(rel, bs) = (r, b)")
    case True
    then have "rel \<notin> fst ` set staged" using 2(3) by auto
    from commit_outputs_frame [OF this, of env "root(r := FsOk b)"] show ?thesis using c(1) True by simp
  next
    case False
    then show ?thesis using 2(1) [OF c(2) c(1)] 2(3,4) by auto
  qed
qed simp

lemma publish_result_spec:
  assumes "publish_result blake3 env res st = (r, st')"
  shows "as_disk st' = as_disk st \<and> as_blobs st' = as_blobs st
    \<and> (r = Inr Miss \<longrightarrow> st' = st)
    \<and> (\<forall>rel. as_root st' rel \<noteq> as_root st rel \<longrightarrow>
         (\<exists>out \<in> set (ar_outputs res). rel = root_rel (of_logical_path out) \<and> is_under_build_root (of_logical_path out)))
    \<and> (\<forall>code so se. r = Inr (Hit code so se) \<longrightarrow> code = ar_exit_code res
         \<and> (distinct (map (root_rel \<circ> of_logical_path) (ar_outputs res)) \<longrightarrow>
             (\<forall>out \<in> set (ar_outputs res). \<exists>bs. as_root st' (root_rel (of_logical_path out)) = FsOk bs
                \<and> digest_of blake3 bs = of_digest out)))"
proof (cases "\<exists>staged. ae_root_ok env \<and> stage_outputs blake3 env (as_blobs st) (ar_outputs res) = Inr (Some staged)")
  case False
  then have "st' = st \<and> (\<forall>code so se. r \<noteq> Inr (Hit code so se))"
    using assms by (auto simp: publish_result_def split: if_splits sum.splits option.splits)
  then show ?thesis by simp
next
  case True
  then obtain staged where s: "ae_root_ok env" "stage_outputs blake3 env (as_blobs st) (ar_outputs res) = Inr (Some staged)" by blast
  obtain ok root where c: "commit_outputs env staged (as_root st) = (ok, root)" by fastforce
  have st': "st' = st\<lparr>as_root := root\<rparr>" and r: "r = (if ok then Inr (Hit (ar_exit_code res)
        (replay_stream blake3 env (as_blobs st) (ar_stdout res)) (replay_stream blake3 env (as_blobs st) (ar_stderr res))) else Inl AgentIo)"
    using assms s c by (auto simp: publish_result_def split: bool.splits)
  note sp = stage_outputs_spec [OF s(2)]
  have names: "map fst staged = map (root_rel \<circ> of_logical_path) (ar_outputs res)"
    using sp by (induction rule: list_all2_induct) auto
  have mem: "\<exists>bs. (root_rel (of_logical_path out), bs) \<in> set staged \<and> digest_of blake3 bs = of_digest out"
    if "out \<in> set (ar_outputs res)" for out
    using sp that by (induction rule: list_all2_induct) auto
  have under: "\<exists>out \<in> set (ar_outputs res). rel = root_rel (of_logical_path out) \<and> is_under_build_root (of_logical_path out)"
    if "rel \<in> fst ` set staged" for rel
    using sp that by (induction rule: list_all2_induct) auto
  have frame: "root rel = as_root st rel" if "rel \<notin> fst ` set staged" for rel
    using commit_outputs_frame [OF that, of env "as_root st"] c by simp
  show ?thesis
  proof (intro conjI allI impI ballI)
    show "as_disk st' = as_disk st" "as_blobs st' = as_blobs st" by (simp_all add: st')
    show "st' = st" if "r = Inr Miss" using that r by (auto split: if_splits)
    show "\<exists>out \<in> set (ar_outputs res). rel = root_rel (of_logical_path out) \<and> is_under_build_root (of_logical_path out)"
      if ch: "as_root st' rel \<noteq> as_root st rel" for rel
    proof (rule under, rule ccontr)
      assume "rel \<notin> fst ` set staged"
      from frame [OF this] ch show False by (simp add: st')
    qed
    show "code = ar_exit_code res" if "r = Inr (Hit code so se)" for code so se
      using that r by (auto split: if_splits)
    show "\<exists>bs. as_root st' (root_rel (of_logical_path out)) = FsOk bs \<and> digest_of blake3 bs = of_digest out"
      if hit: "r = Inr (Hit code so se)" and dist: "distinct (map (root_rel \<circ> of_logical_path) (ar_outputs res))"
        and out: "out \<in> set (ar_outputs res)" for code so se out
    proof -
      have ok: "ok = True" using hit r by (auto split: if_splits)
      obtain bs where bs: "(root_rel (of_logical_path out), bs) \<in> set staged" "digest_of blake3 bs = of_digest out"
        using mem [OF out] by blast
      have "distinct (map fst staged)" using dist unfolding names .
      then have "root (root_rel (of_logical_path out)) = FsOk bs"
        by (rule commit_outputs_ok [OF c [unfolded ok] _ bs(1)])
      then show ?thesis using bs(2) st' by simp
    qed
  qed
qed

lemma resolve_cases:
  assumes "resolve blake3 ac env weak st = (r, st')"
  shows "st' = st \<and> (\<forall>code so se. r \<noteq> Inr (Hit code so se))
    \<or> (\<exists>mb m h res. get_manifest ac weak (as_disk st) = Inr (Some mb) \<and> decode_manifest blake3 mb = Some m
        \<and> im_cacheable m \<and> manifest_hash (ae_fs env) m = Some h
        \<and> get_result blake3 ac (strong_fingerprint blake3 weak h) (as_disk st) = Inr (Some res)
        \<and> publish_result blake3 env res st = (r, st'))"
  using assms by (auto simp: resolve_def split: sum.splits option.splits if_splits)


text \<open>One run recorded and resolved again: a probe miss as its input, one output, no streams.\<close>

definition demo_env :: agent_env where
  "demo_env = \<lparr>ae_fs = empty_fs True, ae_os = toy_os, ae_root_ok = True, ae_stage_ok = \<lambda>_. True, ae_commit = \<lambda>_. CommitOk\<rparr>"

definition demo_cache :: action_cache where "demo_cache = action_cache_open ''c''"

definition demo_start :: agent_state where
  "demo_start = \<lparr>as_disk = \<lparr>dk_files = \<lambda>_. FsNotFound, dk_temp_fails = \<lambda>_. False, dk_rename_fails = \<lambda>_. False\<rparr>,
     as_blobs = \<lambda>_. FsNotFound, as_root = (\<lambda>_. FsNotFound)(''a.obj'' := FsOk [1])\<rparr>"

definition demo_hash :: string where
  "demo_hash = hash_components (the (manifest_components (empty_fs True) sample_stored))"

definition demo_result :: action_result where
  "demo_result = \<lparr>ar_exit_code = 0, ar_outputs = [\<lparr>of_logical_path = ''a.obj'', of_digest = digest_of toy_hash [1]\<rparr>],
     ar_stdout = None, ar_stderr = None\<rparr>"

definition demo_strong :: digest where "demo_strong = strong_fingerprint toy_hash sample_tool demo_hash"

definition demo_recorded :: agent_state where
  "demo_recorded = demo_start\<lparr>
     as_disk := (as_disk demo_start)\<lparr>dk_files := (\<lambda>_. FsNotFound)
        (key_path (ac_weak_root demo_cache) sample_tool := FsOk (encode_manifest toy_hash sample_stored),
         key_path (ac_strong_root demo_cache) demo_strong := FsOk (action_result_encode toy_hash demo_result))\<rparr>,
     as_blobs := (\<lambda>_. FsNotFound)(di_hex (digest_of toy_hash [1]) := FsOk [1])\<rparr>"

lemma demo_manifest_hash: "manifest_hash (empty_fs True) sample_stored = Some demo_hash"
  by (simp add: demo_hash_def manifest_hash_def manifest_components_def sample_stored_def input_token_def empty_fs_def)

lemma demo_root_rel: "root_rel ''a.obj'' = ''a.obj''" "is_under_build_root ''a.obj''"
  by code_simp+

lemma demo_put:
  "store_put toy_hash (ae_os demo_env) [1] (as_blobs demo_start) = (Inr (digest_of toy_hash [1]), as_blobs demo_recorded)"
  by (simp add: demo_env_def demo_start_def demo_recorded_def store_put_def store_digest_known_def get_verified_with_def
      get_with_def toy_os_def publish_cas_blob_def Let_def)

lemma demo_ingest:
  "ingest_outputs toy_hash demo_env (as_root demo_start) [''a.obj''] (as_blobs demo_start)
   = (Some (ar_outputs demo_result), as_blobs demo_recorded)"
proof -
  have "as_root demo_start (root_rel ''a.obj'') = FsOk [1]" by (simp add: demo_root_rel demo_start_def)
  then show ?thesis by (simp add: demo_put demo_result_def)
qed

lemma demo_prepare:
  "prepare_result toy_hash demo_env sample_tool sample_stored [''a.obj''] 0 [] [] (as_root demo_start) (as_blobs demo_start)
   = (Inr (Some (demo_strong, demo_result)), as_blobs demo_recorded)"
proof -
  have h: "manifest_hash (ae_fs demo_env) sample_stored = Some demo_hash" by (simp add: demo_env_def demo_manifest_hash)
  show ?thesis unfolding prepare_result_def demo_ingest
    by (simp add: h ingest_stream_def demo_strong_def) (simp add: demo_result_def)
qed

lemma demo_layers: "key_path (ac_weak_root demo_cache) d \<noteq> key_path (ac_strong_root demo_cache) d'"
  by (simp add: key_path_def demo_cache_def action_cache_open_def)

lemma demo_record:
  "record_action toy_hash demo_cache demo_env sample_tool sample_stored [''a.obj''] 0 [] [] demo_start = (Inr (), demo_recorded)"
proof -
  have 1: "put_manifest demo_cache sample_tool (encode_manifest toy_hash sample_stored) (as_disk demo_start)
     = (True, (as_disk demo_start)\<lparr>dk_files := (\<lambda>_. FsNotFound)
        (key_path (ac_weak_root demo_cache) sample_tool := FsOk (encode_manifest toy_hash sample_stored))\<rparr>)"
    by (simp add: put_manifest_def write_atomic_def demo_start_def)
  show ?thesis unfolding record_action_def 1 demo_prepare
    by (simp add: demo_root_rel put_result_def write_atomic_def demo_recorded_def demo_start_def demo_env_def sample_stored_def)
qed

lemma demo_utf8: "utf8_str ''a.obj''" "utf8_str ''a.h''" "utf8_str ''x''" "utf8_str ''cl''"
  unfolding utf8_str_def by code_simp+

lemma demo_result_ok: "result_ok demo_result" "length (action_result_encode toy_hash demo_result) < usize_bound"
proof -
  have len: "length (digest_canonical (digest_of toy_hash [1])) = 71"
    by (simp add: digest_canonical_def digest_of_def toy_hash_def)
  show "result_ok demo_result"
    by (simp add: result_ok_def demo_result_def output_ok_def opt_digest_ok_def cstr_ok_def MAX_OUTPUTS_def MAX_STRING_LEN_def
        digest_of_ok toy_hash_output demo_utf8)
  show "length (action_result_encode toy_hash demo_result) < usize_bound"
    by (simp add: action_result_encode_def demo_result_def result_body_def put_output_def put_str_def opt_canonical_def
        RESULT_CODEC_MAGIC_def codec_checksum_def usize_bound_def len toy_hash_def)
qed

lemma sample_stored_ok: "manifest_ok sample_stored"
  by (simp add: manifest_ok_def sample_stored_def entry_ok_def cstr_ok_def MAX_INPUTS_def MAX_CMDS_def
      MAX_STRING_LEN_def demo_utf8)

lemma demo_resolve:
  "resolve toy_hash demo_cache demo_env sample_tool demo_recorded = (Inr (Hit 0 [] []), demo_recorded)"
proof -
  have m: "decode_manifest toy_hash (encode_manifest toy_hash sample_stored) = Some sample_stored"
    using manifest_codec [OF toy_hash_output sample_stored_length] sample_stored_ok by simp
  have g: "get_manifest demo_cache sample_tool (as_disk demo_recorded) = Inr (Some (encode_manifest toy_hash sample_stored))"
    by (simp add: get_manifest_def demo_recorded_def demo_layers)
  have r: "get_result toy_hash demo_cache demo_strong (as_disk demo_recorded) = Inr (Some demo_result)"
    using action_result_codec [OF toy_hash_output demo_result_ok(2)] demo_result_ok(1)
    by (simp add: get_result_def demo_recorded_def)
  have v: "get_verified toy_hash toy_os (as_blobs demo_recorded) (digest_of toy_hash [1]) = Inr (Some [1])"
    by (simp add: get_verified_def get_verified_with_def get_with_def toy_os_def demo_recorded_def)
  have p: "publish_result toy_hash demo_env demo_result demo_recorded = (Inr (Hit 0 [] []), demo_recorded)"
    by (simp add: publish_result_def demo_env_def demo_result_def demo_root_rel v replay_stream_def)
       (simp add: demo_recorded_def demo_start_def fun_upd_idem)
  have h: "manifest_hash (ae_fs demo_env) sample_stored = Some demo_hash" by (simp add: demo_env_def demo_manifest_hash)
  have c: "im_cacheable sample_stored" by (simp add: sample_stored_def)
  show ?thesis unfolding resolve_def g by (simp add: m h c r [unfolded demo_strong_def] p)
qed


end
