(* ===== verification/Path_Scope.thy ===== *)
theory Path_Scope
  imports Action_Key
begin

text \<open>
  The lexical path scope of the file server, \<open>src/crates/agent/src/fileserver.rs\<close>: how a
  requested path is normalized, when it counts as inside the session's root, and the
  root-relative path that is handed to the contained directory handle. \<open>str::to_lowercase\<close>
  maps all of Unicode; the definitions take it as the argument \<open>lc\<close> and every theorem holds
  for an arbitrary one. \<open>PathMap::Remap\<close>, which only tests use, is not modelled.
\<close>

section \<open>Normalization\<close>

definition normalize_root :: "(string \<Rightarrow> string) \<Rightarrow> string \<Rightarrow> string option" where
  "normalize_root lc root =
     (let r = trim_end_char bsl (lc (replace_char (CHR ''/'') bsl root)) in if r = [] then None else Some r)"

datatype short_alias_policy = RejectAlias | AllowAlias

definition ambiguous_component :: "string \<Rightarrow> bool" where
  "ambiguous_component component =
     (if component = [] \<or> component = ''.'' then False
      else if CHR '':'' \<in> set component \<or> ends_with component ''.'' \<or> ends_with component '' '' then True
      else let stem = hd (split_on (CHR ''.'') component); stem_upper = to_ascii_uppercase stem in
        stem_upper \<in> {''CON'', ''PRN'', ''AUX'', ''NUL'', ''CONIN$'', ''CONOUT$''}
        \<or> length stem_upper = 4 \<and> take 3 stem_upper \<in> {''COM'', ''LPT''}
          \<and> CHR ''1'' \<le> stem_upper ! 3 \<and> stem_upper ! 3 \<le> CHR ''9'')"

definition is_short_name_alias_component :: "string \<Rightarrow> bool" where
  "is_short_name_alias_component component =
     (let (name, ext) = (case split_once (CHR ''.'') component of
                           Some (name, ext) \<Rightarrow> (name, Some ext) | None \<Rightarrow> (component, None))
      in case split_once (CHR ''~'') name of
           None \<Rightarrow> False
         | Some (pre, generation) \<Rightarrow>
             pre \<noteq> [] \<and> length pre \<le> 6 \<and> generation \<noteq> [] \<and> list_all is_ascii_digit generation
             \<and> (case ext of None \<Rightarrow> True | Some e \<Rightarrow> e \<noteq> [] \<and> length e \<le> 3 \<and> CHR ''.'' \<notin> set e))"

text \<open>The loop over the components, with the stack growing at its end.\<close>

fun walk_components :: "short_alias_policy \<Rightarrow> string list \<Rightarrow> string list \<Rightarrow> string list option" where
  "walk_components policy [] stack = Some stack"
| "walk_components policy (seg # rest) stack =
     (if seg = [] \<or> seg = ''.'' then walk_components policy rest stack
      else if seg = ''..'' then (if stack = [] then None else walk_components policy rest (butlast stack))
      else if ambiguous_component seg then None
      else if policy = RejectAlias \<and> is_short_name_alias_component seg then None
      else walk_components policy rest (stack @ [seg]))"

definition normalize_requested_inner :: "(string \<Rightarrow> string) \<Rightarrow> string \<Rightarrow> short_alias_policy \<Rightarrow> string option" where
  "normalize_requested_inner lc path policy =
     (let p = lc (replace_char (CHR ''/'') bsl path) in
      if \<not> is_drive_absolute p then None
      else map_option (\<lambda>stack. take 2 p @ bsl # join_with bsl stack) (walk_components policy (split_on bsl (drop 3 p)) []))"

definition normalize_requested :: "(string \<Rightarrow> string) \<Rightarrow> string \<Rightarrow> string option" where
  "normalize_requested lc path = normalize_requested_inner lc path RejectAlias"

section \<open>Scope\<close>

definition strip_root :: "string \<Rightarrow> string \<Rightarrow> string option" where
  "strip_root root norm = Option.bind (strip_prefix root norm) (strip_prefix [bsl])"

definition path_in_scope :: "(string \<Rightarrow> string) \<Rightarrow> string \<Rightarrow> string option \<Rightarrow> bool" where
  "path_in_scope lc requested root =
     (case root of
        None \<Rightarrow> True
      | Some root \<Rightarrow>
          (case normalize_requested_inner lc requested AllowAlias of
             None \<Rightarrow> False
           | Some norm \<Rightarrow>
               if norm = root then True
               else case strip_root root norm of
                 None \<Rightarrow> False
               | Some rel \<Rightarrow> \<not> list_ex is_short_name_alias_component (split_on bsl rel)))"

definition root_relative_path :: "(string \<Rightarrow> string) \<Rightarrow> string \<Rightarrow> string \<Rightarrow> string option" where
  "root_relative_path lc requested root =
     (case normalize_requested_inner lc requested AllowAlias of
        None \<Rightarrow> None
      | Some norm \<Rightarrow>
          if norm = root then Some ''.''
          else case strip_root root norm of
            None \<Rightarrow> None
          | Some rel \<Rightarrow> if list_ex is_short_name_alias_component (split_on bsl rel) then None else Some rel)"

definition normalize_scoped_requested :: "(string \<Rightarrow> string) \<Rightarrow> string \<Rightarrow> string option \<Rightarrow> string option" where
  "normalize_scoped_requested lc path root =
     (case root of
        None \<Rightarrow> normalize_requested lc path
      | Some root \<Rightarrow>
          (case normalize_requested_inner lc path AllowAlias of
             None \<Rightarrow> None
           | Some normalized \<Rightarrow> map_option (\<lambda>_. normalized) (root_relative_path lc path root)))"

section \<open>Soundness of the scope\<close>

text \<open>A component no Windows path rule reads as anything but a plain name below its parent.\<close>

definition plain_component :: "string \<Rightarrow> bool" where
  "plain_component c \<longleftrightarrow> c \<noteq> [] \<and> c \<noteq> ''.'' \<and> c \<noteq> ''..'' \<and> bsl \<notin> set c \<and> \<not> ambiguous_component c"

lemma walk_components_plain:
  assumes "walk_components policy rest stack = Some out" "\<forall>c \<in> set rest. bsl \<notin> set c" "\<forall>c \<in> set stack. plain_component c"
  shows "\<forall>c \<in> set out. plain_component c"
  using assms
proof (induction policy rest stack rule: walk_components.induct)
  case (2 policy seg rest stack)
  have plain: "\<forall>c \<in> set rest. bsl \<notin> set c" "bsl \<notin> set seg" "\<forall>c \<in> set (butlast stack). plain_component c"
    using "2.prems"(2,3) by (auto dest: in_set_butlastD)
  consider (skip) "seg = [] \<or> seg = ''.''" | (up) "seg \<noteq> []" "seg \<noteq> ''.''" "seg = ''..''"
    | (push) "seg \<noteq> []" "seg \<noteq> ''.''" "seg \<noteq> ''..''" by blast
  then show ?case
  proof cases
    case skip
    with "2.prems"(1) have "walk_components policy rest stack = Some out" by simp
    with "2.IH"(1) skip plain(1) "2.prems"(3) show ?thesis by blast
  next
    case up
    with "2.prems"(1) have "stack \<noteq> []" "walk_components policy rest (butlast stack) = Some out"
      by (simp_all split: if_splits)
    with "2.IH"(2) up plain(1,3) show ?thesis by simp
  next
    case push
    with "2.prems"(1) have ok: "\<not> ambiguous_component seg" "\<not> (policy = RejectAlias \<and> is_short_name_alias_component seg)"
        "walk_components policy rest (stack @ [seg]) = Some out"
      by (simp_all split: if_splits)
    have "\<forall>c \<in> set (stack @ [seg]). plain_component c"
      using "2.prems"(3) push ok(1) plain(2) by (simp add: plain_component_def)
    with "2.IH"(3) push ok plain(1) show ?thesis by blast
  qed
qed simp

lemma normalized_shape:
  assumes "normalize_requested_inner lc path policy = Some norm"
  obtains d segs where "norm = d # CHR '':'' # bsl # join_with bsl segs" "is_ascii_alphabetic d" "\<forall>c \<in> set segs. plain_component c"
proof -
  let ?p = "lc (replace_char (CHR ''/'') bsl path)"
  obtain segs where p: "is_drive_absolute ?p" and w: "walk_components policy (split_on bsl (drop 3 ?p)) [] = Some segs"
      and n: "norm = take 2 ?p @ bsl # join_with bsl segs"
    using assms by (auto simp: normalize_requested_inner_def Let_def split: if_splits)
  have "take 2 ?p = [?p ! 0, CHR '':'']" "is_ascii_alphabetic (?p ! 0)"
    using p by (cases ?p; cases "tl ?p"; simp add: is_drive_absolute_def numeral_2_eq_2)+
  moreover have "\<forall>c \<in> set segs. plain_component c"
    by (rule walk_components_plain [OF w]) (auto dest: split_on_segments)
  ultimately show ?thesis using n that by simp
qed

text \<open>Re-reading a normalized path: its components are the drive and the stack.\<close>

lemma split_normalized:
  assumes "\<forall>c \<in> set segs. plain_component c" "d \<noteq> bsl"
  shows "split_on bsl (d # CHR '':'' # bsl # join_with bsl segs) = [d, CHR '':''] # (if segs = [] then [[]] else segs)"
  using assms by (auto simp: plain_component_def split_join)

lemma strip_root_Some: "strip_root root norm = Some rel \<longleftrightarrow> norm = root @ bsl # rel"
  by (auto simp: strip_root_def bind_eq_Some_conv strip_prefix_Some)

lemma under_root_components:
  assumes "\<forall>c \<in> set segs. plain_component c" "d \<noteq> bsl" "d # CHR '':'' # bsl # join_with bsl segs = root @ bsl # rel"
  shows "rel = [] \<and> segs = [] \<or> (\<forall>c \<in> set (split_on bsl rel). plain_component c)"
proof -
  define all where "all = (if segs = [] then [[]] else segs)"
  have "split_on bsl root @ split_on bsl rel = [d, CHR '':''] # all"
    unfolding all_def using split_normalized [OF assms(1,2)] assms(3) by (metis split_on_append)
  moreover obtain r rs where "split_on bsl root = r # rs" by (cases "split_on bsl root") auto
  ultimately have eq: "all = rs @ split_on bsl rel" by simp
  show ?thesis
  proof (cases "segs = []")
    case True
    with eq have "rs @ split_on bsl rel = [[]]" by (simp add: all_def)
    then have "split_on bsl rel = [[]]" by (cases rs) auto
    then have "join_with bsl (split_on bsl rel) = []" by simp
    with True show ?thesis by simp
  next
    case False
    then have "set (split_on bsl rel) \<subseteq> set segs" using eq by (simp add: all_def)
    with assms(1) show ?thesis by blast
  qed
qed

lemma in_scope_iff: "path_in_scope lc p (Some root) \<longleftrightarrow> root_relative_path lc p root \<noteq> None"
  by (auto simp: path_in_scope_def root_relative_path_def split: option.splits)

lemma alphabetic_not_bsl: "is_ascii_alphabetic d \<Longrightarrow> d \<noteq> bsl"
  by (auto simp: is_ascii_alphabetic_def is_ascii_upper_def is_ascii_lower_def)

lemma relative_components:
  assumes rel: "root_relative_path lc p root = Some rel"
  shows "\<exists>norm. normalize_requested_inner lc p AllowAlias = Some norm
        \<and> (norm = root \<and> rel = ''.'' \<or> norm = root @ bsl # rel
            \<and> (rel = [] \<or> (\<forall>c \<in> set (split_on bsl rel). plain_component c \<and> \<not> is_short_name_alias_component c)))"
proof -
  from rel obtain norm where n: "normalize_requested_inner lc p AllowAlias = Some norm"
    by (auto simp: root_relative_path_def split: option.splits)
  obtain d segs where shape: "norm = d # CHR '':'' # bsl # join_with bsl segs" "is_ascii_alphabetic d" "\<forall>c \<in> set segs. plain_component c"
    using normalized_shape [OF n] .
  show ?thesis
  proof (cases "norm = root")
    case True
    with rel n show ?thesis by (simp add: root_relative_path_def)
  next
    case False
    then have cut: "norm = root @ bsl # rel" "\<not> list_ex is_short_name_alias_component (split_on bsl rel)"
      using rel n by (auto simp: root_relative_path_def strip_root_Some split: option.splits if_splits)
    then have "rel = [] \<or> (\<forall>c \<in> set (split_on bsl rel). plain_component c)"
      using under_root_components [OF shape(3) alphabetic_not_bsl [OF shape(2)]] shape(1) by metis
    with n cut show ?thesis by (auto simp: list_ex_iff)
  qed
qed

lemma walk_plain: "\<forall>c \<in> set segs. plain_component c \<Longrightarrow> walk_components AllowAlias segs stack = Some (stack @ segs)"
  by (induction segs arbitrary: stack) (simp_all add: plain_component_def)

lemma join_with_append: "xs \<noteq> [] \<Longrightarrow> ys \<noteq> [] \<Longrightarrow> join_with c (xs @ ys) = join_with c xs @ c # join_with c ys"
  by (induction c xs rule: join_with.induct) (auto simp: neq_Nil_conv)

lemma plain_in_scope:
  assumes low: "lc (replace_char (CHR ''/'') bsl p) = d # CHR '':'' # bsl # join_with bsl (xs @ ys)" "is_ascii_alphabetic d"
    and ne: "xs \<noteq> []" "ys \<noteq> []" and plain: "\<forall>c \<in> set (xs @ ys). plain_component c"
    and names: "\<forall>c \<in> set ys. \<not> is_short_name_alias_component c"
  shows "root_relative_path lc p (d # CHR '':'' # bsl # join_with bsl xs) = Some (join_with bsl ys)"
proof -
  have split: "split_on bsl (join_with bsl (xs @ ys)) = xs @ ys"
    by (rule split_join) (use ne plain in \<open>simp_all add: plain_component_def\<close>)
  have split_ys: "split_on bsl (join_with bsl ys) = ys"
    by (rule split_join) (use ne plain in \<open>simp_all add: plain_component_def\<close>)
  let ?root = "d # CHR '':'' # bsl # join_with bsl xs"
  have norm: "normalize_requested_inner lc p AllowAlias = Some (?root @ bsl # join_with bsl ys)"
    using low split walk_plain [OF plain, of "[]"] ne
    by (simp add: normalize_requested_inner_def is_drive_absolute_def Let_def numeral_2_eq_2 numeral_3_eq_3 join_with_append)
  have "strip_root ?root (?root @ bsl # join_with bsl ys) = Some (join_with bsl ys)" by (simp only: strip_root_Some)
  moreover have "?root @ bsl # join_with bsl ys \<noteq> ?root" by (simp only: append_self_conv) simp
  moreover have "\<not> list_ex is_short_name_alias_component (split_on bsl (join_with bsl ys))"
    using names split_ys by (simp add: list_ex_iff)
  ultimately show ?thesis unfolding root_relative_path_def norm by (simp only: option.case if_False)
qed


definition demo_path :: string where "demo_path = ''c:'' @ bsl # ''a'' @ bsl # ''b''"
definition demo_root :: string where "demo_root = ''c:'' @ bsl # ''a''"

lemma demo_plain: "plain_component ''a''" "plain_component ''b''" "\<not> is_short_name_alias_component ''b''"
  by (simp_all add: plain_component_def ambiguous_component_def ends_with_def suffix_def to_ascii_uppercase_def
      upper_char_def is_ascii_lower_def Let_def is_short_name_alias_component_def)

lemma demo_relative: "root_relative_path id demo_path demo_root = Some ''b''"
  using plain_in_scope [of id demo_path "CHR ''c''" "[''a'']" "[''b'']"] demo_plain
  by (simp add: demo_path_def demo_root_def replace_char_def is_ascii_alphabetic_def is_ascii_lower_def)


end
