(* ===== verification/Capability.thy ===== *)
theory Capability
  imports Cas_Digest "HOL-Library.Product_Lexorder"
begin

text \<open>
  Cluster authentication and signed action capabilities: the shared-token check of
  \<open>src/crates/proto/src/lib.rs\<close> (module \<open>auth\<close>), the capability format of
  \<open>src/crates/proto/src/capability.rs\<close>, how the scheduler mints one
  (\<open>src/crates/agent/src/scheduler.rs\<close>) and how the worker checks it
  (\<open>src/crates/worker/src/lib.rs\<close>). BLAKE3 and its keyed and key-derivation modes are a
  third-party crate and stay parameters.
\<close>

section \<open>The shared token\<close>

definition token_eq :: "string \<Rightarrow> string \<Rightarrow> bool" where
  "token_eq a b =
     (if length (as_bytes a) \<noteq> length (as_bytes b) then False
      else fold (\<lambda>(x, y) diff. diff OR (x XOR y)) (zip (as_bytes a) (as_bytes b)) (0 :: u8) = 0)"

definition auth_check :: "string option \<Rightarrow> string \<Rightarrow> string + unit" where
  "auth_check expected presented =
     (case expected of
        None \<Rightarrow> Inr ()
      | Some exp \<Rightarrow>
          if presented = [] then Inl ''missing cluster auth token''
          else if token_eq exp presented then Inr ()
          else Inl ''invalid cluster auth token'')"

section \<open>Capabilities\<close>

definition CAPABILITY_VERSION :: u8 where "CAPABILITY_VERSION = 1"
definition CAPABILITY_TTL_SECS :: u64 where "CAPABILITY_TTL_SECS = 300"
definition CAP_MAGIC :: bytes where "CAP_MAGIC = as_bytes ''SBZC''"
definition CLOCK_SKEW_SECS :: nat where "CLOCK_SKEW_SECS = 60"
definition COMMAND_DIGEST_DOMAIN :: bytes where "COMMAND_DIGEST_DOMAIN = as_bytes ''sembazuru command-digest v1''"
definition VFS_DIGEST_DOMAIN :: bytes where "VFS_DIGEST_DOMAIN = as_bytes ''sembazuru vfs-execution v1''"

record action_capability =
  ca_version :: u8
  ca_worker_id :: string
  ca_action_id :: string
  ca_session_id :: string
  ca_command_digest :: bytes
  ca_vfs_digest :: bytes
  ca_issued_at :: u64
  ca_expires_at :: u64
  ca_nonce :: bytes

datatype cap_error = CapTooShort | CapBadMac | CapBadMagic | CapBadVersion | CapTruncated | CapExpired | CapNotYetValid

primrec cap_error_reason :: "cap_error \<Rightarrow> string" where
  "cap_error_reason CapTooShort = ''capability too short''"
| "cap_error_reason CapBadMac = ''capability signature invalid''"
| "cap_error_reason CapBadMagic = ''capability magic invalid''"
| "cap_error_reason CapBadVersion = ''capability version invalid''"
| "cap_error_reason CapTruncated = ''capability truncated''"
| "cap_error_reason CapExpired = ''capability expired''"
| "cap_error_reason CapNotYetValid = ''capability not yet valid''"

text \<open>The messages of the generated protocol types that a capability binds.\<close>

record command =
  cmd_argv :: "string list"
  cmd_env :: "(string \<times> string) list"
  cmd_cwd :: string

record vfs_execution =
  vx_agent_fileserver :: string
  vx_vfs_root :: string
  vx_trace_dir :: string
  vx_strict :: bool
  vx_allow_original_cwd :: bool

text \<open>
  A length above \<open>u32\<close> makes the \<open>expect\<close> of the source panic; \<open>None\<close> is that panic, and a
  sequence of fields is written only when none of them panics.
\<close>

definition hash_count :: "nat \<Rightarrow> bytes option" where
  "hash_count len = (if len < 2 ^ 32 then Some (u32_to_le (word_of_nat len)) else None)"

definition append_len_prefixed :: "bytes \<Rightarrow> bytes option" where
  "append_len_prefixed bs = map_option (\<lambda>n. n @ bs) (hash_count (length bs))"

fun all_fields :: "bytes option list \<Rightarrow> bytes option" where
  "all_fields [] = Some []"
| "all_fields (f # fs) =
     (case f of None \<Rightarrow> None | Some b \<Rightarrow> (case all_fields fs of None \<Rightarrow> None | Some bs \<Rightarrow> Some (b @ bs)))"

definition command_fields :: "command \<Rightarrow> bytes option list" where
  "command_fields cmd =
     [Some COMMAND_DIGEST_DOMAIN, hash_count (length (cmd_argv cmd))]
     @ map (\<lambda>arg. append_len_prefixed (as_bytes arg)) (cmd_argv cmd)
     @ [hash_count (length (cmd_env cmd))]
     @ concat (map (\<lambda>(k, v). [append_len_prefixed (as_bytes k), append_len_prefixed (as_bytes v)])
         (sort_key fst (cmd_env cmd)))
     @ [append_len_prefixed (as_bytes (cmd_cwd cmd))]"

definition command_digest :: "hash_fn \<Rightarrow> command \<Rightarrow> bytes option" where
  "command_digest blake3 cmd = map_option blake3 (all_fields (command_fields cmd))"

definition bool_byte :: "bool \<Rightarrow> u8" where "bool_byte b = (if b then 1 else 0)"

definition vfs_fields :: "vfs_execution option \<Rightarrow> bytes option list" where
  "vfs_fields vfs = Some VFS_DIGEST_DOMAIN #
     (case vfs of
        None \<Rightarrow> [Some [0]]
      | Some v \<Rightarrow> [Some [1], append_len_prefixed (as_bytes (vx_agent_fileserver v)),
          append_len_prefixed (as_bytes (vx_vfs_root v)), append_len_prefixed (as_bytes (vx_trace_dir v)),
          Some [bool_byte (vx_strict v)], Some [bool_byte (vx_allow_original_cwd v)]])"

definition vfs_digest :: "hash_fn \<Rightarrow> vfs_execution option \<Rightarrow> bytes option" where
  "vfs_digest blake3 vfs = map_option blake3 (all_fields (vfs_fields vfs))"

definition signing_bytes :: "action_capability \<Rightarrow> bytes option" where
  "signing_bytes cap = all_fields
     [Some CAP_MAGIC, Some [ca_version cap], append_len_prefixed (as_bytes (ca_worker_id cap)),
      append_len_prefixed (as_bytes (ca_action_id cap)), append_len_prefixed (as_bytes (ca_session_id cap)),
      Some (ca_vfs_digest cap), Some (ca_command_digest cap), Some (u64_to_le (ca_issued_at cap)),
      Some (u64_to_le (ca_expires_at cap)), Some (ca_nonce cap)]"

type_synonym mac_fn = "bytes \<Rightarrow> bytes \<Rightarrow> bytes"

definition capability_encode :: "mac_fn \<Rightarrow> bytes \<Rightarrow> action_capability \<Rightarrow> bytes option" where
  "capability_encode keyed_hash key cap = map_option (\<lambda>body. body @ keyed_hash key body) (signing_bytes cap)"

type_synonym 'a cap_reader = "(cursor, cap_error, 'a) sm"

definition c_bytes :: "nat \<Rightarrow> bytes cap_reader" where
  "c_bytes n = (\<lambda>r.
     case checked_add_usize (cpos r) n of
       None \<Rightarrow> (Inl CapTruncated, r)
     | Some end \<Rightarrow>
         (case get_range (cbuf r) (cpos r) end of
            None \<Rightarrow> (Inl CapTruncated, r)
          | Some sl \<Rightarrow> (Inr sl, r\<lparr>cpos := end\<rparr>)))"

definition c_byte :: "u8 cap_reader" where
  "c_byte = sm_bind (c_bytes 1) (\<lambda>b. sm_ret (b ! 0))"

definition c_u32 :: "u32 cap_reader" where
  "c_u32 = sm_bind (c_bytes 4) (\<lambda>b. sm_ret (u32_from_le b))"

definition c_u64 :: "u64 cap_reader" where
  "c_u64 = sm_bind (c_bytes 8) (\<lambda>b. sm_ret (u64_from_le b))"

definition c_string :: "string cap_reader" where
  "c_string = sm_bind c_u32 (\<lambda>len. sm_bind (c_bytes (unat len)) (\<lambda>b.
     case from_utf8 b of None \<Rightarrow> sm_err CapTruncated | Some s \<Rightarrow> sm_ret s))"

definition cap_fields :: "u8 \<Rightarrow> action_capability cap_reader" where
  "cap_fields version =
     sm_bind c_string (\<lambda>worker_id. sm_bind c_string (\<lambda>action_id. sm_bind c_string (\<lambda>session_id.
     sm_bind (c_bytes 32) (\<lambda>vfs_dg. sm_bind (c_bytes 32) (\<lambda>command_dg.
     sm_bind c_u64 (\<lambda>issued_at. sm_bind c_u64 (\<lambda>expires_at. sm_bind (c_bytes 16) (\<lambda>nonce.
     sm_ret \<lparr>ca_version = version, ca_worker_id = worker_id, ca_action_id = action_id, ca_session_id = session_id,
       ca_command_digest = command_dg, ca_vfs_digest = vfs_dg, ca_issued_at = issued_at,
       ca_expires_at = expires_at, ca_nonce = nonce\<rparr>))))))))"

definition cap_body :: "action_capability cap_reader" where
  "cap_body = sm_bind (c_bytes 4) (\<lambda>magic.
     if magic \<noteq> CAP_MAGIC then sm_err CapBadMagic
     else sm_bind c_byte (\<lambda>version.
       if version \<noteq> CAPABILITY_VERSION then sm_err CapBadVersion else cap_fields version))"

definition decode_and_verify :: "mac_fn \<Rightarrow> bytes \<Rightarrow> bytes \<Rightarrow> u64 \<Rightarrow> cap_error + action_capability" where
  "decode_and_verify keyed_hash bs key now =
     (if length bs < 32 then Inl CapTooShort
      else let body = take (length bs - 32) bs; mac = drop (length bs - 32) bs in
        if keyed_hash key body \<noteq> mac then Inl CapBadMac
        else case cap_body (cursor_new body) of
          (Inl e, _) \<Rightarrow> Inl e
        | (Inr cap, c) \<Rightarrow>
            if cpos c \<noteq> length body then Inl CapTruncated
            else if now > ca_expires_at cap then Inl CapExpired
            else if unat (ca_issued_at cap) > saturating_add (unat now) CLOCK_SKEW_SECS then Inl CapNotYetValid
            else Inr cap)"

section \<open>Minting and checking\<close>

type_synonym kdf = "string \<Rightarrow> bytes \<Rightarrow> bytes"

record crypto =
  cr_blake3 :: hash_fn
  cr_keyed_hash :: mac_fn
  cr_derive_key :: kdf

definition cap_key :: "crypto \<Rightarrow> string \<Rightarrow> bytes" where
  "cap_key cr cluster_token = cr_derive_key cr ''sembazuru action-capability v1'' (as_bytes cluster_token)"

text \<open>
  \<open>mint_action_capability\<close>: empty bytes when no token is configured; the outer \<open>None\<close> is a
  panic of one of the length checks.
\<close>

definition mint_action_capability ::
    "crypto \<Rightarrow> string option \<Rightarrow> string \<Rightarrow> command \<Rightarrow> string \<Rightarrow> string \<Rightarrow> vfs_execution option \<Rightarrow> u64 \<Rightarrow> bytes
     \<Rightarrow> bytes option" where
  "mint_action_capability cr cluster_token worker_id cmd action_id session_id vfs now nonce =
     (case cluster_token of
        None \<Rightarrow> Some []
      | Some token \<Rightarrow>
          (case (command_digest (cr_blake3 cr) cmd, vfs_digest (cr_blake3 cr) vfs) of
             (Some cd, Some vd) \<Rightarrow>
               capability_encode (cr_keyed_hash cr) (cap_key cr token)
                 \<lparr>ca_version = CAPABILITY_VERSION, ca_worker_id = worker_id, ca_action_id = action_id,
                  ca_session_id = session_id, ca_command_digest = cd, ca_vfs_digest = vd, ca_issued_at = now,
                  ca_expires_at = now + CAPABILITY_TTL_SECS, ca_nonce = nonce\<rparr>
           | _ \<Rightarrow> None))"

record worker_auth =
  wa_cluster_token :: "string option"
  wa_worker_id :: string

definition with_action_capability_auth :: "string option \<Rightarrow> string \<Rightarrow> worker_auth" where
  "with_action_capability_auth cluster_token worker_id =
     \<lparr>wa_cluster_token = (case cluster_token of Some t \<Rightarrow> if t = [] then None else Some t | None \<Rightarrow> None),
      wa_worker_id = worker_id\<rparr>"

text \<open>
  A request reaches the check through a transport that bounds its size far below the \<open>u32\<close>
  limit, so a digest that would panic is shown as a mismatch here. The current time is \<open>None\<close> when the system clock is before the epoch.
\<close>

definition verified_capability :: "crypto \<Rightarrow> string \<Rightarrow> bytes \<Rightarrow> u64 option \<Rightarrow> string + action_capability" where
  "verified_capability cr token action_cap now =
     (if action_cap = [] then Inl ''missing action capability''
      else case now of
        None \<Rightarrow> Inl ''capability time unavailable''
      | Some now \<Rightarrow>
          (case decode_and_verify (cr_keyed_hash cr) action_cap (cap_key cr token) now of
             Inl e \<Rightarrow> Inl (cap_error_reason e) | Inr cap \<Rightarrow> Inr cap))"

definition verify_execute_capability ::
    "crypto \<Rightarrow> worker_auth \<Rightarrow> bytes \<Rightarrow> string \<Rightarrow> string \<Rightarrow> command \<Rightarrow> vfs_execution option \<Rightarrow> u64 option
     \<Rightarrow> string + unit" where
  "verify_execute_capability cr w action_cap action_id session_id cmd vfs now =
     (case wa_cluster_token w of
        None \<Rightarrow> Inr ()
      | Some token \<Rightarrow>
          (case verified_capability cr token action_cap now of
             Inl e \<Rightarrow> Inl e
           | Inr cap \<Rightarrow>
               if ca_worker_id cap \<noteq> wa_worker_id w then Inl ''capability not for this worker''
               else if ca_action_id cap \<noteq> action_id then Inl ''action id mismatch''
               else if ca_session_id cap \<noteq> session_id then Inl ''session id mismatch''
               else if command_digest (cr_blake3 cr) cmd \<noteq> Some (ca_command_digest cap) then Inl ''command mismatch''
               else if vfs_digest (cr_blake3 cr) vfs \<noteq> Some (ca_vfs_digest cap) then Inl ''vfs mismatch''
               else Inr ()))"

definition verify_abort_capability ::
    "crypto \<Rightarrow> worker_auth \<Rightarrow> bytes \<Rightarrow> string \<Rightarrow> u64 option \<Rightarrow> string + unit" where
  "verify_abort_capability cr w action_cap action_id now =
     (case wa_cluster_token w of
        None \<Rightarrow> Inr ()
      | Some token \<Rightarrow>
          (case verified_capability cr token action_cap now of
             Inl e \<Rightarrow> Inl e
           | Inr cap \<Rightarrow>
               if ca_worker_id cap \<noteq> wa_worker_id w then Inl ''capability not for this worker''
               else if ca_action_id cap \<noteq> action_id then Inl ''action id mismatch''
               else Inr ()))"

section \<open>The token check is equality\<close>

lemma xor_zero: "(x :: u8) XOR y = 0 \<longleftrightarrow> x = y"
  by (auto simp: bit_eq_iff bit_simps)

lemma or_zero: "(x :: u8) OR y = 0 \<longleftrightarrow> x = 0 \<and> y = 0"
  by (auto simp: bit_eq_iff bit_simps)

lemma diff_fold:
  "fold (\<lambda>(x, y) d. d OR (x XOR y)) ps (d :: u8) = 0 \<longleftrightarrow> d = 0 \<and> (\<forall>(x, y) \<in> set ps. x = y)"
  by (induction ps arbitrary: d) (auto simp: or_zero xor_zero)

lemma zip_all_eq: "length xs = length ys \<Longrightarrow> (\<forall>(x, y) \<in> set (zip xs ys). x = y) \<longleftrightarrow> xs = ys"
  by (induction xs ys rule: list_induct2) auto

lemma token_eq_iff: "token_eq a b \<longleftrightarrow> a = b"
  using zip_all_eq [of "as_bytes a" "as_bytes b"] by (auto simp: token_eq_def diff_fold)

text \<open>
  The token check is exactly string equality, with an empty presented token refused
  whenever a token is configured: the constant-time comparison neither accepts a different
  token nor rejects the right one.
\<close>
theorem auth_check_exact:
  "auth_check expected presented = Inr () \<longleftrightarrow> expected = None \<or> (presented \<noteq> [] \<and> expected = Some presented)"
  by (auto simp: auth_check_def token_eq_iff split: option.splits)

section \<open>The format is canonical\<close>

definition lp :: "string \<Rightarrow> bytes" where
  "lp s = u32_to_le (word_of_nat (length s)) @ as_bytes s"

definition id_ok :: "string \<Rightarrow> bool" where
  "id_ok s \<longleftrightarrow> utf8_str s \<and> length s < 2 ^ 32"

definition cap_ok :: "action_capability \<Rightarrow> bool" where
  "cap_ok cap \<longleftrightarrow> ca_version cap = CAPABILITY_VERSION
     \<and> id_ok (ca_worker_id cap) \<and> id_ok (ca_action_id cap) \<and> id_ok (ca_session_id cap)
     \<and> length (ca_vfs_digest cap) = 32 \<and> length (ca_command_digest cap) = 32 \<and> length (ca_nonce cap) = 16"

definition cap_tail :: "action_capability \<Rightarrow> bytes" where
  "cap_tail cap = lp (ca_worker_id cap) @ lp (ca_action_id cap) @ lp (ca_session_id cap) @ ca_vfs_digest cap
     @ ca_command_digest cap @ u64_to_le (ca_issued_at cap) @ u64_to_le (ca_expires_at cap) @ ca_nonce cap"

definition cap_bytes :: "action_capability \<Rightarrow> bytes" where
  "cap_bytes cap = CAP_MAGIC @ [ca_version cap] @ cap_tail cap"

lemma append_len_prefixed_lp:
  "append_len_prefixed (as_bytes s) = (if length s < 2 ^ 32 then Some (lp s) else None)"
  by (simp add: append_len_prefixed_def hash_count_def lp_def)

lemma signing_bytes_Some:
  "signing_bytes cap = Some b \<longleftrightarrow> length (ca_worker_id cap) < 2 ^ 32 \<and> length (ca_action_id cap) < 2 ^ 32
     \<and> length (ca_session_id cap) < 2 ^ 32 \<and> b = cap_bytes cap"
  by (auto simp: signing_bytes_def append_len_prefixed_lp cap_bytes_def cap_tail_def split: option.splits)

lemma reads_c_bytes: "length bs = n \<Longrightarrow> reads (c_bytes n) bs bs"
  by (rule readsI) (auto simp: c_bytes_def checked_add_usize_def)

lemma reads_c_byte: "reads c_byte [v] v"
  unfolding c_byte_def by (rule reads_bind_last [OF reads_c_bytes]) (auto intro: reads_ret)

lemma reads_c_u32: "reads c_u32 (u32_to_le v) v"
  unfolding c_u32_def using reads_bind_last [OF reads_c_bytes reads_ret, of "u32_to_le v" 4 u32_from_le] by simp

lemma reads_c_u64: "reads c_u64 (u64_to_le v) v"
  unfolding c_u64_def using reads_bind_last [OF reads_c_bytes reads_ret, of "u64_to_le v" 8 u64_from_le] by simp

lemma reads_c_string: "id_ok s \<Longrightarrow> reads c_string (lp s) s"
  unfolding c_string_def lp_def
proof (rule reads_bind [OF reads_c_u32])
  assume s: "id_ok s"
  have "reads (case from_utf8 (as_bytes s) of None \<Rightarrow> sm_err CapTruncated | Some s \<Rightarrow> sm_ret s) [] s"
    using s by (simp add: id_ok_def reads_ret)
  then show "reads (sm_bind (c_bytes (unat (word_of_nat (length s) :: u32)))
      (\<lambda>b. case from_utf8 b of None \<Rightarrow> sm_err CapTruncated | Some s \<Rightarrow> sm_ret s)) (as_bytes s) s"
    using s by (intro reads_bind_last [OF reads_c_bytes]) (simp_all add: id_ok_def unat_word32_of_nat)
qed

lemma consumes_c_bytes: "consumes (c_bytes n) (\<lambda>bs. bs) (\<lambda>bs. length bs = n)"
  by (auto simp: consumes_def c_bytes_def checked_add_usize_def get_range_def split: option.splits if_splits)

lemma consumes_c_byte: "consumes c_byte (\<lambda>v. [v]) (\<lambda>_. True)"
  unfolding c_byte_def by (rule consumes_bind [OF consumes_c_bytes consumes_ret]) (auto simp: length_Suc_conv)

lemma consumes_c_u32: "consumes c_u32 u32_to_le (\<lambda>_. True)"
  unfolding c_u32_def by (rule consumes_bind [OF consumes_c_bytes consumes_ret]) (auto simp: u32_to_from_le)

lemma consumes_c_u64: "consumes c_u64 u64_to_le (\<lambda>_. True)"
  unfolding c_u64_def by (rule consumes_bind [OF consumes_c_bytes consumes_ret]) (auto simp: u64_to_from_le)

lemma consumes_c_string: "consumes c_string lp id_ok"
  unfolding c_string_def
proof (rule consumes_bind [OF consumes_c_u32])
  fix n :: u32
  show "consumes (sm_bind (c_bytes (unat n)) (\<lambda>b. case from_utf8 b of None \<Rightarrow> sm_err CapTruncated | Some s \<Rightarrow> sm_ret s))
      as_bytes (\<lambda>s. utf8_str s \<and> length s = unat n)"
  proof (rule consumes_bind [OF consumes_c_bytes])
    fix b :: bytes
    show "consumes (case from_utf8 b of None \<Rightarrow> sm_err CapTruncated | Some s \<Rightarrow> sm_ret s) (\<lambda>_. []) (\<lambda>s. from_utf8 b = Some s)"
      by (auto simp: consumes_err split: option.splits intro: consumes_weaken [OF consumes_ret])
  qed (auto simp: from_utf8_Some)
next
  fix n :: u32 and s
  assume "utf8_str s \<and> length s = unat n"
  then show "id_ok s \<and> lp s = u32_to_le n @ as_bytes s"
    using unsigned_less [of n] by (simp add: id_ok_def lp_def)
qed

interpretation cap_string: canonical_codec lp c_string id_ok
  by unfold_locales (rule reads_c_string, assumption, rule consumes_c_string)

lemma reads_cap_body: "cap_ok cap \<Longrightarrow> reads cap_body (cap_bytes cap) cap"
proof -
  assume ok: "cap_ok cap"
  have "reads (cap_fields (ca_version cap)) (cap_tail cap) cap"
    unfolding cap_fields_def cap_tail_def using ok
    by (intro reads_bind [OF cap_string.reads_enc] reads_bind [OF reads_c_bytes] reads_bind [OF reads_c_u64]
        reads_bind_last [OF reads_c_bytes] reads_ret_eq) (simp_all add: cap_ok_def)
  then show ?thesis unfolding cap_body_def cap_bytes_def using ok
    by (intro reads_bind [OF reads_c_bytes]) (auto simp: CAP_MAGIC_def cap_ok_def intro!: reads_bind [OF reads_c_byte, simplified])
qed

lemma consumes_cap_fields:
  "consumes (cap_fields v) (\<lambda>b. cap_tail b @ [])
     (\<lambda>b. ca_version b = v \<and> id_ok (ca_worker_id b) \<and> id_ok (ca_action_id b) \<and> id_ok (ca_session_id b)
        \<and> length (ca_vfs_digest b) = 32 \<and> length (ca_command_digest b) = 32 \<and> True \<and> True \<and> length (ca_nonce b) = 16 \<and> True)"
  unfolding cap_fields_def cap_tail_def append_assoc
  by (rule consumes_field [where sel = ca_worker_id, OF consumes_c_string],
      rule consumes_field [where sel = ca_action_id, OF consumes_c_string],
      rule consumes_field [where sel = ca_session_id, OF consumes_c_string],
      rule consumes_field [where sel = ca_vfs_digest, OF consumes_c_bytes],
      rule consumes_field [where sel = ca_command_digest, OF consumes_c_bytes],
      rule consumes_field [where sel = ca_issued_at, OF consumes_c_u64],
      rule consumes_field [where sel = ca_expires_at, OF consumes_c_u64],
      rule consumes_field [where sel = ca_nonce, OF consumes_c_bytes], rule consumes_record_end) simp

lemma consumes_cap_body: "consumes cap_body cap_bytes cap_ok"
  unfolding cap_body_def
proof (rule consumes_bind [OF consumes_c_bytes])
  fix magic :: bytes
  have "consumes (sm_bind c_byte (\<lambda>v. if v \<noteq> CAPABILITY_VERSION then sm_err CapBadVersion else cap_fields v))
      (\<lambda>b. [ca_version b] @ cap_tail b) cap_ok"
  proof (rule consumes_bind [OF consumes_c_byte])
    fix v
    show "consumes (if v \<noteq> CAPABILITY_VERSION then sm_err CapBadVersion else cap_fields v) cap_tail
        (\<lambda>b. ca_version b = v \<and> cap_ok b)"
      by (auto simp: consumes_err cap_ok_def intro: consumes_weaken [OF consumes_cap_fields])
  qed auto
  then show "consumes (if magic \<noteq> CAP_MAGIC then sm_err CapBadMagic
      else sm_bind c_byte (\<lambda>v. if v \<noteq> CAPABILITY_VERSION then sm_err CapBadVersion else cap_fields v))
      (\<lambda>b. [ca_version b] @ cap_tail b) (\<lambda>b. magic = CAP_MAGIC \<and> cap_ok b)"
    by (auto simp: consumes_err intro: consumes_weaken)
qed (auto simp: cap_bytes_def)

definition mac_output :: "mac_fn \<Rightarrow> bool" where
  "mac_output keyed_hash \<longleftrightarrow> (\<forall>key bs. length (keyed_hash key bs) = 32)"

definition cap_in_time :: "action_capability \<Rightarrow> u64 \<Rightarrow> bool" where
  "cap_in_time cap now \<longleftrightarrow> now \<le> ca_expires_at cap
     \<and> unat (ca_issued_at cap) \<le> saturating_add (unat now) CLOCK_SKEW_SECS"

lemma cap_ok_encode: "cap_ok cap \<Longrightarrow> capability_encode mac key cap = Some (cap_bytes cap @ mac key (cap_bytes cap))"
proof -
  assume "cap_ok cap"
  then have "signing_bytes cap = Some (cap_bytes cap)" by (simp add: signing_bytes_Some cap_ok_def id_ok_def)
  then show ?thesis by (simp add: capability_encode_def)
qed

lemma decode_and_verify_iff:
  assumes mac: "mac_output mac" and len: "length bs < usize_bound"
  shows "decode_and_verify mac bs key now = Inr cap \<longleftrightarrow>
    cap_ok cap \<and> cap_in_time cap now \<and> capability_encode mac key cap = Some bs"
proof
  define body where "body = take (length bs - 32) bs"
  assume d: "decode_and_verify mac bs key now = Inr cap"
  then obtain c where b: "length bs \<ge> 32" "mac key body = drop (length bs - 32) bs" "cap_body (cursor_new body) = (Inr cap, c)"
      "cpos c = length body" and t: "cap_in_time cap now"
    unfolding decode_and_verify_def body_def [symmetric] Let_def
    by (auto simp: cap_in_time_def split: if_splits prod.splits sum.splits)
  have ok: "cap_ok cap" and e: "cap_bytes cap = body" using consumes_whole [OF consumes_cap_body b(3,4)] by auto
  have "bs = body @ drop (length bs - 32) bs" by (simp add: body_def)
  then show "cap_ok cap \<and> cap_in_time cap now \<and> capability_encode mac key cap = Some bs"
    using ok t cap_ok_encode [OF ok] b(2) e by metis
next
  assume a: "cap_ok cap \<and> cap_in_time cap now \<and> capability_encode mac key cap = Some bs"
  then have bs: "bs = cap_bytes cap @ mac key (cap_bytes cap)" using cap_ok_encode by auto
  have l: "length (mac key (cap_bytes cap)) = 32" using mac by (simp add: mac_output_def)
  then have parts: "take (length bs - 32) bs = cap_bytes cap" "drop (length bs - 32) bs = mac key (cap_bytes cap)" "32 \<le> length bs"
    by (simp_all add: bs)
  have "cap_body (cursor_new (cap_bytes cap)) = (Inr cap, \<lparr>cbuf = cap_bytes cap, cpos = length (cap_bytes cap)\<rparr>)"
    using a len bs by (intro reads_whole [OF reads_cap_body]) auto
  then show "decode_and_verify mac bs key now = Inr cap"
    using a parts by (auto simp: decode_and_verify_def Let_def cap_in_time_def not_less)
qed

text \<open>
  C26. The capability format is exact: the decoder accepts a byte string at a given time
  precisely when it is the signed encoding, under the same key, of a well-formed version-1
  capability whose window contains that time (up to the allowed clock skew). In particular
  the capability it returns is the one that was signed, and nothing may follow it.
\<close>
theorem capability_exact:
  assumes "mac_output mac" and "length bs < usize_bound"
  shows "decode_and_verify mac bs key now = Inr cap \<longleftrightarrow>
    cap_ok cap \<and> cap_in_time cap now \<and> capability_encode mac key cap = Some bs"
  by (rule decode_and_verify_iff [OF assms])

definition toy_mac :: mac_fn where "toy_mac key bs = replicate 32 7"

definition demo_cap :: action_capability where
  "demo_cap = \<lparr>ca_version = 1, ca_worker_id = ''w'', ca_action_id = ''a'', ca_session_id = [],
     ca_command_digest = replicate 32 1, ca_vfs_digest = replicate 32 2, ca_issued_at = 1000, ca_expires_at = 1300,
     ca_nonce = replicate 16 9\<rparr>"

lemma toy_mac_output: "mac_output toy_mac"
  by (simp add: mac_output_def toy_mac_def)

lemma demo_cap_ok: "cap_ok demo_cap"
proof -
  have "utf8_str ''w''" "utf8_str ''a''" unfolding utf8_str_def by code_simp+
  then show ?thesis by (simp add: cap_ok_def demo_cap_def id_ok_def CAPABILITY_VERSION_def)
qed

theorem capability_exact_witness:
  "decode_and_verify toy_mac (cap_bytes demo_cap @ toy_mac [] (cap_bytes demo_cap)) [] 1100 = Inr demo_cap"
proof -
  have "length (cap_bytes demo_cap @ toy_mac [] (cap_bytes demo_cap)) < usize_bound"
    by (simp add: cap_bytes_def cap_tail_def demo_cap_def lp_def CAP_MAGIC_def toy_mac_def usize_bound_def)
  from capability_exact [OF toy_mac_output this, of "[]" 1100 demo_cap] show ?thesis
    using demo_cap_ok cap_ok_encode [OF demo_cap_ok]
    by (simp add: cap_in_time_def saturating_add_def u64_max_def CLOCK_SKEW_SECS_def) (simp add: demo_cap_def)
qed

section \<open>A minted capability binds one request\<close>

lemma all_fields_eq: "all_fields fs = (if None \<in> set fs then None else Some (concat (map the fs)))"
  by (induction fs) (auto split: option.splits)

lemma all_fields_Some: "all_fields fs = Some b \<longleftrightarrow> None \<notin> set fs \<and> b = concat (map the fs)"
  by (auto simp: all_fields_eq)

lemma u32_le_inj: "m < 2 ^ 32 \<Longrightarrow> n < 2 ^ 32 \<Longrightarrow> u32_to_le (word_of_nat m) = u32_to_le (word_of_nat n) \<longleftrightarrow> m = n"
  by (metis u32_from_to_le unat_word32_of_nat)

lemma lp_append:
  assumes "length a < 2 ^ 32" "length b < 2 ^ 32"
  shows "lp a @ x = lp b @ y \<longleftrightarrow> a = b \<and> x = y"
proof
  assume "lp a @ x = lp b @ y"
  then have "u32_to_le (word_of_nat (length a)) = u32_to_le (word_of_nat (length b))" "as_bytes a @ x = as_bytes b @ y"
    by (simp_all add: lp_def)
  then have "length a = length b" "as_bytes a @ x = as_bytes b @ y" using u32_le_inj [OF assms] by simp_all
  then show "a = b \<and> x = y" using append_eq_append_conv [of "as_bytes a" "as_bytes b" x y] by simp
qed simp

lemma lp_eq: "length a < 2 ^ 32 \<Longrightarrow> length b < 2 ^ 32 \<Longrightarrow> lp a = lp b \<longleftrightarrow> a = b"
  using lp_append [of a b "[]" "[]"] by (simp only: append_Nil2) simp

lemma lps_append:
  assumes "length as = length bs" "\<forall>a \<in> set as. length a < 2 ^ 32" "\<forall>b \<in> set bs. length b < 2 ^ 32"
  shows "concat (map lp as) @ x = concat (map lp bs) @ y \<longleftrightarrow> as = bs \<and> x = y"
  using assms by (induction as bs rule: list_induct2) (auto simp: lp_append)

definition short_strings :: "command \<Rightarrow> bool" where
  "short_strings cmd \<longleftrightarrow> length (cmd_argv cmd) < 2 ^ 32 \<and> (\<forall>a \<in> set (cmd_argv cmd). length a < 2 ^ 32)
     \<and> length (cmd_env cmd) < 2 ^ 32 \<and> (\<forall>(k, v) \<in> set (cmd_env cmd). length k < 2 ^ 32 \<and> length v < 2 ^ 32)
     \<and> length (cmd_cwd cmd) < 2 ^ 32"

definition env_strings :: "command \<Rightarrow> string list" where
  "env_strings cmd = concat (map (\<lambda>(k, v). [k, v]) (sort_key fst (cmd_env cmd)))"

definition command_blob :: "command \<Rightarrow> bytes" where
  "command_blob cmd = COMMAND_DIGEST_DOMAIN @ u32_to_le (word_of_nat (length (cmd_argv cmd))) @ concat (map lp (cmd_argv cmd))
     @ u32_to_le (word_of_nat (length (cmd_env cmd))) @ concat (map lp (env_strings cmd)) @ lp (cmd_cwd cmd)"

lemma concat_pair_map: "concat (map (\<lambda>(k, v). [f k, f v]) es) = map f (concat (map (\<lambda>(k, v). [k, v]) es))"
  by (induction es) auto

lemma env_strings_set: "set (env_strings cmd) = fst ` set (cmd_env cmd) \<union> snd ` set (cmd_env cmd)"
  by (auto simp: env_strings_def) force+

lemma env_strings_inj: "env_strings a = env_strings b \<Longrightarrow> sort_key fst (cmd_env a) = sort_key fst (cmd_env b)"
proof -
  have "concat (map (\<lambda>(k, v). [k, v]) xs) = concat (map (\<lambda>(k, v). [k, v]) ys) \<Longrightarrow> xs = ys" for xs ys :: "(string \<times> string) list"
  proof (induction xs arbitrary: ys)
    case Nil
    then show ?case by (cases ys) auto
  next
    case (Cons x xs)
    then show ?case by (cases ys) (auto split: prod.splits)
  qed
  then show "env_strings a = env_strings b \<Longrightarrow> ?thesis" by (simp add: env_strings_def)
qed

lemma length_env_strings: "length (env_strings cmd) = 2 * length (cmd_env cmd)"
proof -
  have "length (concat (map (\<lambda>(k, v). [k, v]) es)) = 2 * length es" for es :: "(string \<times> string) list"
    by (induction es) auto
  then show ?thesis by (simp add: env_strings_def)
qed

lemma command_fields_Some: "all_fields (command_fields cmd) = Some b \<longleftrightarrow> short_strings cmd \<and> b = command_blob cmd"
proof -
  have fields: "command_fields cmd = [Some COMMAND_DIGEST_DOMAIN, hash_count (length (cmd_argv cmd))]
     @ map (\<lambda>s. append_len_prefixed (as_bytes s)) (cmd_argv cmd) @ [hash_count (length (cmd_env cmd))]
     @ map (\<lambda>s. append_len_prefixed (as_bytes s)) (env_strings cmd) @ [append_len_prefixed (as_bytes (cmd_cwd cmd))]"
    unfolding command_fields_def env_strings_def concat_pair_map [of "\<lambda>s. append_len_prefixed (as_bytes s)", symmetric] ..
  have lens: "(\<forall>s \<in> set (env_strings cmd). length s < 2 ^ 32)
      \<longleftrightarrow> (\<forall>(k, v) \<in> set (cmd_env cmd). length k < 2 ^ 32 \<and> length v < 2 ^ 32)"
    by (simp add: env_strings_set ball_Un case_prod_beta) blast
  have al: "append_len_prefixed (as_bytes s) = Some (lp s)" if "length s < 2 ^ 32" for s
    using that by (simp add: append_len_prefixed_lp)
  have the: "map (the \<circ> (\<lambda>s. append_len_prefixed (as_bytes s))) xs = map lp xs"
    "None \<notin> (\<lambda>s. append_len_prefixed (as_bytes s)) ` set xs" if "\<forall>s \<in> set xs. length s < 2 ^ 32" for xs
    using that al by auto
  show ?thesis
  proof (cases "short_strings cmd")
    case True
    then have s: "\<forall>s \<in> set (env_strings cmd). length s < 2 ^ 32" "\<forall>s \<in> set (cmd_argv cmd). length s < 2 ^ 32"
      using lens by (auto simp: short_strings_def)
    show ?thesis unfolding fields all_fields_Some
      using True al [of "cmd_cwd cmd"]
      by (auto simp: the [OF s(1)] the [OF s(2)] hash_count_def command_blob_def short_strings_def)
  next
    case False
    then have "None \<in> set (command_fields cmd)"
      unfolding fields using lens
      by (auto simp: append_len_prefixed_lp hash_count_def short_strings_def image_iff)
    then show ?thesis using False by (simp add: all_fields_Some)
  qed
qed

lemma command_blob_inj:
  assumes "short_strings a" "short_strings b" "command_blob a = command_blob b"
  shows "cmd_argv a = cmd_argv b \<and> sort_key fst (cmd_env a) = sort_key fst (cmd_env b) \<and> cmd_cwd a = cmd_cwd b"
proof -
  have sa: "\<forall>s \<in> set (env_strings c). length s < 2 ^ 32" if "short_strings c" for c
    using that by (auto simp: env_strings_set short_strings_def)
  have n: "length (cmd_argv a) = length (cmd_argv b)"
    using assms u32_le_inj [of "length (cmd_argv a)" "length (cmd_argv b)"] by (simp add: command_blob_def short_strings_def)
  then have 1: "cmd_argv a = cmd_argv b" "u32_to_le (word_of_nat (length (cmd_env a))) @ concat (map lp (env_strings a)) @ lp (cmd_cwd a)
      = u32_to_le (word_of_nat (length (cmd_env b))) @ concat (map lp (env_strings b)) @ lp (cmd_cwd b)"
    using assms lps_append [OF n] by (simp_all add: command_blob_def short_strings_def)
  have k: "length (cmd_env a) = length (cmd_env b)"
    using assms 1(2) u32_le_inj [of "length (cmd_env a)" "length (cmd_env b)"] by (simp add: short_strings_def)
  then have "length (env_strings a) = length (env_strings b)" by (simp add: length_env_strings)
  then have "env_strings a = env_strings b" "lp (cmd_cwd a) @ [] = lp (cmd_cwd b) @ []"
    using 1(2) k lps_append [OF _ sa [OF assms(1)] sa [OF assms(2)], of "lp (cmd_cwd a)" "lp (cmd_cwd b)"] by simp_all
  moreover from this have "cmd_cwd a = cmd_cwd b"
    using lp_append [of "cmd_cwd a" "cmd_cwd b" "[]" "[]"] assms(1,2) unfolding short_strings_def by blast
  ultimately show ?thesis using 1(1) env_strings_inj [of a b] by blast
qed

definition short_vfs :: "vfs_execution option \<Rightarrow> bool" where
  "short_vfs vfs = (case vfs of None \<Rightarrow> True
     | Some v \<Rightarrow> length (vx_agent_fileserver v) < 2 ^ 32 \<and> length (vx_vfs_root v) < 2 ^ 32 \<and> length (vx_trace_dir v) < 2 ^ 32)"

definition vfs_blob :: "vfs_execution option \<Rightarrow> bytes" where
  "vfs_blob vfs = VFS_DIGEST_DOMAIN @
     (case vfs of None \<Rightarrow> [0]
      | Some v \<Rightarrow> [1] @ lp (vx_agent_fileserver v) @ lp (vx_vfs_root v) @ lp (vx_trace_dir v)
          @ [bool_byte (vx_strict v), bool_byte (vx_allow_original_cwd v)])"

lemma vfs_fields_Some: "all_fields (vfs_fields vfs) = Some b \<longleftrightarrow> short_vfs vfs \<and> b = vfs_blob vfs"
  by (cases vfs) (auto simp: all_fields_eq vfs_fields_def short_vfs_def vfs_blob_def append_len_prefixed_lp)

lemma bool_byte_inj: "bool_byte a = bool_byte b \<longleftrightarrow> a = b"
  by (simp add: bool_byte_def)

lemma vfs_blob_inj:
  assumes "short_vfs a" "short_vfs b" "vfs_blob a = vfs_blob b"
  shows "a = b"
proof (cases a; cases b)
  fix v w assume v: "a = Some v" "b = Some w"
  have "vx_agent_fileserver v = vx_agent_fileserver w \<and> vx_vfs_root v = vx_vfs_root w \<and> vx_trace_dir v = vx_trace_dir w
      \<and> vx_strict v = vx_strict w \<and> vx_allow_original_cwd v = vx_allow_original_cwd w"
    using assms by (simp add: v vfs_blob_def short_vfs_def lp_append lp_eq bool_byte_inj)
  then show ?thesis by (simp add: v)
qed (use assms in \<open>simp_all add: vfs_blob_def\<close>)

lemma command_digest_Some: "command_digest h cmd = Some d \<longleftrightarrow> short_strings cmd \<and> d = h (command_blob cmd)"
  by (auto simp: command_digest_def command_fields_Some)

lemma vfs_digest_Some: "vfs_digest h vfs = Some d \<longleftrightarrow> short_vfs vfs \<and> d = h (vfs_blob vfs)"
  by (auto simp: vfs_digest_def vfs_fields_Some)

lemma cap_bytes_inj:
  assumes "cap_ok a" "cap_ok b" "cap_bytes a = cap_bytes b" "length (cap_bytes a) < usize_bound"
  shows "a = b"
  using reads_whole [OF reads_cap_body [OF assms(1)] assms(4)] reads_whole [OF reads_cap_body [OF assms(2)]] assms(3,4) by simp

definition same_command :: "command \<Rightarrow> command \<Rightarrow> bool" where
  "same_command a b \<longleftrightarrow> cmd_argv a = cmd_argv b \<and> sort_key fst (cmd_env a) = sort_key fst (cmd_env b) \<and> cmd_cwd a = cmd_cwd b"

lemma same_command_blob: "same_command a b \<Longrightarrow> command_blob a = command_blob b"
proof -
  assume s: "same_command a b"
  then have "length (cmd_env a) = length (cmd_env b)" unfolding same_command_def by (metis length_sort)
  then show ?thesis using s by (simp add: same_command_def command_blob_def env_strings_def)
qed

text \<open>
  The capability a request carries, with every field the check compares; the request's own
  strings are within the format's limits, as every value of the sending side is.
\<close>

definition minted_cap :: "crypto \<Rightarrow> string \<Rightarrow> command \<Rightarrow> string \<Rightarrow> string \<Rightarrow> vfs_execution option \<Rightarrow> u64 \<Rightarrow> bytes \<Rightarrow> action_capability" where
  "minted_cap cr wid cmd aid sid vfs now nonce =
     \<lparr>ca_version = CAPABILITY_VERSION, ca_worker_id = wid, ca_action_id = aid, ca_session_id = sid,
      ca_command_digest = cr_blake3 cr (command_blob cmd), ca_vfs_digest = cr_blake3 cr (vfs_blob vfs), ca_issued_at = now,
      ca_expires_at = now + CAPABILITY_TTL_SECS, ca_nonce = nonce\<rparr>"

lemma mint_Some:
  "mint_action_capability cr (Some token) wid cmd aid sid vfs now nonce = Some bs \<Longrightarrow>
   short_strings cmd \<and> short_vfs vfs \<and> capability_encode (cr_keyed_hash cr) (cap_key cr token) (minted_cap cr wid cmd aid sid vfs now nonce) = Some bs"
  by (auto simp: mint_action_capability_def minted_cap_def command_digest_Some vfs_digest_Some split: option.splits)

definition crypto_ok :: "crypto \<Rightarrow> bool" where
  "crypto_ok cr \<longleftrightarrow> blake3_output (cr_blake3 cr) \<and> mac_output (cr_keyed_hash cr)"

definition no_collision :: "hash_fn \<Rightarrow> command \<Rightarrow> command \<Rightarrow> vfs_execution option \<Rightarrow> vfs_execution option \<Rightarrow> bool" where
  "no_collision h a b v w \<longleftrightarrow> inj_on h {command_blob a, command_blob b} \<and> inj_on h {vfs_blob v, vfs_blob w}"

lemma verified_minted:
  assumes cr: "crypto_ok cr" and ids: "id_ok wid" "id_ok aid" "id_ok sid" and nonce: "length nonce = 16"
    and mint: "mint_action_capability cr (Some token) wid cmd aid sid vfs now nonce = Some bs" and len: "length bs < usize_bound"
  shows "verified_capability cr token bs (Some now') = Inr cap \<longleftrightarrow>
    cap = minted_cap cr wid cmd aid sid vfs now nonce \<and> cap_in_time cap now'"
proof -
  let ?m = "minted_cap cr wid cmd aid sid vfs now nonce"
  have mac: "mac_output (cr_keyed_hash cr)" and ok: "cap_ok ?m"
    using cr ids nonce by (simp_all add: crypto_ok_def cap_ok_def minted_cap_def blake3_output_def)
  have bs: "bs = cap_bytes ?m @ cr_keyed_hash cr (cap_key cr token) (cap_bytes ?m)"
    using mint_Some [OF mint] cap_ok_encode [OF ok] by simp
  have inj: "cap = ?m" if c: "cap_ok cap" "capability_encode (cr_keyed_hash cr) (cap_key cr token) cap = Some bs" for cap
  proof -
    have "bs = cap_bytes cap @ cr_keyed_hash cr (cap_key cr token) (cap_bytes cap)" using c cap_ok_encode [OF c(1)] by simp
    moreover have "length (cr_keyed_hash cr k x) = 32" for k x using mac by (simp add: mac_output_def)
    ultimately have "cap_bytes cap = cap_bytes ?m" using bs append_eq_append_conv by metis
    moreover have "length (cap_bytes cap) < usize_bound" using len bs \<open>cap_bytes cap = cap_bytes ?m\<close> by simp
    ultimately show ?thesis by (rule cap_bytes_inj [OF c(1) ok])
  qed
  have "bs \<noteq> []" using bs by (simp add: cap_bytes_def)
  then have "verified_capability cr token bs (Some now') = Inr cap \<longleftrightarrow>
      decode_and_verify (cr_keyed_hash cr) bs (cap_key cr token) now' = Inr cap"
    by (simp add: verified_capability_def split: sum.splits)
  also have "\<dots> \<longleftrightarrow> cap_ok cap \<and> cap_in_time cap now' \<and> capability_encode (cr_keyed_hash cr) (cap_key cr token) cap = Some bs"
    by (rule decode_and_verify_iff [OF mac len])
  also have "\<dots> \<longleftrightarrow> cap = ?m \<and> cap_in_time cap now'"
    using inj ok mint_Some [OF mint] by blast
  finally show ?thesis .
qed

text \<open>
  C12. A capability authorises exactly the request it was minted for. The worker accepts the
  bytes the scheduler minted precisely when it is the addressed worker and the request has the
  same action, session, command (arguments, environment, directory) and virtual file system
  settings, within the five-minute window and the clock skew; any other request presenting the
  same bytes is refused, unless BLAKE3 collides on the two requests.
\<close>
theorem minted_capability_binds:
  assumes "crypto_ok cr" "id_ok wid" "id_ok aid" "id_ok sid" "length nonce = 16"
    and "mint_action_capability cr (Some token) wid cmd aid sid vfs now nonce = Some bs" "length bs < usize_bound"
    and "wa_cluster_token w = Some token" "short_strings cmd'" "short_vfs vfs'"
    and "no_collision (cr_blake3 cr) cmd cmd' vfs vfs'"
  shows "verify_execute_capability cr w bs aid' sid' cmd' vfs' (Some now') = Inr () \<longleftrightarrow>
    wa_worker_id w = wid \<and> aid' = aid \<and> sid' = sid \<and> same_command cmd' cmd \<and> vfs' = vfs
    \<and> now' \<le> now + CAPABILITY_TTL_SECS \<and> unat now \<le> saturating_add (unat now') CLOCK_SKEW_SECS"
proof -
  let ?m = "minted_cap cr wid cmd aid sid vfs now nonce"
  note v = verified_minted [OF assms(1-7), of now']
  have sh: "short_strings cmd" "short_vfs vfs" using mint_Some [OF assms(6)] by auto
  have c: "cr_blake3 cr (command_blob cmd') = cr_blake3 cr (command_blob cmd) \<longleftrightarrow> same_command cmd' cmd"
  proof
    assume "cr_blake3 cr (command_blob cmd') = cr_blake3 cr (command_blob cmd)"
    then have "command_blob cmd' = command_blob cmd" using assms(11) by (auto simp: no_collision_def)
    then show "same_command cmd' cmd" using command_blob_inj [OF assms(9) sh(1)] by (simp add: same_command_def)
  qed (use same_command_blob in metis)
  have f: "cr_blake3 cr (vfs_blob vfs') = cr_blake3 cr (vfs_blob vfs) \<longleftrightarrow> vfs' = vfs"
  proof
    assume "cr_blake3 cr (vfs_blob vfs') = cr_blake3 cr (vfs_blob vfs)"
    then have "vfs_blob vfs' = vfs_blob vfs" using assms(11) by (auto simp: no_collision_def)
    then show "vfs' = vfs" by (rule vfs_blob_inj [OF assms(10) sh(2)])
  qed simp
  have d: "command_digest (cr_blake3 cr) cmd' = Some (cr_blake3 cr (command_blob cmd'))"
    "vfs_digest (cr_blake3 cr) vfs' = Some (cr_blake3 cr (vfs_blob vfs'))"
    using assms(9,10) by (simp_all add: command_digest_Some vfs_digest_Some)
  have t: "cap_in_time ?m now' \<longleftrightarrow> now' \<le> now + CAPABILITY_TTL_SECS \<and> unat now \<le> saturating_add (unat now') CLOCK_SKEW_SECS"
    by (simp add: cap_in_time_def minted_cap_def)
  show ?thesis
  proof (cases "verified_capability cr token bs (Some now')")
    case (Inl e)
    then have "\<not> cap_in_time ?m now'" using v by auto
    then show ?thesis using t by (simp add: verify_execute_capability_def assms(8) Inl)
  next
    case (Inr cap)
    then have r: "verified_capability cr token bs (Some now') = Inr ?m" and i: "cap_in_time ?m now'" using v by auto
    have sel: "ca_worker_id ?m = wid" "ca_action_id ?m = aid" "ca_session_id ?m = sid"
      "ca_command_digest ?m = cr_blake3 cr (command_blob cmd)" "ca_vfs_digest ?m = cr_blake3 cr (vfs_blob vfs)"
      by (simp_all add: minted_cap_def)
    show ?thesis unfolding t [symmetric] verify_execute_capability_def assms(8) option.case r sum.case sel d option.inject c f
      using i by auto
  qed
qed

definition demo_crypto :: crypto where
  "demo_crypto = \<lparr>cr_blake3 = \<lambda>_. replicate 32 3, cr_keyed_hash = toy_mac, cr_derive_key = \<lambda>_ _. []\<rparr>"

definition demo_cmd :: command where
  "demo_cmd = \<lparr>cmd_argv = [''cl''], cmd_env = [(''A'', ''b'')], cmd_cwd = []\<rparr>"

definition demo_minted :: bytes where
  "demo_minted = (let b = cap_bytes (minted_cap demo_crypto ''w'' demo_cmd ''a'' [] None 1000 (replicate 16 9)) in b @ toy_mac [] b)"

lemma demo_mint:
  "mint_action_capability demo_crypto (Some ''t'') ''w'' demo_cmd ''a'' [] None 1000 (replicate 16 9) = Some demo_minted"
proof -
  have s: "short_strings demo_cmd" "short_vfs None" by (simp_all add: short_strings_def demo_cmd_def short_vfs_def)
  then have d: "command_digest (cr_blake3 demo_crypto) demo_cmd = Some (cr_blake3 demo_crypto (command_blob demo_cmd))"
    "vfs_digest (cr_blake3 demo_crypto) None = Some (cr_blake3 demo_crypto (vfs_blob None))"
    by (simp_all add: command_digest_Some vfs_digest_Some)
  have "signing_bytes (minted_cap demo_crypto ''w'' demo_cmd ''a'' [] None 1000 (replicate 16 9))
      = Some (cap_bytes (minted_cap demo_crypto ''w'' demo_cmd ''a'' [] None 1000 (replicate 16 9)))"
    by (simp add: signing_bytes_Some minted_cap_def)
  then show ?thesis
    by (simp add: mint_action_capability_def d capability_encode_def minted_cap_def demo_minted_def Let_def cap_key_def)
       (simp add: demo_crypto_def)
qed

theorem minted_capability_binds_witness:
  "verify_execute_capability demo_crypto \<lparr>wa_cluster_token = Some ''t'', wa_worker_id = ''w''\<rparr> demo_minted ''a'' [] demo_cmd None (Some 1100)
     = Inr ()
   \<and> verify_execute_capability demo_crypto \<lparr>wa_cluster_token = Some ''t'', wa_worker_id = ''v''\<rparr> demo_minted ''a'' [] demo_cmd None (Some 1100)
     \<noteq> Inr ()"
proof -
  have u: "id_ok ''w''" "id_ok ''a''" "id_ok []"
    using demo_cap_ok by (simp_all add: cap_ok_def demo_cap_def)
  have cr: "crypto_ok demo_crypto"
    using toy_mac_output by (simp add: crypto_ok_def demo_crypto_def blake3_output_def)
  have len: "length demo_minted < usize_bound"
    by (simp add: demo_minted_def Let_def cap_bytes_def cap_tail_def minted_cap_def lp_def CAP_MAGIC_def toy_mac_def
        usize_bound_def demo_crypto_def)
  have s: "short_strings demo_cmd" "short_vfs None" "no_collision (cr_blake3 demo_crypto) demo_cmd demo_cmd None None"
    by (simp_all add: short_strings_def demo_cmd_def short_vfs_def no_collision_def)
  have n: "length (replicate 16 9 :: bytes) = 16" by simp
  have v: "verify_execute_capability demo_crypto w demo_minted ''a'' [] demo_cmd None (Some 1100) = Inr () \<longleftrightarrow> wa_worker_id w = ''w''"
    if "wa_cluster_token w = Some ''t''" for w
    using minted_capability_binds [OF cr u n demo_mint len that s, of "''a''" "[]" 1100]
    by (simp add: same_command_def CAPABILITY_TTL_SECS_def CLOCK_SKEW_SECS_def saturating_add_def u64_max_def)
  show ?thesis by (simp add: v)
qed

end
