(* ===== verification/Worker_Exec.thy ===== *)
theory Worker_Exec
  imports Capability Hash_Map
begin

text \<open>
  The worker's executor (\<open>crates/worker/src/lib.rs\<close>): a service that accepts actions up to a
  backlog, runs at most its capacity of them at a time, reports each one's life as a stream of
  events and lets an action be aborted. The service state is a record; one accepted action is
  a task that moves through the awaits of \<open>run_action\<close>, and the interleaving of tasks, new
  requests and aborts is a step relation. What the process, the client and the system do is
  chosen by the step.
\<close>

section \<open>The service\<close>

definition QUEUE_FACTOR :: u32 where "QUEUE_FACTOR = 8"
definition MAX_CAPACITY :: u32 where "MAX_CAPACITY = 256"
definition MAX_PREDICTED_PATHS :: nat where "MAX_PREDICTED_PATHS = 4096"
definition DEFAULT_ACTION_CEILING_SECS :: u64 where "DEFAULT_ACTION_CEILING_SECS = 3600"
definition VFS_INJECTION_FAIL_CLOSED_EXIT_CODE :: u32 where "VFS_INJECTION_FAIL_CLOSED_EXIT_CODE = 0x00534249"
definition VFS_INJECTION_FAIL_CLOSED_DETAIL :: string where
  "VFS_INJECTION_FAIL_CLOSED_DETAIL = ''VFS child injection failed: re-run locally''"

text \<open>
  The service: the shared counters, the free permits of the two semaphores, and the table of
  running jobs by action id. A job is named by the number of the task that owns it.
\<close>

record worker_service =
  ws_running :: u32
  ws_served :: u64
  ws_limit :: nat
  ws_accept :: nat
  ws_capacity :: u32
  ws_ceiling :: u64
  ws_vfs :: bool
  ws_aborts :: "(string, nat) hmap"
  ws_auth :: worker_auth

text \<open>
  \<open>str::parse::<u64>\<close>: an optional plus sign, then decimal digits only, at least one, whose
  value fits.
\<close>

definition parse_u64 :: "string \<Rightarrow> u64 option" where
  "parse_u64 s =
     (let ds = (case s of c # cs \<Rightarrow> if c = CHR ''+'' then cs else s | [] \<Rightarrow> s);
          v = foldl (\<lambda>n c. n * 10 + (of_char c - 48)) (0 :: nat) ds
      in if ds \<noteq> [] \<and> list_all is_ascii_digit ds \<and> v < 2 ^ 64 then Some (word_of_nat v) else None)"

definition default_action_ceiling :: "string option \<Rightarrow> u64" where
  "default_action_ceiling var =
     (case Option.bind var parse_u64 of
        Some s \<Rightarrow> if s > 0 then s else DEFAULT_ACTION_CEILING_SECS
      | None \<Rightarrow> DEFAULT_ACTION_CEILING_SECS)"

definition with_capacity :: "string option \<Rightarrow> string \<Rightarrow> u32 \<Rightarrow> worker_service" where
  "with_capacity timeout_var default_id capacity =
     (let capacity = (if capacity < 1 then 1 else if capacity > MAX_CAPACITY then MAX_CAPACITY else capacity) in
      \<lparr>ws_running = 0, ws_served = 0, ws_limit = unat capacity, ws_accept = unat (capacity * QUEUE_FACTOR),
       ws_capacity = capacity, ws_ceiling = default_action_ceiling timeout_var, ws_vfs = False, ws_aborts = [],
       ws_auth = \<lparr>wa_cluster_token = None, wa_worker_id = default_id\<rparr>\<rparr>)"

definition with_action_timeout_secs :: "u64 option \<Rightarrow> worker_service \<Rightarrow> worker_service" where
  "with_action_timeout_secs secs ws =
     (case secs of Some s \<Rightarrow> if s > 0 then ws\<lparr>ws_ceiling := s\<rparr> else ws | None \<Rightarrow> ws)"

definition vfs_injection_fail_closed_detail :: "u32 \<Rightarrow> string option" where
  "vfs_injection_fail_closed_detail code =
     (if code = VFS_INJECTION_FAIL_CLOSED_EXIT_CODE then Some VFS_INJECTION_FAIL_CLOSED_DETAIL else None)"

definition cap_predicted_paths :: "string list \<Rightarrow> string list" where
  "cap_predicted_paths predicted_paths = take MAX_PREDICTED_PATHS predicted_paths"

section \<open>Events\<close>

datatype action_state = StQueued | StPreparing | StRunning | StCompleted | StFailed | StAborted

text \<open>The discriminants of the protocol.\<close>

fun state_code :: "action_state \<Rightarrow> int" where
  "state_code StQueued = 1"
| "state_code StPreparing = 2"
| "state_code StRunning = 3"
| "state_code StCompleted = 4"
| "state_code StFailed = 5"
| "state_code StAborted = 6"

datatype execute_event =
    EvState action_state string
  | EvExit int u64 string
  | EvStdio bool bytes

section \<open>How an action ends\<close>

datatype finish = Exited "u32 option" | Cancelled | Ceiling

text \<open>
  What the worker finds when the process has ended: the attestation (when the action ran under
  the VFS), whether the trace could be published (or none was asked for), the two markers the
  hook may have left, the elapsed microseconds and the digest of the tool.
\<close>

record child_report =
  rp_attestation :: "bool option"
  rp_publish :: bool
  rp_unvirt :: bool
  rp_unsafe :: bool
  rp_wall :: nat
  rp_tool :: string

definition wall_u64 :: "nat \<Rightarrow> u64" where
  "wall_u64 us = (if us < 2 ^ 64 then word_of_nat us else - 1)"

definition finish_events :: "finish \<Rightarrow> child_report \<Rightarrow> execute_event list" where
  "finish_events fin rp =
     (case fin of
        Exited (Some code) \<Rightarrow>
          if rp_attestation rp = Some False then [EvState StFailed ''VFS attestation failed'']
          else (case vfs_injection_fail_closed_detail code of
              Some detail \<Rightarrow> [EvState StFailed detail]
            | None \<Rightarrow>
                if \<not> rp_publish rp then [EvState StFailed ''trace publish failed'']
                else if rp_unvirt rp then [EvState StFailed ''unsupported VFS access under vfs_root: re-run locally'']
                else if rp_unsafe rp then [EvState StFailed ''output under virtual cwd requires WriteBack: re-run locally'']
                else [EvExit (sint code) (wall_u64 (rp_wall rp)) (rp_tool rp), EvState StCompleted []])
      | Exited None \<Rightarrow> [EvState StFailed ''wait failed'']
      | Ceiling \<Rightarrow> [EvState StFailed ''exceeded execution ceiling'']
      | Cancelled \<Rightarrow> [])"

section \<open>Tasks\<close>

datatype phase = Spawned | Waiting | Admitted | Live | Ended

record task =
  tk_action :: string
  tk_argv :: "string list"
  tk_vfs :: bool
  tk_phase :: phase
  tk_events :: "execute_event list"
  tk_job :: bool

record worker_state =
  wk_service :: worker_service
  wk_tasks :: "task list"

definition emit :: "execute_event list \<Rightarrow> task \<Rightarrow> task" where
  "emit evs t = t\<lparr>tk_events := tk_events t @ evs\<rparr>"

definition set_task :: "nat \<Rightarrow> task \<Rightarrow> worker_state \<Rightarrow> worker_state" where
  "set_task i t w = w\<lparr>wk_tasks := (wk_tasks w)[i := t]\<rparr>"

section \<open>Requests\<close>

record execute_request =
  xq_action_id :: string
  xq_command :: "command option"
  xq_session_id :: string
  xq_predicted_paths :: "string list"
  xq_vfs :: "vfs_execution option"
  xq_capability :: bytes

datatype status = InvalidArgument string | PermissionDenied string | ResourceExhausted string

text \<open>\<open>execute\<close>: on success a new task holds one permit of the backlog.\<close>

definition execute :: "crypto \<Rightarrow> u64 option \<Rightarrow> execute_request \<Rightarrow> worker_state \<Rightarrow> (status + nat) \<times> worker_state" where
  "execute cr now req w =
     (case xq_command req of
        None \<Rightarrow> (Inl (InvalidArgument ''ExecuteRequest.command is required''), w)
      | Some cmd \<Rightarrow>
          if cmd_argv cmd = [] then (Inl (InvalidArgument ''command.argv must be non-empty''), w)
          else case verify_execute_capability cr (ws_auth (wk_service w)) (xq_capability req) (xq_action_id req)
                      (xq_session_id req) cmd (xq_vfs req) now of
            Inl e \<Rightarrow> (Inl (PermissionDenied e), w)
          | Inr _ \<Rightarrow>
              if ws_accept (wk_service w) = 0
              then (Inl (ResourceExhausted ''worker accepted-work backlog is full''), w)
              else (Inr (length (wk_tasks w)),
                    \<lparr>wk_service = (wk_service w)\<lparr>ws_accept := ws_accept (wk_service w) - 1\<rparr>,
                     wk_tasks = wk_tasks w @ [\<lparr>tk_action = xq_action_id req, tk_argv = cmd_argv cmd,
                        tk_vfs = (xq_vfs req \<noteq> None), tk_phase = Spawned, tk_events = [], tk_job = False\<rparr>]\<rparr>))"

text \<open>
  \<open>abort\<close>: the job registered under the action id is terminated, when there is one; the answer
  is an acknowledgement either way. The result names the job that was killed.
\<close>

definition abort :: "crypto \<Rightarrow> u64 option \<Rightarrow> bytes \<Rightarrow> string \<Rightarrow> worker_state \<Rightarrow> status + nat option" where
  "abort cr now action_cap action_id w =
     (case verify_abort_capability cr (ws_auth (wk_service w)) action_cap action_id now of
        Inl e \<Rightarrow> Inl (PermissionDenied e)
      | Inr _ \<Rightarrow> Inr (map_of (ws_aborts (wk_service w)) action_id))"

section \<open>Running a task\<close>

text \<open>
  The parts of \<open>run_action\<close> between its awaits. A task that leaves drops its permits: the one of
  the backlog always, the one of the running limit and the running count once it was admitted.
\<close>

definition drop_accept :: "worker_service \<Rightarrow> worker_service" where
  "drop_accept ws = ws\<lparr>ws_accept := ws_accept ws + 1\<rparr>"

definition running_guard_drop :: "worker_service \<Rightarrow> worker_service" where
  "running_guard_drop ws = ws\<lparr>ws_running := ws_running ws - 1\<rparr>"

definition drop_permits :: "worker_service \<Rightarrow> worker_service" where
  "drop_permits ws = (let ws = running_guard_drop ws in drop_accept (ws\<lparr>ws_limit := ws_limit ws + 1\<rparr>))"

definition run_queue :: "bool \<Rightarrow> task \<Rightarrow> worker_service \<Rightarrow> task \<times> worker_service" where
  "run_queue sent t ws =
     (if sent then ((emit [EvState StQueued []] t)\<lparr>tk_phase := Waiting\<rparr>, ws)
      else (t\<lparr>tk_phase := Ended\<rparr>, drop_accept ws))"

text \<open>
  Admission: a client that has gone is preferred over a free permit, and is checked once more
  after the permit is taken; without a free permit the task keeps waiting.
\<close>

definition run_admit :: "bool \<Rightarrow> bool \<Rightarrow> task \<Rightarrow> worker_service \<Rightarrow> task \<times> worker_service" where
  "run_admit gone gone_after t ws =
     (if gone then (t\<lparr>tk_phase := Ended\<rparr>, drop_accept ws)
      else if ws_limit ws = 0 then (t, ws)
      else if gone_after then (t\<lparr>tk_phase := Ended\<rparr>, drop_accept ws)
      else let ws = ws\<lparr>ws_limit := ws_limit ws - 1, ws_running := ws_running ws + 1, ws_served := ws_served ws + 1\<rparr>;
               t = emit [EvState StPreparing []] t
           in if tk_argv t = [] then ((emit [EvState StFailed ''command.argv is empty''] t)\<lparr>tk_phase := Ended\<rparr>, drop_permits ws)
              else if tk_vfs t \<and> \<not> ws_vfs ws
              then ((emit [EvState StFailed ''worker is not configured for VFS execution''] t)\<lparr>tk_phase := Ended\<rparr>, drop_permits ws)
              else (t\<lparr>tk_phase := Admitted\<rparr>, ws))"

text \<open>The outcome of \<open>build_child\<close>: a failure is reported, a child is registered and announced.\<close>

definition run_child :: "nat \<Rightarrow> string + unit \<Rightarrow> task \<Rightarrow> worker_service \<Rightarrow> task \<times> worker_service" where
  "run_child i built t ws =
     (case built of
        Inl detail \<Rightarrow> ((emit [EvState StFailed detail] t)\<lparr>tk_phase := Ended\<rparr>, drop_permits ws)
      | Inr _ \<Rightarrow> ((emit [EvState StRunning []] t)\<lparr>tk_phase := Live, tk_job := True\<rparr>,
                 ws\<lparr>ws_aborts := hm_insert (tk_action t) i (ws_aborts ws)\<rparr>))"

definition run_finish :: "finish \<Rightarrow> child_report \<Rightarrow> task \<Rightarrow> worker_service \<Rightarrow> task \<times> worker_service" where
  "run_finish fin rp t ws =
     ((emit (finish_events fin rp) t)\<lparr>tk_phase := Ended, tk_job := False\<rparr>,
      drop_permits (ws\<lparr>ws_aborts := hm_remove (tk_action t) (ws_aborts ws)\<rparr>))"

definition run_at :: "nat \<Rightarrow> (task \<Rightarrow> worker_service \<Rightarrow> task \<times> worker_service) \<Rightarrow> worker_state \<Rightarrow> worker_state" where
  "run_at i f w = (case f (wk_tasks w ! i) (wk_service w) of (t, ws) \<Rightarrow> \<lparr>wk_service = ws, wk_tasks = (wk_tasks w)[i := t]\<rparr>)"

inductive worker_step :: "worker_state \<Rightarrow> worker_state \<Rightarrow> bool" where
  step_execute: "worker_step w (snd (execute cr now req w))"
| step_queue: "i < length (wk_tasks w) \<Longrightarrow> tk_phase (wk_tasks w ! i) = Spawned \<Longrightarrow> worker_step w (run_at i (run_queue sent) w)"
| step_admit: "i < length (wk_tasks w) \<Longrightarrow> tk_phase (wk_tasks w ! i) = Waiting \<Longrightarrow> worker_step w (run_at i (run_admit gone gone_after) w)"
| step_child: "i < length (wk_tasks w) \<Longrightarrow> tk_phase (wk_tasks w ! i) = Admitted \<Longrightarrow> worker_step w (run_at i (run_child i built) w)"
| step_stdio: "i < length (wk_tasks w) \<Longrightarrow> tk_phase (wk_tasks w ! i) = Live \<Longrightarrow>
    worker_step w (run_at i (\<lambda>t ws. (emit [EvStdio is_stderr bs] t, ws)) w)"
| step_finish: "i < length (wk_tasks w) \<Longrightarrow> tk_phase (wk_tasks w ! i) = Live \<Longrightarrow> worker_step w (run_at i (run_finish fin rp) w)"

inductive worker_reach :: "worker_service \<Rightarrow> worker_state \<Rightarrow> bool" for ws where
  reach_start: "worker_reach ws \<lparr>wk_service = ws, wk_tasks = []\<rparr>"
| reach_step: "worker_reach ws w \<Longrightarrow> worker_step w w' \<Longrightarrow> worker_reach ws w'"

section \<open>The invariant of admission\<close>

definition active :: "worker_state \<Rightarrow> nat" where
  "active w = length (filter (\<lambda>t. tk_phase t \<noteq> Ended) (wk_tasks w))"

definition admitted :: "worker_state \<Rightarrow> nat" where
  "admitted w = length (filter (\<lambda>t. tk_phase t \<in> {Admitted, Live}) (wk_tasks w))"

definition permits_inv :: "worker_state \<Rightarrow> bool" where
  "permits_inv w \<longleftrightarrow> ws_limit (wk_service w) + admitted w = unat (ws_capacity (wk_service w))
     \<and> ws_accept (wk_service w) + active w = 8 * unat (ws_capacity (wk_service w))
     \<and> unat (ws_running (wk_service w)) = admitted w
     \<and> 1 \<le> unat (ws_capacity (wk_service w)) \<and> unat (ws_capacity (wk_service w)) \<le> 256"

definition is_adm :: "task \<Rightarrow> bool" where
  "is_adm t \<longleftrightarrow> tk_phase t \<in> {Admitted, Live}"

text \<open>How one part of a task moves the permits, as the task changes phase.\<close>

definition moves_permits :: "task \<Rightarrow> worker_service \<Rightarrow> task \<Rightarrow> worker_service \<Rightarrow> bool" where
  "moves_permits t ws t' ws' \<longleftrightarrow>
     ws_limit ws' + of_bool (is_adm t') = ws_limit ws + of_bool (is_adm t)
     \<and> ws_accept ws' + of_bool (tk_phase t' \<noteq> Ended) = ws_accept ws + of_bool (tk_phase t \<noteq> Ended)
     \<and> ws_running ws' - of_bool (is_adm t') = ws_running ws - of_bool (is_adm t)
     \<and> ws_capacity ws' = ws_capacity ws"

lemma permits_run_at:
  assumes inv: "permits_inv w" and i: "i < length (wk_tasks w)" and f: "f (wk_tasks w ! i) (wk_service w) = (t', ws')"
    and m: "moves_permits (wk_tasks w ! i) (wk_service w) t' ws'"
  shows "permits_inv (run_at i f w)"
proof -
  let ?t = "wk_tasks w ! i" and ?ws = "wk_service w" and ?w = "run_at i f w"
  have w': "?w = \<lparr>wk_service = ws', wk_tasks = (wk_tasks w)[i := t']\<rparr>" using f by (simp add: run_at_def)
  have adm: "admitted ?w + of_bool (is_adm ?t) = admitted w + of_bool (is_adm t')"
    using length_filter_update [OF i, of is_adm t'] unfolding w' admitted_def is_adm_def [symmetric] by simp
  have act: "active ?w + of_bool (tk_phase ?t \<noteq> Ended) = active w + of_bool (tk_phase t' \<noteq> Ended)"
    using length_filter_update [OF i, of "\<lambda>t. tk_phase t \<noteq> Ended" t'] unfolding w' active_def by simp
  have cap: "ws_limit ws' + admitted ?w = unat (ws_capacity ws')" "ws_accept ws' + active ?w = 8 * unat (ws_capacity ws')"
    using m inv adm act by (auto simp: moves_permits_def permits_inv_def)
  then have small: "admitted ?w \<le> 256" using m inv by (simp add: moves_permits_def permits_inv_def)
  have "unat (ws_running ?ws) = admitted w" using inv by (simp add: permits_inv_def)
  then have run: "ws_running ?ws = of_nat (admitted w)" by (metis of_nat_unat ucast_id)
  have "ws_running ws' = ws_running ?ws - of_bool (is_adm ?t) + of_bool (is_adm t')"
    using m by (simp add: moves_permits_def algebra_simps)
  also have "\<dots> = of_nat (admitted w + of_bool (is_adm t')) - of_nat (of_bool (is_adm ?t))" by (simp add: run)
  also have "\<dots> = of_nat (admitted ?w)" by (simp flip: adm)
  finally have "unat (ws_running ws') = admitted ?w" using small by (simp add: unat_of_nat)
  then show ?thesis using cap m inv by (simp add: w' permits_inv_def moves_permits_def)
qed

lemma queue_moves: "tk_phase t = Spawned \<Longrightarrow> run_queue sent t ws = (t', ws') \<Longrightarrow> moves_permits t ws t' ws'"
  by (auto simp: run_queue_def moves_permits_def is_adm_def emit_def drop_accept_def split: if_splits)

lemma admit_moves: "tk_phase t = Waiting \<Longrightarrow> run_admit gone gone_after t ws = (t', ws') \<Longrightarrow> moves_permits t ws t' ws'"
  by (auto simp: run_admit_def moves_permits_def is_adm_def emit_def drop_accept_def drop_permits_def running_guard_drop_def Let_def
      split: if_splits)

lemma child_moves: "tk_phase t = Admitted \<Longrightarrow> run_child i built t ws = (t', ws') \<Longrightarrow> moves_permits t ws t' ws'"
  by (auto simp: run_child_def moves_permits_def is_adm_def emit_def drop_accept_def drop_permits_def running_guard_drop_def Let_def
      split: sum.splits)

lemma finish_moves: "tk_phase t = Live \<Longrightarrow> run_finish fin rp t ws = (t', ws') \<Longrightarrow> moves_permits t ws t' ws'"
  by (auto simp: run_finish_def moves_permits_def is_adm_def emit_def drop_accept_def drop_permits_def running_guard_drop_def Let_def)

lemma execute_cases:
  "snd (execute cr now req w) = w \<or> (\<exists>t. ws_accept (wk_service w) > 0 \<and> tk_phase t = Spawned \<and> tk_events t = [] \<and> \<not> tk_job t
     \<and> tk_argv t \<noteq> [] \<and> tk_action t = xq_action_id req
     \<and> execute cr now req w = (Inr (length (wk_tasks w)),
         \<lparr>wk_service = (wk_service w)\<lparr>ws_accept := ws_accept (wk_service w) - 1\<rparr>, wk_tasks = wk_tasks w @ [t]\<rparr>))"
  by (auto simp: execute_def split: option.splits sum.splits)

lemma permits_step: "worker_step w w' \<Longrightarrow> permits_inv w \<Longrightarrow> permits_inv w'"
proof (induction rule: worker_step.induct)
  case (step_execute w cr now req)
  from execute_cases [of cr now req w] step_execute show ?case
    by (elim disjE exE) (auto simp: permits_inv_def active_def admitted_def)
next
  case (step_queue i w sent)
  then show ?case using queue_moves by (cases "run_queue sent (wk_tasks w ! i) (wk_service w)") (blast intro: permits_run_at)
next
  case (step_admit i w gone gone_after)
  then show ?case using admit_moves
    by (cases "run_admit gone gone_after (wk_tasks w ! i) (wk_service w)") (blast intro: permits_run_at)
next
  case (step_child i w built)
  then show ?case using child_moves by (cases "run_child i built (wk_tasks w ! i) (wk_service w)") (blast intro: permits_run_at)
next
  case (step_stdio i w is_stderr bs)
  then show ?case by (intro permits_run_at) (auto simp: moves_permits_def is_adm_def emit_def)
next
  case (step_finish i w fin rp)
  then show ?case using finish_moves by (cases "run_finish fin rp (wk_tasks w ! i) (wk_service w)") (blast intro: permits_run_at)
qed

section \<open>The event streams\<close>

fun is_stdio :: "execute_event \<Rightarrow> bool" where
  "is_stdio (EvStdio e bs) = True"
| "is_stdio _ = False"

abbreviation ev_queued :: execute_event where "ev_queued \<equiv> EvState StQueued []"
abbreviation ev_preparing :: execute_event where "ev_preparing \<equiv> EvState StPreparing []"
abbreviation ev_running :: execute_event where "ev_running \<equiv> EvState StRunning []"

text \<open>The words of the protocol a task has sent, by phase.\<close>

definition stream_ok :: "phase \<Rightarrow> execute_event list \<Rightarrow> bool" where
  "stream_ok ph evs \<longleftrightarrow>
     (case ph of
        Spawned \<Rightarrow> evs = []
      | Waiting \<Rightarrow> evs = [ev_queued]
      | Admitted \<Rightarrow> evs = [ev_queued, ev_preparing]
      | Live \<Rightarrow> (\<exists>io. list_all is_stdio io \<and> evs = [ev_queued, ev_preparing, ev_running] @ io)
      | Ended \<Rightarrow> evs = [] \<or> evs = [ev_queued] \<or> (\<exists>d. evs = [ev_queued, ev_preparing, EvState StFailed d])
          \<or> (\<exists>io fin rp. list_all is_stdio io \<and> evs = [ev_queued, ev_preparing, ev_running] @ io @ finish_events fin rp))"

lemma queue_stream:
  "tk_phase t = Spawned \<Longrightarrow> run_queue sent t ws = (t', ws') \<Longrightarrow> stream_ok (tk_phase t) (tk_events t) \<Longrightarrow> stream_ok (tk_phase t') (tk_events t')"
  by (auto simp: run_queue_def stream_ok_def emit_def split: if_splits)

lemma admit_stream:
  "tk_phase t = Waiting \<Longrightarrow> run_admit gone gone_after t ws = (t', ws') \<Longrightarrow> stream_ok (tk_phase t) (tk_events t) \<Longrightarrow> stream_ok (tk_phase t') (tk_events t')"
  by (auto simp: run_admit_def stream_ok_def emit_def Let_def split: if_splits)

lemma child_stream:
  "tk_phase t = Admitted \<Longrightarrow> run_child i built t ws = (t', ws') \<Longrightarrow> stream_ok (tk_phase t) (tk_events t) \<Longrightarrow> stream_ok (tk_phase t') (tk_events t')"
  by (auto simp: run_child_def stream_ok_def emit_def split: sum.splits)

lemma stdio_stream:
  "tk_phase t = Live \<Longrightarrow> stream_ok (tk_phase t) (tk_events t) \<Longrightarrow> stream_ok Live (tk_events (emit [EvStdio e bs] t))"
  by (fastforce simp: stream_ok_def emit_def)

lemma finish_stream:
  "tk_phase t = Live \<Longrightarrow> run_finish fin rp t ws = (t', ws') \<Longrightarrow> stream_ok (tk_phase t) (tk_events t) \<Longrightarrow> stream_ok (tk_phase t') (tk_events t')"
  by (fastforce simp: run_finish_def stream_ok_def emit_def)

section \<open>The table of jobs\<close>

definition aborts_inv :: "worker_state \<Rightarrow> bool" where
  "aborts_inv w \<longleftrightarrow>
     (\<forall>a i. map_of (ws_aborts (wk_service w)) a = Some i \<longrightarrow>
        i < length (wk_tasks w) \<and> tk_action (wk_tasks w ! i) = a \<and> tk_phase (wk_tasks w ! i) = Live)
     \<and> (distinct (map tk_action (wk_tasks w)) \<longrightarrow>
        (\<forall>i < length (wk_tasks w). tk_phase (wk_tasks w ! i) = Live \<longrightarrow>
           map_of (ws_aborts (wk_service w)) (tk_action (wk_tasks w ! i)) = Some i))"

text \<open>A part of a task that neither registers nor ends a job leaves the table alone.\<close>

lemma aborts_run_at:
  fixes f :: "task \<Rightarrow> worker_service \<Rightarrow> task \<times> worker_service" and w i
  defines "t' \<equiv> fst (f (wk_tasks w ! i) (wk_service w))" and "ws' \<equiv> snd (f (wk_tasks w ! i) (wk_service w))"
  assumes inv: "aborts_inv w" and i: "i < length (wk_tasks w)"
    and same: "tk_action t' = tk_action (wk_tasks w ! i)" "ws_aborts ws' = ws_aborts (wk_service w)"
    and live: "tk_phase t' = Live \<longleftrightarrow> tk_phase (wk_tasks w ! i) = Live"
  shows "aborts_inv (run_at i f w)"
proof -
  have w': "run_at i f w = \<lparr>wk_service = ws', wk_tasks = (wk_tasks w)[i := t']\<rparr>" by (simp add: run_at_def t'_def ws'_def split_beta)
  have "map tk_action ((wk_tasks w)[i := t']) = map tk_action (wk_tasks w)" using same(1) i by (simp add: map_update list_update_same_conv)
  then show ?thesis using inv i same live by (auto simp: aborts_inv_def w' nth_list_update)
qed

lemma aborts_register:
  assumes inv: "aborts_inv w" and i: "i < length (wk_tasks w)" and ph: "tk_phase (wk_tasks w ! i) = Admitted"
  shows "aborts_inv (run_at i (run_child i built) w)"
proof (cases built)
  case (Inl d)
  then show ?thesis using assms
    by (intro aborts_run_at) (auto simp: run_child_def emit_def drop_permits_def running_guard_drop_def drop_accept_def Let_def)
next
  case (Inr u)
  let ?t = "wk_tasks w ! i"
  define t' where "t' = (emit [ev_running] ?t)\<lparr>tk_phase := Live, tk_job := True\<rparr>"
  have acts: "map tk_action ((wk_tasks w)[i := t']) = map tk_action (wk_tasks w)"
    using i by (simp add: map_update t'_def emit_def list_update_same_conv)
  have w': "run_at i (run_child i built) w = \<lparr>wk_service = (wk_service w)\<lparr>ws_aborts := hm_insert (tk_action ?t) i (ws_aborts (wk_service w))\<rparr>,
      wk_tasks = (wk_tasks w)[i := t']\<rparr>" by (simp add: run_at_def run_child_def Inr t'_def)
  have "tk_action (wk_tasks w ! j) \<noteq> tk_action ?t" if "distinct (map tk_action (wk_tasks w))" "j < length (wk_tasks w)" "j \<noteq> i" for j
    using that i by (metis distinct_conv_nth length_map nth_map)
  moreover have "tk_action t' = tk_action ?t" "tk_phase t' = Live" by (simp_all add: t'_def emit_def)
  ultimately show ?thesis using inv i ph acts
    by (auto simp: w' aborts_inv_def hm_look_insert nth_list_update)
qed

lemma aborts_finish:
  assumes inv: "aborts_inv w" and i: "i < length (wk_tasks w)" and ph: "tk_phase (wk_tasks w ! i) = Live"
  shows "aborts_inv (run_at i (run_finish fin rp) w)"
proof -
  let ?t = "wk_tasks w ! i"
  define t' where "t' = (emit (finish_events fin rp) ?t)\<lparr>tk_phase := Ended, tk_job := False\<rparr>"
  have t': "tk_action t' = tk_action ?t" "tk_phase t' = Ended" by (simp_all add: t'_def emit_def)
  have acts: "map tk_action ((wk_tasks w)[i := t']) = map tk_action (wk_tasks w)"
    using i t' by (simp add: map_update list_update_same_conv)
  have w': "wk_tasks (run_at i (run_finish fin rp) w) = (wk_tasks w)[i := t']"
      "ws_aborts (wk_service (run_at i (run_finish fin rp) w)) = hm_remove (tk_action ?t) (ws_aborts (wk_service w))"
    by (simp_all add: run_at_def run_finish_def t'_def drop_permits_def running_guard_drop_def drop_accept_def Let_def)
  have "tk_action (wk_tasks w ! j) \<noteq> tk_action ?t" if "distinct (map tk_action (wk_tasks w))" "j < length (wk_tasks w)" "j \<noteq> i" for j
    using that i by (metis distinct_conv_nth length_map nth_map)
  then show ?thesis using inv i ph acts t'
    by (auto simp: w' aborts_inv_def hm_look_remove nth_list_update)
qed

lemma aborts_step: "worker_step w w' \<Longrightarrow> aborts_inv w \<Longrightarrow> aborts_inv w'"
proof (induction rule: worker_step.induct)
  case (step_execute w cr now req)
  from execute_cases [of cr now req w] step_execute show ?case
    by (elim disjE exE) (auto simp: aborts_inv_def nth_append less_Suc_eq)
next
  case (step_queue i w sent)
  then show ?case by (intro aborts_run_at) (auto simp: run_queue_def emit_def drop_accept_def)
next
  case (step_admit i w gone gone_after)
  then show ?case
    by (intro aborts_run_at) (auto simp: run_admit_def emit_def drop_accept_def drop_permits_def running_guard_drop_def Let_def)
next
  case (step_child i w built)
  then show ?case using aborts_register by blast
next
  case (step_stdio i w is_stderr bs)
  then show ?case by (intro aborts_run_at) (auto simp: emit_def)
next
  case (step_finish i w fin rp)
  then show ?case using aborts_finish by blast
qed

definition streams_ok :: "worker_state \<Rightarrow> bool" where
  "streams_ok w \<longleftrightarrow> (\<forall>t \<in> set (wk_tasks w). stream_ok (tk_phase t) (tk_events t))"

lemma streams_run_at:
  assumes "streams_ok w" "i < length (wk_tasks w)"
    and "stream_ok (tk_phase (wk_tasks w ! i)) (tk_events (wk_tasks w ! i)) \<Longrightarrow>
      stream_ok (tk_phase (fst (f (wk_tasks w ! i) (wk_service w)))) (tk_events (fst (f (wk_tasks w ! i) (wk_service w))))"
  shows "streams_ok (run_at i f w)"
  using assms set_update_subset_insert [of "wk_tasks w" i] by (auto simp: streams_ok_def run_at_def split_beta)

lemma streams_step: "worker_step w w' \<Longrightarrow> streams_ok w \<Longrightarrow> streams_ok w'"
proof (induction rule: worker_step.induct)
  case (step_execute w cr now req)
  from execute_cases [of cr now req w] step_execute show ?case
    by (elim disjE exE) (auto simp: streams_ok_def stream_ok_def)
next
  case (step_queue i w sent)
  then show ?case using queue_stream [OF step_queue(2) surjective_pairing] by (blast intro: streams_run_at)
next
  case (step_admit i w gone gone_after)
  then show ?case using admit_stream [OF step_admit(2) surjective_pairing] by (blast intro: streams_run_at)
next
  case (step_child i w built)
  then show ?case using child_stream [OF step_child(2) surjective_pairing] by (blast intro: streams_run_at)
next
  case (step_stdio i w is_stderr bs)
  then show ?case using stdio_stream [OF step_stdio(2)] by (intro streams_run_at) (simp_all add: emit_def)
next
  case (step_finish i w fin rp)
  then show ?case using finish_stream [OF step_finish(2) surjective_pairing] by (blast intro: streams_run_at)
qed

section \<open>A configured service\<close>

text \<open>The service as the daemon configures it before it serves.\<close>

definition configured :: "worker_service \<Rightarrow> bool" where
  "configured ws \<longleftrightarrow> (\<exists>var wid cap vfs au secs.
     ws = (with_action_timeout_secs secs (with_capacity var wid cap))\<lparr>ws_vfs := vfs, ws_auth := au\<rparr>)"

lemma configured_start:
  assumes "configured ws"
  shows "permits_inv \<lparr>wk_service = ws, wk_tasks = []\<rparr> \<and> aborts_inv \<lparr>wk_service = ws, wk_tasks = []\<rparr>"
proof -
  obtain var wid cap vfs au secs where
    ws: "ws = (with_action_timeout_secs secs (with_capacity var wid cap))\<lparr>ws_vfs := vfs, ws_auth := au\<rparr>"
    using assms by (auto simp: configured_def)
  define c where "c = (if cap < 1 then 1 else if cap > MAX_CAPACITY then MAX_CAPACITY else cap)"
  have c: "1 \<le> unat c" "unat c \<le> 256"
    by (auto simp: c_def MAX_CAPACITY_def word_less_nat_alt not_less)
  then have "unat (c * QUEUE_FACTOR) = 8 * unat c" by (simp add: QUEUE_FACTOR_def unat_word_ariths)
  moreover have "ws_capacity ws = c" "ws_limit ws = unat c" "ws_accept ws = unat (c * QUEUE_FACTOR)" "ws_running ws = 0" "ws_aborts ws = []"
    unfolding ws by (simp_all add: with_action_timeout_secs_def with_capacity_def c_def Let_def split: option.splits)
  ultimately show ?thesis using c by (simp add: permits_inv_def aborts_inv_def admitted_def active_def)
qed

lemma worker_reach_inv:
  assumes "worker_reach ws w" "configured ws"
  shows "permits_inv w" "aborts_inv w" "streams_ok w"
proof -
  have "permits_inv w \<and> aborts_inv w \<and> streams_ok w"
    using assms
    by (induction rule: worker_reach.induct)
      (use configured_start permits_step aborts_step streams_step in \<open>auto simp: streams_ok_def\<close>)
  then show "permits_inv w" "aborts_inv w" "streams_ok w" by auto
qed

section \<open>Properties\<close>


lemma finish_events_exit:
  "EvExit c wall tool \<in> set (finish_events fin rp) \<longleftrightarrow>
     (\<exists>code. fin = Exited (Some code) \<and> c = sint code \<and> wall = wall_u64 (rp_wall rp) \<and> tool = rp_tool rp
        \<and> rp_attestation rp \<noteq> Some False \<and> code \<noteq> VFS_INJECTION_FAIL_CLOSED_EXIT_CODE \<and> rp_publish rp \<and> \<not> rp_unvirt rp \<and> \<not> rp_unsafe rp)"
  by (auto simp: finish_events_def vfs_injection_fail_closed_detail_def split: finish.splits option.splits)

lemma finish_events_shape:
  "finish_events fin rp = (if fin = Cancelled then [] else
     if \<exists>c wall tool. EvExit c wall tool \<in> set (finish_events fin rp)
     then [EvExit (sint (the (case fin of Exited co \<Rightarrow> co | _ \<Rightarrow> None))) (wall_u64 (rp_wall rp)) (rp_tool rp), EvState StCompleted []]
     else [EvState StFailed (case hd (finish_events fin rp) of EvState _ d \<Rightarrow> d | _ \<Rightarrow> [])])"
  by (auto simp: finish_events_def split: finish.splits option.splits)


text \<open>
  An abort kills only its own action. With an action id that has a running process, the abort
  terminates the process of an action with exactly that id; while the ids of the actions the
  worker has seen are distinct, it terminates the one process of that action whenever it runs.
  Under a cluster token it does so only for a capability that was signed for this worker and
  this action.
\<close>

theorem abort_exact:
  assumes "configured ws" "worker_reach ws w" "abort cr now action_cap a w = Inr r"
  shows "(\<forall>i. r = Some i \<longrightarrow> i < length (wk_tasks w) \<and> tk_action (wk_tasks w ! i) = a \<and> tk_phase (wk_tasks w ! i) = Live)
    \<and> (distinct (map tk_action (wk_tasks w)) \<longrightarrow>
        (\<forall>i < length (wk_tasks w). tk_action (wk_tasks w ! i) = a \<and> tk_phase (wk_tasks w ! i) = Live \<longrightarrow> r = Some i))
    \<and> (\<forall>token. wa_cluster_token (ws_auth (wk_service w)) = Some token \<longrightarrow>
        (\<exists>cap. verified_capability cr token action_cap now = Inr cap \<and> ca_action_id cap = a
          \<and> ca_worker_id cap = wa_worker_id (ws_auth (wk_service w))))"
proof -
  have inv: "aborts_inv w" by (rule worker_reach_inv [OF assms(2,1)])
  have r: "r = map_of (ws_aborts (wk_service w)) a" "verify_abort_capability cr (ws_auth (wk_service w)) action_cap a now = Inr ()"
    using assms(3) by (auto simp: abort_def split: sum.splits)
  then have "\<exists>cap. verified_capability cr token action_cap now = Inr cap \<and> ca_action_id cap = a \<and> ca_worker_id cap = wa_worker_id (ws_auth (wk_service w))"
    if "wa_cluster_token (ws_auth (wk_service w)) = Some token" for token
    using that by (auto simp: verify_abort_capability_def split: sum.splits if_splits)
  then show ?thesis using inv r(1) by (auto simp: aborts_inv_def)
qed

section \<open>A concrete run\<close>

definition one_worker :: worker_service where
  "one_worker = with_capacity None ''w'' 1"

definition one_request :: execute_request where
  "one_request = \<lparr>xq_action_id = ''a'', xq_command = Some \<lparr>cmd_argv = [''cl''], cmd_env = [], cmd_cwd = []\<rparr>, xq_session_id = [],
     xq_predicted_paths = [], xq_vfs = None, xq_capability = []\<rparr>"

definition one_accepted :: worker_state where
  "one_accepted = snd (execute demo_crypto None one_request \<lparr>wk_service = one_worker, wk_tasks = []\<rparr>)"

definition one_live :: worker_state where
  "one_live = run_at 0 (run_child 0 (Inr ())) (run_at 0 (run_admit False False) (run_at 0 (run_queue True) one_accepted))"

lemma one_worker_configured: "configured one_worker"
proof -
  have "one_worker = (with_action_timeout_secs None (with_capacity None ''w'' 1))
      \<lparr>ws_vfs := False, ws_auth := \<lparr>wa_cluster_token = None, wa_worker_id = ''w''\<rparr>\<rparr>"
    by (simp add: one_worker_def with_action_timeout_secs_def with_capacity_def Let_def)
  then show ?thesis unfolding configured_def by blast
qed

lemmas one_run_defs = one_live_def one_accepted_def one_worker_def one_request_def with_capacity_def Let_def execute_def
  verify_execute_capability_def run_at_def run_queue_def run_admit_def run_child_def emit_def MAX_CAPACITY_def QUEUE_FACTOR_def hm_insert_def

lemma one_live_state:
  "wk_tasks one_live = [\<lparr>tk_action = ''a'', tk_argv = [''cl''], tk_vfs = False, tk_phase = Live,
     tk_events = [ev_queued, ev_preparing, ev_running], tk_job = True\<rparr>]"
  "ws_aborts (wk_service one_live) = [(''a'', 0)]" "ws_auth (wk_service one_live) = \<lparr>wa_cluster_token = None, wa_worker_id = ''w''\<rparr>"
  "ws_running (wk_service one_live) = 1" "ws_capacity (wk_service one_live) = 1"
  by (simp_all add: one_run_defs)

lemma one_live_reach: "worker_reach one_worker one_live"
proof -
  have r0: "worker_reach one_worker one_accepted"
    unfolding one_accepted_def by (rule reach_step [OF reach_start step_execute])
  have r1: "worker_reach one_worker (run_at 0 (run_queue True) one_accepted)"
    by (rule reach_step [OF r0 step_queue]) (simp_all add: one_run_defs)
  have r2: "worker_reach one_worker (run_at 0 (run_admit False False) (run_at 0 (run_queue True) one_accepted))"
    by (rule reach_step [OF r1 step_admit]) (simp_all add: one_run_defs)
  show ?thesis unfolding one_live_def by (rule reach_step [OF r2 step_child]) (simp_all add: one_run_defs)
qed


definition one_report :: child_report where
  "one_report = \<lparr>rp_attestation = None, rp_publish = True, rp_unvirt = False, rp_unsafe = False, rp_wall = 5, rp_tool = ''t''\<rparr>"


theorem abort_exact_witness:
  "abort demo_crypto None [] ''a'' one_live = Inr (Some 0) \<and> tk_phase (wk_tasks one_live ! 0) = Live"
proof -
  have "\<exists>r. abort demo_crypto None [] ''a'' one_live = Inr r"
    by (simp add: abort_def verify_abort_capability_def one_live_state)
  then obtain r where r: "abort demo_crypto None [] ''a'' one_live = Inr r" by blast
  then have "r = Some 0" using abort_exact [OF one_worker_configured one_live_reach r] by (simp add: one_live_state)
  with r show ?thesis by (simp add: one_live_state)
qed

end
