(* ===== verification/Cache_Queries.thy ===== *)
theory Cache_Queries
  imports Agent_Cache Path_Scope Worker_Exec
begin

text \<open>
  The rest of the agent's cache interface, \<open>src/crates/agent/src/action_cache.rs\<close>: the weak key
  with the toolchain identity folded into it, the paths predicted for a prefetch, and the
  adapters from a trace directory to a manifest and to an output list.
\<close>

section \<open>Keys\<close>

definition env_path :: "env \<Rightarrow> string option" where
  "env_path e = map_option snd (find (\<lambda>(k, _). eq_ignore_ascii_case k ''PATH'') e)"

definition weak_key_and_tool ::
    "hash_fn \<Rightarrow> (nat \<Rightarrow> tool_fs) \<Rightarrow> nat \<Rightarrow> call_times \<Rightarrow> string list \<Rightarrow> env \<Rightarrow> string
     \<Rightarrow> tool_digests \<Rightarrow> tool_digests \<Rightarrow> (digest \<times> tool_identity) \<times> tool_digests" where
  "weak_key_and_tool blake3 world t0 ct argv e cwd memo memo' =
     (case toolchain_identity blake3 world t0 ct (case argv of [] \<Rightarrow> [] | a # _ \<Rightarrow> a) (env_path e) cwd memo memo' of
        (identity, m) \<Rightarrow> ((weak_fingerprint blake3 argv e cwd (identity_digest identity), identity), m))"

section \<open>Predicted paths\<close>

definition first_occurrences :: "'a list \<Rightarrow> 'a list" where
  "first_occurrences xs = rev (remdups (rev xs))"

definition predicted_of :: "(string \<Rightarrow> string) \<Rightarrow> string option \<Rightarrow> input_manifest \<Rightarrow> string list" where
  "predicted_of lc root m =
     take MAX_PREDICTED_PATHS
       (first_occurrences
         (filter (\<lambda>p. path_in_scope lc p root)
           (List.map_filter (\<lambda>e. normalize_scoped_requested lc (ie_absolute e) root)
             (filter (\<lambda>e. ie_kind e = Content) (im_inputs m)))))"

definition predicted_paths ::
    "hash_fn \<Rightarrow> (string \<Rightarrow> string) \<Rightarrow> action_cache \<Rightarrow> digest \<Rightarrow> string option \<Rightarrow> disk \<Rightarrow> unit + string list" where
  "predicted_paths blake3 lc ac weak root dk =
     (case get_manifest ac weak dk of
        Inl _ \<Rightarrow> Inl ()
      | Inr None \<Rightarrow> Inr []
      | Inr (Some bs) \<Rightarrow> Inr (case decode_manifest blake3 bs of None \<Rightarrow> [] | Some m \<Rightarrow> predicted_of lc root m))"

section \<open>Trace directories\<close>

record trace_dir =
  td_path :: string
  td_listing :: "string + (string + string) list"
  td_read :: "string \<Rightarrow> string + bytes"

definition load_run :: "trace_dir \<Rightarrow> string + (dependency_graph \<times> string)" where
  "load_run td = load_run_from_dir (td_path td) (td_listing td) (td_read td)"

definition manifest_from_trace_dir :: "filesystem \<Rightarrow> trace_dir \<Rightarrow> string option \<Rightarrow> string + input_manifest" where
  "manifest_from_trace_dir fs td root_override =
     map_sum id (\<lambda>(graph, cwd). input_manifest_of fs graph (effective_root root_override cwd)) (load_run td)"

definition manifest_from_trace_dir_verified_tool ::
    "filesystem \<Rightarrow> trace_dir \<Rightarrow> string option \<Rightarrow> tool_identity \<Rightarrow> string + input_manifest" where
  "manifest_from_trace_dir_verified_tool fs td root_override identity =
     map_sum id (\<lambda>(graph, cwd). input_manifest_with_policy fs graph (effective_root root_override cwd)
       (verified_tool_side_effect_policy identity)) (load_run td)"

definition outputs_from_trace_dir :: "trace_dir \<Rightarrow> string option \<Rightarrow> string + string list" where
  "outputs_from_trace_dir td root_override =
     map_sum id (\<lambda>(graph, cwd). cacheable_outputs (logical_outputs graph (effective_root root_override cwd))) (load_run td)"

section \<open>What the queries promise\<close>

lemma set_first_occurrences [simp]: "set (first_occurrences xs) = set xs"
  by (simp add: first_occurrences_def)

lemma distinct_first_occurrences [simp]: "distinct (first_occurrences xs)"
  by (simp add: first_occurrences_def)

text \<open>
  A prediction never leaves its quota or its scope: whatever is stored under a key, the
  predicted paths are at most \<open>MAX_PREDICTED_PATHS\<close>, without repetition, each inside the scope
  root and each the normal form of a content input of the stored manifest; a missing or
  undecodable manifest predicts nothing.
\<close>
theorem predicted_paths_bounded:
  assumes "predicted_paths blake3 lc ac weak root dk = Inr ps"
  shows "length ps \<le> MAX_PREDICTED_PATHS \<and> distinct ps \<and> (\<forall>p \<in> set ps. path_in_scope lc p root
    \<and> (\<exists>bs m e. get_manifest ac weak dk = Inr (Some bs) \<and> decode_manifest blake3 bs = Some m \<and> e \<in> set (im_inputs m)
         \<and> ie_kind e = Content \<and> normalize_scoped_requested lc (ie_absolute e) root = Some p))"
proof -
  consider "ps = []" | bs m where "get_manifest ac weak dk = Inr (Some bs)" "decode_manifest blake3 bs = Some m" "ps = predicted_of lc root m"
    using assms by (auto simp: predicted_paths_def split: sum.splits option.splits)
  then show ?thesis
  proof cases
    case (2 bs m)
    have "p \<in> set ps \<Longrightarrow> path_in_scope lc p root \<and> (\<exists>e. e \<in> set (im_inputs m) \<and> ie_kind e = Content
        \<and> normalize_scoped_requested lc (ie_absolute e) root = Some p)" for p
      using 2(3) by (auto simp: predicted_of_def map_filter_def dest!: in_set_takeD) blast
    moreover have "length ps \<le> MAX_PREDICTED_PATHS" "distinct ps" using 2(3) by (simp_all add: predicted_of_def)
    ultimately show ?thesis using 2(1,2) by blast
  qed simp
qed

text \<open>
  The weak key follows the compiler: when two NUL-free actions resolve their tool and get
  the same weak key, they have the same argument vector and the same identity digest, so two
  resolved tools of the same key have hashed to the same digest.
\<close>
lemma weak_key_follows_tool:
  assumes k: "weak_key_and_tool blake3 world t0 ct argv e cwd memo memo' = ((weak, identity), m1)"
      "weak_key_and_tool blake3 world' t0' ct' argv' e' cwd' memo2 memo2' = ((weak, identity'), m2)"
    and nf: "nul_free_action argv e cwd (identity_digest identity)" "nul_free_action argv' e' cwd' (identity_digest identity')"
    and inj: "inj_on blake3 {weak_blob argv e cwd (identity_digest identity), weak_blob argv' e' cwd' (identity_digest identity')}"
  shows "argv = argv' \<and> key_cwd cwd = key_cwd cwd' \<and> env_lines e = env_lines e' \<and> identity_digest identity = identity_digest identity'"
proof -
  have "weak_fingerprint blake3 argv e cwd (identity_digest identity) = weak_fingerprint blake3 argv' e' cwd' (identity_digest identity')"
    using k by (auto simp: weak_key_and_tool_def split: prod.splits)
  then show ?thesis using weak_blob_inj [OF nf] digest_of_inj [OF inj] by (simp add: weak_fingerprint_def)
qed

end
