(* ===== verification/Cache_History.thy ===== *)
theory Cache_History
  imports Agent_Cache
begin

text \<open>
  The action cache over time: the states an agent reaches by any interleaving of
  \<open>record\<close>, \<open>resolve\<close> (\<open>src/crates/agent/src/action_cache.rs\<close>) and changes made by the world
  outside (sources edited, blobs evicted, cache files deleted or made unreadable), with a
  history of what was recorded. The invariant is that every file of the two keyed layers is
  the encoding of something recorded under that key; the theorem is the promise the module's
  header makes, that a hit is never stale.
\<close>

record cache_event =
  ce_weak :: digest
  ce_manifest :: input_manifest
  ce_fs :: filesystem
  ce_result :: "(digest \<times> action_result) option"

definition prepared :: "(agent_error + (digest \<times> action_result) option) \<times> blobs \<Rightarrow> (digest \<times> action_result) option" where
  "prepared p = (case fst p of Inr x \<Rightarrow> x | Inl _ \<Rightarrow> None)"

text \<open>The world may change anything but the bytes of a cache file; those it may only take away.\<close>

definition world_step :: "agent_state \<Rightarrow> agent_state \<Rightarrow> bool" where
  "world_step st st' \<longleftrightarrow>
     (\<forall>p b. dk_files (as_disk st') p = FsOk b \<longrightarrow> dk_files (as_disk st) p = FsOk b)"

inductive agent_reach :: "hash_fn \<Rightarrow> action_cache \<Rightarrow> agent_state \<Rightarrow> cache_event list \<Rightarrow> bool"
  for blake3 ac where
  reach_start: "dk_files (as_disk st) = (\<lambda>_. FsNotFound) \<Longrightarrow> agent_reach blake3 ac st []"
| reach_record: "agent_reach blake3 ac st log \<Longrightarrow> digest_ok weak \<Longrightarrow>
    record_action blake3 ac env weak manifest outs exit_code stdout stderr st = (r, st') \<Longrightarrow>
    agent_reach blake3 ac st'
      (\<lparr>ce_weak = weak, ce_manifest = manifest, ce_fs = ae_fs env,
        ce_result = prepared (prepare_result blake3 env weak manifest outs exit_code stdout stderr (as_root st) (as_blobs st))\<rparr>
       # log)"
| reach_resolve: "agent_reach blake3 ac st log \<Longrightarrow> resolve blake3 ac env weak st = (r, st') \<Longrightarrow> agent_reach blake3 ac st' log"
| reach_world: "agent_reach blake3 ac st log \<Longrightarrow> world_step st st' \<Longrightarrow> agent_reach blake3 ac st' log"

section \<open>Every stored entry was recorded\<close>

definition weak_layer_ok :: "hash_fn \<Rightarrow> action_cache \<Rightarrow> disk \<Rightarrow> cache_event list \<Rightarrow> bool" where
  "weak_layer_ok blake3 ac dk log \<longleftrightarrow>
     (\<forall>w b. digest_ok w \<longrightarrow> dk_files dk (key_path (ac_weak_root ac) w) = FsOk b \<longrightarrow>
        (\<exists>ev \<in> set log. ce_weak ev = w \<and> b = encode_manifest blake3 (ce_manifest ev)))"

definition result_recorded :: "hash_fn \<Rightarrow> cache_event \<Rightarrow> digest \<Rightarrow> action_result \<Rightarrow> bool" where
  "result_recorded blake3 ev s res \<longleftrightarrow> ce_result ev = Some (s, res) \<and> digest_ok (ce_weak ev)
     \<and> (\<exists>h. manifest_hash (ce_fs ev) (ce_manifest ev) = Some h \<and> s = strong_fingerprint blake3 (ce_weak ev) h)"

definition strong_layer_ok :: "hash_fn \<Rightarrow> action_cache \<Rightarrow> disk \<Rightarrow> cache_event list \<Rightarrow> bool" where
  "strong_layer_ok blake3 ac dk log \<longleftrightarrow>
     (\<forall>s b. digest_ok s \<longrightarrow> dk_files dk (key_path (ac_strong_root ac) s) = FsOk b \<longrightarrow>
        (\<exists>ev \<in> set log. \<exists>res. result_recorded blake3 ev s res \<and> b = action_result_encode blake3 res))"

lemma digest_hex_eq: "di_hex (d :: digest) = di_hex (d' :: digest) \<Longrightarrow> d = d'"
  by (cases d; cases d'; case_tac di_algo; case_tac di_algoa) simp

lemma key_path_eq: "digest_ok d \<Longrightarrow> digest_ok d' \<Longrightarrow> key_path root d = key_path root d' \<longleftrightarrow> d = d'"
  using key_path_inj [of root d d'] digest_hex_eq [of d d']
  by (cases "di_algo d"; cases "di_algo d'") (auto simp: digest_ok_def)

lemma layers_disjoint [simp]:
  "key_path (ac_weak_root (action_cache_open root)) d \<noteq> key_path (ac_strong_root (action_cache_open root)) d'"
  "key_path (ac_strong_root (action_cache_open root)) d' \<noteq> key_path (ac_weak_root (action_cache_open root)) d"
  by (simp_all add: key_path_def action_cache_open_def)

lemma write_atomic_files:
  "write_atomic path bs dk = (ok, dk') \<Longrightarrow> dk_files dk' p = FsOk b \<Longrightarrow> dk_files dk p = FsOk b \<or> p = path \<and> b = bs"
  by (auto simp: write_atomic_def split: if_splits)

lemma layers_mono:
  assumes "\<And>p b. dk_files dk' p = FsOk b \<Longrightarrow> dk_files dk p = FsOk b"
  shows "weak_layer_ok blake3 ac dk log \<Longrightarrow> weak_layer_ok blake3 ac dk' (ev @ log)"
    "strong_layer_ok blake3 ac dk log \<Longrightarrow> strong_layer_ok blake3 ac dk' (ev @ log)"
  using assms by (fastforce simp: weak_layer_ok_def strong_layer_ok_def)+

lemma put_manifest_layers:
  assumes "put_manifest ac weak (encode_manifest blake3 m) dk = (ok, dk')" "ac = action_cache_open root"
    "digest_ok weak" "ce_weak ev = weak" "ce_manifest ev = m"
  shows "weak_layer_ok blake3 ac dk log \<Longrightarrow> weak_layer_ok blake3 ac dk' (ev # log)"
    "strong_layer_ok blake3 ac dk log \<Longrightarrow> strong_layer_ok blake3 ac dk' (ev # log)"
proof -
  note w = write_atomic_files [OF assms(1) [unfolded put_manifest_def]]
  show "weak_layer_ok blake3 ac dk' (ev # log)" if "weak_layer_ok blake3 ac dk log"
    unfolding weak_layer_ok_def
  proof (intro allI impI)
    fix d b assume d: "digest_ok d" "dk_files dk' (key_path (ac_weak_root ac) d) = FsOk b"
    from w [OF d(2)] show "\<exists>ev \<in> set (ev # log). ce_weak ev = d \<and> b = encode_manifest blake3 (ce_manifest ev)"
      using that d(1) assms(3-5) by (auto simp: weak_layer_ok_def key_path_eq)
  qed
  show "strong_layer_ok blake3 ac dk' (ev # log)" if "strong_layer_ok blake3 ac dk log"
    unfolding strong_layer_ok_def
  proof (intro allI impI)
    fix s b assume s: "digest_ok s" "dk_files dk' (key_path (ac_strong_root ac) s) = FsOk b"
    then have "dk_files dk (key_path (ac_strong_root ac) s) = FsOk b" using w [OF s(2)] assms(2) by simp
    then show "\<exists>ev \<in> set (ev # log). \<exists>res. result_recorded blake3 ev s res \<and> b = action_result_encode blake3 res"
      using that s(1) by (auto simp: strong_layer_ok_def)
  qed
qed

lemma put_result_layers:
  assumes "put_result blake3 ac s0 res dk = (ok, dk')" "ac = action_cache_open root"
    "digest_ok s0" "result_recorded blake3 ev s0 res" "ev \<in> set log"
  shows "weak_layer_ok blake3 ac dk log \<Longrightarrow> weak_layer_ok blake3 ac dk' log"
    "strong_layer_ok blake3 ac dk log \<Longrightarrow> strong_layer_ok blake3 ac dk' log"
proof -
  note w = write_atomic_files [OF assms(1) [unfolded put_result_def]]
  show "weak_layer_ok blake3 ac dk' log" if "weak_layer_ok blake3 ac dk log"
    unfolding weak_layer_ok_def
  proof (intro allI impI)
    fix d b assume d: "digest_ok d" "dk_files dk' (key_path (ac_weak_root ac) d) = FsOk b"
    then have "dk_files dk (key_path (ac_weak_root ac) d) = FsOk b" using w [OF d(2)] assms(2) by simp
    then show "\<exists>ev \<in> set log. ce_weak ev = d \<and> b = encode_manifest blake3 (ce_manifest ev)"
      using that d(1) by (auto simp: weak_layer_ok_def)
  qed
  show "strong_layer_ok blake3 ac dk' log" if "strong_layer_ok blake3 ac dk log"
    unfolding strong_layer_ok_def
  proof (intro allI impI)
    fix s b assume s: "digest_ok s" "dk_files dk' (key_path (ac_strong_root ac) s) = FsOk b"
    from w [OF s(2)] show "\<exists>ev \<in> set log. \<exists>res. result_recorded blake3 ev s res \<and> b = action_result_encode blake3 res"
      using that s(1) assms(3-5) by (auto simp: strong_layer_ok_def key_path_eq)
  qed
qed

lemma prepare_result_recorded:
  assumes "prepare_result blake3 env weak m outs code so se root bl = (Inr (Some (s, res)), bl')"
    and "digest_ok weak"
  shows "result_recorded blake3 \<lparr>ce_weak = weak, ce_manifest = m, ce_fs = ae_fs env, ce_result = Some (s, res)\<rparr> s res"
  using assms by (auto simp: prepare_result_def result_recorded_def split: option.splits prod.splits)

lemma record_layers:
  assumes blake3: "blake3_output blake3" and ac: "ac = action_cache_open root" and weak: "digest_ok weak"
    and rec: "record_action blake3 ac env weak m outs code so se st = (r, st')"
    and ev: "ev = \<lparr>ce_weak = weak, ce_manifest = m, ce_fs = ae_fs env,
        ce_result = prepared (prepare_result blake3 env weak m outs code so se (as_root st) (as_blobs st))\<rparr>"
    and inv: "weak_layer_ok blake3 ac (as_disk st) log" "strong_layer_ok blake3 ac (as_disk st) log"
  shows "weak_layer_ok blake3 ac (as_disk st') (ev # log)" "strong_layer_ok blake3 ac (as_disk st') (ev # log)"
proof -
  obtain ok dk where pm: "put_manifest ac weak (encode_manifest blake3 m) (as_disk st) = (ok, dk)" by fastforce
  obtain pr bl where pr: "prepare_result blake3 env weak m outs code so se (as_root st) (as_blobs st) = (pr, bl)" by fastforce
  have dk: "weak_layer_ok blake3 ac dk (ev # log)" "strong_layer_ok blake3 ac dk (ev # log)"
    using put_manifest_layers [OF pm ac weak, of ev log] inv ev by simp_all
  consider "as_disk st' = as_disk st" | "as_disk st' = dk"
    | s res ok' where "pr = Inr (Some (s, res))" "put_result blake3 ac s res dk = (ok', as_disk st')"
    using rec pm pr by (auto simp: record_action_def split: if_splits sum.splits option.splits prod.splits bool.splits)
  then have "weak_layer_ok blake3 ac (as_disk st') (ev # log) \<and> strong_layer_ok blake3 ac (as_disk st') (ev # log)"
  proof cases
    case 1
    then show ?thesis using layers_mono [of "as_disk st'" "as_disk st" blake3 ac log "[ev]"] inv by simp
  next
    case 2
    then show ?thesis using dk by simp
  next
    case (3 s res ok')
    have "result_recorded blake3 ev s res"
      using prepare_result_recorded [OF pr [unfolded 3(1)] weak] ev pr 3(1) by (simp add: prepared_def)
    moreover from this have "digest_ok s"
      using digest_of_ok [OF blake3] by (auto simp: result_recorded_def strong_fingerprint_def)
    ultimately show ?thesis using put_result_layers [OF 3(2) ac, of ev "ev # log"] dk by simp
  qed
  then show "weak_layer_ok blake3 ac (as_disk st') (ev # log)" "strong_layer_ok blake3 ac (as_disk st') (ev # log)" by simp_all
qed

lemma resolve_keeps_disk: "resolve blake3 ac env weak st = (r, st') \<Longrightarrow> as_disk st' = as_disk st"
  by (drule resolve_cases) (auto dest: publish_result_spec)

lemma reach_layers:
  assumes "agent_reach blake3 ac st log" "blake3_output blake3" "ac = action_cache_open root"
  shows "weak_layer_ok blake3 ac (as_disk st) log \<and> strong_layer_ok blake3 ac (as_disk st) log"
  using assms(1)
proof induction
  case (reach_record st log weak env manifest outs exit_code stdout stderr r st')
  then show ?case using record_layers [OF assms(2,3) reach_record.hyps(2,3) refl] by simp
next
  case (reach_world st log st')
  then show ?case using layers_mono [of "as_disk st'" "as_disk st" blake3 ac log "[]"] by (simp add: world_step_def)
qed (auto simp: weak_layer_ok_def strong_layer_ok_def dest: resolve_keeps_disk)

section \<open>No stale hit\<close>

lemma token_same_reading:
  assumes "input_token fs e = Some tok" "input_token fs' e' = Some tok"
    and "\<And>b b'. fs_file fs (ie_absolute e) = FsOk b \<Longrightarrow> fs_file fs' (ie_absolute e') = FsOk b' \<Longrightarrow>
           sha256_hex b = sha256_hex b' \<Longrightarrow> b = b'"
  shows "ie_kind e = ie_kind e' \<and> fs_file fs (ie_absolute e) = fs_file fs' (ie_absolute e')"
proof -
  have kind: "(ie_kind e = Content) = (length tok \<in> {64, 9})" if "input_token fs e = Some tok" for fs e
    using that by (cases "ie_kind e"; cases "fs_file fs (ie_absolute e)") (auto simp: input_token_def)
  have kinds: "ie_kind e = ie_kind e'"
    using kind [OF assms(1)] kind [OF assms(2)] by (cases "ie_kind e"; cases "ie_kind e'") simp_all
  have tok: "input_token fs e = input_token fs' e'" using assms(1,2) by simp
  have "fs_file fs (ie_absolute e) = fs_file fs' (ie_absolute e')"
  proof (cases "fs_file fs (ie_absolute e)"; cases "fs_file fs' (ie_absolute e')")
    fix b b' assume b: "fs_file fs (ie_absolute e) = FsOk b" "fs_file fs' (ie_absolute e') = FsOk b'"
    then have "sha256_hex b = sha256_hex b'"
      using tok kinds by (cases "ie_kind e"; cases "ie_kind e'") (simp_all add: input_token_def)
    then show ?thesis using assms(3) [OF b] b by simp
  qed (use tok assms(1,2) kinds in \<open>cases "ie_kind e"; cases "ie_kind e'"; simp add: input_token_def\<close>)+
  then show ?thesis using kinds by simp
qed

lemma CMD_MARKER_not_line: "nul \<notin> set CMD_MARKER"
  by (simp add: CMD_MARKER_def)

lemma sorted_parts:
  assumes "xs @ CMD_MARKER # cs = ys @ CMD_MARKER # ds" "\<forall>x \<in> set xs. nul \<in> set x" "\<forall>y \<in> set ys. nul \<in> set y"
  shows "xs = ys \<and> cs = ds"
  using assms
proof (induction xs arbitrary: ys)
  case Nil
  then show ?case using CMD_MARKER_not_line by (cases ys) auto
next
  case (Cons x xs)
  then show ?case using CMD_MARKER_not_line by (cases ys) auto
qed

text \<open>
  The reading of the inputs of a manifest at one time matches that of another manifest at
  another time: the same commands, and for every input one of the same name and kind that
  reads the same.
\<close>

definition same_inputs :: "filesystem \<Rightarrow> input_manifest \<Rightarrow> filesystem \<Rightarrow> input_manifest \<Rightarrow> bool" where
  "same_inputs fs m fs' m' \<longleftrightarrow> im_cmds m = im_cmds m'
     \<and> (\<forall>e' \<in> set (im_inputs m'). \<exists>e \<in> set (im_inputs m). ie_logical e = ie_logical e' \<and> ie_kind e = ie_kind e'
          \<and> fs_file fs (ie_absolute e) = fs_file fs' (ie_absolute e'))"

lemma manifest_hash_same_inputs:
  assumes wf: "manifest_wf m" "manifest_wf m'"
    and h: "manifest_hash fs m = Some h" "manifest_hash fs' m' = Some h"
    and inj: "inj_on sha256_hex (hashed fs m \<union> hashed fs' m')"
  shows "same_inputs fs m fs' m'"
proof -
  obtain cs ds where c: "manifest_components fs m = Some cs" "manifest_components fs' m' = Some ds"
    and hh: "hash_components cs = h" "hash_components ds = h"
    using h by (auto simp: manifest_hash_def)
  have "components_blob cs \<in> hashed fs m" "components_blob ds \<in> hashed fs' m'"
    using c by (simp_all add: hashed_def)
  then have "components_blob cs = components_blob ds"
    using inj hh unfolding hash_components_def inj_on_def by auto
  then have eq: "cs = ds"
    using components_blob_inj manifest_components_no_newline [OF wf(1) c(1)] manifest_components_no_newline [OF wf(2) c(2)] by metis
  let ?ls = "map (entry_line fs) (im_inputs m)" and ?ls' = "map (entry_line fs') (im_inputs m')"
  have lines: "\<forall>x \<in> set (sort (map (entry_line f) es)). nul \<in> set x" for f es by (auto simp: entry_line_def)
  have parts: "sort ?ls = sort ?ls' \<and> im_cmds m = im_cmds m'"
    using eq unfolding manifest_components_Some(1) [OF c(1)] manifest_components_Some(1) [OF c(2)]
    by (intro sorted_parts lines) simp
  then have set_eq: "set ?ls = set ?ls'" by (metis set_sort)
  have "\<exists>e \<in> set (im_inputs m). ie_logical e = ie_logical e' \<and> ie_kind e = ie_kind e'
          \<and> fs_file fs (ie_absolute e) = fs_file fs' (ie_absolute e')" if e': "e' \<in> set (im_inputs m')" for e'
  proof -
    obtain e where e: "e \<in> set (im_inputs m)" "entry_line fs e = entry_line fs' e'"
      using set_eq e' by (metis (no_types, lifting) image_iff list.set_map)
    have "nul \<notin> set (ie_logical e)" "nul \<notin> set (ie_logical e')" using wf e(1) e' by (simp_all add: manifest_wf_def)
    note l = entry_line_inj [OF this e(2)]
    obtain t t' where "input_token fs e = Some t" "input_token fs' e' = Some t'"
      using manifest_components_Some(2) [OF c(1)] manifest_components_Some(2) [OF c(2)] e(1) e' by blast
    then have t: "input_token fs e = Some t" "input_token fs' e' = Some t" using l by simp_all
    have "b = b'" if b: "fs_file fs (ie_absolute e) = FsOk b" "fs_file fs' (ie_absolute e') = FsOk b'"
        "sha256_hex b = sha256_hex b'" for b b'
    proof -
      have "b \<in> hashed fs m" "b' \<in> hashed fs' m'" using b e(1) e' by (auto simp: hashed_def file_contents_def)
      then show ?thesis using inj b(3) by (auto dest: inj_onD)
    qed
    from token_same_reading [OF t this] show ?thesis using e(1) l by blast
  qed
  then show ?thesis using parts by (simp add: same_inputs_def)
qed

text \<open>
  What the argument asks of the history (the manifests and results are within the codec's
  limits and free of the separators the hashes use) and of the two hash functions (no
  collision among the strings hashed when recording or when resolving now).
\<close>

definition event_ok :: "hash_fn \<Rightarrow> cache_event \<Rightarrow> bool" where
  "event_ok blake3 ev \<longleftrightarrow> manifest_ok (ce_manifest ev) \<and> manifest_wf (ce_manifest ev)
     \<and> length (encode_manifest blake3 (ce_manifest ev)) < usize_bound
     \<and> (\<forall>s res. ce_result ev = Some (s, res) \<longrightarrow> result_ok res \<and> length (action_result_encode blake3 res) < usize_bound)"

definition strong_blobs :: "filesystem \<Rightarrow> digest \<Rightarrow> cache_event list \<Rightarrow> bytes set" where
  "strong_blobs fs weak log =
     {b. \<exists>ev \<in> set log. \<exists>h. manifest_hash (ce_fs ev) (ce_manifest ev) = Some h \<and> b = strong_blob (ce_weak ev) h}
     \<union> {b. \<exists>ev \<in> set log. \<exists>h. manifest_hash fs (ce_manifest ev) = Some h \<and> b = strong_blob weak h}"

definition sha_strings :: "filesystem \<Rightarrow> cache_event list \<Rightarrow> bytes set" where
  "sha_strings fs log = (\<Union>ev \<in> set log. hashed (ce_fs ev) (ce_manifest ev) \<union> hashed fs (ce_manifest ev))"

lemma stored_manifest:
  assumes "weak_layer_ok blake3 ac dk log" "\<forall>ev \<in> set log. event_ok blake3 ev" "blake3_output blake3" "digest_ok weak"
    and "get_manifest ac weak dk = Inr (Some mb)" "decode_manifest blake3 mb = Some m"
  shows "\<exists>ev \<in> set log. ce_weak ev = weak \<and> ce_manifest ev = m"
proof -
  have "dk_files dk (key_path (ac_weak_root ac) weak) = FsOk mb"
    using assms(5) by (auto simp: get_manifest_def split: fs_read.splits)
  then obtain ev where ev: "ev \<in> set log" "ce_weak ev = weak" "mb = encode_manifest blake3 (ce_manifest ev)"
    using assms(1,4) by (auto simp: weak_layer_ok_def)
  then have "decode_manifest blake3 mb = Some (ce_manifest ev)"
    using manifest_codec [OF assms(3)] assms(2) by (auto simp: event_ok_def)
  then show ?thesis using ev assms(6) by auto
qed

lemma stored_result:
  assumes "strong_layer_ok blake3 ac dk log" "\<forall>ev \<in> set log. event_ok blake3 ev" "blake3_output blake3" "digest_ok s"
    and "get_result blake3 ac s dk = Inr (Some res)"
  shows "\<exists>ev \<in> set log. result_recorded blake3 ev s res"
proof -
  obtain b where b: "dk_files dk (key_path (ac_strong_root ac) s) = FsOk b" "action_result_decode blake3 b = Some res"
    using assms(5) by (auto simp: get_result_def split: fs_read.splits)
  then obtain ev res' where ev: "ev \<in> set log" "result_recorded blake3 ev s res'" "b = action_result_encode blake3 res'"
    using assms(1,4) unfolding strong_layer_ok_def by blast
  then have "result_ok res'" "length b < usize_bound" using assms(2) by (auto simp: event_ok_def result_recorded_def)
  then have "action_result_decode blake3 b = Some res'"
    using action_result_codec [OF assms(3)] ev(3) by auto
  then show ?thesis using ev b(2) by auto
qed

lemma hit_was_recorded:
  assumes reach: "agent_reach blake3 (action_cache_open root) st log" and blake3: "blake3_output blake3"
    and ok: "\<forall>ev \<in> set log. event_ok blake3 ev" and weak: "digest_ok weak"
    and inj: "inj_on blake3 (strong_blobs (ae_fs env) weak log)" "inj_on sha256_hex (sha_strings (ae_fs env) log)"
    and hit: "resolve blake3 (action_cache_open root) env weak st = (Inr (Hit code so se), st')"
  shows "\<exists>ev \<in> set log. \<exists>stored \<in> set log. \<exists>s res. ce_weak ev = weak \<and> ce_weak stored = weak \<and> ce_result ev = Some (s, res)
      \<and> code = ar_exit_code res \<and> same_inputs (ae_fs env) (ce_manifest stored) (ce_fs ev) (ce_manifest ev)"
proof -
  note lay = reach_layers [OF reach blake3 refl]
  from resolve_cases [OF hit] obtain mb m h res
    where g: "get_manifest (action_cache_open root) weak (as_disk st) = Inr (Some mb)" "decode_manifest blake3 mb = Some m"
      "manifest_hash (ae_fs env) m = Some h"
      "get_result blake3 (action_cache_open root) (strong_fingerprint blake3 weak h) (as_disk st) = Inr (Some res)"
      "publish_result blake3 env res st = (Inr (Hit code so se), st')" by auto
  obtain stored where st: "stored \<in> set log" "ce_weak stored = weak" "ce_manifest stored = m"
    using stored_manifest [OF _ ok blake3 weak g(1,2)] lay by blast
  have "digest_ok (strong_fingerprint blake3 weak h)" by (simp add: strong_fingerprint_def digest_of_ok [OF blake3])
  then obtain ev where ev: "ev \<in> set log" "result_recorded blake3 ev (strong_fingerprint blake3 weak h) res"
    using stored_result [OF _ ok blake3 _ g(4)] lay by blast
  then obtain h' where h': "manifest_hash (ce_fs ev) (ce_manifest ev) = Some h'" "digest_ok (ce_weak ev)"
    and s: "digest_of blake3 (strong_blob weak h) = digest_of blake3 (strong_blob (ce_weak ev) h')"
    by (auto simp: result_recorded_def strong_fingerprint_def)
  have "{strong_blob weak h, strong_blob (ce_weak ev) h'} \<subseteq> strong_blobs (ae_fs env) weak log"
    using st g(3) ev(1) h'(1) by (auto simp: strong_blobs_def)
  then have "strong_blob weak h = strong_blob (ce_weak ev) h'"
    using digest_of_inj [OF inj_on_subset [OF inj(1)] s] by blast
  then have w: "ce_weak ev = weak" "h' = h" using strong_blob_inj [OF weak h'(2)] by auto
  have "hashed (ae_fs env) m \<union> hashed (ce_fs ev) (ce_manifest ev) \<subseteq> sha_strings (ae_fs env) log"
    using st ev(1) by (auto simp: sha_strings_def)
  then have "same_inputs (ae_fs env) m (ce_fs ev) (ce_manifest ev)"
    using manifest_hash_same_inputs [OF _ _ g(3) h'(1) [unfolded w(2)] inj_on_subset [OF inj(2)]] ok st ev(1)
    by (auto simp: event_ok_def)
  moreover have "code = ar_exit_code res" using publish_result_spec [OF g(5)] by blast
  ultimately show ?thesis using st ev w(1) by (auto simp: result_recorded_def)
qed

text \<open>
  C1. A hit is never stale. In every state reachable by recording, resolving and outside
  changes, a hit for an action returns the exit code of a run recorded under the same weak
  key, and every input that run's manifest names reads now, byte for byte, deletions and
  appearances included, as it read when the run was recorded, unless one of the two hash
  functions collides on the strings involved.
\<close>
theorem no_stale_hit:
  assumes "agent_reach blake3 (action_cache_open root) st log" and "blake3_output blake3"
    and "\<forall>ev \<in> set log. event_ok blake3 ev" and "digest_ok weak"
    and "inj_on blake3 (strong_blobs (ae_fs env) weak log)" and "inj_on sha256_hex (sha_strings (ae_fs env) log)"
    and "resolve blake3 (action_cache_open root) env weak st = (Inr (Hit code so se), st')"
  shows "\<exists>ev \<in> set log. \<exists>stored \<in> set log. \<exists>s res. ce_weak ev = weak \<and> ce_weak stored = weak \<and> ce_result ev = Some (s, res)
      \<and> code = ar_exit_code res \<and> same_inputs (ae_fs env) (ce_manifest stored) (ce_fs ev) (ce_manifest ev)"
  by (rule hit_was_recorded [OF assms])

definition demo_event :: cache_event where
  "demo_event = \<lparr>ce_weak = sample_tool, ce_manifest = sample_stored, ce_fs = empty_fs True,
     ce_result = Some (demo_strong, demo_result)\<rparr>"

lemma demo_reach: "agent_reach toy_hash (action_cache_open ''c'') demo_recorded [demo_event]"
proof -
  have "agent_reach toy_hash demo_cache demo_start []" by (rule reach_start) (simp add: demo_start_def)
  from reach_record [OF this sample_tool_ok demo_record] show ?thesis
    unfolding demo_prepare by (simp add: demo_event_def prepared_def demo_env_def demo_cache_def)
qed

theorem no_stale_hit_witness:
  "\<exists>ev \<in> set [demo_event]. \<exists>stored \<in> set [demo_event]. \<exists>s res. ce_weak ev = sample_tool \<and> ce_weak stored = sample_tool
      \<and> ce_result ev = Some (s, res) \<and> 0 = ar_exit_code res
      \<and> same_inputs (ae_fs demo_env) (ce_manifest stored) (ce_fs ev) (ce_manifest ev)"
proof (rule no_stale_hit [OF demo_reach toy_hash_output _ sample_tool_ok _ _ demo_resolve [unfolded demo_cache_def]])
  have wf: "manifest_wf sample_stored" by (simp add: manifest_wf_def sample_stored_def)
  show "\<forall>ev \<in> set [demo_event]. event_ok toy_hash ev"
    using sample_stored_length demo_result_ok
    by (simp add: event_ok_def demo_event_def sample_stored_ok wf)
  have "strong_blobs (ae_fs demo_env) sample_tool [demo_event] \<subseteq> {strong_blob sample_tool demo_hash}"
    by (auto simp: strong_blobs_def demo_event_def demo_env_def demo_manifest_hash)
  then show "inj_on toy_hash (strong_blobs (ae_fs demo_env) sample_tool [demo_event])"
    using inj_on_subset [of toy_hash "{strong_blob sample_tool demo_hash}"] by simp
  have "hashed (empty_fs True) sample_stored \<subseteq> {components_blob (the (manifest_components (empty_fs True) sample_stored))}"
    by (auto simp: hashed_def file_contents_def empty_fs_def)
  then show "inj_on sha256_hex (sha_strings (ae_fs demo_env) [demo_event])"
    using inj_on_subset [of sha256_hex "{components_blob (the (manifest_components (empty_fs True) sample_stored))}"]
    by (simp add: sha_strings_def demo_event_def demo_env_def)
qed

end
