(* ===== verification/Cache_Hit.thy ===== *)
theory Cache_Hit
  imports Cache_History
begin

text \<open>
  The positive side of the action cache: a run that was recorded is found again. While its
  inputs read as before and nothing of the cache was lost, \<open>resolve\<close> restores every output
  and both streams (\<open>src/crates/agent/src/action_cache.rs\<close>).
\<close>

section \<open>Ingested content stays readable\<close>

lemma store_put_keeps:
  assumes "store_put blake3 os bs bl = (Inr d, bl')" "verify_secure_file blake3 bl e"
  shows "verify_secure_file blake3 bl' e"
proof (cases "di_hex e = di_hex d")
  case True
  then show ?thesis using digest_hex_eq [OF True] store_put_spec(2) [OF assms(1)] by simp
next
  case False
  then show ?thesis using assms(2) store_put_spec(3) [OF assms(1) False] by (simp add: verify_secure_file_def)
qed

definition ingested :: "hash_fn \<Rightarrow> (string \<Rightarrow> fs_read) \<Rightarrow> string \<Rightarrow> output_file \<Rightarrow> bool" where
  "ingested blake3 root logical out \<longleftrightarrow> of_logical_path out = logical
     \<and> (\<exists>bs. root (root_rel logical) = FsOk bs \<and> of_digest out = digest_of blake3 bs)"

lemma ingest_outputs_spec:
  assumes "ingest_outputs blake3 env root ls bl = (Some outs, bl')"
  shows "list_all2 (ingested blake3 root) ls outs \<and> (\<forall>o' \<in> set outs. verify_secure_file blake3 bl' (of_digest o'))
    \<and> (\<forall>d. verify_secure_file blake3 bl d \<longrightarrow> verify_secure_file blake3 bl' d)"
  using assms
proof (induction ls arbitrary: bl outs)
  case (Cons l ls)
  obtain bs d bl1 outs' where s: "root (root_rel l) = FsOk bs" "store_put blake3 (ae_os env) bs bl = (Inr d, bl1)"
      "ingest_outputs blake3 env root ls bl1 = (Some outs', bl')" "outs = \<lparr>of_logical_path = l, of_digest = d\<rparr> # outs'"
    using Cons.prems by (auto split: fs_read.splits prod.splits sum.splits option.splits)
  note ih = Cons.IH [OF s(3)]
  have "verify_secure_file blake3 bl' d" "d = digest_of blake3 bs" using ih store_put_spec [OF s(2)] by auto
  with ih s store_put_keeps [OF s(2)] show ?case by (auto simp: ingested_def)
qed simp

lemma ingest_stream_spec:
  assumes "ingest_stream blake3 env bs bl = (Some d, bl')"
  shows "d = (if bs = [] then None else Some (digest_of blake3 bs))
    \<and> (\<forall>x. d = Some x \<longrightarrow> verify_secure_file blake3 bl' x) \<and> (\<forall>x. verify_secure_file blake3 bl x \<longrightarrow> verify_secure_file blake3 bl' x)"
  using assms store_put_spec(1,2) store_put_keeps
  by (fastforce simp: ingest_stream_def split: if_splits prod.splits sum.splits)

definition retained :: "hash_fn \<Rightarrow> blobs \<Rightarrow> action_result \<Rightarrow> bool" where
  "retained blake3 bl res \<longleftrightarrow> (\<forall>o' \<in> set (ar_outputs res). verify_secure_file blake3 bl (of_digest o'))
     \<and> (\<forall>d. ar_stdout res = Some d \<or> ar_stderr res = Some d \<longrightarrow> verify_secure_file blake3 bl d)"

definition stream_digest :: "hash_fn \<Rightarrow> bytes \<Rightarrow> digest option" where
  "stream_digest blake3 bs = (if bs = [] then None else Some (digest_of blake3 bs))"

lemma prepare_result_spec:
  assumes "prepare_result blake3 env weak m outs code so se root bl = (Inr (Some (s, res)), bl')"
  shows "\<exists>h. manifest_hash (ae_fs env) m = Some h \<and> s = strong_fingerprint blake3 weak h"
    "ar_exit_code res = code" "ar_stdout res = stream_digest blake3 so" "ar_stderr res = stream_digest blake3 se"
    "list_all2 (ingested blake3 root) outs (ar_outputs res)" "retained blake3 bl' res"
proof -
  obtain os bl1 h sod bl2 sed where p: "ingest_outputs blake3 env root outs bl = (Some os, bl1)" "manifest_hash (ae_fs env) m = Some h"
      "ingest_stream blake3 env so bl1 = (Some sod, bl2)" "ingest_stream blake3 env se bl2 = (Some sed, bl')"
      "s = strong_fingerprint blake3 weak h" "res = \<lparr>ar_exit_code = code, ar_outputs = os, ar_stdout = sod, ar_stderr = sed\<rparr>"
    using assms by (auto simp: prepare_result_def split: prod.splits option.splits)
  note i = ingest_outputs_spec [OF p(1)] ingest_stream_spec [OF p(3)] ingest_stream_spec [OF p(4)]
  show "\<exists>h. manifest_hash (ae_fs env) m = Some h \<and> s = strong_fingerprint blake3 weak h" "ar_exit_code res = code"
    using p by simp_all
  show "ar_stdout res = stream_digest blake3 so" "ar_stderr res = stream_digest blake3 se"
      "list_all2 (ingested blake3 root) outs (ar_outputs res)" "retained blake3 bl' res"
    using i p(6) by (auto simp: stream_digest_def retained_def)
qed

section \<open>Restoring\<close>

text \<open>An environment in which the store opens and nothing under the build root fails.\<close>

definition env_good :: "agent_env \<Rightarrow> bool" where
  "env_good env \<longleftrightarrow> os_open (ae_os env) \<and> ae_root_ok env \<and> (\<forall>r. ae_stage_ok env r) \<and> (\<forall>r. ae_commit env r = CommitOk)"

lemma stage_outputs_restores:
  assumes "list_all2 (ingested blake3 root) ls outs" "\<forall>l \<in> set ls. is_under_build_root l" "env_good env"
    and "\<forall>o' \<in> set outs. verify_secure_file blake3 bl (of_digest o')"
    and "\<And>l bs. l \<in> set ls \<Longrightarrow> root (root_rel l) = FsOk bs \<Longrightarrow> no_second_preimage blake3 bs"
  shows "\<exists>staged. stage_outputs blake3 env bl outs = Inr (Some staged) \<and> map fst staged = map root_rel ls
    \<and> (\<forall>(r, bs) \<in> set staged. root r = FsOk bs)"
  using assms(1,2,4,5)
proof (induction rule: list_all2_induct)
  case (Cons l ls out outs)
  obtain staged where st: "stage_outputs blake3 env bl outs = Inr (Some staged)" "map fst staged = map root_rel ls"
      "\<forall>(r, bs) \<in> set staged. root r = FsOk bs"
    using Cons.IH Cons.prems by auto
  obtain bs where bs: "root (root_rel l) = FsOk bs" "of_digest out = digest_of blake3 bs" "of_logical_path out = l"
    using Cons.hyps(1) by (auto simp: ingested_def)
  have "get_verified blake3 (ae_os env) bl (of_digest out) = Inr (Some bs)"
    using verified_content [of blake3 bl bs "ae_os env"] Cons.prems(2,3) bs assms(3) by (auto simp: env_good_def)
  then show ?case using st bs Cons.prems(1) assms(3) by (simp add: env_good_def)
qed simp

lemma commit_outputs_restores:
  assumes "env_good env" "\<forall>(r, bs) \<in> set staged. root r = FsOk bs"
  shows "\<exists>root'. commit_outputs env staged now = (True, root') \<and> (\<forall>r \<in> fst ` set staged. root' r = root r)"
  using assms(2)
proof (induction staged arbitrary: now)
  case (Cons rb staged)
  obtain r bs where rb: "rb = (r, bs)" by (cases rb)
  have ok: "ae_commit env r = CommitOk" using assms(1) by (simp add: env_good_def)
  obtain root' where root': "commit_outputs env staged (now(r := FsOk bs)) = (True, root')"
      "\<forall>r \<in> fst ` set staged. root' r = root r"
    using Cons.IH [of "now(r := FsOk bs)"] Cons.prems by (auto simp del: fun_upd_apply)
  have "root' r = root r"
  proof (cases "r \<in> fst ` set staged")
    case False
    from commit_outputs_frame [OF this, of env "now(r := FsOk bs)"] root'(1) Cons.prems rb show ?thesis by simp
  qed (use root'(2) in blast)
  then show ?case using root' ok rb by auto
qed simp

lemma replay_restores:
  assumes "d = stream_digest blake3 bs" "\<forall>x. d = Some x \<longrightarrow> verify_secure_file blake3 bl x" "bs \<noteq> [] \<longrightarrow> no_second_preimage blake3 bs" "env_good env"
  shows "replay_stream blake3 env bl d = bs"
  using assms verified_content [of blake3 bl bs "ae_os env"]
  by (auto simp: replay_stream_def stream_digest_def env_good_def split: option.splits)

text \<open>The event that recording adds to the history.\<close>

definition recorded_event ::
    "hash_fn \<Rightarrow> agent_env \<Rightarrow> digest \<Rightarrow> input_manifest \<Rightarrow> string list \<Rightarrow> u32 \<Rightarrow> bytes \<Rightarrow> bytes \<Rightarrow> agent_state \<Rightarrow> cache_event" where
  "recorded_event blake3 env weak m outs code so se st = \<lparr>ce_weak = weak, ce_manifest = m, ce_fs = ae_fs env,
     ce_result = prepared (prepare_result blake3 env weak m outs code so se (as_root st) (as_blobs st))\<rparr>"

lemma write_atomic_read:
  "write_atomic path bs dk = (True, dk') \<Longrightarrow> \<not> dk_rename_fails dk path \<Longrightarrow> dk_files dk' path = FsOk bs \<and> dk_rename_fails dk' = dk_rename_fails dk"
  by (auto simp: write_atomic_def split: if_splits)

lemma record_action_stored:
  assumes rec: "record_action blake3 ac env weak m outs code so se st = (Inr (), st')" and "im_cacheable m" "ac = action_cache_open root"
    and h: "manifest_hash (ae_fs env) m = Some h" and ren: "\<And>p. \<not> dk_rename_fails (as_disk st) p"
  obtains s res where "prepare_result blake3 env weak m outs code so se (as_root st) (as_blobs st) = (Inr (Some (s, res)), as_blobs st')"
    "dk_files (as_disk st') (key_path (ac_weak_root ac) weak) = FsOk (encode_manifest blake3 m)"
    "dk_files (as_disk st') (key_path (ac_strong_root ac) s) = FsOk (action_result_encode blake3 res)"
    "\<forall>l \<in> set outs. is_under_build_root l"
proof -
  have g: "\<not> list_ex (\<lambda>l. \<not> is_under_build_root l) outs" "ae_root_ok env"
    using rec assms(2) by (auto simp: record_action_def split: if_splits)
  obtain okm dk where pm: "put_manifest ac weak (encode_manifest blake3 m) (as_disk st) = (okm, dk)" by (meson surj_pair)
  obtain pr bl where pr: "prepare_result blake3 env weak m outs code so se (as_root st) (as_blobs st) = (pr, bl)" by (meson surj_pair)
  have okm: okm using rec g assms(2) pm by (auto simp: record_action_def split: bool.splits)
  have "pr \<noteq> Inr None" using pr h by (auto simp: prepare_result_def split: prod.splits option.splits)
  then obtain s res where sr: "pr = Inr (Some (s, res))"
    using rec g assms(2) pm okm pr by (cases pr) (auto simp: record_action_def split: option.splits)
  obtain okr dk' where pres: "put_result blake3 ac s res dk = (okr, dk')" by (meson surj_pair)
  have st': "okr" "st' = st\<lparr>as_disk := dk', as_blobs := bl\<rparr>"
    using rec g assms(2) pm okm pr sr pres by (auto simp: record_action_def split: if_splits)
  have dk: "dk_files dk (key_path (ac_weak_root ac) weak) = FsOk (encode_manifest blake3 m)" "dk_rename_fails dk = dk_rename_fails (as_disk st)"
    using write_atomic_read [of "key_path (ac_weak_root ac) weak" "encode_manifest blake3 m" "as_disk st" dk] pm okm ren
    by (simp_all add: put_manifest_def)
  then have strong: "dk_files dk' (key_path (ac_strong_root ac) s) = FsOk (action_result_encode blake3 res)"
    using write_atomic_read [of "key_path (ac_strong_root ac) s" "action_result_encode blake3 res" dk dk'] pres st'(1) ren
    by (simp add: put_result_def)
  from dk have "dk_files dk' (key_path (ac_weak_root ac) weak) = FsOk (encode_manifest blake3 m)"
    using pres assms(3) by (auto simp: put_result_def write_atomic_def split: if_splits)
  then show thesis using that [of s res] pr sr st'(2) strong g(1) by (auto simp: list_ex_iff)
qed

lemma record_then_hit:
  assumes rec: "record_action blake3 (action_cache_open root) env weak m outs code so se st = (Inr (), st')"
    and ren: "\<And>p. \<not> dk_rename_fails (as_disk st) p" and blake3: "blake3_output blake3" and m: "im_cacheable m" "event_ok blake3 (recorded_event blake3 env weak m outs code so se st)"
    and h: "manifest_hash (ae_fs env) m = Some h" "manifest_hash (ae_fs env') m = Some h"
    and kept: "as_disk now = as_disk st'" "as_blobs now = as_blobs st'" and env': "env_good env'"
    and out_hash: "\<forall>l \<in> set outs. \<forall>bs. as_root st (root_rel l) = FsOk bs \<longrightarrow> no_second_preimage blake3 bs"
    and io_hash: "so \<noteq> [] \<longrightarrow> no_second_preimage blake3 so" "se \<noteq> [] \<longrightarrow> no_second_preimage blake3 se"
  shows "\<exists>now'. resolve blake3 (action_cache_open root) env' weak now = (Inr (Hit code so se), now')
    \<and> (\<forall>l \<in> set outs. as_root now' (root_rel l) = as_root st (root_rel l))"
proof -
  obtain s res where p: "prepare_result blake3 env weak m outs code so se (as_root st) (as_blobs st) = (Inr (Some (s, res)), as_blobs st')"
    and d: "dk_files (as_disk st') (key_path (ac_weak_root (action_cache_open root)) weak) = FsOk (encode_manifest blake3 m)"
      "dk_files (as_disk st') (key_path (ac_strong_root (action_cache_open root)) s) = FsOk (action_result_encode blake3 res)"
    and under: "\<forall>l \<in> set outs. is_under_build_root l"
    using record_action_stored [OF rec m(1) refl h(1) ren] .
  note ps = prepare_result_spec [OF p]
  have s: "s = strong_fingerprint blake3 weak h" using ps(1) h(1) by simp
  have ok: "manifest_ok m" "length (encode_manifest blake3 m) < usize_bound" "result_ok res"
      "length (action_result_encode blake3 res) < usize_bound"
    using m(2) p by (simp_all add: event_ok_def recorded_event_def prepared_def)
  have gm: "get_manifest (action_cache_open root) weak (as_disk now) = Inr (Some (encode_manifest blake3 m))"
      "decode_manifest blake3 (encode_manifest blake3 m) = Some m"
    using d(1) kept(1) manifest_codec [OF blake3 ok(2)] ok(1) by (simp_all add: get_manifest_def)
  have gr: "get_result blake3 (action_cache_open root) (strong_fingerprint blake3 weak h) (as_disk now) = Inr (Some res)"
    using d(2) kept(1) s action_result_codec [OF blake3 ok(4)] ok(3) by (simp add: get_result_def)
  have ret: "retained blake3 (as_blobs now) res" using ps(6) kept(2) by simp
  obtain staged where st: "stage_outputs blake3 env' (as_blobs now) (ar_outputs res) = Inr (Some staged)"
      "map fst staged = map root_rel outs" "\<forall>(r, bs) \<in> set staged. as_root st r = FsOk bs"
    using stage_outputs_restores [OF ps(5) under env', of "as_blobs now"] ret out_hash by (auto simp: retained_def)
  obtain rt where rt: "commit_outputs env' staged (as_root now) = (True, rt)" "\<forall>r \<in> fst ` set staged. rt r = as_root st r"
    using commit_outputs_restores [OF env' st(3)] by blast
  have "replay_stream blake3 env' (as_blobs now) (ar_stdout res) = so" "replay_stream blake3 env' (as_blobs now) (ar_stderr res) = se"
    using replay_restores [OF ps(3) _ io_hash(1) env'] replay_restores [OF ps(4) _ io_hash(2) env'] ret by (simp_all add: retained_def)
  then have "resolve blake3 (action_cache_open root) env' weak now = (Inr (Hit code so se), now\<lparr>as_root := rt\<rparr>)"
    using gm gr m(1) h(2) st(1) rt(1) ps(2) env' by (simp add: resolve_def publish_result_def env_good_def)
  moreover have "fst ` set staged = root_rel ` set outs" using st(2) by (metis list.set_map)
  ultimately show ?thesis using rt(2) by auto
qed

text \<open>
  C6. A recorded run is found again. Once an action with a cacheable manifest has been recorded
  successfully with no rename of a cache file failing, and as long as its inputs hash as they did and the cache still has the entries
  and the blobs, resolving the same weak key in a working environment is a hit: it returns the
  recorded exit code and exactly the recorded output streams, and puts back every output with
  the bytes it had when the run was recorded, whatever the build root holds by then.
\<close>
theorem recorded_run_hits:
  assumes rec: "record_action blake3 (action_cache_open root) env weak m outs code so se st = (Inr (), st')"
    and ren: "\<And>p. \<not> dk_rename_fails (as_disk st) p" and blake3: "blake3_output blake3" and m: "im_cacheable m" "event_ok blake3 (recorded_event blake3 env weak m outs code so se st)"
    and h: "manifest_hash (ae_fs env) m = Some h" "manifest_hash (ae_fs env') m = Some h"
    and kept: "as_disk now = as_disk st'" "as_blobs now = as_blobs st'" and env': "env_good env'"
    and out_hash: "\<forall>l \<in> set outs. \<forall>bs. as_root st (root_rel l) = FsOk bs \<longrightarrow> no_second_preimage blake3 bs"
    and io_hash: "so \<noteq> [] \<longrightarrow> no_second_preimage blake3 so" "se \<noteq> [] \<longrightarrow> no_second_preimage blake3 se"
  shows "\<exists>now'. resolve blake3 (action_cache_open root) env' weak now = (Inr (Hit code so se), now')
    \<and> (\<forall>l \<in> set outs. as_root now' (root_rel l) = as_root st (root_rel l))"
  by (rule record_then_hit [OF assms])

theorem recorded_run_hits_witness:
  "\<exists>now'. resolve toy_hash (action_cache_open ''c'') demo_env sample_tool (demo_recorded\<lparr>as_root := \<lambda>_. FsNotFound\<rparr>) = (Inr (Hit 0 [] []), now')
    \<and> (\<forall>l \<in> set [''a.obj'']. as_root now' (root_rel l) = as_root demo_start (root_rel l))"
proof (rule recorded_run_hits [OF demo_record [unfolded demo_cache_def]])
  show "event_ok toy_hash (recorded_event toy_hash demo_env sample_tool sample_stored [''a.obj''] 0 [] [] demo_start)"
    using sample_stored_length demo_result_ok sample_stored_ok unfolding event_ok_def recorded_event_def demo_prepare
    by (simp add: prepared_def manifest_wf_def sample_stored_def)
  show "manifest_hash (ae_fs demo_env) sample_stored = Some demo_hash" "manifest_hash (ae_fs demo_env) sample_stored = Some demo_hash"
    by (simp_all add: demo_env_def demo_manifest_hash)
  show "\<forall>l \<in> set [''a.obj'']. \<forall>bs. as_root demo_start (root_rel l) = FsOk bs \<longrightarrow> no_second_preimage toy_hash bs"
    using toy_hash_preimage by (simp add: demo_root_rel demo_start_def)
  show "env_good demo_env" by (simp add: env_good_def demo_env_def toy_os_def)
qed (simp_all add: demo_start_def toy_hash_output sample_stored_def)

end
