(* ===== verification/Session_Lifecycle.thy ===== *)
theory Session_Lifecycle
  imports Rust_Str
begin

text \<open>
  The lifecycle state machines of \<open>src/crates/agent/src/session_registry.rs\<close>: the phases of a
  submission (\<open>SubmissionDeadline\<close>), whose every transition is one compare-exchange, and the
  owner of the ephemeral content store (\<open>PinPersistOwner\<close>), which is cleaned up once, after it
  is closed and the last pin guard is dropped. Atomics and mutex-protected sections are single
  steps; any interleaving of threads is a sequence of them.
\<close>

section \<open>Submission phases\<close>

datatype submission_phase =
  Idle | SettingUp | PhaseActive | Terminating | NaturalReaped | RetrySafeReaped | ForcedReaped | ForceFailed | AbortedNoChild

definition phase_terminal :: "submission_phase \<Rightarrow> bool" where
  "phase_terminal p \<longleftrightarrow> p \<in> {NaturalReaped, RetrySafeReaped, ForcedReaped, ForceFailed, AbortedNoChild}"

text \<open>The phase, whether the force token is cancelled, and how often the waiters were notified.\<close>

record submission =
  sb_phase :: submission_phase
  sb_force :: bool
  sb_notified :: nat

definition submission_new :: submission where
  "submission_new = \<lparr>sb_phase = Idle, sb_force = False, sb_notified = 0\<rparr>"

definition phase_transition :: "submission_phase \<Rightarrow> submission_phase \<Rightarrow> submission \<Rightarrow> bool \<times> submission" where
  "phase_transition from to s =
     (if sb_phase s = from
      then (True, s\<lparr>sb_phase := to, sb_notified := sb_notified s + (if phase_terminal to then 1 else 0)\<rparr>)
      else (False, s))"

text \<open>\<open>a || b\<close> on two transitions: the second is tried only when the first did not happen.\<close>

definition or_else :: "(submission \<Rightarrow> bool \<times> submission) \<Rightarrow> (submission \<Rightarrow> bool \<times> submission) \<Rightarrow> submission \<Rightarrow> bool \<times> submission" where
  "or_else f g s = (case f s of (True, s') \<Rightarrow> (True, s') | (False, s') \<Rightarrow> g s')"

definition try_begin_setup :: "submission \<Rightarrow> bool \<times> submission" where
  "try_begin_setup = phase_transition Idle SettingUp"

definition publish_active :: "submission \<Rightarrow> bool \<times> submission" where
  "publish_active = phase_transition SettingUp PhaseActive"

definition try_begin_terminating :: "submission \<Rightarrow> bool \<times> submission" where
  "try_begin_terminating = or_else (phase_transition PhaseActive Terminating) (phase_transition SettingUp Terminating)"

definition publish_natural_reaped :: "submission \<Rightarrow> bool \<times> submission" where
  "publish_natural_reaped = phase_transition PhaseActive NaturalReaped"

definition publish_retry_safe_reaped :: "submission \<Rightarrow> bool \<times> submission" where
  "publish_retry_safe_reaped =
     or_else (phase_transition SettingUp RetrySafeReaped) (phase_transition Terminating RetrySafeReaped)"

definition publish_forced_reaped :: "submission \<Rightarrow> bool \<times> submission" where
  "publish_forced_reaped = phase_transition Terminating ForcedReaped"

definition publish_force_failed :: "submission \<Rightarrow> bool \<times> submission" where
  "publish_force_failed =
     or_else (or_else (phase_transition SettingUp ForceFailed) (phase_transition Terminating ForceFailed))
       (phase_transition PhaseActive ForceFailed)"

definition try_abort_no_child :: "submission \<Rightarrow> bool \<times> submission" where
  "try_abort_no_child = phase_transition Idle AbortedNoChild"

definition request_force :: "submission \<Rightarrow> submission" where
  "request_force s = s\<lparr>sb_force := True\<rparr>"

text \<open>\<open>wait_terminal\<close> looks at the phase and returns it once it is terminal.\<close>

definition wait_terminal :: "submission \<Rightarrow> submission_phase option" where
  "wait_terminal s = (if phase_terminal (sb_phase s) then Some (sb_phase s) else None)"

text \<open>
  Each \<open>||\<close> is two atomic steps, between which another thread may act; the steps of the machine
  are therefore the single compare-exchanges the operations issue.
\<close>

definition phase_edges :: "(submission_phase \<times> submission_phase) set" where
  "phase_edges = {(Idle, SettingUp), (SettingUp, PhaseActive), (PhaseActive, Terminating), (SettingUp, Terminating),
     (PhaseActive, NaturalReaped), (SettingUp, RetrySafeReaped), (Terminating, RetrySafeReaped), (Terminating, ForcedReaped),
     (SettingUp, ForceFailed), (Terminating, ForceFailed), (PhaseActive, ForceFailed), (Idle, AbortedNoChild)}"

inductive submission_step :: "submission \<Rightarrow> submission \<Rightarrow> bool" where
  exchange: "(from, to) \<in> phase_edges \<Longrightarrow> submission_step s (snd (phase_transition from to s))"
| force: "submission_step s (request_force s)"

inductive submission_run :: "submission \<Rightarrow> submission \<Rightarrow> bool" where
  run_refl: "submission_run s s"
| run_step: "submission_run s t \<Longrightarrow> submission_step t u \<Longrightarrow> submission_run s u"

text \<open>A measure of how far a submission is: it never goes back.\<close>

definition phase_rank :: "submission_phase \<Rightarrow> nat" where
  "phase_rank p = (case p of Idle \<Rightarrow> 0 | SettingUp \<Rightarrow> 1 | PhaseActive \<Rightarrow> 2 | Terminating \<Rightarrow> 3 | _ \<Rightarrow> 4)"

lemma edges_forward: "(p, q) \<in> phase_edges \<Longrightarrow> phase_rank p < phase_rank q \<and> \<not> phase_terminal p"
  by (auto simp: phase_edges_def phase_rank_def phase_terminal_def)

lemma step_phase:
  assumes "submission_step s t"
  shows "sb_phase t = sb_phase s \<and> sb_notified t = sb_notified s
    \<or> (sb_phase s, sb_phase t) \<in> phase_edges \<and> sb_notified t = sb_notified s + (if phase_terminal (sb_phase t) then 1 else 0)"
  using assms by cases (auto simp: phase_transition_def request_force_def)

lemma run_phase:
  assumes "submission_run s t"
  shows "(phase_terminal (sb_phase s) \<longrightarrow> sb_phase t = sb_phase s \<and> sb_notified t = sb_notified s)
    \<and> phase_rank (sb_phase s) \<le> phase_rank (sb_phase t)
    \<and> (\<not> phase_terminal (sb_phase s) \<longrightarrow> sb_notified t = sb_notified s + (if phase_terminal (sb_phase t) then 1 else 0))"
  using assms
proof induction
  case (run_step s t u)
  from step_phase [OF run_step.hyps(2)] show ?case
  proof
    assume "sb_phase u = sb_phase t \<and> sb_notified u = sb_notified t"
    with run_step.IH show ?thesis by simp
  next
    assume e: "(sb_phase t, sb_phase u) \<in> phase_edges \<and> sb_notified u = sb_notified t + (if phase_terminal (sb_phase u) then 1 else 0)"
    then have "phase_rank (sb_phase t) < phase_rank (sb_phase u)" "\<not> phase_terminal (sb_phase t)"
      using edges_forward by auto
    with run_step.IH e show ?thesis by (auto split: if_splits)
  qed
qed simp

text \<open>Every operation is a run of these steps.\<close>

lemma transition_run: "(p, q) \<in> phase_edges \<Longrightarrow> submission_run s (snd (phase_transition p q s))"
  using run_step [OF run_refl exchange] .

lemma or_else_run:
  assumes "\<And>s. submission_run s (snd (f s))" "\<And>s. submission_run s (snd (g s))"
  shows "submission_run s (snd (or_else f g s))"
proof -
  have trans: "submission_run t u \<Longrightarrow> submission_run s t \<Longrightarrow> submission_run s u" for s t u
    by (induction rule: submission_run.induct) (auto intro: run_step)
  show ?thesis using trans [OF assms(2) assms(1), of s] assms(1) [of s] by (auto simp: or_else_def split: prod.splits bool.splits)
qed

definition submission_ops :: "(submission \<Rightarrow> bool \<times> submission) list" where
  "submission_ops = [try_begin_setup, publish_active, try_begin_terminating, publish_natural_reaped, publish_retry_safe_reaped,
     publish_forced_reaped, publish_force_failed, try_abort_no_child]"

lemmas submission_op_defs = try_begin_setup_def publish_active_def try_begin_terminating_def publish_natural_reaped_def
  publish_retry_safe_reaped_def publish_forced_reaped_def publish_force_failed_def try_abort_no_child_def

lemma op_run: "op \<in> set submission_ops \<Longrightarrow> submission_run s (snd (op s))"
  by (auto simp: submission_ops_def submission_op_defs intro!: or_else_run transition_run) (simp_all add: phase_edges_def)

lemma op_terminal: "op \<in> set submission_ops \<Longrightarrow> phase_terminal (sb_phase s) \<Longrightarrow> op s = (False, s)"
  by (auto simp: submission_ops_def submission_op_defs or_else_def phase_transition_def phase_terminal_def)

lemma op_settles: "\<not> phase_terminal (sb_phase s) \<Longrightarrow>
   phase_terminal (sb_phase (snd ((if sb_phase s = Idle then try_abort_no_child else publish_force_failed) s)))"
  by (cases "sb_phase s") (auto simp: submission_op_defs or_else_def phase_transition_def phase_terminal_def)

text \<open>
  A submission settles exactly once. Whatever the interleaving of its operations, once a
  terminal phase is published every waiter sees that phase for ever, the waiters are notified
  exactly once, and no operation changes anything any more; before that the waiters are not
  notified, and the submission can always still be settled.
\<close>

theorem submission_settles_once:
  assumes "submission_run submission_new s" and "op \<in> set submission_ops"
  shows "submission_run submission_new (snd (op s))
    \<and> (case wait_terminal s of
         Some p \<Rightarrow> op s = (False, s) \<and> (\<forall>t. submission_run s t \<longrightarrow> wait_terminal t = Some p \<and> sb_notified t = 1)
       | None \<Rightarrow> sb_notified s = 0
           \<and> wait_terminal (snd ((if sb_phase s = Idle then try_abort_no_child else publish_force_failed) s)) \<noteq> None)"
proof -
  have notified: "sb_notified s = (if phase_terminal (sb_phase s) then 1 else 0)"
    using run_phase [OF assms(1)] by (simp add: submission_new_def phase_terminal_def)
  have trans: "submission_run t u \<Longrightarrow> submission_run r t \<Longrightarrow> submission_run r u" for r t u
    by (induction rule: submission_run.induct) (auto intro: run_step)
  have "submission_run submission_new (snd (op s))" by (rule trans [OF op_run [OF assms(2)] assms(1)])
  moreover have "\<forall>t. submission_run s t \<longrightarrow> wait_terminal t = Some (sb_phase s) \<and> sb_notified t = 1"
    if "phase_terminal (sb_phase s)"
    using that notified run_phase by (auto simp: wait_terminal_def)
  ultimately show ?thesis
    using notified op_terminal [OF assms(2)] op_settles [of s] by (auto simp: wait_terminal_def split: if_splits)
qed

theorem submission_settles_once_witness:
  "let s = \<lparr>sb_phase = ForcedReaped, sb_force = False, sb_notified = 1\<rparr> in
   publish_natural_reaped s = (False, s) \<and> (\<exists>r. submission_run submission_new r \<and> wait_terminal r = Some ForcedReaped)"
proof -
  let ?a = "snd (try_begin_setup submission_new)"
  let ?b = "snd (try_begin_terminating ?a)"
  let ?c = "snd (publish_forced_reaped ?b)"
  have run0: "submission_run submission_new ?a"
    using submission_settles_once [OF run_refl, of try_begin_setup] by (simp add: submission_ops_def)
  have run1: "submission_run submission_new ?b"
    using submission_settles_once [OF run0, of try_begin_terminating] by (simp add: submission_ops_def)
  have run: "submission_run submission_new ?c"
    using submission_settles_once [OF run1, of publish_forced_reaped] by (simp add: submission_ops_def)
  have eq: "?c = \<lparr>sb_phase = ForcedReaped, sb_force = False, sb_notified = 1\<rparr>"
    by (simp add: submission_op_defs or_else_def phase_transition_def submission_new_def phase_terminal_def)
  have w: "wait_terminal ?c = Some ForcedReaped" by (simp add: eq wait_terminal_def phase_terminal_def)
  with submission_settles_once [OF run, of publish_natural_reaped] have "publish_natural_reaped ?c = (False, ?c)"
    by (simp add: submission_ops_def)
  with run w show ?thesis unfolding eq Let_def by blast
qed

section \<open>The owner of the ephemeral store\<close>

text \<open>
  \<open>po_tokens\<close> says whether the cleanup tokens are still there; \<open>po_cleanups\<close> counts the cleanup
  jobs that were handed off.
\<close>

record pin_owner =
  po_accepting :: bool
  po_active :: nat
  po_cleanup_started :: bool
  po_tokens :: bool
  po_cleanups :: nat

definition pin_owner_new :: pin_owner where
  "pin_owner_new = \<lparr>po_accepting = True, po_active = 0, po_cleanup_started = False, po_tokens = True, po_cleanups = 0\<rparr>"

definition pin_register :: "pin_owner \<Rightarrow> pin_owner option" where
  "pin_register ow =
     (if \<not> po_accepting ow then None
      else case checked_add_usize (po_active ow) 1 of None \<Rightarrow> None | Some a \<Rightarrow> Some (ow\<lparr>po_active := a\<rparr>))"

definition pin_cleanup :: "pin_owner \<Rightarrow> pin_owner" where
  "pin_cleanup ow = (if po_tokens ow then ow\<lparr>po_tokens := False, po_cleanups := po_cleanups ow + 1\<rparr> else ow)"

definition pin_close :: "pin_owner \<Rightarrow> pin_owner" where
  "pin_close ow =
     (let ow = ow\<lparr>po_accepting := False\<rparr> in
      if po_active ow = 0 \<and> \<not> po_cleanup_started ow then pin_cleanup (ow\<lparr>po_cleanup_started := True\<rparr>) else ow)"

definition commit_if_accepting :: "pin_owner \<Rightarrow> ('a \<Rightarrow> 'a) \<Rightarrow> 'a \<Rightarrow> bool \<times> 'a" where
  "commit_if_accepting ow commit a = (if po_accepting ow then (True, commit a) else (False, a))"

definition pin_guard_drop :: "pin_owner \<Rightarrow> pin_owner" where
  "pin_guard_drop ow =
     (if po_active ow = 0 then ow
      else let ow = ow\<lparr>po_active := po_active ow - 1\<rparr> in
        if \<not> po_accepting ow \<and> po_active ow = 0 \<and> \<not> po_cleanup_started ow
        then pin_cleanup (ow\<lparr>po_cleanup_started := True\<rparr>) else ow)"

text \<open>The owner with the number of guards alive.\<close>

inductive owner_reach :: "pin_owner \<Rightarrow> nat \<Rightarrow> bool" where
  owner_new: "owner_reach pin_owner_new 0"
| owner_register: "owner_reach ow g \<Longrightarrow> pin_register ow = Some ow' \<Longrightarrow> owner_reach ow' (Suc g)"
| owner_drop: "owner_reach ow (Suc g) \<Longrightarrow> owner_reach (pin_guard_drop ow) g"
| owner_close: "owner_reach ow g \<Longrightarrow> owner_reach (pin_close ow) g"

lemma owner_inv:
  assumes "owner_reach ow g"
  shows "po_active ow = g \<and> po_cleanup_started ow = (\<not> po_accepting ow \<and> g = 0) \<and> po_tokens ow = (\<not> po_cleanup_started ow)
    \<and> po_cleanups ow = (if po_cleanup_started ow then 1 else 0)"
  using assms
  by induction (auto simp: pin_owner_new_def pin_register_def pin_close_def pin_guard_drop_def pin_cleanup_def
      checked_add_usize_def Let_def split: if_splits)

text \<open>
  The ephemeral store is removed exactly once and never under a reader. In every
  interleaving of registrations, guard drops and closes, the cleanup is handed off exactly when
  the owner is closed and no guard is alive, and once only; from the close on, no new pin is
  registered and no digest is published any more.
\<close>

theorem store_cleanup_once:
  assumes "owner_reach ow g"
  shows "po_cleanups ow = (if \<not> po_accepting ow \<and> g = 0 then 1 else 0)
    \<and> (\<not> po_accepting ow \<longrightarrow> pin_register ow = None \<and> commit_if_accepting ow f a = (False, a)
         \<and> \<not> po_accepting (pin_guard_drop ow) \<and> \<not> po_accepting (pin_close ow))"
  using owner_inv [OF assms]
  by (auto simp: pin_register_def commit_if_accepting_def pin_guard_drop_def pin_close_def pin_cleanup_def Let_def)

theorem store_cleanup_once_witness:
  "let ow = \<lparr>po_accepting = False, po_active = 1, po_cleanup_started = False, po_tokens = True, po_cleanups = 0\<rparr> in
   po_cleanups ow = 0 \<and> pin_register ow = None \<and> po_cleanups (pin_guard_drop ow) = 1"
proof -
  let ?ow = "pin_owner_new\<lparr>po_active := 1\<rparr>"
  have "owner_reach ?ow 1"
    using owner_register [OF owner_new, of ?ow] by (simp add: pin_register_def pin_owner_new_def checked_add_usize_def usize_bound_def)
  then have r: "owner_reach (pin_close ?ow) (Suc 0)" using owner_close by simp
  have eq: "pin_close ?ow = \<lparr>po_accepting = False, po_active = 1, po_cleanup_started = False, po_tokens = True, po_cleanups = 0\<rparr>"
    by (simp add: pin_close_def pin_owner_new_def)
  have "po_cleanups (pin_guard_drop (pin_close ?ow)) = 1"
    using store_cleanup_once [OF owner_drop [OF r], of id "()", THEN conjunct1] unfolding eq
    by (simp add: pin_guard_drop_def pin_cleanup_def)
  moreover have "po_cleanups (pin_close ?ow) = 0 \<and> pin_register (pin_close ?ow) = None"
    using store_cleanup_once [OF r, of id "()"] unfolding eq by simp
  ultimately show ?thesis unfolding eq Let_def by blast
qed

end
