(* ===== verification/Session_Registry.thy ===== *)
theory Session_Registry
  imports Session_Lifecycle Hash_Map Cas_Store
begin

text \<open>
  The agent's session registry, \<open>src/crates/agent/src/session_registry.rs\<close>: a session's
  capability with its pins, its digest list, its streamed and staged outputs, and the registry
  of all live sessions over one content store. Capabilities are shared by reference
  (\<open>Arc\<close>), so the registry maps session ids to addresses in a list of capabilities. The
  staging files live in a small file system of directory entries and file objects, so that a
  replaced or hard-linked staging file is visible as such. An operation that holds one mutex
  throughout is one function.
\<close>

section \<open>Files\<close>

text \<open>A location is an open directory handle and a name in it; names refer to file objects.\<close>

type_synonym loc = "string \<times> string"

record file_snapshot =
  sn_identity :: nat
  sn_link_count :: nat

record file_system =
  fy_names :: "loc \<Rightarrow> nat option"
  fy_links :: "nat \<Rightarrow> nat"
  fy_bytes :: "nat \<Rightarrow> bytes"

definition remove_root_file :: "bool \<Rightarrow> loc \<Rightarrow> file_system \<Rightarrow> file_system" where
  "remove_root_file ok l fy = (if ok then fy\<lparr>fy_names := (fy_names fy)(l := None)\<rparr> else fy)"

definition rename_root_file :: "bool \<Rightarrow> string \<Rightarrow> string \<Rightarrow> string \<Rightarrow> file_system \<Rightarrow> bool \<times> file_system" where
  "rename_root_file ok dir from to fy =
     (case fy_names fy (dir, from) of
        Some i \<Rightarrow> if ok then (True, fy\<lparr>fy_names := (fy_names fy)((dir, from) := None, (dir, to) := Some i)\<rparr>) else (False, fy)
      | None \<Rightarrow> (False, fy))"

definition verify_root_file_snapshot_and_digest :: "hash_fn \<Rightarrow> file_system \<Rightarrow> loc \<Rightarrow> file_snapshot \<Rightarrow> string \<Rightarrow> bool" where
  "verify_root_file_snapshot_and_digest blake3 fy l expected_snapshot expected =
     (case fy_names fy l of
        None \<Rightarrow> False
      | Some i \<Rightarrow>
          if i \<noteq> sn_identity expected_snapshot then False
          else if fy_links fy i \<noteq> sn_link_count expected_snapshot then False
          else digest_canonical (digest_of blake3 (fy_bytes fy i)) = expected)"

text \<open>
  What happens while a staging file is made: whether its directory opens, the random names
  drawn until one is new, whether the file is created, the new object and its link count.
\<close>

record temp_io =
  ti_parent :: bool
  ti_draws :: "string list"
  ti_create :: bool
  ti_object :: nat
  ti_links :: nat

definition staging_temp :: "string \<Rightarrow> string" where
  "staging_temp hex = ''.sbz-staging-'' @ hex"

definition create_staging_temp ::
    "temp_io \<Rightarrow> loc option \<Rightarrow> file_system \<Rightarrow> (string \<times> string \<times> file_snapshot) option \<times> file_system" where
  "create_staging_temp io final_path fy =
     (case final_path of
        None \<Rightarrow> (None, fy)
      | Some (dir, _) \<Rightarrow>
          if \<not> ti_parent io then (None, fy)
          else case find (\<lambda>hex. fy_names fy (dir, staging_temp hex) = None) (ti_draws io) of
            None \<Rightarrow> (None, fy)
          | Some hex \<Rightarrow>
              if \<not> ti_create io then (None, fy)
              else let i = ti_object io;
                       fy' = \<lparr>fy_names = (fy_names fy)((dir, staging_temp hex) := Some i),
                              fy_links = (fy_links fy)(i := ti_links io), fy_bytes = (fy_bytes fy)(i := [])\<rparr>
                   in if ti_links io \<noteq> 1 then (None, fy')
                      else (Some (dir, staging_temp hex, \<lparr>sn_identity = i, sn_link_count = ti_links io\<rparr>), fy'))"

section \<open>Capabilities\<close>

definition DEFAULT_OUTPUT_MAX_BYTES :: nat where "DEFAULT_OUTPUT_MAX_BYTES = 8 * 1024 * 1024 * 1024"

text \<open>A final path is given by its parent and its file name; \<open>None\<close> when it lacks one of them.\<close>

record output_spec =
  sp_id :: u32
  sp_final_path :: "loc option"
  sp_max_size :: u64

text \<open>The hasher of a streamed output is shown as the bytes it was fed.\<close>

record writeback_state =
  wb_tmp :: loc
  wb_snapshot :: file_snapshot
  wb_written :: u64
  wb_hasher :: bytes

record staged_output =
  so_staging_path :: loc
  so_final_path :: "loc option"
  so_digest_hex :: string
  so_snapshot :: file_snapshot

record session_capability =
  sc_root :: "string option"
  sc_root_dir :: bool
  sc_outputs :: "(u32, output_spec) hmap"
  sc_pinned :: "(string, (digest \<times> u64) option) hmap"
  sc_allowed_digests :: "digest set"
  sc_writebacks :: "(u32, writeback_state) hmap"
  sc_staged :: "(u32, staged_output) hmap"
  sc_created :: nat
  sc_conns :: nat
  sc_closed :: bool
  sc_enforce :: bool

text \<open>\<open>opens\<close> says whether the root directory can be opened; the output list keeps the last spec of an id.\<close>

definition session_new ::
    "(string \<Rightarrow> bool) \<Rightarrow> nat \<Rightarrow> string option \<Rightarrow> (u32, output_spec) hmap \<Rightarrow> bool \<Rightarrow> session_capability" where
  "session_new opens now root outputs enforce =
     \<lparr>sc_root = root, sc_root_dir = (case root of None \<Rightarrow> False | Some r \<Rightarrow> opens r), sc_outputs = outputs, sc_pinned = [],
      sc_allowed_digests = {}, sc_writebacks = [], sc_staged = [], sc_created = now, sc_conns = 0, sc_closed = False,
      sc_enforce = enforce\<rparr>"

definition requires_contained_root :: "session_capability \<Rightarrow> bool" where
  "requires_contained_root cap \<longleftrightarrow> sc_enforce cap \<and> sc_root cap \<noteq> None \<and> \<not> sc_root_dir cap"

definition session_close :: "session_capability \<Rightarrow> session_capability" where
  "session_close cap = cap\<lparr>sc_closed := True\<rparr>"

text \<open>
  \<open>pin_contained\<close>: the cell of the path is filled at most once; a failed read leaves it empty, so
  that a later open may succeed. The digest is allowed, and the cell filled, only while the
  owner of the store accepts publications; the guard stays with the filled cell.
\<close>

definition persist_pin_bytes ::
    "hash_fn \<Rightarrow> store_os \<Rightarrow> bytes \<Rightarrow> pin_owner \<times> blobs \<Rightarrow> digest option \<times> pin_owner \<times> blobs" where
  "persist_pin_bytes blake3 os bs = (\<lambda>(ow, bl).
     case pin_register ow of
       None \<Rightarrow> (None, ow, bl)
     | Some ow' \<Rightarrow>
         (case store_put blake3 os bs bl of
            (Inl _, bl') \<Rightarrow> (None, pin_guard_drop ow', bl')
          | (Inr d, bl') \<Rightarrow> (Some d, ow', bl')))"

definition pin_contained ::
    "hash_fn \<Rightarrow> store_os \<Rightarrow> string \<Rightarrow> bytes option \<Rightarrow> session_capability \<times> pin_owner \<times> blobs
     \<Rightarrow> (digest \<times> u64) option \<times> session_capability \<times> pin_owner \<times> blobs" where
  "pin_contained blake3 os requested read = (\<lambda>(cap, ow, bl).
     if sc_closed cap then (None, cap, ow, bl)
     else let cap = cap\<lparr>sc_pinned := hm_upsert requested None id (sc_pinned cap)\<rparr> in
       case map_of (sc_pinned cap) requested of
         Some (Some v) \<Rightarrow> (Some v, cap, ow, bl)
       | _ \<Rightarrow>
           (case read of
              None \<Rightarrow> (None, cap, ow, bl)
            | Some bs \<Rightarrow>
                (case persist_pin_bytes blake3 os bs (ow, bl) of
                   (None, ow', bl') \<Rightarrow> (None, cap, ow', bl')
                 | (Some d, ow', bl') \<Rightarrow>
                     let v = (d, word_of_nat (length bs)) in
                     (case commit_if_accepting ow' (insert d) (sc_allowed_digests cap) of
                        (False, _) \<Rightarrow> (None, cap, pin_guard_drop ow', bl')
                      | (True, allowed) \<Rightarrow>
                          (Some v, cap\<lparr>sc_allowed_digests := allowed, sc_pinned := hm_insert requested (Some v) (sc_pinned cap)\<rparr>,
                           ow', bl')))))"

definition digest_visible :: "session_capability \<Rightarrow> digest \<Rightarrow> bool" where
  "digest_visible cap d \<longleftrightarrow> \<not> sc_enforce cap \<or> d \<in> sc_allowed_digests cap"

definition cap_output_spec :: "session_capability \<Rightarrow> u32 \<Rightarrow> output_spec option" where
  "cap_output_spec cap output_id = map_of (sc_outputs cap) output_id"

section \<open>Staged outputs\<close>

definition record_staged ::
    "bool \<Rightarrow> u32 \<Rightarrow> staged_output \<Rightarrow> session_capability \<times> file_system \<Rightarrow> bool \<times> session_capability \<times> file_system" where
  "record_staged rm output_id so = (\<lambda>(cap, fy).
     if sc_closed cap then (False, cap, remove_root_file rm (so_staging_path so) fy)
     else let fy' = (case map_of (sc_staged cap) output_id of
                       None \<Rightarrow> fy | Some old \<Rightarrow> remove_root_file rm (so_staging_path old) fy)
          in (True, cap\<lparr>sc_staged := hm_insert output_id so (sc_staged cap)\<rparr>, fy'))"

text \<open>
  Publishing one output: \<open>tamper\<close> is what others do to the file system between the first
  verification and the rename.
\<close>

record publish_io =
  pb_tamper :: "file_system \<Rightarrow> file_system"
  pb_rename :: bool
  pb_remove :: bool

definition publish_staged_output :: "hash_fn \<Rightarrow> publish_io \<Rightarrow> staged_output \<Rightarrow> file_system \<Rightarrow> bool \<times> file_system" where
  "publish_staged_output blake3 io so fy =
     (case so_final_path so of
        None \<Rightarrow> (False, fy)
      | Some (dir, final_rel) \<Rightarrow>
          let (tmp_dir, tmp_rel) = so_staging_path so in
          if tmp_dir \<noteq> dir then (False, fy)
          else if \<not> verify_root_file_snapshot_and_digest blake3 fy (dir, tmp_rel) (so_snapshot so) (so_digest_hex so)
          then (False, remove_root_file (pb_remove io) (dir, tmp_rel) fy)
          else case rename_root_file (pb_rename io) dir tmp_rel final_rel (pb_tamper io fy) of
            (False, fy') \<Rightarrow> (False, remove_root_file (pb_remove io) (dir, tmp_rel) fy')
          | (True, fy') \<Rightarrow>
              if verify_root_file_snapshot_and_digest blake3 fy' (dir, final_rel) (so_snapshot so) (so_digest_hex so)
              then (True, fy')
              else (False, remove_root_file (pb_remove io) (dir, final_rel) fy'))"

fun publish_entries :: "hash_fn \<Rightarrow> (nat \<Rightarrow> publish_io) \<Rightarrow> nat \<Rightarrow> staged_output list \<Rightarrow> file_system \<Rightarrow> bool \<times> file_system" where
  "publish_entries blake3 io n [] fy = (True, fy)"
| "publish_entries blake3 io n (so # sos) fy =
     (case publish_staged_output blake3 (io n) so fy of
        (ok, fy') \<Rightarrow> (case publish_entries blake3 io (Suc n) sos fy' of (oks, fy'') \<Rightarrow> (ok \<and> oks, fy'')))"

definition publish_staged ::
    "hash_fn \<Rightarrow> (nat \<Rightarrow> publish_io) \<Rightarrow> session_capability \<times> file_system \<Rightarrow> bool \<times> session_capability \<times> file_system" where
  "publish_staged blake3 io = (\<lambda>(cap, fy).
     case publish_entries blake3 io 0 (hm_values (sc_staged cap)) fy of (ok, fy') \<Rightarrow> (ok, cap\<lparr>sc_staged := []\<rparr>, fy'))"

definition discard_staged :: "bool \<Rightarrow> session_capability \<times> file_system \<Rightarrow> session_capability \<times> file_system" where
  "discard_staged rm = (\<lambda>(cap, fy).
     (cap\<lparr>sc_staged := [], sc_writebacks := []\<rparr>,
      fold (remove_root_file rm) (map wb_tmp (hm_values (sc_writebacks cap)))
        (fold (remove_root_file rm) (map so_staging_path (hm_values (sc_staged cap))) fy)))"

section \<open>The registry\<close>

record registry =
  rg_store :: blobs
  rg_owner :: pin_owner
  rg_shutting_down :: bool
  rg_sessions :: "(string, nat) hmap"
  rg_caps :: "session_capability list"

definition registry_new :: registry where
  "registry_new = \<lparr>rg_store = \<lambda>_. FsNotFound, rg_owner = pin_owner_new, rg_shutting_down = False, rg_sessions = [], rg_caps = []\<rparr>"

definition cap_at :: "registry \<Rightarrow> nat \<Rightarrow> session_capability" where
  "cap_at rg a = rg_caps rg ! a"

definition cap_update :: "nat \<Rightarrow> (session_capability \<Rightarrow> session_capability) \<Rightarrow> registry \<Rightarrow> registry" where
  "cap_update a f rg = rg\<lparr>rg_caps := (rg_caps rg)[a := f (rg_caps rg ! a)]\<rparr>"

definition outputs_of :: "output_spec list \<Rightarrow> (u32, output_spec) hmap" where
  "outputs_of specs = fold (\<lambda>sp. hm_insert (sp_id sp) sp) specs []"

definition registry_create ::
    "(string \<Rightarrow> bool) \<Rightarrow> nat \<Rightarrow> string \<Rightarrow> string option \<Rightarrow> output_spec list \<Rightarrow> registry \<Rightarrow> nat \<times> registry" where
  "registry_create opens now session_id root outputs rg =
     (let a = length (rg_caps rg); cap = session_new opens now root (outputs_of outputs) True in
      (a, if rg_shutting_down rg then rg\<lparr>rg_caps := rg_caps rg @ [session_close cap]\<rparr>
          else rg\<lparr>rg_caps := rg_caps rg @ [cap], rg_sessions := hm_insert session_id a (rg_sessions rg)\<rparr>))"

definition registry_get :: "string \<Rightarrow> registry \<Rightarrow> nat option" where
  "registry_get session_id rg = (if session_id = [] then None else map_of (rg_sessions rg) session_id)"

definition registry_finish :: "string \<Rightarrow> registry \<Rightarrow> bool \<times> registry" where
  "registry_finish session_id rg =
     (case map_of (rg_sessions rg) session_id of
        Some a \<Rightarrow> (True, cap_update a session_close (rg\<lparr>rg_sessions := hm_remove session_id (rg_sessions rg)\<rparr>))
      | None \<Rightarrow> (False, rg))"

definition registry_bind :: "nat \<Rightarrow> registry \<Rightarrow> registry" where
  "registry_bind a = cap_update a (\<lambda>cap. cap\<lparr>sc_conns := sc_conns cap + 1\<rparr>)"

definition conn_guard_drop :: "nat \<Rightarrow> registry \<Rightarrow> registry" where
  "conn_guard_drop a = cap_update a (\<lambda>cap. cap\<lparr>sc_conns := sc_conns cap - 1\<rparr>)"

definition legacy_capability :: "(string \<Rightarrow> bool) \<Rightarrow> nat \<Rightarrow> string option \<Rightarrow> registry \<Rightarrow> nat \<times> registry" where
  "legacy_capability opens now root rg =
     (length (rg_caps rg), rg\<lparr>rg_caps := rg_caps rg @ [session_new opens now root [] False]\<rparr>)"

definition discard_at :: "bool \<Rightarrow> nat \<Rightarrow> registry \<times> file_system \<Rightarrow> registry \<times> file_system" where
  "discard_at rm a = (\<lambda>(rg, fy).
     case discard_staged rm (cap_at rg a, fy) of (cap, fy') \<Rightarrow> (cap_update a (\<lambda>_. cap) rg, fy'))"

definition sweep_keeps :: "nat \<Rightarrow> nat \<Rightarrow> session_capability \<Rightarrow> bool" where
  "sweep_keeps now ttl cap \<longleftrightarrow> sc_conns cap > 0 \<or> now - sc_created cap < ttl"

definition sweep_idle :: "bool \<Rightarrow> nat \<Rightarrow> nat \<Rightarrow> registry \<times> file_system \<Rightarrow> nat \<times> registry \<times> file_system" where
  "sweep_idle rm now ttl = (\<lambda>(rg, fy).
     let reaped = filter (\<lambda>a. \<not> sweep_keeps now ttl (cap_at rg a)) (hm_values (rg_sessions rg));
         rg' = rg\<lparr>rg_sessions := hm_retain (\<lambda>a. sweep_keeps now ttl (cap_at rg a)) (rg_sessions rg)\<rparr>
     in (length reaped, fold (discard_at rm) reaped (rg', fy)))"

text \<open>Clearing the pins drops one guard of the store's owner for every filled cell.\<close>

definition clear_pins :: "nat \<Rightarrow> registry \<Rightarrow> registry" where
  "clear_pins a rg =
     (let filled = length (filter (\<lambda>v. v \<noteq> None) (hm_values (sc_pinned (cap_at rg a)))) in
      cap_update a (\<lambda>cap. cap\<lparr>sc_pinned := []\<rparr>) (rg\<lparr>rg_owner := (pin_guard_drop ^^ filled) (rg_owner rg)\<rparr>))"

definition shutdown_sessions :: "bool \<Rightarrow> registry \<times> file_system \<Rightarrow> registry \<times> file_system" where
  "shutdown_sessions rm = (\<lambda>(rg, fy).
     fold (\<lambda>a (rg, fy). discard_at rm a (clear_pins a (cap_update a session_close rg), fy)) (hm_values (rg_sessions rg))
       (rg\<lparr>rg_shutting_down := True, rg_sessions := []\<rparr>, fy))"

definition session_count :: "registry \<Rightarrow> nat" where
  "session_count rg = length (rg_sessions rg)"

end
