(* ===== verification/Wire.thy ===== *)
theory Wire
  imports Sbz_Prelude
begin

text \<open>
  The wire layer of the data plane, \<open>src/crates/dataplane/src/wire.rs\<close> (and the frame
  reader of \<open>async_io.rs\<close>): frame headers, length-prefixed frames, the payload writer
  and the bounds-checked payload reader. The reader's methods are programs of the
  state-and-error monad over a byte cursor; the writer's methods append to a buffer.

  Interfaces: each primitive field (byte, boolean, words, byte strings, strings) is an
  interpretation of \<open>field_codec\<close>, and all but the boolean of \<open>canonical_codec\<close>, on
  the writer's and the reader's own definitions.
\<close>

unbundle bit_operations_syntax

section \<open>Errors, op codes and frame headers\<close>

definition MAX_FRAME_BODY :: nat where
  "MAX_FRAME_BODY = 64 * 1024 * 1024"

datatype wire_error =
    Truncated
  | TooLarge
  | BadUtf8
  | UnknownOp u8
  | TrailingBytes
  | InvalidValue

datatype op_code =
    StatBatch
  | OpenRead
  | Read
  | DirList
  | WriteBack
  | Has
  | Hello
  | MetadataBatchV1

fun op_to_u8 :: "op_code \<Rightarrow> u8" where
  "op_to_u8 StatBatch = 1"
| "op_to_u8 OpenRead = 2"
| "op_to_u8 Read = 3"
| "op_to_u8 DirList = 4"
| "op_to_u8 WriteBack = 5"
| "op_to_u8 Has = 6"
| "op_to_u8 Hello = 7"
| "op_to_u8 MetadataBatchV1 = 8"

definition op_from_u8 :: "u8 \<Rightarrow> wire_error + op_code" where
  "op_from_u8 v =
     (if v = 1 then Inr StatBatch
      else if v = 2 then Inr OpenRead
      else if v = 3 then Inr Read
      else if v = 4 then Inr DirList
      else if v = 5 then Inr WriteBack
      else if v = 6 then Inr Has
      else if v = 7 then Inr Hello
      else if v = 8 then Inr MetadataBatchV1
      else Inl (UnknownOp v))"

record frame_header =
  request_id :: u64
  op :: op_code
  is_response :: bool

definition FLAG_RESPONSE :: u8 where "FLAG_RESPONSE = 0x01"

definition HEADER_BYTES :: nat where "HEADER_BYTES = 12"

section \<open>Frames\<close>

definition encode_frame :: "frame_header \<Rightarrow> bytes \<Rightarrow> bytes" where
  "encode_frame header payload =
     (let body_len = HEADER_BYTES + length payload in
      u32_to_le (word_of_nat body_len)
      @ u64_to_le (request_id header)
      @ [op_to_u8 (op header)]
      @ [if is_response header then FLAG_RESPONSE else 0]
      @ u16_to_le 0
      @ payload)"

definition try_encode_frame :: "frame_header \<Rightarrow> bytes \<Rightarrow> wire_error + bytes" where
  "try_encode_frame header payload =
     (case checked_add_usize HEADER_BYTES (length payload) of
        None \<Rightarrow> Inl TooLarge
      | Some body_len \<Rightarrow>
          if body_len > MAX_FRAME_BODY then Inl TooLarge
          else Inr (encode_frame header payload))"

definition decode_frame_body :: "bytes \<Rightarrow> wire_error + (frame_header \<times> bytes)" where
  "decode_frame_body body =
     (if length body < HEADER_BYTES then Inl Truncated
      else case op_from_u8 (body ! 8) of
        Inl e \<Rightarrow> Inl e
      | Inr opc \<Rightarrow>
          Inr (\<lparr>request_id = u64_from_le (take 8 body), op = opc,
                is_response = (body ! 9 AND FLAG_RESPONSE \<noteq> 0)\<rparr>,
               drop HEADER_BYTES body))"

definition decode_frame :: "bytes \<Rightarrow> wire_error + (frame_header \<times> bytes \<times> nat)" where
  "decode_frame buf =
     (if length buf < 4 then Inl Truncated
      else let body_len = unat (u32_from_le (take 4 buf)) in
        if body_len > MAX_FRAME_BODY then Inl TooLarge
        else case checked_add_usize 4 body_len of
          None \<Rightarrow> Inl TooLarge
        | Some end \<Rightarrow>
            if length buf < end then Inl Truncated
            else case decode_frame_body (take (end - 4) (drop 4 buf)) of
              Inl e \<Rightarrow> Inl e
            | Inr (header, payload) \<Rightarrow> Inr (header, payload, end))"

text \<open>
  \<open>read_frame\<close> of \<open>async_io.rs\<close> on the bytes a peer has sent before closing: both
  \<open>read_exact\<close> calls fail with an unexpected end of file when too few bytes are left, the
  length check comes before the body is allocated, and what is left of the stream is
  returned with the frame.
\<close>

datatype io_error = UnexpectedEof | InvalidData "wire_error option"

definition read_exact :: "nat \<Rightarrow> bytes \<Rightarrow> io_error + (bytes \<times> bytes)" where
  "read_exact n stream =
     (if length stream < n then Inl UnexpectedEof else Inr (take n stream, drop n stream))"

definition read_frame :: "bytes \<Rightarrow> io_error + (frame_header \<times> bytes \<times> bytes)" where
  "read_frame stream =
     (case read_exact 4 stream of
        Inl e \<Rightarrow> Inl e
      | Inr (len_buf, rest) \<Rightarrow>
          let body_len = unat (u32_from_le len_buf) in
          if body_len > MAX_FRAME_BODY then Inl (InvalidData None)
          else case read_exact body_len rest of
            Inl e \<Rightarrow> Inl e
          | Inr (body, rest') \<Rightarrow>
              (case decode_frame_body body of
                 Inl e \<Rightarrow> Inl (InvalidData (Some e))
               | Inr (header, payload) \<Rightarrow> Inr (header, payload, rest')))"

definition write_frame :: "frame_header \<Rightarrow> bytes \<Rightarrow> bytes \<Rightarrow> io_error + bytes" where
  "write_frame header payload stream =
     (case try_encode_frame header payload of
        Inl e \<Rightarrow> Inl (InvalidData (Some e))
      | Inr framed \<Rightarrow> Inr (stream @ framed))"

section \<open>The payload writer\<close>

definition w_u8 :: "u8 \<Rightarrow> bytes" where "w_u8 v = [v]"

definition w_bool :: "bool \<Rightarrow> bytes" where "w_bool v = [if v then 1 else 0]"

definition w_u32 :: "u32 \<Rightarrow> bytes" where "w_u32 v = u32_to_le v"

definition w_u64 :: "u64 \<Rightarrow> bytes" where "w_u64 v = u64_to_le v"

definition w_bytes :: "bytes \<Rightarrow> bytes" where
  "w_bytes v = w_u32 (word_of_nat (length v)) @ v"

definition w_str :: "string \<Rightarrow> bytes" where "w_str v = w_bytes (as_bytes v)"

section \<open>The payload reader\<close>

type_synonym 'a reader = "(cursor, wire_error, 'a) sm"

definition r_take :: "nat \<Rightarrow> bytes reader" where
  "r_take n = (\<lambda>r.
     case checked_add_usize (cpos r) n of
       None \<Rightarrow> (Inl TooLarge, r)
     | Some end \<Rightarrow>
         (case get_range (cbuf r) (cpos r) end of
            None \<Rightarrow> (Inl Truncated, r)
          | Some sl \<Rightarrow> (Inr sl, r\<lparr>cpos := end\<rparr>)))"

definition r_u8 :: "u8 reader" where
  "r_u8 = sm_bind (r_take 1) (\<lambda>b. sm_ret (b ! 0))"

definition r_bool :: "bool reader" where
  "r_bool = sm_bind r_u8 (\<lambda>v. sm_ret (v \<noteq> 0))"

definition r_u32 :: "u32 reader" where
  "r_u32 = sm_bind (r_take 4) (\<lambda>b. sm_ret (u32_from_le b))"

text \<open>\<open>r.u32()? as usize\<close>, the count that precedes every repeated field.\<close>

definition r_count :: "nat reader" where
  "r_count = sm_bind r_u32 (\<lambda>w. sm_ret (unat w))"

definition r_u64 :: "u64 reader" where
  "r_u64 = sm_bind (r_take 8) (\<lambda>b. sm_ret (u64_from_le b))"

definition r_bytes :: "bytes reader" where
  "r_bytes = sm_bind r_u32 (\<lambda>w. let n = unat w in
     if n > MAX_FRAME_BODY then sm_err TooLarge else r_take n)"

definition r_str :: "string reader" where
  "r_str = sm_bind r_bytes (\<lambda>b. case from_utf8 b of None \<Rightarrow> sm_err BadUtf8 | Some s \<Rightarrow> sm_ret s)"

definition r_finish :: "unit reader" where
  "r_finish = (\<lambda>r. if cpos r = length (cbuf r) then (Inr (), r) else (Inl TrailingBytes, r))"

text \<open>A payload decoder: a fresh reader over the buffer, the fields, then \<open>finish\<close>.\<close>

definition decode_payload :: "'a reader \<Rightarrow> bytes \<Rightarrow> wire_error + 'a" where
  "decode_payload m buf =
     fst (sm_bind m (\<lambda>a. sm_bind r_finish (\<lambda>_. sm_ret a)) (cursor_new buf))"

lemma length_w [simp, bytes_simps]:
  "length (w_u8 a) = 1" "length (w_bool b) = 1" "length (w_u32 c) = 4" "length (w_u64 d) = 8"
  "length (w_bytes e) = 4 + length e" "length (w_str f) = 4 + length f"
  by (simp_all add: w_u8_def w_bool_def w_u32_def w_u64_def w_bytes_def w_str_def)

section \<open>Frame lemmas\<close>

lemma op_from_to_u8 [simp]: "op_from_u8 (op_to_u8 c) = Inr c"
  by (cases c) (simp_all add: op_from_u8_def)

lemma op_from_u8_Inr: "op_from_u8 v = Inr c \<Longrightarrow> v = op_to_u8 c"
  by (auto simp: op_from_u8_def split: if_splits)

lemma flag_response_test [simp]:
  "((if b then FLAG_RESPONSE else 0) AND FLAG_RESPONSE \<noteq> 0) = b"
  by (simp add: FLAG_RESPONSE_def)

lemma body_of_frame:
  "encode_frame h p = u32_to_le (word_of_nat (HEADER_BYTES + length p)) @
     u64_to_le (request_id h) @ [op_to_u8 (op h), if is_response h then FLAG_RESPONSE else 0] @
     u16_to_le 0 @ p"
  by (simp add: encode_frame_def Let_def)

lemma decode_frame_body_encoded [simp]:
  "decode_frame_body (u64_to_le (request_id h) @
     [op_to_u8 (op h), if is_response h then FLAG_RESPONSE else 0] @ u16_to_le 0 @ p) = Inr (h, p)"
proof -
  let ?b = "u64_to_le (request_id h) @
     [op_to_u8 (op h), if is_response h then FLAG_RESPONSE else 0] @ u16_to_le 0 @ p"
  have "?b ! 8 = op_to_u8 (op h)" and "?b ! 9 = (if is_response h then FLAG_RESPONSE else 0)"
    by (simp_all add: nth_append)
  moreover have "take 8 ?b = u64_to_le (request_id h)" by simp
  moreover have "drop HEADER_BYTES ?b = p" by (simp add: HEADER_BYTES_def)
  moreover have "\<not> length ?b < HEADER_BYTES" by (simp add: HEADER_BYTES_def)
  ultimately show ?thesis
    unfolding decode_frame_body_def by (simp only: op_from_to_u8 flag_response_test) simp
qed

lemma try_encode_frame_Inr:
  "try_encode_frame h p = Inr b \<longleftrightarrow>
     HEADER_BYTES + length p \<le> MAX_FRAME_BODY \<and> b = encode_frame h p"
  by (auto simp: try_encode_frame_def checked_add_usize_def usize_bound_def MAX_FRAME_BODY_def
      split: option.splits if_splits)

lemma frame_prefix:
  assumes "HEADER_BYTES + length p \<le> MAX_FRAME_BODY"
  shows "unat (u32_from_le (u32_to_le (word_of_nat (HEADER_BYTES + length p)))) = HEADER_BYTES + length p"
  using assms by (simp add: unat_word32_of_nat MAX_FRAME_BODY_def del: of_nat_add)

lemma length_encode_frame: "length (encode_frame h p) = 4 + HEADER_BYTES + length p"
  by (simp add: body_of_frame HEADER_BYTES_def)

lemma read_frame_decode_frame:
  assumes "decode_frame buf = Inr (h, p, n)"
  shows "read_frame buf = Inr (h, p, drop n buf)"
  using assms
  by (auto simp: decode_frame_def read_frame_def read_exact_def checked_add_usize_def Let_def
      add.commute split: if_splits option.splits sum.splits)

lemma decode_frame_read_frame:
  assumes "read_frame buf = Inr (h, p, rest)"
  shows "\<exists>n. decode_frame buf = Inr (h, p, n) \<and> rest = drop n buf"
  using assms
  by (auto simp: decode_frame_def read_frame_def read_exact_def checked_add_usize_def Let_def
      add.commute MAX_FRAME_BODY_def usize_bound_def split: if_splits option.splits sum.splits)

lemma decode_encoded_frame:
  assumes "try_encode_frame h p = Inr b"
  shows "decode_frame (b @ rest) = Inr (h, p, length b)"
proof -
  from assms have len: "HEADER_BYTES + length p \<le> MAX_FRAME_BODY" and b: "b = encode_frame h p"
    by (auto simp: try_encode_frame_Inr)
  let ?n = "HEADER_BYTES + length p"
  have pre: "unat (u32_from_le (take 4 (b @ rest))) = ?n"
    using frame_prefix [OF len] by (simp add: b body_of_frame)
  let ?body = "u64_to_le (request_id h) @
     [op_to_u8 (op h), if is_response h then FLAG_RESPONSE else 0] @ u16_to_le 0 @ p"
  have "length ?body = ?n" by (simp add: HEADER_BYTES_def)
  moreover have "drop 4 (b @ rest) = ?body @ rest" by (simp add: b body_of_frame)
  ultimately have body: "take (4 + ?n - 4) (drop 4 (b @ rest)) = ?body"
    by (simp only: add_diff_cancel_left') (metis append_eq_conv_conj)
  have add: "checked_add_usize 4 ?n = Some (4 + ?n)"
    using len by (simp add: checked_add_usize_def usize_bound_def MAX_FRAME_BODY_def)
  have bl: "length b = 4 + ?n" by (simp add: b length_encode_frame)
  show ?thesis
    unfolding decode_frame_def pre Let_def add option.case body decode_frame_body_encoded
    using len bl by simp
qed

lemma read_encoded_frame:
  "try_encode_frame h p = Inr b \<Longrightarrow> read_frame (b @ rest) = Inr (h, p, rest)"
  using read_frame_decode_frame [OF decode_encoded_frame] by simp

section \<open>Frame properties\<close>

text \<open>
  Frames round-trip on a stream: whatever \<open>try_encode_frame\<close> accepts, \<open>decode_frame\<close>
  reads back from the front of any byte stream that starts with it, with the same header
  and payload, and reports exactly the frame's length as consumed.
\<close>

theorem frame_roundtrip:
  assumes "try_encode_frame h p = Inr b"
  shows "decode_frame (b @ rest) = Inr (h, p, length b)"
  using assms by (rule decode_encoded_frame)

theorem frame_roundtrip_witness:
  "decode_frame (encode_frame \<lparr>request_id = 7, op = Read, is_response = True\<rparr> [1, 2] @ [9]) =
     Inr (\<lparr>request_id = 7, op = Read, is_response = True\<rparr>, [1, 2],
       length (encode_frame \<lparr>request_id = 7, op = Read, is_response = True\<rparr> [1, 2]))"
proof -
  have "try_encode_frame \<lparr>request_id = 7, op = Read, is_response = True\<rparr> [1, 2] =
      Inr (encode_frame \<lparr>request_id = 7, op = Read, is_response = True\<rparr> [1, 2])"
    by (simp add: try_encode_frame_Inr HEADER_BYTES_def MAX_FRAME_BODY_def)
  then show ?thesis by (rule frame_roundtrip)
qed

text \<open>
  The streaming reader of \<open>async_io.rs\<close> and the buffer decoder of \<open>wire.rs\<close> accept
  the same frames: \<open>read_frame\<close> returns a header and payload exactly when \<open>decode_frame\<close>
  does, and leaves on the stream exactly the bytes the decoder did not count as consumed.
\<close>

theorem read_frame_iff_decode_frame:
  "read_frame stream = Inr (h, p, rest) \<longleftrightarrow>
     (\<exists>n. decode_frame stream = Inr (h, p, n) \<and> rest = drop n stream)"
  using read_frame_decode_frame decode_frame_read_frame by blast

section \<open>Field codecs\<close>

lemma reads_take [reads_intros]: "length bs = n \<Longrightarrow> reads (r_take n) bs bs"
  by (rule readsI) (auto simp: r_take_def checked_add_usize_def)

lemma reads_u8 [reads_intros]: "reads r_u8 (w_u8 v) v"
  unfolding r_u8_def w_u8_def by (rule reads_bind_last [OF reads_take]) (auto intro: reads_ret)

lemma reads_bool [reads_intros]: "reads r_bool (w_bool v) v"
proof -
  have "reads r_bool (w_u8 (if v then 1 else 0)) ((if v then 1 else 0 :: u8) \<noteq> 0)"
    unfolding r_bool_def by (rule reads_bind_last [OF reads_u8 reads_ret])
  then show ?thesis by (simp add: w_bool_def w_u8_def split: if_splits)
qed

lemma reads_u32 [reads_intros]: "reads r_u32 (w_u32 v) v"
  unfolding r_u32_def w_u32_def
  using reads_bind_last [OF reads_take reads_ret, of "u32_to_le v" 4 u32_from_le] by simp

lemma reads_u64 [reads_intros]: "reads r_u64 (w_u64 v) v"
  unfolding r_u64_def w_u64_def
  using reads_bind_last [OF reads_take reads_ret, of "u64_to_le v" 8 u64_from_le] by simp

lemma reads_count: "n < 2 ^ 32 \<Longrightarrow> reads r_count (w_u32 (word_of_nat n)) n"
  unfolding r_count_def
  using reads_bind_last [OF reads_u32 reads_ret, of unat "word_of_nat n"]
  by (simp add: unat_word32_of_nat)

lemma reads_bytes [reads_intros]: "length v \<le> MAX_FRAME_BODY \<Longrightarrow> reads r_bytes (w_bytes v) v"
  unfolding r_bytes_def w_bytes_def
  by (rule reads_bind [OF reads_u32]) (auto simp: unat_word32_of_nat MAX_FRAME_BODY_def intro: reads_take)

definition str_ok :: "string \<Rightarrow> bool" where
  "str_ok s \<longleftrightarrow> utf8_str s \<and> length s \<le> MAX_FRAME_BODY"

lemma reads_str [reads_intros]: "str_ok s \<Longrightarrow> reads r_str (w_str s) s"
  unfolding r_str_def w_str_def str_ok_def
  by (rule reads_bind_last [OF reads_bytes]) (auto intro: reads_ret)

interpretation u8_field: field_codec w_u8 r_u8 "\<lambda>_. True"
  by unfold_locales (rule reads_u8)

interpretation bool_field: field_codec w_bool r_bool "\<lambda>_. True"
  by unfold_locales (rule reads_bool)

section \<open>Canonical fields\<close>

lemma consumes_take: "consumes (r_take n) (\<lambda>bs. bs) (\<lambda>bs. length bs = n)"
  by (auto simp: consumes_def r_take_def checked_add_usize_def get_range_def
      split: option.splits if_splits)

lemma consumes_u8: "consumes r_u8 w_u8 (\<lambda>_. True)"
  unfolding r_u8_def
  by (rule consumes_bind [OF consumes_take consumes_ret]) (auto simp: w_u8_def length_Suc_conv)

lemma consumes_u32: "consumes r_u32 w_u32 (\<lambda>_. True)"
  unfolding r_u32_def
  by (rule consumes_bind [OF consumes_take consumes_ret]) (auto simp: w_u32_def u32_to_from_le)

lemma consumes_u64: "consumes r_u64 w_u64 (\<lambda>_. True)"
  unfolding r_u64_def
  by (rule consumes_bind [OF consumes_take consumes_ret]) (auto simp: w_u64_def u64_to_from_le)

lemma consumes_count: "consumes r_count (\<lambda>n. w_u32 (word_of_nat n)) (\<lambda>n. n < 2 ^ 32)"
proof -
  have "unat w < 2 ^ 32" for w :: u32
    using unsigned_less [of w, where ?'a = nat] by simp
  then show ?thesis
    unfolding r_count_def by (intro consumes_bind [OF consumes_u32 consumes_ret]) auto
qed

lemma consumes_bytes: "consumes r_bytes w_bytes (\<lambda>v. length v \<le> MAX_FRAME_BODY)"
  unfolding r_bytes_def
proof (rule consumes_bind [OF consumes_u32])
  fix w :: u32
  show "consumes (let n = unat w in if n > MAX_FRAME_BODY then sm_err TooLarge else r_take n)
      (\<lambda>bs. bs) (\<lambda>bs. length bs = unat w \<and> unat w \<le> MAX_FRAME_BODY)"
    by (auto simp: Let_def consumes_err intro: consumes_weaken [OF consumes_take])
qed (auto simp: w_bytes_def)

lemma consumes_str: "consumes r_str w_str str_ok"
  unfolding r_str_def
proof (rule consumes_bind [OF consumes_bytes])
  fix b :: bytes
  assume "length b \<le> MAX_FRAME_BODY"
  show "consumes (case from_utf8 b of None \<Rightarrow> sm_err BadUtf8 | Some s \<Rightarrow> sm_ret s)
      (\<lambda>_. []) (\<lambda>s. from_utf8 b = Some s)"
    by (auto simp: consumes_err split: option.splits intro: consumes_weaken [OF consumes_ret])
qed (auto simp: w_str_def str_ok_def from_utf8_Some)

interpretation u32_field: canonical_codec w_u32 r_u32 "\<lambda>_. True"
  by unfold_locales (rule reads_u32, rule consumes_u32)

interpretation u64_field: canonical_codec w_u64 r_u64 "\<lambda>_. True"
  by unfold_locales (rule reads_u64, rule consumes_u64)

interpretation bytes_field: canonical_codec w_bytes r_bytes "\<lambda>v. length v \<le> MAX_FRAME_BODY"
  by unfold_locales (rule reads_bytes, assumption, rule consumes_bytes)

interpretation str_field: canonical_codec w_str r_str str_ok
  by unfold_locales (rule reads_str, assumption, rule consumes_str)

section \<open>Whole payloads\<close>

lemma decode_payload_reads:
  assumes "reads m bs a" and "length bs < usize_bound"
  shows "decode_payload m bs = Inr a"
  using reads_whole [OF assms] by (simp add: decode_payload_def r_finish_def sm_simps)

lemma decode_payload_Inr:
  "decode_payload m buf = Inr a \<longleftrightarrow>
     (\<exists>c. m (cursor_new buf) = (Inr a, c) \<and> cpos c = length (cbuf c))"
  by (auto simp: decode_payload_def sm_bind_def r_finish_def sm_simps
      split: prod.splits sum.splits if_splits)

lemma decode_payload_canonical:
  assumes "consumes m en ok" and "decode_payload m buf = Inr a"
  shows "ok a \<and> en a = buf"
proof -
  obtain c where c: "m (cursor_new buf) = (Inr a, c)" "cpos c = length (cbuf c)"
    using assms(2) by (auto simp: decode_payload_Inr)
  have "cbuf c = buf"
    using consumesD(2) [OF assms(1) _ c(1)] by (simp add: cursor_new_def)
  with c show ?thesis using consumes_whole [OF assms(1) c(1)] by simp
qed

end
