(* ===== verification/Ops.thy ===== *)
theory Ops
  imports Wire
begin

text \<open>
  The operation payloads of the data plane, \<open>src/crates/dataplane/src/ops.rs\<close>: one
  record per request and response, its \<open>encode\<close> as the writer's concatenation and its
  \<open>decode\<close> as a program of the payload reader. The lemmas show that every payload
  round-trips, that the fixed-width metadata response is canonical, and what \<open>Hello\<close>
  accepts beyond its own encodings.
\<close>

definition MAX_STAT_PATHS :: nat where "MAX_STAT_PATHS = 4096"
definition MAX_HAS_DIGESTS :: nat where "MAX_HAS_DIGESTS = 4096"
definition MAX_DIRLIST_ENTRIES :: nat where "MAX_DIRLIST_ENTRIES = 4096"
definition MAX_METADATA_PATHS :: nat where "MAX_METADATA_PATHS = 4096"

section \<open>MetadataBatchV1\<close>

record metadata_request =
  mdq_paths :: "string list"

datatype metadata_entry =
    Present (attributes: u32) (size: u64) (creation_time: u64) (access_time: u64) (write_time: u64)
  | FilesystemError (raw_error: u32)

record metadata_response =
  mdr_entries :: "metadata_entry list"

definition METADATA_ENTRY_BYTES :: nat where "METADATA_ENTRY_BYTES = 41"
definition METADATA_PRESENT :: u8 where "METADATA_PRESENT = 0"
definition METADATA_FILESYSTEM_ERROR :: u8 where "METADATA_FILESYSTEM_ERROR = 1"

definition is_metadata_filesystem_error :: "u32 \<Rightarrow> bool" where
  "is_metadata_filesystem_error e \<longleftrightarrow>
     e = 2 \<or> e = 3 \<or> e = 5 \<or> e = 123 \<or> e = 161 \<or> e = 206 \<or> e = 267"

fun mdq_body :: "nat \<Rightarrow> string list \<Rightarrow> wire_error + nat" where
  "mdq_body body [] = Inr body"
| "mdq_body body (path # paths) =
     (if length path > 2 ^ 32 - 1 then Inl TooLarge
      else case checked_add_usize body 4 of
        None \<Rightarrow> Inl TooLarge
      | Some body' \<Rightarrow>
          (case checked_add_usize body' (length path) of
             None \<Rightarrow> Inl TooLarge
           | Some body'' \<Rightarrow> mdq_body body'' paths))"

definition metadata_request_encode :: "metadata_request \<Rightarrow> wire_error + bytes" where
  "metadata_request_encode q =
     (if length (mdq_paths q) > MAX_METADATA_PATHS then Inl TooLarge
      else case mdq_body 4 (mdq_paths q) of
        Inl e \<Rightarrow> Inl e
      | Inr body \<Rightarrow>
          (case checked_add_usize body HEADER_BYTES of
             None \<Rightarrow> Inl TooLarge
           | Some n \<Rightarrow>
               if n > MAX_FRAME_BODY then Inl TooLarge
               else Inr (w_u32 (word_of_nat (length (mdq_paths q))) @ concat (map w_str (mdq_paths q)))))"

definition metadata_request_decode :: "bytes \<Rightarrow> wire_error + metadata_request" where
  "metadata_request_decode = decode_payload
     (sm_bind r_count (\<lambda>n.
      sm_bind (sm_guard (n \<le> MAX_METADATA_PATHS) TooLarge) (\<lambda>_.
      sm_bind (sm_repeat n r_str) (\<lambda>ps. sm_ret \<lparr>mdq_paths = ps\<rparr>))))"

fun w_metadata_entry :: "metadata_entry \<Rightarrow> wire_error + bytes" where
  "w_metadata_entry (Present attrs sz ct at wt) =
     (if attrs = -1 then Inl InvalidValue
      else Inr (w_u8 METADATA_PRESENT @ w_u32 attrs @ w_u64 sz @ w_u64 ct @ w_u64 at @ w_u64 wt @ w_u32 0))"
| "w_metadata_entry (FilesystemError e) =
     (if \<not> is_metadata_filesystem_error e then Inl InvalidValue
      else Inr (w_u8 METADATA_FILESYSTEM_ERROR @ w_u32 0 @ w_u64 0 @ w_u64 0 @ w_u64 0 @ w_u64 0 @ w_u32 e))"

fun w_metadata_entries :: "metadata_entry list \<Rightarrow> wire_error + bytes" where
  "w_metadata_entries [] = Inr []"
| "w_metadata_entries (e # es) =
     (case w_metadata_entry e of
        Inl err \<Rightarrow> Inl err
      | Inr b \<Rightarrow> (case w_metadata_entries es of Inl err \<Rightarrow> Inl err | Inr bs \<Rightarrow> Inr (b @ bs)))"

definition metadata_response_encode :: "metadata_response \<Rightarrow> wire_error + bytes" where
  "metadata_response_encode r =
     (if length (mdr_entries r) > MAX_METADATA_PATHS then Inl TooLarge
      else case Option.bind (checked_mul_usize (length (mdr_entries r)) METADATA_ENTRY_BYTES)
                  (checked_add_usize 4) of
        None \<Rightarrow> Inl TooLarge
      | Some body \<Rightarrow>
          (case checked_add_usize body HEADER_BYTES of
             None \<Rightarrow> Inl TooLarge
           | Some n \<Rightarrow>
               if n > MAX_FRAME_BODY then Inl TooLarge
               else (case w_metadata_entries (mdr_entries r) of
                       Inl e \<Rightarrow> Inl e
                     | Inr bs \<Rightarrow> Inr (w_u32 (word_of_nat (length (mdr_entries r))) @ bs))))"

definition metadata_entry_of ::
    "u8 \<Rightarrow> u32 \<Rightarrow> u64 \<Rightarrow> u64 \<Rightarrow> u64 \<Rightarrow> u64 \<Rightarrow> u32 \<Rightarrow> metadata_entry reader" where
  "metadata_entry_of tag attrs sz ct at wt raw =
     (if tag = METADATA_PRESENT \<and> attrs \<noteq> -1 \<and> raw = 0
      then sm_ret (Present attrs sz ct at wt)
      else if tag = METADATA_FILESYSTEM_ERROR \<and> attrs = 0 \<and> sz = 0 \<and> ct = 0 \<and> at = 0 \<and> wt = 0
              \<and> is_metadata_filesystem_error raw
      then sm_ret (FilesystemError raw)
      else sm_err InvalidValue)"

definition r_metadata_entry :: "metadata_entry reader" where
  "r_metadata_entry =
     sm_bind r_u8 (\<lambda>tag. sm_bind r_u32 (\<lambda>attrs. sm_bind r_u64 (\<lambda>sz. sm_bind r_u64 (\<lambda>ct.
     sm_bind r_u64 (\<lambda>at. sm_bind r_u64 (\<lambda>wt. sm_bind r_u32 (\<lambda>raw.
       metadata_entry_of tag attrs sz ct at wt raw)))))))"

definition metadata_response_decode :: "bytes \<Rightarrow> wire_error + metadata_response" where
  "metadata_response_decode buf = decode_payload
     (sm_bind r_count (\<lambda>n.
      sm_bind (sm_guard (n \<le> MAX_METADATA_PATHS) TooLarge) (\<lambda>_.
      case Option.bind (checked_mul_usize n METADATA_ENTRY_BYTES) (\<lambda>body. checked_add_usize body 4) of
        None \<Rightarrow> sm_err TooLarge
      | Some byte_len \<Rightarrow>
          sm_bind (sm_guard (length buf = byte_len)
                     (if length buf < byte_len then Truncated else TrailingBytes)) (\<lambda>_.
          sm_bind (sm_repeat n r_metadata_entry) (\<lambda>es. sm_ret \<lparr>mdr_entries = es\<rparr>))))) buf"

section \<open>StatBatch\<close>

record stat_request =
  stq_paths :: "string list"

record stat_entry =
  ste_exists :: bool
  ste_is_dir :: bool
  ste_size :: u64
  ste_digest_hex :: string

record stat_response =
  str_entries :: "stat_entry list"

definition stat_request_encode :: "stat_request \<Rightarrow> bytes" where
  "stat_request_encode q = w_u32 (word_of_nat (length (stq_paths q))) @ concat (map w_str (stq_paths q))"

definition stat_request_decode :: "bytes \<Rightarrow> wire_error + stat_request" where
  "stat_request_decode = decode_payload
     (sm_bind r_count (\<lambda>n.
      sm_bind (sm_guard (n \<le> MAX_STAT_PATHS) TooLarge) (\<lambda>_.
      sm_bind (sm_repeat n r_str) (\<lambda>ps. sm_ret \<lparr>stq_paths = ps\<rparr>))))"

definition w_stat_entry :: "stat_entry \<Rightarrow> bytes" where
  "w_stat_entry e = w_bool (ste_exists e) @ w_bool (ste_is_dir e) @ w_u64 (ste_size e) @ w_str (ste_digest_hex e)"

definition r_stat_entry :: "stat_entry reader" where
  "r_stat_entry = sm_bind r_bool (\<lambda>ex. sm_bind r_bool (\<lambda>d. sm_bind r_u64 (\<lambda>sz. sm_bind r_str (\<lambda>dg.
     sm_ret \<lparr>ste_exists = ex, ste_is_dir = d, ste_size = sz, ste_digest_hex = dg\<rparr>))))"

definition stat_response_encode :: "stat_response \<Rightarrow> bytes" where
  "stat_response_encode r =
     w_u32 (word_of_nat (length (str_entries r))) @ concat (map w_stat_entry (str_entries r))"

definition stat_response_decode :: "bytes \<Rightarrow> wire_error + stat_response" where
  "stat_response_decode = decode_payload
     (sm_bind r_count (\<lambda>n. sm_bind (sm_repeat n r_stat_entry) (\<lambda>es. sm_ret \<lparr>str_entries = es\<rparr>)))"

section \<open>OpenRead\<close>

record open_read_request =
  orq_path :: string
  orq_want_inline :: bool

record open_read_response =
  orr_exists :: bool
  orr_size :: u64
  orr_digest_hex :: string
  orr_first_chunk :: bytes

definition open_read_request_encode :: "open_read_request \<Rightarrow> bytes" where
  "open_read_request_encode q = w_str (orq_path q) @ w_bool (orq_want_inline q)"

definition open_read_request_decode :: "bytes \<Rightarrow> wire_error + open_read_request" where
  "open_read_request_decode = decode_payload
     (sm_bind r_str (\<lambda>p. sm_bind r_bool (\<lambda>w. sm_ret \<lparr>orq_path = p, orq_want_inline = w\<rparr>)))"

definition open_read_response_encode :: "open_read_response \<Rightarrow> bytes" where
  "open_read_response_encode r =
     w_bool (orr_exists r) @ w_u64 (orr_size r) @ w_str (orr_digest_hex r) @ w_bytes (orr_first_chunk r)"

definition open_read_response_decode :: "bytes \<Rightarrow> wire_error + open_read_response" where
  "open_read_response_decode = decode_payload
     (sm_bind r_bool (\<lambda>ex. sm_bind r_u64 (\<lambda>sz. sm_bind r_str (\<lambda>dg. sm_bind r_bytes (\<lambda>ch.
        sm_ret \<lparr>orr_exists = ex, orr_size = sz, orr_digest_hex = dg, orr_first_chunk = ch\<rparr>)))))"

section \<open>Read\<close>

record read_request =
  rdq_digest_hex :: string
  rdq_offset :: u64
  rdq_len :: u32

record read_response =
  rdr_bytes :: bytes

definition read_request_encode :: "read_request \<Rightarrow> bytes" where
  "read_request_encode q = w_str (rdq_digest_hex q) @ w_u64 (rdq_offset q) @ w_u32 (rdq_len q)"

definition read_request_decode :: "bytes \<Rightarrow> wire_error + read_request" where
  "read_request_decode = decode_payload
     (sm_bind r_str (\<lambda>dg. sm_bind r_u64 (\<lambda>off. sm_bind r_u32 (\<lambda>l.
        sm_ret \<lparr>rdq_digest_hex = dg, rdq_offset = off, rdq_len = l\<rparr>))))"

definition read_response_encode :: "read_response \<Rightarrow> bytes" where
  "read_response_encode r = w_bytes (rdr_bytes r)"

definition read_response_decode :: "bytes \<Rightarrow> wire_error + read_response" where
  "read_response_decode = decode_payload (sm_bind r_bytes (\<lambda>b. sm_ret \<lparr>rdr_bytes = b\<rparr>))"

section \<open>DirList\<close>

record dir_list_request =
  dlq_path :: string
  dlq_depth :: u32

record dir_entry =
  de_rel_path :: string
  de_is_dir :: bool
  de_size :: u64

record dir_list_response =
  dlr_exists :: bool
  dlr_entries :: "dir_entry list"

definition dir_list_request_encode :: "dir_list_request \<Rightarrow> bytes" where
  "dir_list_request_encode q = w_str (dlq_path q) @ w_u32 (dlq_depth q)"

definition dir_list_request_decode :: "bytes \<Rightarrow> wire_error + dir_list_request" where
  "dir_list_request_decode = decode_payload
     (sm_bind r_str (\<lambda>p. sm_bind r_u32 (\<lambda>d. sm_ret \<lparr>dlq_path = p, dlq_depth = d\<rparr>)))"

definition w_dir_entry :: "dir_entry \<Rightarrow> bytes" where
  "w_dir_entry e = w_str (de_rel_path e) @ w_bool (de_is_dir e) @ w_u64 (de_size e)"

definition r_dir_entry :: "dir_entry reader" where
  "r_dir_entry = sm_bind r_str (\<lambda>p. sm_bind r_bool (\<lambda>d. sm_bind r_u64 (\<lambda>sz.
     sm_ret \<lparr>de_rel_path = p, de_is_dir = d, de_size = sz\<rparr>)))"

definition dir_list_response_encode :: "dir_list_response \<Rightarrow> bytes" where
  "dir_list_response_encode r =
     w_bool (dlr_exists r) @ w_u32 (word_of_nat (length (dlr_entries r))) @ concat (map w_dir_entry (dlr_entries r))"

definition dir_list_response_decode :: "bytes \<Rightarrow> wire_error + dir_list_response" where
  "dir_list_response_decode = decode_payload
     (sm_bind r_bool (\<lambda>ex. sm_bind r_count (\<lambda>n.
      sm_bind (sm_guard (n \<le> MAX_DIRLIST_ENTRIES) TooLarge) (\<lambda>_.
      sm_bind (sm_repeat n r_dir_entry) (\<lambda>es. sm_ret \<lparr>dlr_exists = ex, dlr_entries = es\<rparr>)))))"

section \<open>WriteBack\<close>

record write_back_request =
  wbq_output_id :: u32
  wbq_digest_hex :: string
  wbq_offset :: u64
  wbq_bytes :: bytes
  wbq_last :: bool

record write_back_response =
  wbr_ok :: bool
  wbr_detail :: string

definition write_back_request_encode :: "write_back_request \<Rightarrow> bytes" where
  "write_back_request_encode q =
     w_u32 (wbq_output_id q) @ w_str (wbq_digest_hex q) @ w_u64 (wbq_offset q) @
     w_bytes (wbq_bytes q) @ w_bool (wbq_last q)"

definition write_back_request_decode :: "bytes \<Rightarrow> wire_error + write_back_request" where
  "write_back_request_decode = decode_payload
     (sm_bind r_u32 (\<lambda>oid. sm_bind r_str (\<lambda>dg. sm_bind r_u64 (\<lambda>off. sm_bind r_bytes (\<lambda>b. sm_bind r_bool (\<lambda>l.
        sm_ret \<lparr>wbq_output_id = oid, wbq_digest_hex = dg, wbq_offset = off, wbq_bytes = b, wbq_last = l\<rparr>))))))"

definition write_back_response_encode :: "write_back_response \<Rightarrow> bytes" where
  "write_back_response_encode r = w_bool (wbr_ok r) @ w_str (wbr_detail r)"

definition write_back_response_decode :: "bytes \<Rightarrow> wire_error + write_back_response" where
  "write_back_response_decode = decode_payload
     (sm_bind r_bool (\<lambda>k. sm_bind r_str (\<lambda>d. sm_ret \<lparr>wbr_ok = k, wbr_detail = d\<rparr>)))"

section \<open>Has\<close>

record has_request =
  hsq_digests :: "string list"

record has_response =
  hsr_present :: "bool list"

definition has_request_encode :: "has_request \<Rightarrow> bytes" where
  "has_request_encode q = w_u32 (word_of_nat (length (hsq_digests q))) @ concat (map w_str (hsq_digests q))"

definition has_request_decode :: "bytes \<Rightarrow> wire_error + has_request" where
  "has_request_decode = decode_payload
     (sm_bind r_count (\<lambda>n.
      sm_bind (sm_guard (n \<le> MAX_HAS_DIGESTS) TooLarge) (\<lambda>_.
      sm_bind (sm_repeat n r_str) (\<lambda>ds. sm_ret \<lparr>hsq_digests = ds\<rparr>))))"

definition has_response_encode :: "has_response \<Rightarrow> bytes" where
  "has_response_encode r = w_u32 (word_of_nat (length (hsr_present r))) @ concat (map w_bool (hsr_present r))"

definition has_response_decode :: "bytes \<Rightarrow> wire_error + has_response" where
  "has_response_decode = decode_payload
     (sm_bind r_count (\<lambda>n. sm_bind (sm_repeat n r_bool) (\<lambda>ps. sm_ret \<lparr>hsr_present = ps\<rparr>)))"

section \<open>Hello\<close>

record hello_request =
  hlq_token :: string
  hlq_root :: string
  hlq_session_id :: string

record hello_response =
  hlr_ok :: bool
  hlr_detail :: string

definition hello_request_encode :: "hello_request \<Rightarrow> bytes" where
  "hello_request_encode q = w_str (hlq_token q) @ w_str (hlq_root q) @ w_str (hlq_session_id q)"

text \<open>\<open>r.str().unwrap_or_default()\<close>: an error yields the empty string, the cursor stays where the
  failing read left it.\<close>

definition r_str_or_default :: "string reader" where
  "r_str_or_default = (\<lambda>r. case r_str r of (Inl e, r') \<Rightarrow> (Inr [], r') | (Inr s, r') \<Rightarrow> (Inr s, r'))"

definition hello_request_decode :: "bytes \<Rightarrow> wire_error + hello_request" where
  "hello_request_decode = decode_payload
     (sm_bind r_str (\<lambda>t. sm_bind r_str (\<lambda>rt. sm_bind r_str_or_default (\<lambda>sid.
        sm_ret \<lparr>hlq_token = t, hlq_root = rt, hlq_session_id = sid\<rparr>))))"

definition hello_response_encode :: "hello_response \<Rightarrow> bytes" where
  "hello_response_encode r = w_bool (hlr_ok r) @ w_str (hlr_detail r)"

definition hello_response_decode :: "bytes \<Rightarrow> wire_error + hello_response" where
  "hello_response_decode = decode_payload
     (sm_bind r_bool (\<lambda>k. sm_bind r_str (\<lambda>d. sm_ret \<lparr>hlr_ok = k, hlr_detail = d\<rparr>)))"

section \<open>Entry codecs\<close>

definition stat_entry_ok :: "stat_entry \<Rightarrow> bool" where
  "stat_entry_ok e = str_ok (ste_digest_hex e)"

definition dir_entry_ok :: "dir_entry \<Rightarrow> bool" where
  "dir_entry_ok e = str_ok (de_rel_path e)"

lemmas reads_rules = reads_bind_guard reads_bind reads_bind_last reads_ret_eq
  reads_u8 reads_bool reads_u32 reads_u64 reads_count reads_str reads_bytes

lemma reads_stat_entry: "stat_entry_ok e \<Longrightarrow> reads r_stat_entry (w_stat_entry e) e"
  unfolding r_stat_entry_def w_stat_entry_def stat_entry_ok_def by (rule reads_rules | simp)+

lemma reads_dir_entry: "dir_entry_ok e \<Longrightarrow> reads r_dir_entry (w_dir_entry e) e"
  unfolding r_dir_entry_def w_dir_entry_def dir_entry_ok_def by (rule reads_rules | simp)+

interpretation stat_entry_codec: field_codec w_stat_entry r_stat_entry stat_entry_ok
  by unfold_locales (rule reads_stat_entry)

interpretation dir_entry_codec: field_codec w_dir_entry r_dir_entry dir_entry_ok
  by unfold_locales (rule reads_dir_entry)


text \<open>The metadata entry has a partial encoder; its codec is total on the encodable entries.\<close>

definition metadata_entry_ok :: "metadata_entry \<Rightarrow> bool" where
  "metadata_entry_ok e = (\<exists>b. w_metadata_entry e = Inr b)"

definition metadata_entry_bytes :: "metadata_entry \<Rightarrow> bytes" where
  "metadata_entry_bytes e = (case w_metadata_entry e of Inl _ \<Rightarrow> [] | Inr b \<Rightarrow> b)"

lemma metadata_entry_okI [simp]:
  "attrs \<noteq> -1 \<Longrightarrow> metadata_entry_ok (Present attrs sz ct at wt)"
  "is_metadata_filesystem_error e \<Longrightarrow> metadata_entry_ok (FilesystemError e)"
  by (simp_all add: metadata_entry_ok_def)

lemma metadata_entry_ok_iff:
  "metadata_entry_ok e \<longleftrightarrow>
     (case e of Present attrs _ _ _ _ \<Rightarrow> attrs \<noteq> -1 | FilesystemError r \<Rightarrow> is_metadata_filesystem_error r)"
  by (cases e) (auto simp: metadata_entry_ok_def)

lemma metadata_tags [simp]: "METADATA_FILESYSTEM_ERROR \<noteq> METADATA_PRESENT"
  by (simp add: METADATA_PRESENT_def METADATA_FILESYSTEM_ERROR_def)

lemma reads_metadata_entry: "metadata_entry_ok e \<Longrightarrow> reads r_metadata_entry (metadata_entry_bytes e) e"
  unfolding r_metadata_entry_def
  by (cases e; simp add: metadata_entry_ok_iff metadata_entry_bytes_def)
     (rule reads_rules | simp add: metadata_entry_of_def)+

definition metadata_layout ::
    "u8 \<Rightarrow> u32 \<Rightarrow> u64 \<Rightarrow> u64 \<Rightarrow> u64 \<Rightarrow> u64 \<Rightarrow> u32 \<Rightarrow> metadata_entry \<Rightarrow> bool" where
  "metadata_layout tag attrs sz ct at wt raw e \<longleftrightarrow>
     metadata_entry_ok e \<and>
     metadata_entry_bytes e =
       w_u8 tag @ w_u32 attrs @ w_u64 sz @ w_u64 ct @ w_u64 at @ w_u64 wt @ w_u32 raw"

lemma consumes_metadata_entry_of:
  "consumes (metadata_entry_of tag attrs sz ct at wt raw) (\<lambda>e. [])
     (metadata_layout tag attrs sz ct at wt raw)"
  by (auto simp: metadata_entry_of_def consumes_err metadata_layout_def metadata_entry_bytes_def
      intro!: consumes_weaken [OF consumes_ret])

lemma consumes_metadata_entry: "consumes r_metadata_entry metadata_entry_bytes metadata_entry_ok"
proof -
  let ?d = "\<lambda>k e. drop k (metadata_entry_bytes e)"
  have 6: "consumes (sm_bind r_u32 (metadata_entry_of tag attrs sz ct at wt)) (?d 37)
      (\<lambda>e. \<exists>raw. metadata_layout tag attrs sz ct at wt raw e)" for tag attrs sz ct at wt
    by (rule consumes_weaken [OF consumes_bind_ex [OF consumes_u32 consumes_metadata_entry_of]])
       (auto simp: metadata_layout_def)
  have 5: "consumes (sm_bind r_u64 (\<lambda>wt. sm_bind r_u32 (metadata_entry_of tag attrs sz ct at wt))) (?d 29)
      (\<lambda>e. \<exists>wt raw. metadata_layout tag attrs sz ct at wt raw e)" for tag attrs sz ct at
    by (rule consumes_weaken [OF consumes_bind_ex [OF consumes_u64 6]]) (auto simp: metadata_layout_def)
  have 4: "consumes (sm_bind r_u64 (\<lambda>at. sm_bind r_u64 (\<lambda>wt. sm_bind r_u32
        (metadata_entry_of tag attrs sz ct at wt)))) (?d 21)
      (\<lambda>e. \<exists>at wt raw. metadata_layout tag attrs sz ct at wt raw e)" for tag attrs sz ct
    by (rule consumes_weaken [OF consumes_bind_ex [OF consumes_u64 5]]) (auto simp: metadata_layout_def)
  have 3: "consumes (sm_bind r_u64 (\<lambda>ct. sm_bind r_u64 (\<lambda>at. sm_bind r_u64 (\<lambda>wt. sm_bind r_u32
        (metadata_entry_of tag attrs sz ct at wt))))) (?d 13)
      (\<lambda>e. \<exists>ct at wt raw. metadata_layout tag attrs sz ct at wt raw e)" for tag attrs sz
    by (rule consumes_weaken [OF consumes_bind_ex [OF consumes_u64 4]]) (auto simp: metadata_layout_def)
  have 2: "consumes (sm_bind r_u64 (\<lambda>sz. sm_bind r_u64 (\<lambda>ct. sm_bind r_u64 (\<lambda>at. sm_bind r_u64 (\<lambda>wt.
        sm_bind r_u32 (metadata_entry_of tag attrs sz ct at wt)))))) (?d 5)
      (\<lambda>e. \<exists>sz ct at wt raw. metadata_layout tag attrs sz ct at wt raw e)" for tag attrs
    by (rule consumes_weaken [OF consumes_bind_ex [OF consumes_u64 3]]) (auto simp: metadata_layout_def)
  have 1: "consumes (sm_bind r_u32 (\<lambda>attrs. sm_bind r_u64 (\<lambda>sz. sm_bind r_u64 (\<lambda>ct. sm_bind r_u64 (\<lambda>at.
        sm_bind r_u64 (\<lambda>wt. sm_bind r_u32 (metadata_entry_of tag attrs sz ct at wt))))))) (?d 1)
      (\<lambda>e. \<exists>attrs sz ct at wt raw. metadata_layout tag attrs sz ct at wt raw e)" for tag
    by (rule consumes_weaken [OF consumes_bind_ex [OF consumes_u32 2]]) (auto simp: metadata_layout_def)
  show ?thesis
    unfolding r_metadata_entry_def
    by (rule consumes_weaken [OF consumes_bind_ex [OF consumes_u8 1]]) (auto simp: metadata_layout_def)
qed

interpretation metadata_entry_codec:
  canonical_codec metadata_entry_bytes r_metadata_entry metadata_entry_ok
  by unfold_locales (rule reads_metadata_entry, assumption, rule consumes_metadata_entry)

section \<open>The metadata response is a bijection\<close>

lemma w_metadata_entry_eq:
  "w_metadata_entry e = (if metadata_entry_ok e then Inr (metadata_entry_bytes e) else Inl InvalidValue)"
  by (cases e) (simp_all add: metadata_entry_ok_iff metadata_entry_bytes_def)

lemma w_metadata_entries_eq:
  "w_metadata_entries es =
     (if list_all metadata_entry_ok es then Inr (concat (map metadata_entry_bytes es)) else Inl InvalidValue)"
  by (induction es) (simp_all add: w_metadata_entry_eq)

lemma length_metadata_entry_bytes [simp]:
  "metadata_entry_ok e \<Longrightarrow> length (metadata_entry_bytes e) = METADATA_ENTRY_BYTES"
  by (cases e) (auto simp: metadata_entry_ok_iff metadata_entry_bytes_def METADATA_ENTRY_BYTES_def)

lemma length_metadata_entries:
  "list_all metadata_entry_ok es \<Longrightarrow>
     length (concat (map metadata_entry_bytes es)) = length es * METADATA_ENTRY_BYTES"
  by (induction es) auto

lemma metadata_body_bound:
  "n \<le> MAX_METADATA_PATHS \<Longrightarrow> 4 + n * METADATA_ENTRY_BYTES + HEADER_BYTES \<le> MAX_FRAME_BODY"
  by (simp add: MAX_METADATA_PATHS_def METADATA_ENTRY_BYTES_def HEADER_BYTES_def MAX_FRAME_BODY_def)

lemma metadata_response_encode_Inr:
  "metadata_response_encode r = Inr buf \<longleftrightarrow>
     length (mdr_entries r) \<le> MAX_METADATA_PATHS \<and> list_all metadata_entry_ok (mdr_entries r) \<and>
     buf = w_u32 (word_of_nat (length (mdr_entries r))) @ concat (map metadata_entry_bytes (mdr_entries r))"
  using metadata_body_bound [of "length (mdr_entries r)"]
  by (auto simp: metadata_response_encode_def w_metadata_entries_eq checked_mul_usize_def
      checked_add_usize_def usize_bound_def MAX_FRAME_BODY_def)

definition metadata_response_bytes :: "metadata_response \<Rightarrow> bytes" where
  "metadata_response_bytes r =
     w_u32 (word_of_nat (length (mdr_entries r))) @ concat (map metadata_entry_bytes (mdr_entries r))"

definition metadata_response_ok :: "metadata_response \<Rightarrow> bool" where
  "metadata_response_ok r \<longleftrightarrow>
     length (mdr_entries r) \<le> MAX_METADATA_PATHS \<and> list_all metadata_entry_ok (mdr_entries r)"

definition r_metadata_response :: "bytes \<Rightarrow> metadata_response reader" where
  "r_metadata_response buf =
     sm_bind r_count (\<lambda>n.
      sm_bind (sm_guard (n \<le> MAX_METADATA_PATHS) TooLarge) (\<lambda>_.
      case Option.bind (checked_mul_usize n METADATA_ENTRY_BYTES) (\<lambda>body. checked_add_usize body 4) of
        None \<Rightarrow> sm_err TooLarge
      | Some byte_len \<Rightarrow>
          sm_bind (sm_guard (length buf = byte_len)
                     (if length buf < byte_len then Truncated else TrailingBytes)) (\<lambda>_.
          sm_bind (sm_repeat n r_metadata_entry) (\<lambda>es. sm_ret \<lparr>mdr_entries = es\<rparr>))))"

lemma reads_metadata_response:
  assumes "metadata_response_ok r"
  shows "reads (r_metadata_response (metadata_response_bytes r)) (metadata_response_bytes r) r"
proof -
  let ?n = "length (mdr_entries r)"
  have ok: "?n \<le> MAX_METADATA_PATHS" and es: "list_all metadata_entry_ok (mdr_entries r)"
    using assms by (simp_all add: metadata_response_ok_def)
  have n: "?n < 2 ^ 32" using ok by (simp add: MAX_METADATA_PATHS_def)
  have len: "length (metadata_response_bytes r) = ?n * METADATA_ENTRY_BYTES + 4"
    using es by (simp add: metadata_response_bytes_def length_metadata_entries)
  have bl: "Option.bind (checked_mul_usize ?n METADATA_ENTRY_BYTES) (\<lambda>body. checked_add_usize body 4) =
      Some (?n * METADATA_ENTRY_BYTES + 4)"
    using metadata_body_bound [OF ok]
    by (simp add: checked_mul_usize_def checked_add_usize_def usize_bound_def MAX_FRAME_BODY_def)
  have "reads (sm_bind (sm_repeat ?n r_metadata_entry) (\<lambda>es. sm_ret \<lparr>mdr_entries = es\<rparr>))
      (concat (map metadata_entry_bytes (mdr_entries r))) r"
    by (rule reads_bind_last [OF metadata_entry_codec.reads_list [OF es]]) (simp add: reads_ret_eq)
  then show ?thesis
    using reads_count [OF n] ok len bl
    unfolding r_metadata_response_def
    by (subst (2) metadata_response_bytes_def) (auto intro!: reads_bind)
qed

lemma consumes_metadata_response:
  "consumes (r_metadata_response buf) metadata_response_bytes metadata_response_ok"
proof -
  have "consumes (sm_bind (sm_repeat n r_metadata_entry) (\<lambda>es. sm_ret \<lparr>mdr_entries = es\<rparr>))
      (\<lambda>r. concat (map metadata_entry_bytes (mdr_entries r)))
      (\<lambda>r. length (mdr_entries r) = n \<and> list_all metadata_entry_ok (mdr_entries r))" for n
    by (rule consumes_bind [OF metadata_entry_codec.consumes_list consumes_ret]) auto
  then have "consumes (sm_bind (sm_guard (n \<le> MAX_METADATA_PATHS) TooLarge) (\<lambda>_.
      case Option.bind (checked_mul_usize n METADATA_ENTRY_BYTES) (\<lambda>body. checked_add_usize body 4) of
        None \<Rightarrow> sm_err TooLarge
      | Some byte_len \<Rightarrow>
          sm_bind (sm_guard (length buf = byte_len)
                     (if length buf < byte_len then Truncated else TrailingBytes)) (\<lambda>_.
          sm_bind (sm_repeat n r_metadata_entry) (\<lambda>es. sm_ret \<lparr>mdr_entries = es\<rparr>))))
      (\<lambda>r. concat (map metadata_entry_bytes (mdr_entries r)))
      (\<lambda>r. length (mdr_entries r) = n \<and> n \<le> MAX_METADATA_PATHS \<and>
        list_all metadata_entry_ok (mdr_entries r))" for n
    by (auto simp: consumes_err split: option.splits intro!: consumes_bind_guard
        elim!: consumes_weaken)
  then show ?thesis
    unfolding r_metadata_response_def
    by (rule consumes_bind [OF consumes_count])
       (auto simp: metadata_response_bytes_def metadata_response_ok_def)
qed

lemma metadata_response_ok_small:
  "metadata_response_ok r \<Longrightarrow> length (metadata_response_bytes r) < usize_bound"
  using metadata_body_bound [of "length (mdr_entries r)"]
  by (simp add: metadata_response_ok_def metadata_response_bytes_def length_metadata_entries
      usize_bound_def MAX_FRAME_BODY_def)

lemma metadata_response_iff:
  "metadata_response_decode buf = Inr r \<longleftrightarrow> metadata_response_encode r = Inr buf"
proof -
  have dec: "metadata_response_decode buf = decode_payload (r_metadata_response buf) buf" for buf
    by (simp add: metadata_response_decode_def r_metadata_response_def)
  have enc: "metadata_response_encode r = Inr buf \<longleftrightarrow>
      metadata_response_ok r \<and> metadata_response_bytes r = buf"
    by (auto simp: metadata_response_encode_Inr metadata_response_ok_def metadata_response_bytes_def)
  show ?thesis
    unfolding enc dec
    using decode_payload_canonical [OF consumes_metadata_response]
      decode_payload_reads [OF reads_metadata_response metadata_response_ok_small]
    by blast
qed

text \<open>
  The versioned metadata response has one canonical encoding per value: a payload
  decodes to a response exactly when the encoder produces that payload from it, so no
  malformed, reserved or non-canonical reply ever reaches the caller.
\<close>

theorem metadata_response_bijective:
  "metadata_response_decode buf = Inr r \<longleftrightarrow> metadata_response_encode r = Inr buf"
  by (rule metadata_response_iff)

section \<open>Every payload round-trips through its frame\<close>

text \<open>
  The specification of a message: which payload it carries, the op code and direction
  its frame announces, its encoder, and the decoder a peer selects from the header alone.
  \<open>payload_ok\<close> collects what the encoders do not check themselves: strings are UTF-8
  and within the per-field cap, repeated fields are within the decoder's count limits.
\<close>

datatype payload =
    PMetadataRequest metadata_request | PMetadataResponse metadata_response
  | PStatRequest stat_request | PStatResponse stat_response
  | POpenReadRequest open_read_request | POpenReadResponse open_read_response
  | PReadRequest read_request | PReadResponse read_response
  | PDirListRequest dir_list_request | PDirListResponse dir_list_response
  | PWriteBackRequest write_back_request | PWriteBackResponse write_back_response
  | PHasRequest has_request | PHasResponse has_response
  | PHelloRequest hello_request | PHelloResponse hello_response

fun payload_op :: "payload \<Rightarrow> op_code \<times> bool" where
  "payload_op (PMetadataRequest _) = (MetadataBatchV1, False)"
| "payload_op (PMetadataResponse _) = (MetadataBatchV1, True)"
| "payload_op (PStatRequest _) = (StatBatch, False)"
| "payload_op (PStatResponse _) = (StatBatch, True)"
| "payload_op (POpenReadRequest _) = (OpenRead, False)"
| "payload_op (POpenReadResponse _) = (OpenRead, True)"
| "payload_op (PReadRequest _) = (Read, False)"
| "payload_op (PReadResponse _) = (Read, True)"
| "payload_op (PDirListRequest _) = (DirList, False)"
| "payload_op (PDirListResponse _) = (DirList, True)"
| "payload_op (PWriteBackRequest _) = (WriteBack, False)"
| "payload_op (PWriteBackResponse _) = (WriteBack, True)"
| "payload_op (PHasRequest _) = (Has, False)"
| "payload_op (PHasResponse _) = (Has, True)"
| "payload_op (PHelloRequest _) = (Hello, False)"
| "payload_op (PHelloResponse _) = (Hello, True)"

fun payload_encode :: "payload \<Rightarrow> wire_error + bytes" where
  "payload_encode (PMetadataRequest q) = metadata_request_encode q"
| "payload_encode (PMetadataResponse r) = metadata_response_encode r"
| "payload_encode (PStatRequest q) = Inr (stat_request_encode q)"
| "payload_encode (PStatResponse r) = Inr (stat_response_encode r)"
| "payload_encode (POpenReadRequest q) = Inr (open_read_request_encode q)"
| "payload_encode (POpenReadResponse r) = Inr (open_read_response_encode r)"
| "payload_encode (PReadRequest q) = Inr (read_request_encode q)"
| "payload_encode (PReadResponse r) = Inr (read_response_encode r)"
| "payload_encode (PDirListRequest q) = Inr (dir_list_request_encode q)"
| "payload_encode (PDirListResponse r) = Inr (dir_list_response_encode r)"
| "payload_encode (PWriteBackRequest q) = Inr (write_back_request_encode q)"
| "payload_encode (PWriteBackResponse r) = Inr (write_back_response_encode r)"
| "payload_encode (PHasRequest q) = Inr (has_request_encode q)"
| "payload_encode (PHasResponse r) = Inr (has_response_encode r)"
| "payload_encode (PHelloRequest q) = Inr (hello_request_encode q)"
| "payload_encode (PHelloResponse r) = Inr (hello_response_encode r)"

definition payload_decode :: "op_code \<Rightarrow> bool \<Rightarrow> bytes \<Rightarrow> wire_error + payload" where
  "payload_decode opc resp b =
     (case opc of
        MetadataBatchV1 \<Rightarrow> if resp then map_sum id PMetadataResponse (metadata_response_decode b)
                           else map_sum id PMetadataRequest (metadata_request_decode b)
      | StatBatch \<Rightarrow> if resp then map_sum id PStatResponse (stat_response_decode b)
                     else map_sum id PStatRequest (stat_request_decode b)
      | OpenRead \<Rightarrow> if resp then map_sum id POpenReadResponse (open_read_response_decode b)
                    else map_sum id POpenReadRequest (open_read_request_decode b)
      | Read \<Rightarrow> if resp then map_sum id PReadResponse (read_response_decode b)
                else map_sum id PReadRequest (read_request_decode b)
      | DirList \<Rightarrow> if resp then map_sum id PDirListResponse (dir_list_response_decode b)
                   else map_sum id PDirListRequest (dir_list_request_decode b)
      | WriteBack \<Rightarrow> if resp then map_sum id PWriteBackResponse (write_back_response_decode b)
                     else map_sum id PWriteBackRequest (write_back_request_decode b)
      | Has \<Rightarrow> if resp then map_sum id PHasResponse (has_response_decode b)
               else map_sum id PHasRequest (has_request_decode b)
      | Hello \<Rightarrow> if resp then map_sum id PHelloResponse (hello_response_decode b)
                 else map_sum id PHelloRequest (hello_request_decode b))"

fun payload_ok :: "payload \<Rightarrow> bool" where
  "payload_ok (PMetadataRequest q) = list_all utf8_str (mdq_paths q)"
| "payload_ok (PMetadataResponse r) = True"
| "payload_ok (PStatRequest q) = (length (stq_paths q) \<le> MAX_STAT_PATHS \<and> list_all str_ok (stq_paths q))"
| "payload_ok (PStatResponse r) = (length (str_entries r) < 2 ^ 32 \<and> list_all stat_entry_ok (str_entries r))"
| "payload_ok (POpenReadRequest q) = str_ok (orq_path q)"
| "payload_ok (POpenReadResponse r) =
     (str_ok (orr_digest_hex r) \<and> length (orr_first_chunk r) \<le> MAX_FRAME_BODY)"
| "payload_ok (PReadRequest q) = str_ok (rdq_digest_hex q)"
| "payload_ok (PReadResponse r) = (length (rdr_bytes r) \<le> MAX_FRAME_BODY)"
| "payload_ok (PDirListRequest q) = str_ok (dlq_path q)"
| "payload_ok (PDirListResponse r) =
     (length (dlr_entries r) \<le> MAX_DIRLIST_ENTRIES \<and> list_all dir_entry_ok (dlr_entries r))"
| "payload_ok (PWriteBackRequest q) =
     (str_ok (wbq_digest_hex q) \<and> length (wbq_bytes q) \<le> MAX_FRAME_BODY)"
| "payload_ok (PWriteBackResponse r) = str_ok (wbr_detail r)"
| "payload_ok (PHasRequest q) = (length (hsq_digests q) \<le> MAX_HAS_DIGESTS \<and> list_all str_ok (hsq_digests q))"
| "payload_ok (PHasResponse r) = (length (hsr_present r) < 2 ^ 32)"
| "payload_ok (PHelloRequest q) =
     (str_ok (hlq_token q) \<and> str_ok (hlq_root q) \<and> str_ok (hlq_session_id q))"
| "payload_ok (PHelloResponse r) = str_ok (hlr_detail r)"

lemmas list_reads = str_field.reads_list stat_entry_codec.reads_list dir_entry_codec.reads_list
  bool_field.reads_list

lemmas count_limits = MAX_STAT_PATHS_def MAX_HAS_DIGESTS_def MAX_DIRLIST_ENTRIES_def
  MAX_METADATA_PATHS_def

lemma list_all_True: "list_all (\<lambda>_. True) xs"
  by (induction xs) auto

lemma reads_str_or_default: "str_ok s \<Longrightarrow> reads r_str_or_default (w_str s) s"
  by (rule readsI) (simp add: r_str_or_default_def readsD [OF reads_str])

lemma mdq_body_Inr:
  assumes "mdq_body body ps = Inr n"
  shows "n = body + length (concat (map w_str ps)) \<and> list_all (\<lambda>p. length p < 2 ^ 32) ps"
  using assms
proof (induction ps arbitrary: body)
  case Nil
  then show ?case by simp
next
  case (Cons p ps)
  then have "mdq_body (body + 4 + length p) ps = Inr n" and "length p < 2 ^ 32"
    by (auto simp: checked_add_usize_def split: if_splits option.splits)
  with Cons.IH [of "body + 4 + length p"] show ?case by simp
qed

lemma length_w_str_member: "p \<in> set ps \<Longrightarrow> length p \<le> length (concat (map w_str ps))"
  by (induction ps) auto

lemma metadata_request_encode_Inr:
  assumes "metadata_request_encode q = Inr b"
  shows "length (mdq_paths q) \<le> MAX_METADATA_PATHS"
    and "b = w_u32 (word_of_nat (length (mdq_paths q))) @ concat (map w_str (mdq_paths q))"
    and "length b + HEADER_BYTES \<le> MAX_FRAME_BODY"
proof -
  obtain n where n: "mdq_body 4 (mdq_paths q) = Inr n" and "n + HEADER_BYTES \<le> MAX_FRAME_BODY"
    and l: "length (mdq_paths q) \<le> MAX_METADATA_PATHS"
    and b: "b = w_u32 (word_of_nat (length (mdq_paths q))) @ concat (map w_str (mdq_paths q))"
    using assms
    by (auto simp: metadata_request_encode_def checked_add_usize_def
        split: if_splits sum.splits option.splits)
  with mdq_body_Inr [OF n] show "length b + HEADER_BYTES \<le> MAX_FRAME_BODY" by simp
  from l b show "length (mdq_paths q) \<le> MAX_METADATA_PATHS"
    and "b = w_u32 (word_of_nat (length (mdq_paths q))) @ concat (map w_str (mdq_paths q))" .
qed

lemma metadata_request_roundtrip:
  assumes enc: "metadata_request_encode q = Inr b" and ok: "list_all utf8_str (mdq_paths q)"
  shows "metadata_request_decode b = Inr q"
proof -
  note e = metadata_request_encode_Inr [OF enc]
  have "length p \<le> MAX_FRAME_BODY" if "p \<in> set (mdq_paths q)" for p
    using length_w_str_member [OF that] e(2,3) by simp
  with ok have str: "list_all str_ok (mdq_paths q)" by (auto simp: list_all_iff str_ok_def)
  have len: "length b < usize_bound" using e(3) by (simp add: MAX_FRAME_BODY_def usize_bound_def)
  show ?thesis
    unfolding metadata_request_decode_def
  proof (rule decode_payload_reads [OF _ len])
    show "reads (sm_bind r_count (\<lambda>n. sm_bind (sm_guard (n \<le> MAX_METADATA_PATHS) TooLarge) (\<lambda>_.
        sm_bind (sm_repeat n r_str) (\<lambda>ps. sm_ret \<lparr>mdq_paths = ps\<rparr>)))) b q"
      unfolding e(2) using e(1) str
      by - (rule reads_rules list_reads | simp add: count_limits)+
  qed
qed

lemma stat_request_roundtrip:
  "payload_ok (PStatRequest q) \<Longrightarrow> length (stat_request_encode q) < usize_bound \<Longrightarrow>
     stat_request_decode (stat_request_encode q) = Inr q"
  unfolding stat_request_decode_def
  by (intro decode_payload_reads; simp add: stat_request_encode_def)
     (rule reads_rules list_reads | simp add: count_limits list_all_True)+

lemma stat_response_roundtrip:
  "payload_ok (PStatResponse r) \<Longrightarrow> length (stat_response_encode r) < usize_bound \<Longrightarrow>
     stat_response_decode (stat_response_encode r) = Inr r"
  unfolding stat_response_decode_def
  by (intro decode_payload_reads; simp add: stat_response_encode_def)
     (rule reads_rules list_reads | simp add: count_limits list_all_True)+

lemma open_read_request_roundtrip:
  "payload_ok (POpenReadRequest q) \<Longrightarrow> length (open_read_request_encode q) < usize_bound \<Longrightarrow>
     open_read_request_decode (open_read_request_encode q) = Inr q"
  unfolding open_read_request_decode_def
  by (intro decode_payload_reads; simp add: open_read_request_encode_def)
     (rule reads_rules list_reads | simp add: count_limits list_all_True)+

lemma open_read_response_roundtrip:
  "payload_ok (POpenReadResponse r) \<Longrightarrow> length (open_read_response_encode r) < usize_bound \<Longrightarrow>
     open_read_response_decode (open_read_response_encode r) = Inr r"
  unfolding open_read_response_decode_def
  by (intro decode_payload_reads; simp add: open_read_response_encode_def)
     (rule reads_rules list_reads | simp add: count_limits list_all_True)+

lemma read_request_roundtrip:
  "payload_ok (PReadRequest q) \<Longrightarrow> length (read_request_encode q) < usize_bound \<Longrightarrow>
     read_request_decode (read_request_encode q) = Inr q"
  unfolding read_request_decode_def
  by (intro decode_payload_reads; simp add: read_request_encode_def)
     (rule reads_rules list_reads | simp add: count_limits list_all_True)+

lemma read_response_roundtrip:
  "payload_ok (PReadResponse r) \<Longrightarrow> length (read_response_encode r) < usize_bound \<Longrightarrow>
     read_response_decode (read_response_encode r) = Inr r"
  unfolding read_response_decode_def
  by (intro decode_payload_reads; simp add: read_response_encode_def)
     (rule reads_rules list_reads | simp add: count_limits list_all_True)+

lemma dir_list_request_roundtrip:
  "payload_ok (PDirListRequest q) \<Longrightarrow> length (dir_list_request_encode q) < usize_bound \<Longrightarrow>
     dir_list_request_decode (dir_list_request_encode q) = Inr q"
  unfolding dir_list_request_decode_def
  by (intro decode_payload_reads; simp add: dir_list_request_encode_def)
     (rule reads_rules list_reads | simp add: count_limits list_all_True)+

lemma dir_list_response_roundtrip:
  "payload_ok (PDirListResponse r) \<Longrightarrow> length (dir_list_response_encode r) < usize_bound \<Longrightarrow>
     dir_list_response_decode (dir_list_response_encode r) = Inr r"
  unfolding dir_list_response_decode_def
  by (intro decode_payload_reads; simp add: dir_list_response_encode_def)
     (rule reads_rules list_reads | simp add: count_limits list_all_True)+

lemma write_back_request_roundtrip:
  "payload_ok (PWriteBackRequest q) \<Longrightarrow> length (write_back_request_encode q) < usize_bound \<Longrightarrow>
     write_back_request_decode (write_back_request_encode q) = Inr q"
  unfolding write_back_request_decode_def
  by (intro decode_payload_reads; simp add: write_back_request_encode_def)
     (rule reads_rules list_reads | simp add: count_limits list_all_True)+

lemma write_back_response_roundtrip:
  "payload_ok (PWriteBackResponse r) \<Longrightarrow> length (write_back_response_encode r) < usize_bound \<Longrightarrow>
     write_back_response_decode (write_back_response_encode r) = Inr r"
  unfolding write_back_response_decode_def
  by (intro decode_payload_reads; simp add: write_back_response_encode_def)
     (rule reads_rules list_reads | simp add: count_limits list_all_True)+

lemma has_request_roundtrip:
  "payload_ok (PHasRequest q) \<Longrightarrow> length (has_request_encode q) < usize_bound \<Longrightarrow>
     has_request_decode (has_request_encode q) = Inr q"
  unfolding has_request_decode_def
  by (intro decode_payload_reads; simp add: has_request_encode_def)
     (rule reads_rules list_reads | simp add: count_limits list_all_True)+

lemma has_response_roundtrip:
  "payload_ok (PHasResponse r) \<Longrightarrow> length (has_response_encode r) < usize_bound \<Longrightarrow>
     has_response_decode (has_response_encode r) = Inr r"
  unfolding has_response_decode_def
  by (intro decode_payload_reads; simp add: has_response_encode_def)
     (rule reads_rules list_reads | simp add: count_limits list_all_True)+

lemma hello_request_roundtrip:
  "payload_ok (PHelloRequest q) \<Longrightarrow> length (hello_request_encode q) < usize_bound \<Longrightarrow>
     hello_request_decode (hello_request_encode q) = Inr q"
  unfolding hello_request_decode_def
  by (intro decode_payload_reads; simp add: hello_request_encode_def)
     (rule reads_rules list_reads reads_str_or_default | simp add: count_limits list_all_True)+

lemma hello_response_roundtrip:
  "payload_ok (PHelloResponse r) \<Longrightarrow> length (hello_response_encode r) < usize_bound \<Longrightarrow>
     hello_response_decode (hello_response_encode r) = Inr r"
  unfolding hello_response_decode_def
  by (intro decode_payload_reads; simp add: hello_response_encode_def)
     (rule reads_rules list_reads | simp add: count_limits list_all_True)+

lemmas payload_roundtrips = metadata_request_roundtrip
  stat_request_roundtrip
  stat_response_roundtrip
  open_read_request_roundtrip
  open_read_response_roundtrip
  read_request_roundtrip
  read_response_roundtrip
  dir_list_request_roundtrip
  dir_list_response_roundtrip
  write_back_request_roundtrip
  write_back_response_roundtrip
  has_request_roundtrip
  has_response_roundtrip
  hello_request_roundtrip
  hello_response_roundtrip

lemma payload_roundtrip:
  assumes "payload_ok m" and "payload_encode m = Inr b" and "length b < usize_bound"
  shows "payload_decode (fst (payload_op m)) (snd (payload_op m)) b = Inr m"
  using assms
  by (cases m) (auto simp: payload_decode_def payload_roundtrips metadata_response_iff [THEN iffD2])

text \<open>
  C39. Messages survive the data plane: a request or response that its encoder accepts and
  that fits a frame is received whole by the streaming reader, with the bytes after it
  left on the stream, and the decoder selected from the received header alone returns the
  message that was sent.
\<close>

theorem message_over_stream:
  assumes "payload_ok m" and "payload_encode m = Inr b"
    and "write_frame \<lparr>request_id = rid, op = fst (payload_op m), is_response = snd (payload_op m)\<rparr> b sent = Inr stream"
  shows "\<exists>framed. stream = sent @ framed \<and>
    (\<exists>h p. read_frame (framed @ rest) = Inr (h, p, rest) \<and> request_id h = rid \<and>
       payload_decode (op h) (is_response h) p = Inr m)"
proof -
  let ?h = "\<lparr>request_id = rid, op = fst (payload_op m), is_response = snd (payload_op m)\<rparr>"
  obtain framed where f: "try_encode_frame ?h b = Inr framed" and s: "stream = sent @ framed"
    using assms(3) by (auto simp: write_frame_def split: sum.splits)
  have "length b < usize_bound"
    using f by (simp add: try_encode_frame_Inr MAX_FRAME_BODY_def usize_bound_def)
  with assms(1,2) have "payload_decode (fst (payload_op m)) (snd (payload_op m)) b = Inr m"
    by (rule payload_roundtrip)
  then show ?thesis using read_encoded_frame [OF f] s by force
qed

lemma str_ok_literal: "length s \<le> 1000 \<Longrightarrow> list_all (\<lambda>c. of_char c < (128 :: nat)) s \<Longrightarrow> str_ok s"
  unfolding str_ok_def utf8_str_def
  by (intro conjI utf8_valid_ascii) (auto simp: as_bytes_def list_all_iff word_less_nat_alt unat_of_char MAX_FRAME_BODY_def)

theorem message_over_stream_witness:
  "\<exists>framed stream. write_frame \<lparr>request_id = 1, op = OpenRead, is_response = False\<rparr>
     (open_read_request_encode \<lparr>orq_path = ''a.h'', orq_want_inline = True\<rparr>) [] = Inr stream \<and>
    stream = [] @ framed \<and>
    (\<exists>h p. read_frame (framed @ [0]) = Inr (h, p, [0]) \<and> request_id h = 1 \<and>
      payload_decode (op h) (is_response h) p =
        Inr (POpenReadRequest \<lparr>orq_path = ''a.h'', orq_want_inline = True\<rparr>))"
proof -
  let ?q = "\<lparr>orq_path = ''a.h'', orq_want_inline = True\<rparr>"
  let ?m = "POpenReadRequest ?q"
  have ok: "payload_ok ?m" by (simp add: str_ok_literal)
  have enc: "payload_encode ?m = Inr (open_read_request_encode ?q)" by simp
  obtain stream where w: "write_frame \<lparr>request_id = 1, op = fst (payload_op ?m),
      is_response = snd (payload_op ?m)\<rparr> (open_read_request_encode ?q) [] = Inr stream"
    by (simp add: write_frame_def try_encode_frame_def checked_add_usize_def usize_bound_def
        HEADER_BYTES_def MAX_FRAME_BODY_def open_read_request_encode_def)
  then show ?thesis using message_over_stream [OF ok enc w, of "[0]"] by auto
qed

section \<open>What Hello accepts beyond its encodings\<close>

lemma r_str_or_default_Inl: "r_str c = (Inl e, c') \<Longrightarrow> r_str_or_default c = (Inr [], c')"
  by (simp add: r_str_or_default_def)

lemma hello_decode_default:
  assumes "str_ok t" "str_ok rt"
    and "r_str (cur (w_str t @ w_str rt) tail) = (Inl e, \<lparr>cbuf = w_str t @ w_str rt @ tail,
           cpos = length (w_str t @ w_str rt @ tail)\<rparr>)"
    and "length (w_str t @ w_str rt @ tail) < usize_bound"
  shows "hello_request_decode (w_str t @ w_str rt @ tail) =
    Inr \<lparr>hlq_token = t, hlq_root = rt, hlq_session_id = []\<rparr>"
proof -
  have "r_str (cur [] (w_str t @ (w_str rt @ tail))) = (Inr t, cur ([] @ w_str t) (w_str rt @ tail))"
    using assms(4) by (intro readsD [OF reads_str [OF assms(1)]]) simp
  moreover have "r_str (cur (w_str t) (w_str rt @ tail)) = (Inr rt, cur (w_str t @ w_str rt) tail)"
    using assms(4) by (intro readsD [OF reads_str [OF assms(2)]]) simp
  ultimately show ?thesis
    using r_str_or_default_Inl [OF assms(3)]
    by (simp add: hello_request_decode_def decode_payload_def cursor_new_cur sm_simps r_finish_def)
qed

lemma r_str_at_end: "r_str (cur pre []) = (Inl (if length pre + 4 < usize_bound then Truncated else TooLarge), cur pre [])"
  by (simp add: r_str_def r_bytes_def r_u32_def r_take_def checked_add_usize_def get_range_def sm_bind_def cur_def)

lemma cur_at_end: "cur (pre @ bs) [] = \<lparr>cbuf = pre @ bs, cpos = length (pre @ bs)\<rparr>"
  by (simp add: cur_def)

lemma r_str_cut_after_length:
  assumes "n \<noteq> 0" and "length pre + 4 < usize_bound"
  shows "\<exists>e. r_str (cur pre (w_u32 n)) = (Inl e, cur (pre @ w_u32 n) [])"
proof -
  have n: "0 < unat n" using assms(1) by (simp add: unat_gt_0)
  have "r_u32 (cur pre (w_u32 n @ [])) = (Inr n, cur (pre @ w_u32 n) [])"
    using assms(2) by (intro readsD [OF reads_u32]) simp
  then have "\<exists>e. r_bytes (cur pre (w_u32 n)) = (Inl e, cur (pre @ w_u32 n) [])"
    using n by (auto simp: r_bytes_def r_take_def get_range_def checked_add_usize_def Let_def sm_simps
        split: option.splits if_splits)
  then show ?thesis by (auto simp: r_str_def)
qed

lemma r_str_bad_utf8:
  assumes "\<not> utf8_valid sid" and "length sid \<le> MAX_FRAME_BODY"
    and "length pre + length (w_bytes sid) < usize_bound"
  shows "r_str (cur pre (w_bytes sid)) = (Inl BadUtf8, cur (pre @ w_bytes sid) [])"
proof -
  have "r_bytes (cur pre (w_bytes sid @ [])) = (Inr sid, cur (pre @ w_bytes sid) [])"
    using assms(2,3) by (intro readsD [OF reads_bytes]) simp_all
  then show ?thesis using assms(1) by (simp add: r_str_def from_utf8_def sm_simps)
qed

lemma hello_default_cases:
  assumes "str_ok t" and "str_ok rt" and "n \<noteq> 0"
    and "\<not> utf8_valid sid" and "length sid \<le> MAX_FRAME_BODY"
  shows "hello_request_decode (w_str t @ w_str rt) = Inr \<lparr>hlq_token = t, hlq_root = rt, hlq_session_id = []\<rparr>"
    and "hello_request_decode (w_str t @ w_str rt @ w_u32 n) =
           Inr \<lparr>hlq_token = t, hlq_root = rt, hlq_session_id = []\<rparr>"
    and "hello_request_decode (w_str t @ w_str rt @ w_bytes sid) =
           Inr \<lparr>hlq_token = t, hlq_root = rt, hlq_session_id = []\<rparr>"
proof -
  let ?pre = "w_str t @ w_str rt"
  have small: "length ?pre + 4 + MAX_FRAME_BODY < usize_bound"
    using assms(1,2) by (simp add: str_ok_def MAX_FRAME_BODY_def usize_bound_def)
  show "hello_request_decode (w_str t @ w_str rt) = Inr \<lparr>hlq_token = t, hlq_root = rt, hlq_session_id = []\<rparr>"
    using hello_decode_default [of t rt "[]"] assms(1,2) r_str_at_end [of ?pre] small
    by (simp add: cur_def)
  obtain e where "r_str (cur ?pre (w_u32 n)) = (Inl e, cur (?pre @ w_u32 n) [])"
    using r_str_cut_after_length [OF assms(3), of ?pre] small by auto
  then show "hello_request_decode (w_str t @ w_str rt @ w_u32 n) =
      Inr \<lparr>hlq_token = t, hlq_root = rt, hlq_session_id = []\<rparr>"
    using small by (intro hello_decode_default [OF assms(1,2)]) (simp_all add: cur_at_end)
  have "r_str (cur ?pre (w_bytes sid)) = (Inl BadUtf8, cur (?pre @ w_bytes sid) [])"
    using small assms(5) by (intro r_str_bad_utf8 [OF assms(4,5)]) simp
  then show "hello_request_decode (w_str t @ w_str rt @ w_bytes sid) =
      Inr \<lparr>hlq_token = t, hlq_root = rt, hlq_session_id = []\<rparr>"
    using small assms(5) by (intro hello_decode_default [OF assms(1,2)]) (simp_all add: cur_at_end)
qed

text \<open>
  A Hello that carries no readable session id is accepted as the legacy two-field
  form: besides the two-field frame itself, a frame cut off right after the session id's
  length prefix, and a frame whose session id is not UTF-8, decode to the empty
  (unscoped) session id instead of an error.
\<close>

theorem hello_unreadable_session_is_legacy:
  assumes "str_ok t" and "str_ok rt" and "n \<noteq> 0"
    and "\<not> utf8_valid sid" and "length sid \<le> MAX_FRAME_BODY"
    and "tail = [] \<or> tail = w_u32 n \<or> tail = w_bytes sid"
  shows "hello_request_decode (w_str t @ w_str rt @ tail) =
    Inr \<lparr>hlq_token = t, hlq_root = rt, hlq_session_id = []\<rparr>"
  using hello_default_cases [OF assms(1-5)] assms(6) by auto

theorem hello_unreadable_session_is_legacy_witness:
  "hello_request_decode (w_str ''k'' @ w_str ''c:'' @ w_bytes [0xFF]) =
     Inr \<lparr>hlq_token = ''k'', hlq_root = ''c:'', hlq_session_id = []\<rparr>"
proof -
  have "\<not> utf8_valid [0xFF]" by (simp add: utf8_lead_def)
  moreover have "length [0xFF :: u8] \<le> MAX_FRAME_BODY" by (simp add: MAX_FRAME_BODY_def)
  moreover have "(1 :: u32) \<noteq> 0" by simp
  ultimately show ?thesis
    using hello_unreadable_session_is_legacy [of "''k''" "''c:''" 1 "[0xFF]" "w_bytes [0xFF]"]
    by (simp add: str_ok_literal)
qed

end
