(* ===== verification/File_Server.thy ===== *)
theory File_Server
  imports Session_Registry Path_Scope Capability Ops
begin

text \<open>
  The agent's file-supply server, \<open>src/crates/agent/src/fileserver.rs\<close>: the session handshake,
  the dispatch of one data-plane request against a session's capability, and the operations
  behind it: metadata probes, pinned reads, digest probes, directory listings and the streamed
  write-back of outputs. What the agent's file system answers is an argument of the reading
  operations; the staging files are those of the session registry. Sockets, timeouts and the
  two semaphores are not modelled.
\<close>

definition INLINE_CHUNK :: nat where "INLINE_CHUNK = 64 * 1024"
definition MAX_READ_CHUNK :: nat where "MAX_READ_CHUNK = 256 * 1024"

section \<open>What the file system answers\<close>

datatype meta_result = MetaOk metadata_entry | MetaErr "u32 option" bool

text \<open>
  The operations with \<open>_at\<close> go through the contained directory handle of a root and take a
  relative path, the others take an ambient path. A listing ends with the first entry that
  cannot be read.
\<close>

record supply_fs =
  sf_read_at :: "string \<Rightarrow> string \<Rightarrow> bytes option"
  sf_meta_at :: "string \<Rightarrow> string \<Rightarrow> (bool \<times> u64) option"
  sf_list_at :: "string \<Rightarrow> string \<Rightarrow> dir_entry list option"
  sf_attr_at :: "string \<Rightarrow> string \<Rightarrow> meta_result"
  sf_read :: "string \<Rightarrow> bytes option"
  sf_meta :: "string \<Rightarrow> (bool \<times> u64) option"
  sf_list :: "string \<Rightarrow> dir_entry list option"
  sf_attr :: "string \<Rightarrow> meta_result"

record server_stats =
  sv_read_ops :: u64
  sv_read_bytes :: u64
  sv_inline_bytes :: u64

definition content_bytes :: "server_stats \<Rightarrow> u64" where
  "content_bytes sv = sv_read_bytes sv + sv_inline_bytes sv"

text \<open>The contained access of a path: the root whose handle serves it, and the relative path.\<close>

definition contained_root_access :: "(string \<Rightarrow> string) \<Rightarrow> session_capability \<Rightarrow> string \<Rightarrow> (string \<times> string) option" where
  "contained_root_access lc cap requested =
     (case sc_root cap of
        None \<Rightarrow> None
      | Some root \<Rightarrow>
          if \<not> sc_root_dir cap then None
          else map_option (\<lambda>rel. (root, rel)) (root_relative_path lc requested root))"

definition hidden :: "(string \<Rightarrow> string) \<Rightarrow> session_capability \<Rightarrow> string \<Rightarrow> bool" where
  "hidden lc cap path \<longleftrightarrow> \<not> path_in_scope lc path (sc_root cap) \<or> requires_contained_root cap"

section \<open>Probes and listings\<close>

definition absent_stat :: stat_entry where
  "absent_stat = \<lparr>ste_exists = False, ste_is_dir = False, ste_size = 0, ste_digest_hex = []\<rparr>"

definition stat_of :: "(bool \<times> u64) option \<Rightarrow> stat_entry" where
  "stat_of m = (case m of
     Some (is_dir, len) \<Rightarrow> \<lparr>ste_exists = True, ste_is_dir = is_dir, ste_size = len, ste_digest_hex = []\<rparr> | None \<Rightarrow> absent_stat)"

definition stat_batch :: "(string \<Rightarrow> string) \<Rightarrow> supply_fs \<Rightarrow> session_capability \<Rightarrow> stat_request \<Rightarrow> stat_response" where
  "stat_batch lc fs cap req =
     \<lparr>str_entries = map (\<lambda>p.
        if hidden lc cap p then absent_stat
        else stat_of (case contained_root_access lc cap p of
               Some (root, rel) \<Rightarrow> sf_meta_at fs root rel | None \<Rightarrow> sf_meta fs p)) (stq_paths req)\<rparr>"

text \<open>\<open>None\<close> is an infrastructure error, not a file-system answer.\<close>

definition metadata_error :: "u32 option \<Rightarrow> metadata_entry option" where
  "metadata_error raw = (case raw of
     Some code \<Rightarrow> if is_metadata_filesystem_error code then Some (FilesystemError code) else None | None \<Rightarrow> None)"

definition contained_metadata_error :: "u32 option \<Rightarrow> bool \<Rightarrow> metadata_entry option" where
  "contained_metadata_error raw permission_denied =
     (if raw = None \<and> permission_denied then Some (FilesystemError 2) else metadata_error raw)"

definition metadata_target :: "(string \<Rightarrow> string) \<Rightarrow> supply_fs \<Rightarrow> session_capability \<Rightarrow> string \<Rightarrow> metadata_entry option" where
  "metadata_target lc fs cap path =
     (if hidden lc cap path then Some (FilesystemError 2)
      else case contained_root_access lc cap path of
        Some (root, rel) \<Rightarrow>
          (case sf_attr_at fs root rel of MetaOk m \<Rightarrow> Some m | MetaErr raw denied \<Rightarrow> contained_metadata_error raw denied)
      | None \<Rightarrow> (case sf_attr fs path of MetaOk m \<Rightarrow> Some m | MetaErr raw denied \<Rightarrow> metadata_error raw))"

definition metadata_batch_v1 ::
    "(string \<Rightarrow> string) \<Rightarrow> supply_fs \<Rightarrow> session_capability \<Rightarrow> metadata_request \<Rightarrow> metadata_response option" where
  "metadata_batch_v1 lc fs cap req =
     (let entries = map (metadata_target lc fs cap) (mdq_paths req) in
      if None \<in> set entries then None else Some \<lparr>mdr_entries = map the entries\<rparr>)"

definition no_dir :: dir_list_response where
  "no_dir = \<lparr>dlr_exists = False, dlr_entries = []\<rparr>"

text \<open>\<open>None\<close> is the quota error, which ends the connection.\<close>

definition dir_list :: "(string \<Rightarrow> string) \<Rightarrow> supply_fs \<Rightarrow> session_capability \<Rightarrow> dir_list_request \<Rightarrow> dir_list_response option" where
  "dir_list lc fs cap req =
     (if hidden lc cap (dlq_path req) then Some no_dir
      else case (case contained_root_access lc cap (dlq_path req) of
                   Some (root, rel) \<Rightarrow> sf_list_at fs root rel | None \<Rightarrow> sf_list fs (dlq_path req)) of
        None \<Rightarrow> Some no_dir
      | Some entries \<Rightarrow>
          if length entries > MAX_DIRLIST_ENTRIES then None
          else Some \<lparr>dlr_exists = True, dlr_entries = sort_key de_rel_path entries\<rparr>)"

section \<open>Reading\<close>

definition not_found_open :: open_read_response where
  "not_found_open = \<lparr>orr_exists = False, orr_size = 0, orr_digest_hex = [], orr_first_chunk = []\<rparr>"

text \<open>The state one request works on.\<close>

record serve_state =
  ss_cap :: session_capability
  ss_owner :: pin_owner
  ss_store :: blobs
  ss_files :: file_system
  ss_stats :: server_stats

definition range_or_empty :: "cas_error + bytes option \<Rightarrow> bytes" where
  "range_or_empty r = (case r of Inr (Some bs) \<Rightarrow> bs | _ \<Rightarrow> [])"

definition open_read ::
    "hash_fn \<Rightarrow> store_os \<Rightarrow> (string \<Rightarrow> string) \<Rightarrow> supply_fs \<Rightarrow> open_read_request \<Rightarrow> serve_state \<Rightarrow> open_read_response \<times> serve_state" where
  "open_read blake3 os lc fs req st =
     (let cap = ss_cap st; p = orq_path req in
      if hidden lc cap p then (not_found_open, st)
      else let content = (case contained_root_access lc cap p of Some (root, rel) \<Rightarrow> sf_read_at fs root rel | None \<Rightarrow> sf_read fs p) in
        case pin_contained blake3 os p content (cap, ss_owner st, ss_store st) of
          (None, cap', ow, bl) \<Rightarrow> (not_found_open, st\<lparr>ss_cap := cap', ss_owner := ow, ss_store := bl\<rparr>)
        | (Some (d, len), cap', ow, bl) \<Rightarrow>
            let first_chunk = (if orq_want_inline req then range_or_empty (store_get_range os bl d 0 INLINE_CHUNK) else []);
                sv = ss_stats st
            in (\<lparr>orr_exists = True, orr_size = len, orr_digest_hex = digest_canonical d, orr_first_chunk = first_chunk\<rparr>,
                st\<lparr>ss_cap := cap', ss_owner := ow, ss_store := bl,
                   ss_stats := sv\<lparr>sv_inline_bytes := sv_inline_bytes sv + word_of_nat (length first_chunk)\<rparr>\<rparr>))"

definition read_range :: "store_os \<Rightarrow> read_request \<Rightarrow> serve_state \<Rightarrow> read_response \<times> serve_state" where
  "read_range os req st =
     (case digest_parse (rdq_digest_hex req) of
        Inl _ \<Rightarrow> (\<lparr>rdr_bytes = []\<rparr>, st)
      | Inr d \<Rightarrow>
          if \<not> digest_visible (ss_cap st) d then (\<lparr>rdr_bytes = []\<rparr>, st)
          else let len = min (unat (rdq_len req)) MAX_READ_CHUNK;
                   out = range_or_empty (store_get_range os (ss_store st) d (unat (rdq_offset req)) len);
                   sv = ss_stats st
               in (\<lparr>rdr_bytes = out\<rparr>,
                   st\<lparr>ss_stats := sv\<lparr>sv_read_ops := sv_read_ops sv + 1,
                                     sv_read_bytes := sv_read_bytes sv + word_of_nat (length out)\<rparr>\<rparr>))"

definition server_has :: "store_os \<Rightarrow> has_request \<Rightarrow> serve_state \<Rightarrow> has_response" where
  "server_has os req st =
     \<lparr>hsr_present = map (\<lambda>s. case digest_parse s of
        Inr d \<Rightarrow> digest_visible (ss_cap st) d \<and> store_has os (ss_store st) d | Inl _ \<Rightarrow> False) (hsq_digests req)\<rparr>"

section \<open>Streamed write-back\<close>

definition wb_err :: "string \<Rightarrow> write_back_response" where
  "wb_err detail = \<lparr>wbr_ok = False, wbr_detail = detail\<rparr>"

definition wb_ok :: write_back_response where
  "wb_ok = \<lparr>wbr_ok = True, wbr_detail = []\<rparr>"

text \<open>\<open>wi_short\<close> is how many bytes a failing write got to the file; \<open>None\<close> when it succeeds.\<close>

record writeback_io =
  wi_temp :: temp_io
  wi_short :: "nat option"
  wi_remove :: bool

definition write_staging_file_at :: "nat \<Rightarrow> nat \<Rightarrow> bytes \<Rightarrow> file_system \<Rightarrow> file_system" where
  "write_staging_file_at i offset bs fy =
     (let old = fy_bytes fy i in
      fy\<lparr>fy_bytes := (fy_bytes fy)(i := take offset old @ replicate (offset - length old) 0 @ bs @ drop (offset + length bs) old)\<rparr>)"

definition write_back_begin ::
    "writeback_io \<Rightarrow> write_back_request \<Rightarrow> output_spec \<Rightarrow> session_capability \<times> file_system
     \<Rightarrow> bool \<times> session_capability \<times> file_system" where
  "write_back_begin io req spec = (\<lambda>(cap, fy).
     if wbq_offset req \<noteq> 0 then (True, cap, fy)
     else case create_staging_temp (wi_temp io) (sp_final_path spec) fy of
       (None, fy') \<Rightarrow> (False, cap, fy')
     | (Some (dir, rel, snap), fy') \<Rightarrow>
         let fy'' = (case map_of (sc_writebacks cap) (wbq_output_id req) of
                       None \<Rightarrow> fy' | Some old \<Rightarrow> remove_root_file (wi_remove io) (wb_tmp old) fy')
         in (True, cap\<lparr>sc_writebacks := hm_insert (wbq_output_id req)
               \<lparr>wb_tmp = (dir, rel), wb_snapshot = snap, wb_written = 0, wb_hasher = []\<rparr> (sc_writebacks cap)\<rparr>, fy''))"

definition write_back_finish ::
    "hash_fn \<Rightarrow> writeback_io \<Rightarrow> write_back_request \<Rightarrow> output_spec \<Rightarrow> writeback_state \<Rightarrow> session_capability \<times> file_system
     \<Rightarrow> write_back_response \<times> session_capability \<times> file_system" where
  "write_back_finish blake3 io req spec state = (\<lambda>(cap, fy).
     let cap = cap\<lparr>sc_writebacks := hm_remove (wbq_output_id req) (sc_writebacks cap)\<rparr>;
         actual = digest_canonical (digest_of blake3 (wb_hasher state));
         dropped = remove_root_file (wi_remove io) (wb_tmp state) fy
     in if actual \<noteq> wbq_digest_hex req
        then (wb_err (''digest mismatch: declared '' @ wbq_digest_hex req @ '', got '' @ actual), cap, dropped)
        else if \<not> verify_root_file_snapshot_and_digest blake3 fy (wb_tmp state) (wb_snapshot state) actual
        then (wb_err ''verify temp failed'', cap, dropped)
        else case record_staged (wi_remove io) (wbq_output_id req)
               \<lparr>so_staging_path = wb_tmp state, so_final_path = sp_final_path spec, so_digest_hex = actual,
                so_snapshot = wb_snapshot state\<rparr> (cap, fy) of
          (True, cap', fy') \<Rightarrow> (wb_ok, cap', fy')
        | (False, cap', fy') \<Rightarrow> (wb_err ''session closed during writeback'', cap', fy'))"

definition write_back_append ::
    "hash_fn \<Rightarrow> writeback_io \<Rightarrow> write_back_request \<Rightarrow> output_spec \<Rightarrow> writeback_state \<Rightarrow> session_capability \<times> file_system
     \<Rightarrow> write_back_response \<times> session_capability \<times> file_system" where
  "write_back_append blake3 io req spec state = (\<lambda>(cap, fy).
     let i = sn_identity (wb_snapshot state); offset = unat (wbq_offset req); bs = wbq_bytes req in
     case wi_short io of
       Some k \<Rightarrow> (wb_err ''write temp failed'', cap, write_staging_file_at i offset (take k bs) fy)
     | None \<Rightarrow>
         let fy' = write_staging_file_at i offset bs fy;
             state' = state\<lparr>wb_hasher := wb_hasher state @ bs, wb_written := wb_written state + word_of_nat (length bs)\<rparr>;
             cap' = cap\<lparr>sc_writebacks := hm_insert (wbq_output_id req) state' (sc_writebacks cap)\<rparr>
         in if \<not> wbq_last req then (wb_ok, cap', fy') else write_back_finish blake3 io req spec state' (cap', fy'))"

definition fits :: "writeback_state \<Rightarrow> write_back_request \<Rightarrow> output_spec \<Rightarrow> bool" where
  "fits state req spec \<longleftrightarrow>
     unat (wb_written state) + length (wbq_bytes req) < 2 ^ 64 \<and> unat (wb_written state) + length (wbq_bytes req) \<le> unat (sp_max_size spec)"

definition write_back ::
    "hash_fn \<Rightarrow> writeback_io \<Rightarrow> write_back_request \<Rightarrow> session_capability \<times> file_system
     \<Rightarrow> write_back_response \<times> session_capability \<times> file_system" where
  "write_back blake3 io req = (\<lambda>(cap, fy).
     case cap_output_spec cap (wbq_output_id req) of
       None \<Rightarrow> (wb_err ''unknown output id'', cap, fy)
     | Some spec \<Rightarrow>
         (case write_back_begin io req spec (cap, fy) of
            (False, cap, fy) \<Rightarrow> (wb_err ''create temp failed'', cap, fy)
          | (True, cap, fy) \<Rightarrow>
              (case map_of (sc_writebacks cap) (wbq_output_id req) of
                 None \<Rightarrow> (wb_err ''WriteBack chunk arrived without a begin (offset 0)'', cap, fy)
               | Some state \<Rightarrow>
                   if wbq_offset req \<noteq> wb_written state
                   then (wb_err (''out-of-order WriteBack chunk: offset '' @ dec (unat (wbq_offset req)) @ '' but ''
                                 @ dec (unat (wb_written state)) @ '' bytes written''), cap, fy)
                   else if \<not> fits state req spec
                   then (wb_err ''output exceeds max size'', cap\<lparr>sc_writebacks := hm_remove (wbq_output_id req) (sc_writebacks cap)\<rparr>,
                         remove_root_file (wi_remove io) (wb_tmp state) fy)
                   else write_back_append blake3 io req spec state (cap, fy))))"

section \<open>Dispatch and handshake\<close>

definition AFTER_OPEN :: string where "AFTER_OPEN = ''unexpected handshake after session open''"

definition closed_response :: "op_code \<Rightarrow> bytes" where
  "closed_response opc =
     (case opc of
        StatBatch \<Rightarrow> stat_response_encode \<lparr>str_entries = []\<rparr>
      | MetadataBatchV1 \<Rightarrow> projr (metadata_response_encode \<lparr>mdr_entries = []\<rparr>)
      | OpenRead \<Rightarrow> open_read_response_encode not_found_open
      | Read \<Rightarrow> read_response_encode \<lparr>rdr_bytes = []\<rparr>
      | DirList \<Rightarrow> dir_list_response_encode no_dir
      | Has \<Rightarrow> has_response_encode \<lparr>hsr_present = []\<rparr>
      | WriteBack \<Rightarrow> write_back_response_encode (wb_err ''session is closed'')
      | Hello \<Rightarrow> hello_response_encode \<lparr>hlr_ok = False, hlr_detail = AFTER_OPEN\<rparr>)"

record serve_env =
  sx_os :: store_os
  sx_fs :: supply_fs
  sx_io :: writeback_io

text \<open>\<open>None\<close> is an I/O error: the writer is shut down.\<close>

definition serve_dispatch ::
    "hash_fn \<Rightarrow> (string \<Rightarrow> string) \<Rightarrow> serve_env \<Rightarrow> op_code \<Rightarrow> bytes \<Rightarrow> serve_state \<Rightarrow> bytes option \<times> serve_state" where
  "serve_dispatch blake3 lc sx opc payload st =
     (if sc_closed (ss_cap st) then (Some (closed_response opc), st)
      else case opc of
        StatBatch \<Rightarrow>
          (Some (stat_response_encode (case stat_request_decode payload of
             Inr req \<Rightarrow> stat_batch lc (sx_fs sx) (ss_cap st) req | Inl _ \<Rightarrow> \<lparr>str_entries = []\<rparr>)), st)
      | MetadataBatchV1 \<Rightarrow>
          (let resp = (case metadata_request_decode payload of
                 Inr req \<Rightarrow> (case metadata_batch_v1 lc (sx_fs sx) (ss_cap st) req of Some r \<Rightarrow> r | None \<Rightarrow> \<lparr>mdr_entries = []\<rparr>)
               | Inl _ \<Rightarrow> \<lparr>mdr_entries = []\<rparr>)
           in (case metadata_response_encode resp of Inr bs \<Rightarrow> Some bs | Inl _ \<Rightarrow> None, st))
      | OpenRead \<Rightarrow>
          (case open_read_request_decode payload of
             Inr req \<Rightarrow> (case open_read blake3 (sx_os sx) lc (sx_fs sx) req st of (r, st') \<Rightarrow> (Some (open_read_response_encode r), st'))
           | Inl _ \<Rightarrow> (Some (open_read_response_encode not_found_open), st))
      | Read \<Rightarrow>
          (case read_request_decode payload of
             Inr req \<Rightarrow> (case read_range (sx_os sx) req st of (r, st') \<Rightarrow> (Some (read_response_encode r), st'))
           | Inl _ \<Rightarrow> (Some (read_response_encode \<lparr>rdr_bytes = []\<rparr>), st))
      | DirList \<Rightarrow>
          (case dir_list_request_decode payload of
             Inr req \<Rightarrow> (map_option dir_list_response_encode (dir_list lc (sx_fs sx) (ss_cap st) req), st)
           | Inl _ \<Rightarrow> (None, st))
      | Has \<Rightarrow>
          (Some (has_response_encode (case has_request_decode payload of
             Inr req \<Rightarrow> server_has (sx_os sx) req st | Inl _ \<Rightarrow> \<lparr>hsr_present = []\<rparr>)), st)
      | WriteBack \<Rightarrow>
          (case write_back_request_decode payload of
             Inr req \<Rightarrow>
               (case write_back blake3 (sx_io sx) req (ss_cap st, ss_files st) of
                  (r, cap, fy) \<Rightarrow> (Some (write_back_response_encode r), st\<lparr>ss_cap := cap, ss_files := fy\<rparr>))
           | Inl _ \<Rightarrow> (Some (write_back_response_encode (wb_err ''malformed WriteBack request'')), st))
      | Hello \<Rightarrow> (Some (hello_response_encode \<lparr>hlr_ok = False, hlr_detail = AFTER_OPEN\<rparr>), st))"

text \<open>The capability a Hello resolves to, by its address; only the legacy mode makes a new one.\<close>

definition resolve_session ::
    "(string \<Rightarrow> bool) \<Rightarrow> nat \<Rightarrow> bool \<Rightarrow> string \<Rightarrow> string option \<Rightarrow> registry \<Rightarrow> (string + nat) \<times> registry" where
  "resolve_session opens now legacy_sessions_enabled session_id worker_root rg =
     (if session_id = [] then
        (if legacy_sessions_enabled then (case legacy_capability opens now worker_root rg of (a, rg') \<Rightarrow> (Inr a, rg'))
         else (Inl ''session id required'', rg))
      else (case registry_get session_id rg of
              Some a \<Rightarrow> Inr a | None \<Rightarrow> Inl ''unknown or expired session id'', rg))"

definition handshake ::
    "(string \<Rightarrow> string) \<Rightarrow> (string \<Rightarrow> bool) \<Rightarrow> nat \<Rightarrow> string option \<Rightarrow> bool \<Rightarrow> op_code \<Rightarrow> bytes \<Rightarrow> registry
     \<Rightarrow> (string + nat) \<times> bytes \<times> registry" where
  "handshake lc opens now expected legacy_sessions_enabled opc payload rg =
     (let (decision, rg') =
        (if opc \<noteq> Hello then (Inl ''session handshake required'', rg)
         else case hello_request_decode payload of
           Inl _ \<Rightarrow> (Inl ''malformed handshake'', rg)
         | Inr h \<Rightarrow>
             (case auth_check expected (hlq_token h) of
                Inl reason \<Rightarrow> (Inl reason, rg)
              | Inr _ \<Rightarrow> resolve_session opens now legacy_sessions_enabled (hlq_session_id h) (normalize_root lc (hlq_root h)) rg))
      in (decision,
          hello_response_encode (case decision of
            Inr _ \<Rightarrow> \<lparr>hlr_ok = True, hlr_detail = []\<rparr> | Inl reason \<Rightarrow> \<lparr>hlr_ok = False, hlr_detail = reason\<rparr>),
          rg'))"

end
