(* ===== verification/Session_Isolation.thy ===== *)
theory Session_Isolation
  imports File_Server
begin

text \<open>
  What the session registry and the file server promise together: a session reads only what
  it pinned inside the root the agent gave it, a pin never changes, a worker's output lands
  only at a declared path with verified bytes within its size limit, and a finished session
  does nothing any more. The server is a transition system over the registry, the staging
  files and the counters; its requests carry arbitrary payloads and meet an arbitrary file
  system, and others may change any file at any time.
\<close>

section \<open>Well-formed capabilities\<close>

definition pins_wf :: "(string \<Rightarrow> string) \<Rightarrow> hash_fn \<Rightarrow> session_capability \<Rightarrow> bool" where
  "pins_wf lc blake3 cap \<longleftrightarrow>
     (\<forall>p d len. map_of (sc_pinned cap) p = Some (Some (d, len)) \<longrightarrow>
        \<not> hidden lc cap p \<and> d \<in> sc_allowed_digests cap
        \<and> (\<exists>bs. d = digest_of blake3 bs \<and> len = word_of_nat (length bs)))
     \<and> (sc_closed cap \<or> (\<forall>d \<in> sc_allowed_digests cap. \<exists>p len. map_of (sc_pinned cap) p = Some (Some (d, len))))"

definition outputs_wf :: "hash_fn \<Rightarrow> session_capability \<Rightarrow> bool" where
  "outputs_wf blake3 cap \<longleftrightarrow>
     (\<forall>i s. map_of (sc_writebacks cap) i = Some s \<longrightarrow>
        (\<exists>sp. map_of (sc_outputs cap) i = Some sp \<and> unat (wb_written s) = length (wb_hasher s)
           \<and> length (wb_hasher s) \<le> unat (sp_max_size sp)))
     \<and> (\<forall>i so. map_of (sc_staged cap) i = Some so \<longrightarrow>
        (\<exists>sp bs. map_of (sc_outputs cap) i = Some sp \<and> so_final_path so = sp_final_path sp
           \<and> so_digest_hex so = digest_canonical (digest_of blake3 bs) \<and> length bs \<le> unat (sp_max_size sp)))"

lemma outputs_wfD:
  assumes "outputs_wf blake3 cap"
  shows "map_of (sc_writebacks cap) i = Some s \<Longrightarrow>
      \<exists>sp. map_of (sc_outputs cap) i = Some sp \<and> unat (wb_written s) = length (wb_hasher s) \<and> length (wb_hasher s) \<le> unat (sp_max_size sp)"
    and "map_of (sc_staged cap) i = Some so \<Longrightarrow>
      \<exists>sp bs. map_of (sc_outputs cap) i = Some sp \<and> so_final_path so = sp_final_path sp
           \<and> so_digest_hex so = digest_canonical (digest_of blake3 bs) \<and> length bs \<le> unat (sp_max_size sp)"
  using assms by (auto simp: outputs_wf_def)

text \<open>What no request changes of a capability.\<close>

definition same_authority :: "session_capability \<Rightarrow> session_capability \<Rightarrow> bool" where
  "same_authority cap cap' \<longleftrightarrow> sc_root cap' = sc_root cap \<and> sc_root_dir cap' = sc_root_dir cap \<and> sc_outputs cap' = sc_outputs cap
     \<and> sc_enforce cap' = sc_enforce cap \<and> sc_closed cap' = sc_closed cap \<and> sc_conns cap' = sc_conns cap \<and> sc_created cap' = sc_created cap"

lemma same_authority_refl [simp]: "same_authority cap cap"
  by (simp add: same_authority_def)

lemma same_authority_trans: "same_authority a b \<Longrightarrow> same_authority b c \<Longrightarrow> same_authority a c"
  by (simp add: same_authority_def)

lemma same_authorityD:
  assumes "same_authority cap cap'"
  shows "sc_root cap' = sc_root cap" "sc_outputs cap' = sc_outputs cap" "sc_enforce cap' = sc_enforce cap" "sc_closed cap' = sc_closed cap"
  using assms by (simp_all add: same_authority_def)

section \<open>Pinning\<close>

lemma persist_pin_bytes_digest:
  assumes "persist_pin_bytes blake3 os bs (ow, bl) = (Some d, ow', bl')"
  shows "d = digest_of blake3 bs"
  using assms store_put_spec(1) [of blake3 os bs bl d bl']
  by (auto simp: persist_pin_bytes_def split: option.splits prod.splits sum.splits)

text \<open>The three ways a pin can end.\<close>

lemma pin_contained_cases:
  assumes "pin_contained blake3 os p content (cap, ow, bl) = (r, cap', ow', bl')"
  obtains (known) v where "r = Some v" "map_of (sc_pinned cap) p = Some (Some v)" "\<not> sc_closed cap"
      "cap' = cap\<lparr>sc_pinned := hm_upsert p None id (sc_pinned cap)\<rparr>"
  | (failed) "r = None" "cap' = cap \<or> \<not> (\<exists>v. map_of (sc_pinned cap) p = Some (Some v)) \<and> cap' = cap\<lparr>sc_pinned := hm_upsert p None id (sc_pinned cap)\<rparr>"
  | (fresh) bs where "content = Some bs" "r = Some (digest_of blake3 bs, word_of_nat (length bs))" "\<not> sc_closed cap"
      "\<not> (\<exists>v. map_of (sc_pinned cap) p = Some (Some v))"
      "cap' = cap\<lparr>sc_allowed_digests := insert (digest_of blake3 bs) (sc_allowed_digests cap),
               sc_pinned := hm_insert p (Some (digest_of blake3 bs, word_of_nat (length bs))) (hm_upsert p None id (sc_pinned cap))\<rparr>"
proof -
  let ?c = "cap\<lparr>sc_pinned := hm_upsert p None id (sc_pinned cap)\<rparr>"
  show ?thesis
  proof (cases "sc_closed cap")
    case True
    with assms have "r = None" "cap' = cap" by (simp_all add: pin_contained_def)
    then show ?thesis using failed by blast
  next
    case open_cap: False
    show ?thesis
    proof (cases "\<exists>v. map_of (sc_pinned cap) p = Some (Some v)")
      case True
      then obtain v where v: "map_of (sc_pinned cap) p = Some (Some v)" by blast
      with assms open_cap have "r = Some v" "cap' = ?c"
        by (simp_all add: pin_contained_def hm_look_upsert)
      then show ?thesis using known v open_cap by blast
    next
      case False
      then have "map_of (hm_upsert p None id (sc_pinned cap)) p = Some None"
        by (cases "map_of (sc_pinned cap) p") (auto simp: hm_look_upsert, metis not_None_eq surj_pair)
      then have step: "(r, cap', ow', bl') =
          (case content of None \<Rightarrow> (None, ?c, ow, bl)
           | Some bs \<Rightarrow> (case persist_pin_bytes blake3 os bs (ow, bl) of
                (None, ow', bl') \<Rightarrow> (None, ?c, ow', bl')
              | (Some d, ow', bl') \<Rightarrow> let v = (d, word_of_nat (length bs)) in
                  (case commit_if_accepting ow' (insert d) (sc_allowed_digests ?c) of
                     (False, _) \<Rightarrow> (None, ?c, pin_guard_drop ow', bl')
                   | (True, allowed) \<Rightarrow> (Some v, ?c\<lparr>sc_allowed_digests := allowed, sc_pinned := hm_insert p (Some v) (sc_pinned ?c)\<rparr>, ow', bl'))))"
        using assms open_cap by (simp add: pin_contained_def Let_def)
      show ?thesis
      proof (cases content)
        case None
        with step have "r = None" "cap' = ?c" by simp_all
        then show ?thesis using failed False by blast
      next
        case (Some bs)
        obtain rd ow1 bl1 where per: "persist_pin_bytes blake3 os bs (ow, bl) = (rd, ow1, bl1)" by (metis surj_pair)
        show ?thesis
        proof (cases rd)
          case None
          with step Some per have "r = None" "cap' = ?c" by simp_all
          then show ?thesis using failed False by blast
        next
          case (Some d)
          with per have d: "d = digest_of blake3 bs" using persist_pin_bytes_digest by blast
          show ?thesis
          proof (cases "po_accepting ow1")
            case True
            with step \<open>content = Some bs\<close> per Some d
            have "r = Some (digest_of blake3 bs, word_of_nat (length bs))"
              "cap' = cap\<lparr>sc_allowed_digests := insert (digest_of blake3 bs) (sc_allowed_digests cap),
               sc_pinned := hm_insert p (Some (digest_of blake3 bs, word_of_nat (length bs))) (hm_upsert p None id (sc_pinned cap))\<rparr>"
              by (simp_all add: commit_if_accepting_def Let_def)
            then show ?thesis using fresh \<open>content = Some bs\<close> open_cap False by blast
          next
            case rej: False
            with step \<open>content = Some bs\<close> per Some have "r = None" "cap' = ?c" by (simp_all add: commit_if_accepting_def Let_def)
            then show ?thesis using failed False by blast
          qed
        qed
      qed
    qed
  qed
qed

lemma look_touch: "map_of (hm_upsert p None id m) q = Some (Some v) \<longleftrightarrow> map_of m q = Some (Some v)"
  by (auto simp: hm_look_upsert split: option.splits)

definition pins_grow :: "session_capability \<Rightarrow> session_capability \<Rightarrow> bool" where
  "pins_grow cap cap' \<longleftrightarrow> (\<forall>q v. map_of (sc_pinned cap) q = Some (Some v) \<longrightarrow> map_of (sc_pinned cap') q = Some (Some v))"

lemma pins_grow_refl [simp]: "pins_grow cap cap"
  by (simp add: pins_grow_def)

lemma pins_grow_same: "sc_pinned cap' = sc_pinned cap \<Longrightarrow> pins_grow cap cap'"
  by (simp add: pins_grow_def)

lemma pins_wf_touch: "pins_wf lc blake3 (cap\<lparr>sc_pinned := hm_upsert p None id (sc_pinned cap)\<rparr>) \<longleftrightarrow> pins_wf lc blake3 cap"
  by (simp add: pins_wf_def look_touch hidden_def requires_contained_root_def)

lemma pins_wf_fresh:
  assumes wf: "pins_wf lc blake3 cap" and scope: "\<not> hidden lc cap p"
    and new: "\<not> (\<exists>v. map_of (sc_pinned cap) p = Some (Some v))" and d: "d = digest_of blake3 bs"
    and cap': "cap' = cap\<lparr>sc_allowed_digests := insert d (sc_allowed_digests cap),
               sc_pinned := hm_insert p (Some (d, word_of_nat (length bs))) (hm_upsert p None id (sc_pinned cap))\<rparr>"
  shows "pins_wf lc blake3 cap'"
proof -
  have look: "map_of (sc_pinned cap') q = Some (Some v) \<longleftrightarrow>
      (if q = p then v = (d, word_of_nat (length bs)) else map_of (sc_pinned cap) q = Some (Some v))" for q v
    using look_touch [of p "sc_pinned cap" q v] by (auto simp: cap' hm_look_upsert)
  have "\<exists>q len. map_of (sc_pinned cap') q = Some (Some (e, len))"
    if e: "e \<in> sc_allowed_digests cap'" and op: "\<not> sc_closed cap'" for e
  proof (cases "e = d")
    case False
    with e have "e \<in> sc_allowed_digests cap" by (simp add: cap')
    moreover have "\<not> sc_closed cap" using op by (simp add: cap')
    ultimately obtain q len where "map_of (sc_pinned cap) q = Some (Some (e, len))"
      using wf unfolding pins_wf_def by blast
    moreover from this new have "q \<noteq> p" by blast
    ultimately have "map_of (sc_pinned cap') q = Some (Some (e, len))" using look by simp
    then show ?thesis by blast
  next
    case True
    then have "map_of (sc_pinned cap') p = Some (Some (e, word_of_nat (length bs)))" using look by simp
    then show ?thesis by blast
  qed
  moreover have "\<not> hidden lc cap' q \<and> e \<in> sc_allowed_digests cap' \<and> (\<exists>bs. e = digest_of blake3 bs \<and> len = word_of_nat (length bs))"
    if "map_of (sc_pinned cap') q = Some (Some (e, len))" for q e len
  proof (cases "q = p")
    case True
    with that look have "e = d \<and> len = word_of_nat (length bs)" by simp
    with True scope d show ?thesis by (auto simp: cap' hidden_def requires_contained_root_def)
  next
    case False
    with that look have "map_of (sc_pinned cap) q = Some (Some (e, len))" by simp
    with wf show ?thesis unfolding pins_wf_def by (simp add: cap' hidden_def requires_contained_root_def)
  qed
  ultimately show ?thesis unfolding pins_wf_def by blast
qed

lemma pin_contained_keeps:
  assumes pin: "pin_contained blake3 os p content (cap, ow, bl) = (r, cap', ow', bl')"
    and wf: "pins_wf lc blake3 cap" and scope: "\<not> hidden lc cap p"
  shows "pins_wf lc blake3 cap' \<and> same_authority cap cap' \<and> sc_writebacks cap' = sc_writebacks cap \<and> sc_staged cap' = sc_staged cap
    \<and> pins_grow cap cap' \<and> (\<forall>v. r = Some v \<longrightarrow> map_of (sc_pinned cap') p = Some (Some v))"
  using pin
proof (cases rule: pin_contained_cases)
  case (known w)
  then show ?thesis using wf by (simp add: pins_wf_touch pins_grow_def look_touch same_authority_def)
next
  case failed
  then show ?thesis using wf by (auto simp: pins_wf_touch pins_grow_def look_touch same_authority_def)
next
  case (fresh bs)
  have "pins_wf lc blake3 cap'" by (rule pins_wf_fresh [OF wf scope fresh(4) refl fresh(5)])
  moreover have "pins_grow cap cap'"
    unfolding pins_grow_def using fresh(4) look_touch [of p "sc_pinned cap"] by (auto simp: fresh(5))
  ultimately show ?thesis using fresh(2) by (simp add: fresh(5) same_authority_def)
qed

text \<open>A pinned path is answered from its pin, whatever the file system says now.\<close>

lemma pin_contained_known:
  assumes "map_of (sc_pinned cap) p = Some (Some v)" "\<not> sc_closed cap"
  shows "\<exists>cap'. pin_contained blake3 os p content (cap, ow, bl) = (Some v, cap', ow, bl)"
  using assms by (simp add: pin_contained_def hm_look_upsert)

section \<open>Write-back\<close>

lemma record_staged_eq:
  "record_staged rm i so (cap, fy) = (ok, cap', fy') \<Longrightarrow>
     ok = (\<not> sc_closed cap) \<and> cap' = (if sc_closed cap then cap else cap\<lparr>sc_staged := hm_insert i so (sc_staged cap)\<rparr>)"
  by (auto simp: record_staged_def Let_def split: if_splits)

text \<open>A capability change that touches the output tables only, and keeps them well-formed.\<close>

definition outputs_step :: "hash_fn \<Rightarrow> session_capability \<Rightarrow> session_capability \<Rightarrow> bool" where
  "outputs_step blake3 cap cap' \<longleftrightarrow> same_authority cap cap' \<and> sc_pinned cap' = sc_pinned cap
     \<and> sc_allowed_digests cap' = sc_allowed_digests cap \<and> (outputs_wf blake3 cap \<longrightarrow> outputs_wf blake3 cap')"

lemma outputs_step_refl [simp]: "outputs_step blake3 cap cap"
  by (simp add: outputs_step_def)

lemma outputs_step_trans: "outputs_step blake3 a b \<Longrightarrow> outputs_step blake3 b c \<Longrightarrow> outputs_step blake3 a c"
  by (auto simp: outputs_step_def intro: same_authority_trans)

lemma outputs_step_remove:
  "outputs_step blake3 cap (cap\<lparr>sc_writebacks := hm_remove i (sc_writebacks cap)\<rparr>)"
  by (auto simp: outputs_step_def same_authority_def outputs_wf_def hm_look_remove)

lemma outputs_step_writeback:
  assumes "map_of (sc_outputs cap) i = Some sp" "unat (wb_written s) = length (wb_hasher s)" "length (wb_hasher s) \<le> unat (sp_max_size sp)"
  shows "outputs_step blake3 cap (cap\<lparr>sc_writebacks := hm_insert i s (sc_writebacks cap)\<rparr>)"
  using assms by (auto simp: outputs_step_def same_authority_def outputs_wf_def)

lemma outputs_step_staged:
  assumes "map_of (sc_outputs cap) i = Some sp" "so_final_path so = sp_final_path sp"
    "so_digest_hex so = digest_canonical (digest_of blake3 bs)" "length bs \<le> unat (sp_max_size sp)"
  shows "outputs_step blake3 cap (cap\<lparr>sc_staged := hm_insert i so (sc_staged cap)\<rparr>)"
  using assms by (auto simp: outputs_step_def same_authority_def outputs_wf_def)

lemma write_back_begin_step:
  assumes "write_back_begin io req spec (cap, fy) = (ok, cap', fy')" "map_of (sc_outputs cap) (wbq_output_id req) = Some spec"
  shows "outputs_step blake3 cap cap'"
proof -
  let ?s = "\<lambda>l sn. \<lparr>wb_tmp = l, wb_snapshot = sn, wb_written = 0, wb_hasher = []\<rparr>"
  have "cap' = cap \<or> (\<exists>l sn. cap' = cap\<lparr>sc_writebacks := hm_insert (wbq_output_id req) (?s l sn) (sc_writebacks cap)\<rparr>)"
    using assms(1) by (auto simp: write_back_begin_def Let_def split: if_splits prod.splits option.splits)
  then show ?thesis using outputs_step_writeback [OF assms(2)] by auto
qed

lemma write_back_finish_step:
  assumes fin: "write_back_finish blake3 io req spec s (cap, fy) = (r, cap', fy')"
    and spec: "map_of (sc_outputs cap) (wbq_output_id req) = Some spec" and len: "length (wb_hasher s) \<le> unat (sp_max_size spec)"
  shows "outputs_step blake3 cap cap'"
proof -
  let ?c = "cap\<lparr>sc_writebacks := hm_remove (wbq_output_id req) (sc_writebacks cap)\<rparr>"
  let ?so = "\<lparr>so_staging_path = wb_tmp s, so_final_path = sp_final_path spec,
      so_digest_hex = digest_canonical (digest_of blake3 (wb_hasher s)), so_snapshot = wb_snapshot s\<rparr>"
  have "cap' = ?c \<or> cap' = ?c\<lparr>sc_staged := hm_insert (wbq_output_id req) ?so (sc_staged ?c)\<rparr>"
    using fin by (auto simp: write_back_finish_def Let_def dest: record_staged_eq split: if_splits prod.splits bool.splits)
  moreover have "outputs_step blake3 ?c (?c\<lparr>sc_staged := hm_insert (wbq_output_id req) ?so (sc_staged ?c)\<rparr>)"
    by (rule outputs_step_staged [where sp = spec and bs = "wb_hasher s"]) (use spec len in simp_all)
  ultimately show ?thesis using outputs_step_remove outputs_step_trans by blast
qed

lemma unat_add_length:
  assumes "unat (w :: u64) + n < 2 ^ 64"
  shows "unat (w + word_of_nat n) = unat w + n"
proof -
  have "unat (word_of_nat n :: u64) = n" using assms by (simp add: unat_of_nat take_bit_nat_eq_self)
  then show ?thesis using assms by (simp add: unat_word_ariths)
qed

lemma write_back_append_step:
  assumes app: "write_back_append blake3 io req spec s (cap, fy) = (r, cap', fy')"
    and spec: "map_of (sc_outputs cap) (wbq_output_id req) = Some spec"
    and s: "unat (wb_written s) = length (wb_hasher s)" and fit: "fits s req spec"
  shows "outputs_step blake3 cap cap'"
proof (cases "wi_short io")
  case None
  let ?s = "s\<lparr>wb_hasher := wb_hasher s @ wbq_bytes req, wb_written := wb_written s + word_of_nat (length (wbq_bytes req))\<rparr>"
  let ?c = "cap\<lparr>sc_writebacks := hm_insert (wbq_output_id req) ?s (sc_writebacks cap)\<rparr>"
  let ?fy = "write_staging_file_at (sn_identity (wb_snapshot s)) (unat (wbq_offset req)) (wbq_bytes req) fy"
  have len: "unat (wb_written ?s) = length (wb_hasher ?s)" "length (wb_hasher ?s) \<le> unat (sp_max_size spec)"
    using fit s unat_add_length by (simp_all add: fits_def)
  have started: "outputs_step blake3 cap ?c" by (rule outputs_step_writeback [OF spec len])
  from app None consider "cap' = ?c" | "write_back_finish blake3 io req spec ?s (?c, ?fy) = (r, cap', fy')"
    by (auto simp: write_back_append_def Let_def split: if_splits)
  then show ?thesis
  proof cases
    case 2
    have "outputs_step blake3 ?c cap'" by (rule write_back_finish_step [OF 2 _ len(2)]) (use spec in simp)
    with started show ?thesis by (rule outputs_step_trans)
  qed (use started in simp)
next
  case (Some k)
  with app show ?thesis by (simp add: write_back_append_def Let_def)
qed

lemma write_back_step:
  assumes wb: "write_back blake3 io req (cap, fy) = (r, cap', fy')" and wf: "outputs_wf blake3 cap"
  shows "outputs_step blake3 cap cap'"
proof (cases "cap_output_spec cap (wbq_output_id req)")
  case None
  with wb show ?thesis by (simp add: write_back_def)
next
  case (Some spec)
  then have spec: "map_of (sc_outputs cap) (wbq_output_id req) = Some spec" by (simp add: cap_output_spec_def)
  obtain ok c1 fy1 where b: "write_back_begin io req spec (cap, fy) = (ok, c1, fy1)" by (metis surj_pair)
  have first: "outputs_step blake3 cap c1" by (rule write_back_begin_step [OF b spec])
  then have wf1: "outputs_wf blake3 c1" and spec1: "map_of (sc_outputs c1) (wbq_output_id req) = Some spec"
    using wf spec by (simp_all add: outputs_step_def same_authority_def)
  have "outputs_step blake3 c1 cap'"
  proof (cases "ok \<and> (\<exists>s. map_of (sc_writebacks c1) (wbq_output_id req) = Some s)")
    case False
    with wb Some b have "cap' = c1" by (auto simp: write_back_def split: option.splits bool.splits)
    then show ?thesis by simp
  next
    case True
    then obtain s where s: "map_of (sc_writebacks c1) (wbq_output_id req) = Some s" by blast
    then have written: "unat (wb_written s) = length (wb_hasher s)" using outputs_wfD(1) [OF wf1] by blast
    from wb Some b True s consider "cap' = c1" | "cap' = c1\<lparr>sc_writebacks := hm_remove (wbq_output_id req) (sc_writebacks c1)\<rparr>"
      | "fits s req spec" "write_back_append blake3 io req spec s (c1, fy1) = (r, cap', fy')"
      by (auto simp: write_back_def split: if_splits)
    then show ?thesis
      using outputs_step_remove write_back_append_step [OF _ spec1 written] by cases auto
  qed
  with first show ?thesis by (rule outputs_step_trans)
qed

section \<open>One request\<close>

lemma hidden_scope: "\<not> hidden lc cap p \<Longrightarrow> path_in_scope lc p (sc_root cap)"
  by (simp add: hidden_def)

lemma open_read_keeps:
  assumes op: "open_read blake3 os lc fs req st = (r, st')" and wf: "pins_wf lc blake3 (ss_cap st)"
  shows "pins_wf lc blake3 (ss_cap st') \<and> same_authority (ss_cap st) (ss_cap st') \<and> pins_grow (ss_cap st) (ss_cap st')
    \<and> sc_writebacks (ss_cap st') = sc_writebacks (ss_cap st) \<and> sc_staged (ss_cap st') = sc_staged (ss_cap st)
    \<and> (orr_exists r \<longrightarrow> path_in_scope lc (orq_path req) (sc_root (ss_cap st))
         \<and> (\<exists>d. map_of (sc_pinned (ss_cap st')) (orq_path req) = Some (Some (d, orr_size r)) \<and> orr_digest_hex r = digest_canonical d))"
proof (cases "hidden lc (ss_cap st) (orq_path req)")
  case True
  with op have "r = not_found_open" "st' = st" by (simp_all add: open_read_def Let_def)
  then show ?thesis using wf by (simp add: not_found_open_def)
next
  case False
  then have scope: "path_in_scope lc (orq_path req) (sc_root (ss_cap st))" by (rule hidden_scope)
  define content where "content = (case contained_root_access lc (ss_cap st) (orq_path req) of
      Some (root, rel) \<Rightarrow> sf_read_at fs root rel | None \<Rightarrow> sf_read fs (orq_path req))"
  obtain v cap' ow bl where pin: "pin_contained blake3 os (orq_path req) content (ss_cap st, ss_owner st, ss_store st) = (v, cap', ow, bl)"
    by (metis surj_pair)
  note keeps = pin_contained_keeps [OF pin wf False]
  show ?thesis
  proof (cases v)
    case None
    with op False pin have "r = not_found_open" "ss_cap st' = cap'"
      by (auto simp: open_read_def Let_def content_def)
    then show ?thesis using keeps by (simp add: not_found_open_def)
  next
    case (Some dl)
    then obtain d len where v: "v = Some (d, len)" by (cases dl) auto
    with op False pin have "orr_size r = len" "orr_digest_hex r = digest_canonical d" "ss_cap st' = cap'"
      by (auto simp: open_read_def Let_def content_def)
    then show ?thesis using keeps scope v by auto
  qed
qed

lemma read_range_cap: "ss_cap (snd (read_range os req st)) = ss_cap st"
  by (auto simp: read_range_def Let_def split: sum.splits)

text \<open>What a request may do to the capability it runs on.\<close>

definition request_keeps :: "(string \<Rightarrow> string) \<Rightarrow> hash_fn \<Rightarrow> session_capability \<Rightarrow> session_capability \<Rightarrow> bool" where
  "request_keeps lc blake3 cap cap' \<longleftrightarrow> same_authority cap cap' \<and> pins_grow cap cap'
     \<and> (pins_wf lc blake3 cap \<and> outputs_wf blake3 cap \<longrightarrow> pins_wf lc blake3 cap' \<and> outputs_wf blake3 cap')"

lemma request_keeps_refl [simp]: "request_keeps lc blake3 cap cap"
  by (simp add: request_keeps_def)

lemma outputs_wf_cong:
  "sc_writebacks cap' = sc_writebacks cap \<Longrightarrow> sc_staged cap' = sc_staged cap \<Longrightarrow> sc_outputs cap' = sc_outputs cap
   \<Longrightarrow> outputs_wf blake3 cap' = outputs_wf blake3 cap"
  by (simp add: outputs_wf_def)

lemma pins_wf_cong:
  "sc_pinned cap' = sc_pinned cap \<Longrightarrow> sc_allowed_digests cap' = sc_allowed_digests cap \<Longrightarrow> sc_root cap' = sc_root cap
   \<Longrightarrow> sc_closed cap' = sc_closed cap \<Longrightarrow> sc_root_dir cap' = sc_root_dir cap \<Longrightarrow> sc_enforce cap' = sc_enforce cap
   \<Longrightarrow> pins_wf lc blake3 cap' = pins_wf lc blake3 cap"
  by (simp add: pins_wf_def hidden_def requires_contained_root_def)

lemma serve_dispatch_cap:
  obtains (same) "ss_cap (snd (serve_dispatch blake3 lc sx opc payload st)) = ss_cap st"
    | (opened) req r st' where "open_read blake3 (sx_os sx) lc (sx_fs sx) req st = (r, st')"
        "snd (serve_dispatch blake3 lc sx opc payload st) = st'"
    | (written) req r cap fy where "write_back blake3 (sx_io sx) req (ss_cap st, ss_files st) = (r, cap, fy)"
        "ss_cap (snd (serve_dispatch blake3 lc sx opc payload st)) = cap"
proof (cases "sc_closed (ss_cap st)")
  case True
  then show ?thesis by (intro same) (simp add: serve_dispatch_def)
next
  case False
  note d = serve_dispatch_def
  show ?thesis
  proof (cases opc)
    case OpenRead
    show ?thesis
    proof (cases "open_read_request_decode payload")
      case (Inr req)
      obtain r st' where o: "open_read blake3 (sx_os sx) lc (sx_fs sx) req st = (r, st')" by (metis surj_pair)
      with False OpenRead Inr show ?thesis by (intro opened [OF o]) (simp add: d)
    qed (use False OpenRead in \<open>intro same, simp add: d\<close>)
  next
    case Read
    show ?thesis
    proof (cases "read_request_decode payload")
      case (Inr req)
      then show ?thesis using False Read read_range_cap [of "sx_os sx" req st] by (intro same) (auto simp: d split: prod.splits)
    qed (use False Read in \<open>intro same, simp add: d\<close>)
  next
    case WriteBack
    show ?thesis
    proof (cases "write_back_request_decode payload")
      case (Inr req)
      obtain r cap fy where w: "write_back blake3 (sx_io sx) req (ss_cap st, ss_files st) = (r, cap, fy)" by (metis surj_pair)
      with False WriteBack Inr show ?thesis by (intro written [OF w]) (simp add: d)
    qed (use False WriteBack in \<open>intro same, simp add: d\<close>)
  next
    case DirList
    then show ?thesis using False by (intro same) (simp add: d split: sum.splits)
  qed (use False in \<open>intro same, simp add: d Let_def\<close>)+
qed

lemma serve_dispatch_keeps:
  assumes wf: "pins_wf lc blake3 (ss_cap st)" "outputs_wf blake3 (ss_cap st)"
  shows "request_keeps lc blake3 (ss_cap st) (ss_cap (snd (serve_dispatch blake3 lc sx opc payload st)))"
proof (cases rule: serve_dispatch_cap [of blake3 lc sx opc payload st])
  case (opened req r st')
  note k = open_read_keeps [OF opened(1) wf(1)]
  have "outputs_wf blake3 (ss_cap st') = outputs_wf blake3 (ss_cap st)"
    by (rule outputs_wf_cong) (use k in \<open>simp_all add: same_authority_def\<close>)
  with k wf(2) show ?thesis unfolding opened(2) request_keeps_def by blast
next
  case (written req r cap fy)
  have "outputs_step blake3 (ss_cap st) cap" by (rule write_back_step [OF written(1) wf(2)])
  then show ?thesis unfolding written(2) request_keeps_def outputs_step_def
    using wf pins_wf_cong [of cap "ss_cap st"] by (auto intro: pins_grow_same simp: same_authority_def)
qed simp

section \<open>The server as a transition system\<close>

record server =
  sr_registry :: registry
  sr_files :: file_system
  sr_stats :: server_stats

definition server_new :: "file_system \<Rightarrow> server" where
  "server_new fy = \<lparr>sr_registry = registry_new, sr_files = fy, sr_stats = \<lparr>sv_read_ops = 0, sv_read_bytes = 0, sv_inline_bytes = 0\<rparr>\<rparr>"

text \<open>One request of a connection bound to the capability at an address.\<close>

definition serve_state_of :: "nat \<Rightarrow> server \<Rightarrow> serve_state" where
  "serve_state_of a sv = \<lparr>ss_cap = cap_at (sr_registry sv) a, ss_owner = rg_owner (sr_registry sv),
     ss_store = rg_store (sr_registry sv), ss_files = sr_files sv, ss_stats = sr_stats sv\<rparr>"

definition serve :: "hash_fn \<Rightarrow> (string \<Rightarrow> string) \<Rightarrow> serve_env \<Rightarrow> nat \<Rightarrow> op_code \<Rightarrow> bytes \<Rightarrow> server \<Rightarrow> bytes option \<times> server" where
  "serve blake3 lc sx a opc payload sv =
     (case serve_dispatch blake3 lc sx opc payload (serve_state_of a sv) of
        (r, st) \<Rightarrow> (r, \<lparr>sr_registry = cap_update a (\<lambda>_. ss_cap st)
                        ((sr_registry sv)\<lparr>rg_owner := ss_owner st, rg_store := ss_store st\<rparr>),
                      sr_files = ss_files st, sr_stats = ss_stats st\<rparr>))"

definition publish_at :: "hash_fn \<Rightarrow> (nat \<Rightarrow> publish_io) \<Rightarrow> nat \<Rightarrow> server \<Rightarrow> bool \<times> server" where
  "publish_at blake3 io a sv =
     (case publish_staged blake3 io (cap_at (sr_registry sv) a, sr_files sv) of
        (ok, cap, fy) \<Rightarrow> (ok, sv\<lparr>sr_registry := cap_update a (\<lambda>_. cap) (sr_registry sv), sr_files := fy\<rparr>))"

definition with_registry_files :: "server \<Rightarrow> registry \<times> file_system \<Rightarrow> server" where
  "with_registry_files sv = (\<lambda>(rg, fy). sv\<lparr>sr_registry := rg, sr_files := fy\<rparr>)"

text \<open>
  The log records what each capability was created with: its root, its outputs, and whether it
  enforces. The address of a capability is its position in the log.
\<close>

type_synonym grants = "(string option \<times> output_spec list \<times> bool) list"

inductive server_step :: "(string \<Rightarrow> string) \<Rightarrow> hash_fn \<Rightarrow> server \<times> grants \<Rightarrow> server \<times> grants \<Rightarrow> bool" for lc blake3 where
  st_create: "registry_create opens now sid root specs (sr_registry sv) = (a, rg)
     \<Longrightarrow> server_step lc blake3 (sv, log) (sv\<lparr>sr_registry := rg\<rparr>, log @ [(root, specs, True)])"
| st_legacy: "legacy_capability opens now root (sr_registry sv) = (a, rg)
     \<Longrightarrow> server_step lc blake3 (sv, log) (sv\<lparr>sr_registry := rg\<rparr>, log @ [(root, [], False)])"
| st_finish: "server_step lc blake3 (sv, log) (sv\<lparr>sr_registry := snd (registry_finish sid (sr_registry sv))\<rparr>, log)"
| st_bind: "server_step lc blake3 (sv, log) (sv\<lparr>sr_registry := registry_bind a (sr_registry sv)\<rparr>, log)"
| st_unbind: "server_step lc blake3 (sv, log) (sv\<lparr>sr_registry := conn_guard_drop a (sr_registry sv)\<rparr>, log)"
| st_request: "server_step lc blake3 (sv, log) (snd (serve blake3 lc sx a opc payload sv), log)"
| st_publish: "server_step lc blake3 (sv, log) (snd (publish_at blake3 io a sv), log)"
| st_discard: "server_step lc blake3 (sv, log) (with_registry_files sv (discard_at rm a (sr_registry sv, sr_files sv)), log)"
| st_sweep: "server_step lc blake3 (sv, log) (with_registry_files sv (snd (sweep_idle rm now ttl (sr_registry sv, sr_files sv))), log)"
| st_shutdown: "server_step lc blake3 (sv, log) (with_registry_files sv (shutdown_sessions rm (sr_registry sv, sr_files sv)), log)"
| st_owner_close: "server_step lc blake3 (sv, log) (sv\<lparr>sr_registry := (sr_registry sv)\<lparr>rg_owner := pin_close (rg_owner (sr_registry sv))\<rparr>\<rparr>, log)"
| st_tamper: "server_step lc blake3 (sv, log) (sv\<lparr>sr_files := fy, sr_registry := (sr_registry sv)\<lparr>rg_store := bl\<rparr>\<rparr>, log)"

inductive server_run :: "(string \<Rightarrow> string) \<Rightarrow> hash_fn \<Rightarrow> server \<times> grants \<Rightarrow> server \<times> grants \<Rightarrow> bool" for lc blake3 where
  srv_refl: "server_run lc blake3 s s"
| srv_step: "server_run lc blake3 s t \<Longrightarrow> server_step lc blake3 t u \<Longrightarrow> server_run lc blake3 s u"

definition server_reach :: "(string \<Rightarrow> string) \<Rightarrow> hash_fn \<Rightarrow> server \<Rightarrow> grants \<Rightarrow> bool" where
  "server_reach lc blake3 sv log \<longleftrightarrow> (\<exists>fy. server_run lc blake3 (server_new fy, []) (sv, log))"

text \<open>What one step may do to one capability.\<close>

definition cap_granted :: "string option \<times> output_spec list \<times> bool \<Rightarrow> session_capability \<Rightarrow> bool" where
  "cap_granted g cap \<longleftrightarrow> (case g of (root, specs, enf) \<Rightarrow> sc_root cap = root \<and> sc_outputs cap = outputs_of specs \<and> sc_enforce cap = enf)"

definition cap_step :: "(string \<Rightarrow> string) \<Rightarrow> hash_fn \<Rightarrow> session_capability \<Rightarrow> session_capability \<Rightarrow> bool" where
  "cap_step lc blake3 cap cap' \<longleftrightarrow>
     sc_root cap' = sc_root cap \<and> sc_root_dir cap' = sc_root_dir cap \<and> sc_outputs cap' = sc_outputs cap
     \<and> sc_enforce cap' = sc_enforce cap \<and> (sc_closed cap \<longrightarrow> sc_closed cap') \<and> (\<not> sc_closed cap' \<longrightarrow> pins_grow cap cap')
     \<and> (pins_wf lc blake3 cap \<and> outputs_wf blake3 cap \<longrightarrow> pins_wf lc blake3 cap' \<and> outputs_wf blake3 cap')"

lemma cap_step_refl [simp]: "cap_step lc blake3 cap cap"
  by (simp add: cap_step_def)

lemma cap_step_trans: "cap_step lc blake3 a b \<Longrightarrow> cap_step lc blake3 b c \<Longrightarrow> cap_step lc blake3 a c"
  unfolding cap_step_def pins_grow_def by (metis (no_types, lifting))

lemma outputs_wf_clear: "outputs_wf blake3 (cap\<lparr>sc_staged := []\<rparr>)" if "outputs_wf blake3 cap"
  using that by (simp add: outputs_wf_def)

lemma cap_step_close: "cap_step lc blake3 cap (session_close cap)"
  by (auto simp: cap_step_def session_close_def pins_wf_def outputs_wf_def hidden_def requires_contained_root_def)

lemma cap_step_conns: "cap_step lc blake3 cap (cap\<lparr>sc_conns := n\<rparr>)"
  by (simp add: cap_step_def pins_wf_def outputs_wf_def pins_grow_def hidden_def requires_contained_root_def)

lemma cap_step_discard: "cap_step lc blake3 cap (cap\<lparr>sc_staged := [], sc_writebacks := []\<rparr>)"
  by (simp add: cap_step_def pins_wf_def outputs_wf_def pins_grow_def hidden_def requires_contained_root_def)

lemma cap_step_drain: "cap_step lc blake3 cap (cap\<lparr>sc_staged := []\<rparr>)"
  by (simp add: cap_step_def pins_wf_def outputs_wf_def pins_grow_def hidden_def requires_contained_root_def)

lemma cap_step_unpin: "sc_closed cap \<Longrightarrow> cap_step lc blake3 cap (cap\<lparr>sc_pinned := []\<rparr>)"
  by (simp add: cap_step_def pins_wf_def outputs_wf_def)

lemma cap_step_request:
  "request_keeps lc blake3 cap cap' \<Longrightarrow> cap_step lc blake3 cap cap'"
  by (simp add: cap_step_def request_keeps_def same_authority_def)

definition cap_wf :: "(string \<Rightarrow> string) \<Rightarrow> hash_fn \<Rightarrow> session_capability \<Rightarrow> bool" where
  "cap_wf lc blake3 cap \<longleftrightarrow> pins_wf lc blake3 cap \<and> outputs_wf blake3 cap"

abbreviation caps_step :: "(string \<Rightarrow> string) \<Rightarrow> hash_fn \<Rightarrow> registry \<Rightarrow> registry \<Rightarrow> bool" where
  "caps_step lc blake3 rg rg' \<equiv> list_all2 (cap_step lc blake3) (rg_caps rg) (rg_caps rg')"

lemma caps_step_refl: "rg_caps rg' = rg_caps rg \<Longrightarrow> caps_step lc blake3 rg rg'"
  by (simp add: list_all2_refl)

lemma caps_step_trans: "caps_step lc blake3 a b \<Longrightarrow> caps_step lc blake3 b c \<Longrightarrow> caps_step lc blake3 a c"
  by (rule list_all2_trans [of "cap_step lc blake3" "cap_step lc blake3" "cap_step lc blake3"]) (auto intro: cap_step_trans)

lemma caps_step_update:
  assumes "a < length (rg_caps rg) \<Longrightarrow> cap_step lc blake3 (rg_caps rg ! a) (f (rg_caps rg ! a))"
  shows "caps_step lc blake3 rg (cap_update a f rg)"
  unfolding list_all2_conv_all_nth
proof (intro conjI allI impI)
  fix i assume "i < length (rg_caps rg)"
  with assms show "cap_step lc blake3 (rg_caps rg ! i) (rg_caps (cap_update a f rg) ! i)"
    by (cases "i = a") (simp_all add: cap_update_def)
qed (simp add: cap_update_def)

lemma caps_step_discard_at: "caps_step lc blake3 rg (fst (discard_at rm a (rg, fy)))"
  by (auto simp: discard_at_def discard_staged_def cap_at_def intro!: caps_step_update cap_step_discard)

lemma caps_step_fold:
  assumes "\<And>a x. caps_step lc blake3 (fst x) (fst (f a x))"
  shows "caps_step lc blake3 (fst x) (fst (fold f as x))"
proof (induction as arbitrary: x)
  case (Cons a as)
  then show ?case using assms caps_step_trans by (metis (no_types, lifting) fold_simps(2))
qed (simp add: caps_step_refl)

lemma caps_step_sweep: "caps_step lc blake3 rg (fst (snd (sweep_idle rm now ttl (rg, fy))))"
proof -
  have "caps_step lc blake3 (fst x) (fst (discard_at rm a x))" for a x
    using caps_step_discard_at [of lc blake3 "fst x" rm a "snd x"] by simp
  from caps_step_fold [OF this] show ?thesis
    unfolding sweep_idle_def Let_def prod.case snd_conv
    by (rule caps_step_trans [rotated]) (simp add: caps_step_refl)
qed

lemma caps_step_shutdown: "caps_step lc blake3 rg (fst (shutdown_sessions rm (rg, fy)))"
proof -
  let ?f = "\<lambda>a (rg, fy). discard_at rm a (clear_pins a (cap_update a session_close rg), fy)"
  have one: "caps_step lc blake3 rg (fst (?f a (rg, fy)))" for a rg fy
  proof -
    let ?c = "cap_update a session_close rg"
    have "caps_step lc blake3 rg ?c" by (rule caps_step_update) (rule cap_step_close)
    moreover have "caps_step lc blake3 ?c (clear_pins a ?c)"
    proof -
      have "a < length (rg_caps ?c) \<Longrightarrow> sc_closed (rg_caps ?c ! a)" by (simp add: cap_update_def session_close_def)
      then show ?thesis
        unfolding clear_pins_def Let_def
        by (intro caps_step_trans [OF caps_step_refl caps_step_update]) (simp_all add: cap_step_unpin cap_update_def)
    qed
    ultimately have "caps_step lc blake3 rg (clear_pins a ?c)" by (rule caps_step_trans)
    then show ?thesis using caps_step_discard_at [of lc blake3 "clear_pins a ?c" rm a fy]
      unfolding prod.case by (rule caps_step_trans)
  qed
  then have "caps_step lc blake3 (fst x) (fst (?f a x))" for a x using one [of "fst x" a "snd x"] by (simp add: case_prod_beta)
  from caps_step_fold [of lc blake3 ?f, OF this] show ?thesis
    unfolding shutdown_sessions_def prod.case by (rule caps_step_trans [rotated]) (simp add: caps_step_refl)
qed

lemma caps_step_serve:
  assumes "\<forall>cap \<in> set (rg_caps (sr_registry sv)). cap_wf lc blake3 cap"
  shows "caps_step lc blake3 (sr_registry sv) (sr_registry (snd (serve blake3 lc sx a opc payload sv)))"
proof -
  let ?st = "serve_state_of a sv" and ?rg = "sr_registry sv"
  let ?out = "snd (serve_dispatch blake3 lc sx opc payload ?st)"
  have "cap_step lc blake3 (rg_caps ?rg ! a) (ss_cap ?out)" if "a < length (rg_caps ?rg)"
  proof -
    have "cap_wf lc blake3 (ss_cap ?st)" using assms that by (simp add: serve_state_of_def cap_at_def)
    then have "request_keeps lc blake3 (ss_cap ?st) (ss_cap ?out)" by (intro serve_dispatch_keeps) (simp_all add: cap_wf_def)
    then show ?thesis using cap_step_request by (simp add: serve_state_of_def cap_at_def)
  qed
  then have "caps_step lc blake3 ?rg (cap_update a (\<lambda>_. ss_cap ?out) (?rg\<lparr>rg_owner := ss_owner ?out, rg_store := ss_store ?out\<rparr>))"
    by (intro caps_step_trans [OF caps_step_refl caps_step_update]) simp_all
  then show ?thesis by (simp add: serve_def case_prod_beta)
qed

lemma server_step_caps:
  assumes step: "server_step lc blake3 (sv, log) (sv', log')" and wf: "\<forall>cap \<in> set (rg_caps (sr_registry sv)). cap_wf lc blake3 cap"
  shows "log' = log \<and> caps_step lc blake3 (sr_registry sv) (sr_registry sv')
    \<or> (\<exists>cap g. rg_caps (sr_registry sv') = rg_caps (sr_registry sv) @ [cap] \<and> log' = log @ [g] \<and> cap_granted g cap \<and> cap_wf lc blake3 cap)"
  using step
proof cases
  case st_create
  then show ?thesis
    by (auto simp: registry_create_def Let_def cap_granted_def session_new_def session_close_def cap_wf_def pins_wf_def outputs_wf_def split: if_splits)
next
  case st_legacy
  then show ?thesis
    by (auto simp: legacy_capability_def cap_granted_def session_new_def cap_wf_def pins_wf_def outputs_wf_def outputs_of_def)
next
  case (st_finish sid)
  then show ?thesis
    by (auto simp: registry_finish_def caps_step_refl intro!: caps_step_trans [OF caps_step_refl caps_step_update] cap_step_close split: option.splits)
next
  case (st_bind a)
  then show ?thesis by (simp add: registry_bind_def caps_step_update cap_step_conns)
next
  case (st_unbind a)
  then show ?thesis by (simp add: conn_guard_drop_def caps_step_update cap_step_conns)
next
  case (st_request sx a opc payload)
  then show ?thesis using caps_step_serve [OF wf] by simp
next
  case (st_publish io a)
  then show ?thesis
    by (auto simp: publish_at_def publish_staged_def cap_at_def intro!: caps_step_update cap_step_drain split: prod.splits)
next
  case (st_discard rm a)
  then show ?thesis using caps_step_discard_at [of lc blake3 "sr_registry sv" rm a "sr_files sv"]
    by (simp add: with_registry_files_def case_prod_beta)
next
  case (st_sweep rm now ttl)
  then show ?thesis using caps_step_sweep [of lc blake3 "sr_registry sv" rm now ttl "sr_files sv"]
    by (simp add: with_registry_files_def case_prod_beta)
next
  case (st_shutdown rm)
  then show ?thesis using caps_step_shutdown [of lc blake3 "sr_registry sv" rm "sr_files sv"]
    by (simp add: with_registry_files_def case_prod_beta)
qed (simp_all add: caps_step_refl)

section \<open>Invariant of the server\<close>

definition server_inv :: "(string \<Rightarrow> string) \<Rightarrow> hash_fn \<Rightarrow> server \<Rightarrow> grants \<Rightarrow> bool" where
  "server_inv lc blake3 sv log \<longleftrightarrow>
     list_all2 (\<lambda>g cap. cap_granted g cap \<and> cap_wf lc blake3 cap) log (rg_caps (sr_registry sv))"

lemma cap_step_inv: "cap_granted g cap \<and> cap_wf lc blake3 cap \<Longrightarrow> cap_step lc blake3 cap cap' \<Longrightarrow> cap_granted g cap' \<and> cap_wf lc blake3 cap'"
  by (auto simp: cap_granted_def cap_wf_def cap_step_def)

lemma server_inv_wf: "server_inv lc blake3 sv log \<Longrightarrow> cap \<in> set (rg_caps (sr_registry sv)) \<Longrightarrow> cap_wf lc blake3 cap"
  by (auto simp: server_inv_def list_all2_conv_all_nth in_set_conv_nth)

lemma server_step_inv:
  assumes inv: "server_inv lc blake3 sv log" and step: "server_step lc blake3 (sv, log) (sv', log')"
  shows "server_inv lc blake3 sv' log'"
proof -
  have "\<forall>cap \<in> set (rg_caps (sr_registry sv)). cap_wf lc blake3 cap" using server_inv_wf [OF inv] by blast
  from server_step_caps [OF step this] show ?thesis
  proof (elim disjE exE conjE)
    assume "log' = log" "caps_step lc blake3 (sr_registry sv) (sr_registry sv')"
    then show ?thesis using inv unfolding server_inv_def list_all2_conv_all_nth by (metis cap_step_inv)
  next
    fix cap g
    assume "rg_caps (sr_registry sv') = rg_caps (sr_registry sv) @ [cap]" "log' = log @ [g]" "cap_granted g cap" "cap_wf lc blake3 cap"
    then show ?thesis using inv by (simp add: server_inv_def list_all2_appendI)
  qed
qed

lemma server_run_inv:
  assumes "server_run lc blake3 s t" and "server_inv lc blake3 (fst s) (snd s)"
  shows "server_inv lc blake3 (fst t) (snd t)"
  using assms by induction (auto intro: server_step_inv simp: split_paired_all)

lemma server_reach_inv: "server_reach lc blake3 sv log \<Longrightarrow> server_inv lc blake3 sv log"
  unfolding server_reach_def
  by (auto dest!: server_run_inv simp: server_inv_def server_new_def registry_new_def)

lemma server_inv_at:
  assumes "server_inv lc blake3 sv log" "a < length log"
  shows "cap_granted (log ! a) (cap_at (sr_registry sv) a)" "pins_wf lc blake3 (cap_at (sr_registry sv) a)"
    "outputs_wf blake3 (cap_at (sr_registry sv) a)" "a < length (rg_caps (sr_registry sv))"
  using assms by (auto simp: server_inv_def list_all2_conv_all_nth cap_wf_def cap_at_def)

lemma server_run_cap:
  assumes run: "server_run lc blake3 s t" and inv: "server_inv lc blake3 (fst s) (snd s)" and a: "a < length (snd s)"
  shows "a < length (snd t) \<and> snd t ! a = snd s ! a
    \<and> cap_step lc blake3 (cap_at (sr_registry (fst s)) a) (cap_at (sr_registry (fst t)) a)"
  using assms
proof induction
  case (srv_step s t u)
  note ih = srv_step.IH [OF srv_step.prems]
  have inv_t: "server_inv lc blake3 (fst t) (snd t)" by (rule server_run_inv [OF srv_step.hyps(1) srv_step.prems(1)])
  then have wf: "\<forall>cap \<in> set (rg_caps (sr_registry (fst t))). cap_wf lc blake3 cap" using server_inv_wf by blast
  have len: "a < length (rg_caps (sr_registry (fst t)))" using server_inv_at(4) [OF inv_t] ih by blast
  have "a < length (snd u) \<and> snd u ! a = snd t ! a \<and> cap_step lc blake3 (cap_at (sr_registry (fst t)) a) (cap_at (sr_registry (fst u)) a)"
    using server_step_caps [of lc blake3 "fst t" "snd t" "fst u" "snd u"] srv_step.hyps(2) ih wf len
    by (auto simp: list_all2_conv_all_nth cap_at_def nth_append)
  with ih show ?case using cap_step_trans by metis
qed simp

section \<open>The promises\<close>


text \<open>
  C17. A pin never changes. Once a session has pinned a path, every later open of that path in
  the session, as long as it is not closed, answers with the same digest and size, whatever
  has meanwhile happened to the file, to other sessions and to the registry.
\<close>

theorem pins_frozen:
  assumes reach: "server_reach lc blake3 sv log" and a: "a < length log"
    and pin: "map_of (sc_pinned (cap_at (sr_registry sv) a)) p = Some (Some (d, len))"
    and run: "server_run lc blake3 (sv, log) (sv', log')" and open_cap: "\<not> sc_closed (cap_at (sr_registry sv') a)"
    and oq: "orq_path oq = p"
  shows "let r = fst (open_read blake3 os lc fs oq (serve_state_of a sv')) in
     orr_exists r \<and> orr_digest_hex r = digest_canonical d \<and> orr_size r = len"
proof -
  have inv: "server_inv lc blake3 sv log" by (rule server_reach_inv [OF reach])
  have later: "cap_step lc blake3 (cap_at (sr_registry sv) a) (cap_at (sr_registry sv') a)" "a < length log'"
    using server_run_cap [OF run] inv a by auto
  have inv': "server_inv lc blake3 sv' log'" using server_run_inv [OF run] inv by simp
  let ?cap = "cap_at (sr_registry sv') a"
  have same: "map_of (sc_pinned ?cap) p = Some (Some (d, len))"
    using later(1) pin open_cap by (auto simp: cap_step_def pins_grow_def)
  then have vis: "\<not> hidden lc ?cap p" using server_inv_at(2) [OF inv' later(2)] unfolding pins_wf_def by blast
  define content where "content = (case contained_root_access lc ?cap p of Some (root, rel) \<Rightarrow> sf_read_at fs root rel | None \<Rightarrow> sf_read fs p)"
  obtain cap' where "pin_contained blake3 os p content (?cap, rg_owner (sr_registry sv'), rg_store (sr_registry sv'))
      = (Some (d, len), cap', rg_owner (sr_registry sv'), rg_store (sr_registry sv'))"
    using pin_contained_known [OF same open_cap] by blast
  then show ?thesis using vis oq by (simp add: open_read_def serve_state_of_def Let_def content_def)
qed

text \<open>
  A finished session is inert. After \<open>finish\<close> has removed a session, its id resolves to
  nothing, and in every later state each request on its capability, from connections that
  linger, is answered with the closed response and changes nothing at all.
\<close>

theorem finished_session_inert:
  assumes reach: "server_reach lc blake3 sv log" and get: "registry_get sid (sr_registry sv) = Some a" and a: "a < length log"
    and run: "server_run lc blake3 (sv\<lparr>sr_registry := snd (registry_finish sid (sr_registry sv))\<rparr>, log) (sv', log')"
  shows "registry_get sid (snd (registry_finish sid (sr_registry sv))) = None
    \<and> serve blake3 lc sx a opc payload sv' = (Some (closed_response opc), sv')"
proof -
  let ?fin = "sv\<lparr>sr_registry := snd (registry_finish sid (sr_registry sv))\<rparr>"
  have inv: "server_inv lc blake3 sv log" by (rule server_reach_inv [OF reach])
  then have inv_fin: "server_inv lc blake3 ?fin log" by (rule server_step_inv) (rule st_finish)
  have look: "map_of (rg_sessions (sr_registry sv)) sid = Some a" using get by (simp add: registry_get_def split: if_splits)
  have "sc_closed (cap_at (sr_registry ?fin) a)"
    using look server_inv_at(4) [OF inv a] by (simp add: registry_finish_def cap_update_def cap_at_def session_close_def)
  then have closed: "sc_closed (cap_at (sr_registry sv') a)"
    using server_run_cap [OF run] inv_fin a by (auto simp: cap_step_def)
  have noop: "(rg_caps rg)[a := rg_caps rg ! a] = rg_caps rg" for rg by simp
  have "serve blake3 lc sx a opc payload sv' = (Some (closed_response opc), sv')"
    using closed by (simp add: serve_def serve_dispatch_def serve_state_of_def cap_update_def cap_at_def)
  then show ?thesis using look by (simp add: registry_finish_def registry_get_def cap_update_def hm_look_remove)
qed

end
