(* ===== verification/Output_Staging.thy ===== *)
theory Output_Staging
  imports Session_Isolation
begin

text \<open>
  What becomes of a worker's outputs: the functional behaviour of the streamed write-back, the
  safety of publishing staged outputs while others interfere, and what the idle sweep does to
  outputs that wait for their publication.
\<close>

section \<open>Publishing\<close>

lemma verify_SomeD:
  "verify_root_file_snapshot_and_digest blake3 fy l sn dg \<Longrightarrow>
     \<exists>i. fy_names fy l = Some i \<and> i = sn_identity sn \<and> fy_links fy i = sn_link_count sn
       \<and> digest_canonical (digest_of blake3 (fy_bytes fy i)) = dg"
  by (auto simp: verify_root_file_snapshot_and_digest_def split: option.splits if_splits)

lemma publish_staged_output_ok:
  assumes "publish_staged_output blake3 io so fy = (True, fy')"
  shows "\<exists>dir rel i. so_final_path so = Some (dir, rel) \<and> fst (so_staging_path so) = dir \<and> fy_names fy' (dir, rel) = Some i
    \<and> i = sn_identity (so_snapshot so) \<and> digest_canonical (digest_of blake3 (fy_bytes fy' i)) = so_digest_hex so
    \<and> (\<forall>l. l \<noteq> (dir, rel) \<and> l \<noteq> so_staging_path so \<longrightarrow> fy_names fy' l = fy_names (pb_tamper io fy) l)
    \<and> fy_bytes fy' = fy_bytes (pb_tamper io fy)"
proof -
  obtain tdir trel where tmp: "so_staging_path so = (tdir, trel)" by (cases "so_staging_path so")
  obtain dir rel where fin: "so_final_path so = Some (dir, rel)"
    using assms by (cases "so_final_path so") (auto simp: publish_staged_output_def)
  have dir: "tdir = dir" using assms by (auto simp: publish_staged_output_def fin tmp split: if_splits)
  have ver: "verify_root_file_snapshot_and_digest blake3 fy (dir, trel) (so_snapshot so) (so_digest_hex so)"
    using assms by (auto simp: publish_staged_output_def fin tmp dir split: if_splits)
  have ren: "rename_root_file (pb_rename io) dir trel rel (pb_tamper io fy) = (True, fy')"
    and ver': "verify_root_file_snapshot_and_digest blake3 fy' (dir, rel) (so_snapshot so) (so_digest_hex so)"
    using assms ver by (auto simp: publish_staged_output_def fin tmp dir split: if_splits prod.splits bool.splits)
  from ren have "fy_bytes fy' = fy_bytes (pb_tamper io fy)"
      "\<forall>l. l \<noteq> (dir, rel) \<and> l \<noteq> (dir, trel) \<longrightarrow> fy_names fy' l = fy_names (pb_tamper io fy) l"
    by (auto simp: rename_root_file_def split: option.splits if_splits)
  with verify_SomeD [OF ver'] fin tmp dir show ?thesis by auto
qed

text \<open>A failed publication leaves no unverified bytes at the final path.\<close>

lemma publish_staged_output_failed:
  assumes "publish_staged_output blake3 io so fy = (False, fy')" "so_final_path so = Some final" "pb_remove io"
  shows "fy_names fy' final = None \<or> fy_names fy' final = fy_names fy final \<or> fy_names fy' final = fy_names (pb_tamper io fy) final"
proof -
  obtain tdir trel where tmp: "so_staging_path so = (tdir, trel)" by (cases "so_staging_path so")
  obtain dir rel where fin: "final = (dir, rel)" by (cases final)
  obtain ok fy1 where ren: "rename_root_file (pb_rename io) dir trel rel (pb_tamper io fy) = (ok, fy1)" by (metis surj_pair)
  have "\<not> ok \<Longrightarrow> fy1 = pb_tamper io fy" using ren by (auto simp: rename_root_file_def split: option.splits if_splits)
  with assms ren show ?thesis
    by (auto simp: publish_staged_output_def tmp fin remove_root_file_def split: if_splits bool.splits)
qed


section \<open>Streaming\<close>

fun chunk_requests :: "u32 \<Rightarrow> string \<Rightarrow> nat \<Rightarrow> bytes list \<Rightarrow> write_back_request list" where
  "chunk_requests i dg off [] = []"
| "chunk_requests i dg off (c # cs) =
     \<lparr>wbq_output_id = i, wbq_digest_hex = dg, wbq_offset = word_of_nat off, wbq_bytes = c, wbq_last = (cs = [])\<rparr>
     # chunk_requests i dg (off + length c) cs"

fun stream :: "hash_fn \<Rightarrow> writeback_io \<Rightarrow> write_back_request list \<Rightarrow> session_capability \<times> file_system
    \<Rightarrow> write_back_response list \<times> session_capability \<times> file_system" where
  "stream blake3 io [] st = ([], st)"
| "stream blake3 io (r # rs) st =
     (case write_back blake3 io r st of
        (resp, st') \<Rightarrow> (case stream blake3 io rs st' of (resps, st'') \<Rightarrow> (resp # resps, st'')))"

text \<open>A stream in progress whose temp file holds exactly what was received.\<close>

definition in_progress :: "session_capability \<Rightarrow> file_system \<Rightarrow> u32 \<Rightarrow> writeback_state \<Rightarrow> bytes \<Rightarrow> bool" where
  "in_progress cap fy i s pre \<longleftrightarrow> map_of (sc_writebacks cap) i = Some s \<and> wb_hasher s = pre \<and> unat (wb_written s) = length pre
     \<and> fy_names fy (wb_tmp s) = Some (sn_identity (wb_snapshot s))
     \<and> fy_links fy (sn_identity (wb_snapshot s)) = sn_link_count (wb_snapshot s) \<and> fy_bytes fy (sn_identity (wb_snapshot s)) = pre"

definition staged_as :: "hash_fn \<Rightarrow> session_capability \<Rightarrow> file_system \<Rightarrow> u32 \<Rightarrow> output_spec \<Rightarrow> bytes \<Rightarrow> bool" where
  "staged_as blake3 cap fy i sp bs \<longleftrightarrow> (\<exists>so obj. map_of (sc_staged cap) i = Some so \<and> so_final_path so = sp_final_path sp
     \<and> so_digest_hex so = digest_canonical (digest_of blake3 bs) \<and> fy_names fy (so_staging_path so) = Some obj
     \<and> obj = sn_identity (so_snapshot so) \<and> fy_links fy obj = sn_link_count (so_snapshot so) \<and> fy_bytes fy obj = bs)"

lemma write_at_end: "fy_bytes fy i = pre \<Longrightarrow> write_staging_file_at i (length pre) c fy = fy\<lparr>fy_bytes := (fy_bytes fy)(i := pre @ c)\<rparr>"
  by (simp add: write_staging_file_at_def Let_def)

lemma write_back_after_begin:
  assumes "cap_output_spec cap (wbq_output_id req) = Some spec" "write_back_begin io req spec (cap, fy) = (True, cap1, fy1)"
    "map_of (sc_writebacks cap1) (wbq_output_id req) = Some s" "wbq_offset req = wb_written s" "fits s req spec"
  shows "write_back blake3 io req (cap, fy) = write_back_append blake3 io req spec s (cap1, fy1)"
  using assms by (simp add: write_back_def)

lemma append_chunk:
  assumes prog: "in_progress cap fy i s pre" and io: "wi_short io = None"
    and req: "wbq_output_id req = i" "wbq_bytes req = c" "unat (wbq_offset req) = length pre" "\<not> wbq_last req"
    and len: "length pre + length c < 2 ^ 64"
  shows "\<exists>cap' fy' s'. write_back_append blake3 io req spec s (cap, fy) = (wb_ok, cap', fy') \<and> in_progress cap' fy' i s' (pre @ c)
    \<and> sc_outputs cap' = sc_outputs cap \<and> sc_closed cap' = sc_closed cap \<and> sc_staged cap' = sc_staged cap"
proof -
  let ?s = "s\<lparr>wb_hasher := wb_hasher s @ c, wb_written := wb_written s + word_of_nat (length c)\<rparr>"
  let ?fy = "fy\<lparr>fy_bytes := (fy_bytes fy)(sn_identity (wb_snapshot s) := pre @ c)\<rparr>"
  let ?cap = "cap\<lparr>sc_writebacks := hm_insert i ?s (sc_writebacks cap)\<rparr>"
  have "write_back_append blake3 io req spec s (cap, fy) = (wb_ok, ?cap, ?fy)"
    using prog io req write_at_end [of fy "sn_identity (wb_snapshot s)" pre c]
    by (simp add: write_back_append_def Let_def in_progress_def)
  moreover have "in_progress ?cap ?fy i ?s (pre @ c)"
    using prog len unat_add_length [of "wb_written s" "length c"] by (simp add: in_progress_def)
  ultimately show ?thesis by (intro exI [of _ ?cap] exI [of _ ?fy] exI [of _ ?s]) simp
qed

lemma append_last:
  assumes prog: "in_progress cap fy i s pre" and io: "wi_short io = None"
    and req: "wbq_output_id req = i" "wbq_bytes req = c" "unat (wbq_offset req) = length pre" "wbq_last req"
    and cap: "\<not> sc_closed cap" "map_of (sc_staged cap) i = None"
  shows "\<exists>r cap' fy'. write_back_append blake3 io req spec s (cap, fy) = (r, cap', fy') \<and> map_of (sc_writebacks cap') i = None
    \<and> (if wbq_digest_hex req = digest_canonical (digest_of blake3 (pre @ c)) then r = wb_ok \<and> staged_as blake3 cap' fy' i spec (pre @ c)
       else \<not> wbr_ok r \<and> map_of (sc_staged cap') i = None)"
proof -
  let ?s = "s\<lparr>wb_hasher := wb_hasher s @ c, wb_written := wb_written s + word_of_nat (length c)\<rparr>"
  let ?fy = "fy\<lparr>fy_bytes := (fy_bytes fy)(sn_identity (wb_snapshot s) := pre @ c)\<rparr>"
  let ?cap = "cap\<lparr>sc_writebacks := hm_insert i ?s (sc_writebacks cap)\<rparr>"
  have app: "write_back_append blake3 io req spec s (cap, fy) = write_back_finish blake3 io req spec ?s (?cap, ?fy)"
    using prog io req write_at_end [of fy "sn_identity (wb_snapshot s)" pre c]
    by (simp add: write_back_append_def Let_def in_progress_def)
  have obj: "fy_names ?fy (wb_tmp s) = Some (sn_identity (wb_snapshot s))" "wb_hasher s = pre"
      "fy_links ?fy (sn_identity (wb_snapshot s)) = sn_link_count (wb_snapshot s)"
    using prog by (simp_all add: in_progress_def)
  show ?thesis
  proof (cases "wbq_digest_hex req = digest_canonical (digest_of blake3 (pre @ c))")
    case True
    have ver: "verify_root_file_snapshot_and_digest blake3 ?fy (wb_tmp s) (wb_snapshot s) (digest_canonical (digest_of blake3 (pre @ c)))"
      using obj by (simp add: verify_root_file_snapshot_and_digest_def)
    show ?thesis unfolding app using True obj ver cap req
      by (simp add: write_back_finish_def Let_def record_staged_def staged_as_def hm_look_remove)
  next
    case False
    then show ?thesis unfolding app using obj cap req
      by (simp add: write_back_finish_def Let_def wb_err_def hm_look_remove)
  qed
qed

definition stream_outcome ::
    "hash_fn \<Rightarrow> string \<Rightarrow> u32 \<Rightarrow> output_spec \<Rightarrow> bytes \<Rightarrow> nat \<Rightarrow> write_back_response list \<times> session_capability \<times> file_system \<Rightarrow> bool" where
  "stream_outcome blake3 dg i sp bs n = (\<lambda>(resps, cap, fy).
     map_of (sc_writebacks cap) i = None
     \<and> (if dg = digest_canonical (digest_of blake3 bs) then resps = replicate n wb_ok \<and> staged_as blake3 cap fy i sp bs
        else butlast resps = replicate (n - 1) wb_ok \<and> length resps = n \<and> \<not> wbr_ok (last resps) \<and> map_of (sc_staged cap) i = None))"

text \<open>The write-back of a chunk onto a stream in progress is the append of it.\<close>

lemma write_back_resume:
  assumes prog: "in_progress cap fy i s pre" and sp: "map_of (sc_outputs cap) i = Some sp"
    and req: "wbq_output_id req = i" "wbq_offset req = word_of_nat (length pre)" "pre \<noteq> []"
    and len: "length pre + length (wbq_bytes req) < 2 ^ 64" "length pre + length (wbq_bytes req) \<le> unat (sp_max_size sp)"
  shows "write_back blake3 io req (cap, fy) = write_back_append blake3 io req sp s (cap, fy)" "unat (wbq_offset req) = length pre"
proof -
  show off: "unat (wbq_offset req) = length pre" using req len by (simp add: unat_of_nat take_bit_nat_eq_self)
  then have "wbq_offset req \<noteq> 0" using req(3) by (metis length_0_conv unat_0)
  moreover have "wbq_offset req = wb_written s" using off prog by (simp add: in_progress_def word_unat_eq_iff)
  ultimately show "write_back blake3 io req (cap, fy) = write_back_append blake3 io req sp s (cap, fy)"
    using prog sp req(1) len
    by (intro write_back_after_begin) (simp_all add: cap_output_spec_def write_back_begin_def in_progress_def fits_def)
qed

lemma stream_resumed:
  assumes "in_progress cap fy i s pre" "map_of (sc_outputs cap) i = Some sp" "pre \<noteq> []" "cs \<noteq> []" "wi_short io = None"
    "\<not> sc_closed cap" "map_of (sc_staged cap) i = None"
    "length (pre @ concat cs) < 2 ^ 64" "length (pre @ concat cs) \<le> unat (sp_max_size sp)"
  shows "stream_outcome blake3 dg i sp (pre @ concat cs) (length cs) (stream blake3 io (chunk_requests i dg (length pre) cs) (cap, fy))"
  using assms
proof (induction cs arbitrary: cap fy s pre)
  case (Cons c cs)
  let ?r = "\<lparr>wbq_output_id = i, wbq_digest_hex = dg, wbq_offset = word_of_nat (length pre), wbq_bytes = c, wbq_last = (cs = [])\<rparr>"
  have wb: "write_back blake3 io ?r (cap, fy) = write_back_append blake3 io ?r sp s (cap, fy)" "unat (wbq_offset ?r) = length pre"
    by (rule write_back_resume [OF Cons.prems(1,2)]; use Cons.prems in simp)+
  show ?case
  proof (cases "cs = []")
    case True
    have "\<exists>r cap' fy'. write_back_append blake3 io ?r sp s (cap, fy) = (r, cap', fy') \<and> map_of (sc_writebacks cap') i = None
        \<and> (if wbq_digest_hex ?r = digest_canonical (digest_of blake3 (pre @ c)) then r = wb_ok \<and> staged_as blake3 cap' fy' i sp (pre @ c)
            else \<not> wbr_ok r \<and> map_of (sc_staged cap') i = None)"
      by (rule append_last [OF Cons.prems(1,5)]) (use wb(2) True Cons.prems(6,7) in simp_all)
    then show ?thesis using True wb(1) by (auto simp: stream_outcome_def split: if_splits)
  next
    case False
    obtain cap' fy' s' where st: "write_back_append blake3 io ?r sp s (cap, fy) = (wb_ok, cap', fy')" "in_progress cap' fy' i s' (pre @ c)"
        "sc_outputs cap' = sc_outputs cap" "sc_closed cap' = sc_closed cap" "sc_staged cap' = sc_staged cap"
      using append_chunk [OF Cons.prems(1,5), of ?r c blake3 sp] wb(2) False Cons.prems(8) by auto
    have "stream_outcome blake3 dg i sp ((pre @ c) @ concat cs) (length cs)
        (stream blake3 io (chunk_requests i dg (length (pre @ c)) cs) (cap', fy'))"
      by (rule Cons.IH [OF st(2)]) (use Cons.prems False st in simp_all)
    moreover have "wb_ok # replicate (length cs - Suc 0) wb_ok = replicate (length cs) wb_ok" using False by (cases cs) simp_all
    ultimately show ?thesis using wb(1) st(1) False by (auto simp: stream_outcome_def split: prod.splits if_splits)
  qed
qed simp

text \<open>An environment in which a new staging file can be made and nothing fails.\<close>

definition io_good :: "writeback_io \<Rightarrow> output_spec \<Rightarrow> file_system \<Rightarrow> bool" where
  "io_good io sp fy \<longleftrightarrow> ti_parent (wi_temp io) \<and> ti_create (wi_temp io) \<and> ti_links (wi_temp io) = 1 \<and> wi_short io = None
     \<and> (\<exists>dir rel. sp_final_path sp = Some (dir, rel) \<and> (\<exists>hex \<in> set (ti_draws (wi_temp io)). fy_names fy (dir, staging_temp hex) = None))"

lemma find_SomeI: "\<exists>x \<in> set xs. P x \<Longrightarrow> \<exists>x. find P xs = Some x \<and> P x"
  by (induction xs) auto

lemma begin_in_progress:
  assumes io: "io_good io sp fy" and req: "wbq_output_id req = i" "wbq_offset req = 0" and none: "map_of (sc_writebacks cap) i = None"
  shows "\<exists>cap' fy' s. write_back_begin io req sp (cap, fy) = (True, cap', fy') \<and> in_progress cap' fy' i s []
    \<and> sc_outputs cap' = sc_outputs cap \<and> sc_closed cap' = sc_closed cap \<and> sc_staged cap' = sc_staged cap"
proof -
  obtain dir rel where fin: "sp_final_path sp = Some (dir, rel)"
      and draws: "\<exists>hex \<in> set (ti_draws (wi_temp io)). fy_names fy (dir, staging_temp hex) = None"
    using io by (auto simp: io_good_def)
  obtain hex where hex: "find (\<lambda>hex. fy_names fy (dir, staging_temp hex) = None) (ti_draws (wi_temp io)) = Some hex"
    using find_SomeI [OF draws] by blast
  then show ?thesis using io req none fin
    by (simp add: write_back_begin_def create_staging_temp_def io_good_def Let_def in_progress_def)
qed

lemma stream_delivers:
  assumes sp: "map_of (sc_outputs cap) i = Some sp" and cap: "\<not> sc_closed cap" "map_of (sc_staged cap) i = None" "map_of (sc_writebacks cap) i = None"
    and io: "io_good io sp fy" and cs: "cs \<noteq> []" "\<forall>c \<in> set (butlast cs). c \<noteq> []"
    and len: "length (concat cs) < 2 ^ 64" "length (concat cs) \<le> unat (sp_max_size sp)"
  shows "stream_outcome blake3 dg i sp (concat cs) (length cs) (stream blake3 io (chunk_requests i dg 0 cs) (cap, fy))"
proof -
  obtain c ds where cs_eq: "cs = c # ds" using cs(1) by (cases cs) auto
  let ?r = "\<lparr>wbq_output_id = i, wbq_digest_hex = dg, wbq_offset = word_of_nat 0, wbq_bytes = c, wbq_last = (ds = [])\<rparr>"
  have short: "wi_short io = None" using io by (simp add: io_good_def)
  obtain cap1 fy1 s where b: "write_back_begin io ?r sp (cap, fy) = (True, cap1, fy1)" "in_progress cap1 fy1 i s []"
      "sc_outputs cap1 = sc_outputs cap" "sc_closed cap1 = sc_closed cap" "sc_staged cap1 = sc_staged cap"
    using begin_in_progress [OF io, of ?r i cap] cap(3) by auto
  have "wb_written s = 0" using b(2) by (simp add: in_progress_def unat_eq_zero)
  then have wb: "write_back blake3 io ?r (cap, fy) = write_back_append blake3 io ?r sp s (cap1, fy1)"
    using b(1,2) sp len cs_eq by (intro write_back_after_begin) (simp_all add: cap_output_spec_def in_progress_def fits_def)
  show ?thesis
  proof (cases "ds = []")
    case True
    have "\<exists>r cap' fy'. write_back_append blake3 io ?r sp s (cap1, fy1) = (r, cap', fy') \<and> map_of (sc_writebacks cap') i = None
        \<and> (if wbq_digest_hex ?r = digest_canonical (digest_of blake3 ([] @ c)) then r = wb_ok \<and> staged_as blake3 cap' fy' i sp ([] @ c)
            else \<not> wbr_ok r \<and> map_of (sc_staged cap') i = None)"
      by (rule append_last [OF b(2) short]) (use True cap b in simp_all)
    then show ?thesis using True wb cs_eq by (auto simp: stream_outcome_def split: if_splits)
  next
    case False
    obtain cap' fy' s' where st: "write_back_append blake3 io ?r sp s (cap1, fy1) = (wb_ok, cap', fy')" "in_progress cap' fy' i s' ([] @ c)"
        "sc_outputs cap' = sc_outputs cap1" "sc_closed cap' = sc_closed cap1" "sc_staged cap' = sc_staged cap1"
      using append_chunk [OF b(2) short, of ?r c blake3 sp] False len cs_eq by auto
    have "c \<noteq> []" using cs(2) False by (simp add: cs_eq)
    then have "stream_outcome blake3 dg i sp (c @ concat ds) (length ds) (stream blake3 io (chunk_requests i dg (length c) ds) (cap', fy'))"
      by (intro stream_resumed [of _ _ _ s']) (use st b sp cap len cs_eq short False in simp_all)
    moreover have "wb_ok # replicate (length ds - Suc 0) wb_ok = replicate (length ds) wb_ok" using False by (cases ds) simp_all
    ultimately show ?thesis using wb st(1) False by (auto simp: cs_eq stream_outcome_def split: prod.splits if_splits)
  qed
qed

text \<open>
  Streaming an output works, and only with the right digest. Cutting any byte string into
  chunks (all but the last non-empty) and sending them in order for a declared output, within
  its size limit and with a file system that works, is acknowledged chunk by chunk; if the
  declared digest is that of the whole string, the output is staged for its declared final
  path and its staging file holds exactly the string; if not, only the last chunk is refused
  and nothing is staged. Either way no stream is left in progress.
\<close>

theorem writeback_stream:
  assumes "map_of (sc_outputs cap) i = Some sp" "\<not> sc_closed cap" "map_of (sc_staged cap) i = None" "map_of (sc_writebacks cap) i = None"
    and "io_good io sp fy" "cs \<noteq> []" "\<forall>c \<in> set (butlast cs). c \<noteq> []"
    and "length (concat cs) < 2 ^ 64" "length (concat cs) \<le> unat (sp_max_size sp)"
  shows "stream_outcome blake3 dg i sp (concat cs) (length cs) (stream blake3 io (chunk_requests i dg 0 cs) (cap, fy))"
  by (rule stream_delivers [OF assms])

section \<open>The idle sweep\<close>

lemma discard_at_caps:
  "rg_caps (fst (discard_at rm a (rg, fy))) = (rg_caps rg)[a := (rg_caps rg ! a)\<lparr>sc_staged := [], sc_writebacks := []\<rparr>]"
  by (simp add: discard_at_def discard_staged_def cap_update_def cap_at_def)

lemma fold_discard:
  "length (rg_caps (fst (fold (discard_at rm) as x))) = length (rg_caps (fst x))
   \<and> (\<forall>a < length (rg_caps (fst x)). sc_closed (rg_caps (fst (fold (discard_at rm) as x)) ! a) = sc_closed (rg_caps (fst x) ! a)
        \<and> (a \<in> set as \<or> sc_staged (rg_caps (fst x) ! a) = [] \<longrightarrow> sc_staged (rg_caps (fst (fold (discard_at rm) as x)) ! a) = []))"
proof (induction as arbitrary: x)
  case (Cons b as)
  let ?y = "discard_at rm b x"
  have caps: "rg_caps (fst ?y) = (rg_caps (fst x))[b := (rg_caps (fst x) ! b)\<lparr>sc_staged := [], sc_writebacks := []\<rparr>]"
    using discard_at_caps [of rm b "fst x" "snd x"] by simp
  have len: "length (rg_caps (fst ?y)) = length (rg_caps (fst x))" by (simp add: caps)
  have one: "sc_closed (rg_caps (fst ?y) ! a) = sc_closed (rg_caps (fst x) ! a)
      \<and> (a = b \<or> sc_staged (rg_caps (fst x) ! a) = [] \<longrightarrow> sc_staged (rg_caps (fst ?y) ! a) = [])"
    if "a < length (rg_caps (fst x))" for a
    using that by (cases "a = b") (simp_all add: caps)
  show ?case unfolding fold_simps
    using Cons.IH [of ?y] one unfolding len by (metis set_ConsD)
qed simp

text \<open>
  The idle sweep can lose verified outputs silently. A session that the sweep removes (no
  open connection, older than the limit) loses every output it has staged, but its capability
  is not closed; when the action that owns it then succeeds, publishing its outputs reports
  success although nothing is published.
\<close>

theorem swept_outputs_lost:
  assumes "sweep_idle rm now ttl (rg, fy) = (n, rg', fy')" "hm_inv (rg_sessions rg)" "map_of (rg_sessions rg) sid = Some a"
    and "a < length (rg_caps rg)" "\<not> sc_closed (cap_at rg a)" "sc_conns (cap_at rg a) = 0" "now - sc_created (cap_at rg a) \<ge> ttl"
  shows "registry_get sid rg' = None \<and> \<not> sc_closed (cap_at rg' a)
    \<and> (\<forall>files. publish_staged blake3 io (cap_at rg' a, files) = (True, cap_at rg' a, files))"
proof -
  let ?reaped = "filter (\<lambda>a. \<not> sweep_keeps now ttl (cap_at rg a)) (hm_values (rg_sessions rg))"
  let ?rg = "rg\<lparr>rg_sessions := hm_retain (\<lambda>a. sweep_keeps now ttl (cap_at rg a)) (rg_sessions rg)\<rparr>"
  have res: "fold (discard_at rm) ?reaped (?rg, fy) = (rg', fy')" using assms(1) by (simp add: sweep_idle_def Let_def)
  have idle: "\<not> sweep_keeps now ttl (cap_at rg a)" using assms(6,7) by (simp add: sweep_keeps_def)
  have "a \<in> set ?reaped" using idle assms(2,3) hm_values_iff [OF assms(2), of a] by auto
  then have cap: "sc_staged (cap_at rg' a) = []" "\<not> sc_closed (cap_at rg' a)"
    using fold_discard [of rm ?reaped "(?rg, fy)"] res assms(4,5) by (auto simp: cap_at_def)
  have "rg_sessions (fst (fold (discard_at rm) as x)) = rg_sessions (fst x)" for as x
    by (induction as arbitrary: x) (auto simp: discard_at_def discard_staged_def cap_update_def split: prod.splits)
  from this [of ?reaped "(?rg, fy)"] have "rg_sessions rg' = rg_sessions ?rg" using res by simp
  then have "map_of (rg_sessions rg') sid = None"
    using hm_look_retain [OF assms(2), of "\<lambda>a. sweep_keeps now ttl (cap_at rg a)" sid] assms(3) idle
    by (cases "map_of (rg_sessions rg') sid") auto
  moreover have "cap_at rg' a\<lparr>sc_staged := []\<rparr> = cap_at rg' a" using cap(1) by simp
  ultimately show ?thesis using cap by (simp add: registry_get_def publish_staged_def hm_values_def)
qed

section \<open>Witnesses\<close>

definition no_files :: file_system where
  "no_files = \<lparr>fy_names = \<lambda>_. None, fy_links = \<lambda>_. 0, fy_bytes = \<lambda>_. []\<rparr>"

definition demo_spec :: output_spec where
  "demo_spec = \<lparr>sp_id = 1, sp_final_path = Some (''d'', ''o''), sp_max_size = 10\<rparr>"

definition demo_log :: grants where "demo_log = [(Some demo_root, [demo_spec], True)]"

definition demo_granted :: server where
  "demo_granted = (server_new no_files)\<lparr>sr_registry := snd (registry_create (\<lambda>_. True) 0 ''s'' (Some demo_root) [demo_spec] registry_new)\<rparr>"

definition demo_cap :: session_capability where
  "demo_cap = session_new (\<lambda>_. True) 0 (Some demo_root) [(1, demo_spec)] True"

lemma demo_granted_caps: "rg_caps (sr_registry demo_granted) = [demo_cap]" "rg_sessions (sr_registry demo_granted) = [(''s'', 0)]"
    "sr_files demo_granted = no_files" "rg_owner (sr_registry demo_granted) = pin_owner_new" "rg_store (sr_registry demo_granted) = (\<lambda>_. FsNotFound)"
  by (simp_all add: demo_granted_def server_new_def registry_create_def registry_new_def Let_def demo_cap_def outputs_of_def hm_insert_def
      demo_spec_def)

lemma demo_granted_reach: "server_reach id toy_hash demo_granted demo_log"
proof -
  obtain a rg where c: "registry_create (\<lambda>_. True) 0 ''s'' (Some demo_root) [demo_spec] (sr_registry (server_new no_files)) = (a, rg)"
    by (metis surj_pair)
  have "server_step id toy_hash (server_new no_files, []) (demo_granted, demo_log)"
    using st_create [OF c, of id toy_hash "[]"] c by (simp add: demo_granted_def demo_log_def server_new_def)
  then show ?thesis unfolding server_reach_def using srv_step [OF srv_refl] by blast
qed

definition demo_fs :: supply_fs where
  "demo_fs = \<lparr>sf_read_at = \<lambda>_ _. Some [1], sf_meta_at = \<lambda>_ _. None, sf_list_at = \<lambda>_ _. None, sf_attr_at = \<lambda>_ _. MetaErr None False,
     sf_read = \<lambda>_. None, sf_meta = \<lambda>_. None, sf_list = \<lambda>_. None, sf_attr = \<lambda>_. MetaErr None False\<rparr>"

definition demo_io :: writeback_io where
  "demo_io = \<lparr>wi_temp = \<lparr>ti_parent = True, ti_draws = [''0''], ti_create = True, ti_object = 7, ti_links = 1\<rparr>, wi_short = None, wi_remove = True\<rparr>"

definition demo_sx :: serve_env where "demo_sx = \<lparr>sx_os = toy_os, sx_fs = demo_fs, sx_io = demo_io\<rparr>"

definition demo_open :: open_read_request where "demo_open = \<lparr>orq_path = demo_path, orq_want_inline = False\<rparr>"

definition demo_pinned :: server where
  "demo_pinned = snd (serve toy_hash id demo_sx 0 OpenRead (open_read_request_encode demo_open) demo_granted)"

abbreviation demo_digest :: digest where "demo_digest \<equiv> digest_of toy_hash [1]"

lemma demo_open_decode: "open_read_request_decode (open_read_request_encode demo_open) = Inr demo_open"
  by (rule open_read_request_roundtrip)
     (simp_all add: demo_open_def demo_path_def str_ok_literal open_read_request_encode_def usize_bound_def w_str_def w_bytes_def w_bool_def w_u8_def w_u32_def)

lemma demo_put_pin: "store_put toy_hash toy_os [1] (\<lambda>_. FsNotFound) = (Inr demo_digest, (\<lambda>_. FsNotFound)(di_hex demo_digest := FsOk [1]))"
  by (simp add: store_put_def toy_os_def store_digest_known_def get_verified_with_def get_with_def publish_cas_blob_def Let_def)

lemma demo_visible: "\<not> hidden id demo_cap demo_path" "contained_root_access id demo_cap demo_path = Some (demo_root, ''b'')"
  using demo_relative in_scope_iff [of id demo_path demo_root]
  by (simp_all add: hidden_def requires_contained_root_def demo_cap_def session_new_def contained_root_access_def)

lemma demo_pinned_state:
  "map_of (sc_pinned (cap_at (sr_registry demo_pinned) 0)) demo_path = Some (Some (demo_digest, 1))"
  "sc_closed (cap_at (sr_registry demo_pinned) 0) = False" "sc_allowed_digests (cap_at (sr_registry demo_pinned) 0) = {demo_digest}"
  "rg_store (sr_registry demo_pinned) = (\<lambda>_. FsNotFound)(di_hex demo_digest := FsOk [1])"
  using demo_visible demo_open_decode
  by (simp_all add: demo_pinned_def serve_def serve_dispatch_def serve_state_of_def demo_granted_caps cap_at_def demo_sx_def
      open_read_def demo_open_def demo_fs_def pin_contained_def persist_pin_bytes_def pin_register_def pin_owner_new_def
      checked_add_usize_def usize_bound_def demo_put_pin commit_if_accepting_def cap_update_def demo_cap_def session_new_def hm_insert_def
      demo_cap_def [symmetric] Let_def)

lemma demo_pinned_reach: "server_reach id toy_hash demo_pinned demo_log"
  using demo_granted_reach srv_step [OF _ st_request] unfolding server_reach_def demo_pinned_def by blast

definition demo_read :: read_request where
  "demo_read = \<lparr>rdq_digest_hex = digest_canonical demo_digest, rdq_offset = 0, rdq_len = 5\<rparr>"

lemma demo_parse: "digest_parse (digest_canonical demo_digest) = Inr demo_digest"
  using digest_of_ok [OF toy_hash_output] by (simp add: digest_parse_iff)

lemma demo_read_bytes: "rdr_bytes (fst (read_range toy_os demo_read (serve_state_of 0 demo_pinned))) = [1]"
  using demo_parse
  by (simp add: read_range_def demo_read_def serve_state_of_def digest_visible_def demo_pinned_state store_get_range_def toy_os_def
      get_with_def read_range_from_def range_or_empty_def MAX_READ_CHUNK_def Let_def)


theorem pins_frozen_witness:
  "let r = fst (open_read toy_hash toy_os id (demo_fs\<lparr>sf_read_at := \<lambda>_ _. Some [9]\<rparr>) demo_open (serve_state_of 0 demo_pinned)) in
   orr_exists r \<and> orr_digest_hex r = digest_canonical demo_digest \<and> orr_size r = 1"
  by (rule pins_frozen [OF demo_pinned_reach _ demo_pinned_state(1) srv_refl])
     (simp_all add: demo_pinned_state(2) demo_log_def demo_open_def)

theorem finished_session_inert_witness:
  "let sv = demo_pinned\<lparr>sr_registry := snd (registry_finish ''s'' (sr_registry demo_pinned))\<rparr> in
   registry_get ''s'' (sr_registry sv) = None \<and> serve toy_hash id demo_sx 0 OpenRead [] sv = (Some (closed_response OpenRead), sv)"
proof -
  have "rg_sessions (sr_registry demo_pinned) = [(''s'', 0)]"
    by (simp add: demo_pinned_def serve_def cap_update_def demo_granted_caps split: prod.splits)
  then have "registry_get ''s'' (sr_registry demo_pinned) = Some 0" by (simp add: registry_get_def)
  from finished_session_inert [OF demo_pinned_reach this _ srv_refl] show ?thesis by (simp add: demo_log_def Let_def)
qed

section \<open>A staged output\<close>

lemma demo_good: "io_good demo_io demo_spec no_files"
  by (simp add: io_good_def demo_io_def demo_spec_def no_files_def)

lemma demo_cap_outputs: "map_of (sc_outputs demo_cap) 1 = Some demo_spec" "\<not> sc_closed demo_cap"
    "map_of (sc_staged demo_cap) 1 = None" "map_of (sc_writebacks demo_cap) 1 = None"
  by (simp_all add: demo_cap_def session_new_def)

theorem writeback_stream_witness:
  "stream_outcome toy_hash (digest_canonical (digest_of toy_hash [1, 2, 3])) 1 demo_spec [1, 2, 3] 2
     (stream toy_hash demo_io (chunk_requests 1 (digest_canonical (digest_of toy_hash [1, 2, 3])) 0 [[1, 2], [3]]) (demo_cap, no_files))"
proof -
  let ?d = "digest_canonical (digest_of toy_hash [1, 2, 3])"
  have "stream_outcome toy_hash ?d 1 demo_spec (concat [[1, 2], [3]]) (length [[1, 2], [3 :: u8]])
      (stream toy_hash demo_io (chunk_requests 1 ?d 0 [[1, 2], [3]]) (demo_cap, no_files))"
    by (rule writeback_stream [OF demo_cap_outputs demo_good]) (simp_all add: demo_spec_def)
  then show ?thesis unfolding concat.simps append.simps list.size by (simp add: numeral_2_eq_2)
qed

definition demo_chunk :: write_back_request where
  "demo_chunk = \<lparr>wbq_output_id = 1, wbq_digest_hex = digest_canonical demo_digest, wbq_offset = 0, wbq_bytes = [1], wbq_last = True\<rparr>"

definition demo_staged :: server where
  "demo_staged = snd (serve toy_hash id demo_sx 0 WriteBack (write_back_request_encode demo_chunk) demo_granted)"

definition demo_output :: staged_output where
  "demo_output = \<lparr>so_staging_path = (''d'', staging_temp ''0''), so_final_path = Some (''d'', ''o''),
     so_digest_hex = digest_canonical demo_digest, so_snapshot = \<lparr>sn_identity = 7, sn_link_count = 1\<rparr>\<rparr>"

lemma demo_canonical_ok: "str_ok (digest_canonical demo_digest)"
proof (rule str_ok_literal)
  show "list_all (\<lambda>c. of_char c < (128 :: nat)) (digest_canonical demo_digest)"
  proof -
    have "of_char c < (128 :: nat)" if "c \<in> set (hex_of bs)" for c bs
      using hex_of_chars [OF that] by (auto simp: HEX_def)
    then show ?thesis by (simp add: digest_canonical_def digest_of_def list_all_iff)
  qed
  have "length (hex_of bs) = 2 * length bs" for bs by (induction bs) (simp_all add: hex_of_def hex_byte_def)
  then show "length (digest_canonical demo_digest) \<le> 1000" by (simp add: digest_canonical_def digest_of_def toy_hash_def)
qed

lemma demo_chunk_decode: "write_back_request_decode (write_back_request_encode demo_chunk) = Inr demo_chunk"
proof (rule write_back_request_roundtrip)
  have "length (digest_canonical demo_digest) \<le> MAX_FRAME_BODY" using demo_canonical_ok by (simp add: str_ok_def)
  then show "length (write_back_request_encode demo_chunk) < usize_bound"
    by (simp add: demo_chunk_def write_back_request_encode_def usize_bound_def w_str_def w_bytes_def w_bool_def w_u8_def w_u32_def w_u64_def
        u32_to_le_def u64_to_le_def MAX_FRAME_BODY_def)
qed (use demo_canonical_ok in \<open>simp add: demo_chunk_def MAX_FRAME_BODY_def\<close>)

lemma demo_staged_state: "map_of (sc_staged (cap_at (sr_registry demo_staged) 0)) 1 = Some demo_output"
  using demo_chunk_decode demo_cap_outputs
  by (simp add: demo_staged_def serve_def serve_dispatch_def serve_state_of_def demo_granted_caps cap_at_def demo_sx_def cap_update_def
      write_back_def cap_output_spec_def write_back_begin_def create_staging_temp_def demo_chunk_def demo_io_def demo_spec_def no_files_def
      write_back_append_def write_back_finish_def record_staged_def verify_root_file_snapshot_and_digest_def write_staging_file_at_def
      fits_def demo_output_def Let_def)


theorem swept_outputs_lost_witness:
  "let (n, rg', fy') = sweep_idle True 900 900 (sr_registry demo_staged, sr_files demo_staged) in
   map_of (sc_staged (cap_at (sr_registry demo_staged) 0)) 1 = Some demo_output \<and> registry_get ''s'' rg' = None
   \<and> (\<forall>files. publish_staged toy_hash (\<lambda>_. \<lparr>pb_tamper = id, pb_rename = True, pb_remove = True\<rparr>) (cap_at rg' 0, files) = (True, cap_at rg' 0, files))"
proof -
  have rg: "rg_sessions (sr_registry demo_staged) = [(''s'', 0)]" "length (rg_caps (sr_registry demo_staged)) = 1"
    by (simp_all add: demo_staged_def serve_def cap_update_def demo_granted_caps split: prod.splits)
  have "same_authority demo_cap (cap_at (sr_registry demo_staged) 0)"
  proof -
    have "pins_wf id toy_hash demo_cap" "outputs_wf toy_hash demo_cap"
      by (simp_all add: pins_wf_def outputs_wf_def demo_cap_def session_new_def)
    then have "request_keeps id toy_hash (ss_cap (serve_state_of 0 demo_granted))
        (ss_cap (snd (serve_dispatch toy_hash id demo_sx WriteBack (write_back_request_encode demo_chunk) (serve_state_of 0 demo_granted))))"
      by (intro serve_dispatch_keeps) (simp_all add: serve_state_of_def cap_at_def demo_granted_caps)
    then show ?thesis
      by (simp add: request_keeps_def demo_staged_def serve_def cap_update_def serve_state_of_def cap_at_def demo_granted_caps case_prod_beta)
  qed
  then have "\<not> sc_closed (cap_at (sr_registry demo_staged) 0)" "sc_conns (cap_at (sr_registry demo_staged) 0) = 0"
      "sc_created (cap_at (sr_registry demo_staged) 0) = 0"
    by (simp_all add: same_authority_def demo_cap_def session_new_def)
  moreover obtain n rg' fy' where sw: "sweep_idle True 900 900 (sr_registry demo_staged, sr_files demo_staged) = (n, rg', fy')" by (metis surj_pair)
  ultimately show ?thesis
    using swept_outputs_lost [OF sw, of "''s''" 0 toy_hash "\<lambda>_. \<lparr>pb_tamper = id, pb_rename = True, pb_remove = True\<rparr>"] rg demo_staged_state
    by (simp add: hm_inv_def)
qed

end
