(* ===== verification/Worker_Table.thy ===== *)
theory Worker_Table
  imports Capability Hash_Map
begin

text \<open>
  The agent's side of the coordination plane, \<open>src/crates/agent/src/coordination.rs\<close>: the
  table of registered workers, liveness derived from the age of the last ping, registration
  and heartbeats behind the shared-token check. An \<open>Instant\<close> is a natural number and the
  clock reading of each call an argument; \<open>elapsed\<close> saturates at zero, which is subtraction.
\<close>

record capabilities =
  cp_protocol_version :: u32
  cp_os_build :: string
  cp_arch :: string
  cp_cpu_count :: u32
  cp_memory_bytes :: u64
  cp_data_plane_transports :: "string list"
  cp_supports_auth :: bool
  cp_worker_version :: string
  cp_participation_mode :: string
  cp_supports_session_capability :: bool

definition capabilities_default :: capabilities where
  "capabilities_default = \<lparr>cp_protocol_version = 0, cp_os_build = [], cp_arch = [], cp_cpu_count = 0, cp_memory_bytes = 0,
     cp_data_plane_transports = [], cp_supports_auth = False, cp_worker_version = [], cp_participation_mode = [],
     cp_supports_session_capability = False\<rparr>"

record worker_entry =
  we_worker_id :: string
  we_execution_endpoint :: string
  we_caps :: capabilities
  we_running_actions :: u32
  we_idle_slots :: u32
  we_idle_cpu_pct :: "u32 option"
  we_last_ping :: nat

definition last_ping_age :: "nat \<Rightarrow> worker_entry \<Rightarrow> nat" where
  "last_ping_age now e = now - we_last_ping e"

record worker_table =
  wt_map :: "(string, worker_entry) hmap"
  wt_dead_timeout :: nat

definition DEFAULT_DEAD_TIMEOUT :: nat where "DEFAULT_DEAD_TIMEOUT = 15000"
definition REAP_FACTOR :: nat where "REAP_FACTOR = 20"

definition worker_table_new :: "nat \<Rightarrow> worker_table" where
  "worker_table_new dead_timeout = \<lparr>wt_map = [], wt_dead_timeout = dead_timeout\<rparr>"

definition upsert_register :: "nat \<Rightarrow> string \<Rightarrow> string \<Rightarrow> capabilities \<Rightarrow> worker_table \<Rightarrow> bool \<times> worker_table" where
  "upsert_register now worker_id execution_endpoint caps t =
     (let idle = cp_cpu_count caps;
          reap_after = wt_dead_timeout t * REAP_FACTOR;
          m = hm_retain (\<lambda>e. now - we_last_ping e < reap_after) (wt_map t);
          collision = (case map_of m worker_id of
             Some existing \<Rightarrow> we_execution_endpoint existing \<noteq> execution_endpoint
               \<and> last_ping_age now existing < wt_dead_timeout t
           | None \<Rightarrow> False)
      in if collision then (False, t\<lparr>wt_map := m\<rparr>)
         else (True, t\<lparr>wt_map := hm_insert worker_id
           \<lparr>we_worker_id = worker_id, we_execution_endpoint = execution_endpoint, we_caps = caps, we_running_actions = 0,
            we_idle_slots = idle, we_idle_cpu_pct = None, we_last_ping = now\<rparr> m\<rparr>))"

definition on_ping :: "nat \<Rightarrow> string \<Rightarrow> u32 \<Rightarrow> u32 \<Rightarrow> u32 option \<Rightarrow> worker_table \<Rightarrow> worker_table" where
  "on_ping now worker_id running_actions idle_slots idle_cpu_pct t =
     t\<lparr>wt_map := hm_modify worker_id (\<lambda>e. e\<lparr>we_running_actions := running_actions, we_idle_slots := idle_slots,
        we_idle_cpu_pct := idle_cpu_pct, we_last_ping := now\<rparr>) (wt_map t)\<rparr>"

definition is_live :: "nat \<Rightarrow> string \<Rightarrow> worker_table \<Rightarrow> bool" where
  "is_live now worker_id t =
     (case map_of (wt_map t) worker_id of Some e \<Rightarrow> now - we_last_ping e < wt_dead_timeout t | None \<Rightarrow> False)"

definition live_snapshot :: "nat \<Rightarrow> worker_table \<Rightarrow> worker_entry list" where
  "live_snapshot now t = filter (\<lambda>e. now - we_last_ping e < wt_dead_timeout t) (hm_values (wt_map t))"

definition live_count :: "nat \<Rightarrow> worker_table \<Rightarrow> nat" where
  "live_count now t = length (filter (\<lambda>e. now - we_last_ping e < wt_dead_timeout t) (hm_values (wt_map t)))"

section \<open>The service\<close>

definition PROTOCOL_VERSION :: u32 where "PROTOCOL_VERSION = 0"

record register_request =
  rr_worker_id :: string
  rr_caps :: "capabilities option"
  rr_execution_endpoint :: string
  rr_auth_token :: string

record register_response =
  rs_protocol_version :: u32
  rs_accepted :: bool
  rs_detail :: string

definition coord_register ::
    "string option \<Rightarrow> nat \<Rightarrow> register_request \<Rightarrow> worker_table \<Rightarrow> (string + register_response) \<times> worker_table" where
  "coord_register expected_token now req t =
     (if rr_worker_id req = [] then (Inl ''worker_id is required'', t)
      else if rr_execution_endpoint req = [] then (Inl ''execution_endpoint is required'', t)
      else case auth_check expected_token (rr_auth_token req) of
        Inl reason \<Rightarrow>
          (Inr \<lparr>rs_protocol_version = PROTOCOL_VERSION, rs_accepted = False, rs_detail = reason\<rparr>, t)
      | Inr _ \<Rightarrow>
          (let caps = (case rr_caps req of None \<Rightarrow> capabilities_default | Some c \<Rightarrow> c);
               (accepted, t') = upsert_register now (rr_worker_id req) (rr_execution_endpoint req) caps t
           in (Inr \<lparr>rs_protocol_version = PROTOCOL_VERSION, rs_accepted = accepted,
                 rs_detail = (if accepted then [] else ''worker_id already registered with a different execution endpoint'')\<rparr>, t')))"

record heartbeat_ping =
  hp_worker_id :: string
  hp_running_actions :: u32
  hp_idle_slots :: u32
  hp_idle_cpu_pct :: "u32 option"
  hp_auth_token :: string

text \<open>
  One turn of the heartbeat task: a ping with a wrong token ends the stream without an
  effect; otherwise the table is refreshed, and the stream goes on when the pong was sent.
\<close>

definition heartbeat_turn ::
    "string option \<Rightarrow> nat \<Rightarrow> heartbeat_ping \<Rightarrow> bool \<Rightarrow> worker_table \<Rightarrow> bool \<times> worker_table" where
  "heartbeat_turn expected_token now ping pong_sent t =
     (case auth_check expected_token (hp_auth_token ping) of
        Inl _ \<Rightarrow> (False, t)
      | Inr _ \<Rightarrow> (pong_sent, on_ping now (hp_worker_id ping) (hp_running_actions ping) (hp_idle_slots ping)
                    (hp_idle_cpu_pct ping) t))"

fun heartbeat :: "string option \<Rightarrow> (nat \<times> heartbeat_ping \<times> bool) list \<Rightarrow> worker_table \<Rightarrow> worker_table" where
  "heartbeat expected_token [] t = t"
| "heartbeat expected_token ((now, ping, pong_sent) # pings) t =
     (case heartbeat_turn expected_token now ping pong_sent t of
        (True, t') \<Rightarrow> heartbeat expected_token pings t'
      | (False, t') \<Rightarrow> t')"

section \<open>Runs of the service\<close>

text \<open>
  The steps of a running agent: registrations and single heartbeats of any number of streams,
  in any order, with the clock advancing. The history records what the service acted on: the
  accepted registrations and the pings of registered workers, with the token presented.
\<close>

datatype coord_event =
  Registered (ev_time: nat) (ev_worker: string) (ev_endpoint: string) (ev_token: string)
| Pinged (ev_time: nat) (ev_worker: string) (ev_token: string)

record coord_state =
  cs_now :: nat
  cs_table :: worker_table
  cs_history :: "coord_event list"

definition register_event :: "nat \<Rightarrow> register_request \<Rightarrow> string + register_response \<Rightarrow> coord_event list" where
  "register_event now req r =
     (case r of
        Inr resp \<Rightarrow> if rs_accepted resp
          then [Registered now (rr_worker_id req) (rr_execution_endpoint req) (rr_auth_token req)] else []
      | Inl _ \<Rightarrow> [])"

definition ping_event :: "string option \<Rightarrow> nat \<Rightarrow> heartbeat_ping \<Rightarrow> worker_table \<Rightarrow> coord_event list" where
  "ping_event expected now ping t =
     (if auth_check expected (hp_auth_token ping) = Inr () \<and> map_of (wt_map t) (hp_worker_id ping) \<noteq> None
      then [Pinged now (hp_worker_id ping) (hp_auth_token ping)] else [])"

inductive coord_step :: "string option \<Rightarrow> coord_state \<Rightarrow> coord_state \<Rightarrow> bool" for expected where
  cs_tick: "cs_now s \<le> now \<Longrightarrow> coord_step expected s (s\<lparr>cs_now := now\<rparr>)"
| cs_register: "coord_register expected (cs_now s) req (cs_table s) = (r, t) \<Longrightarrow>
    coord_step expected s (s\<lparr>cs_table := t, cs_history := register_event (cs_now s) req r @ cs_history s\<rparr>)"
| cs_ping: "heartbeat_turn expected (cs_now s) ping sent (cs_table s) = (go, t) \<Longrightarrow>
    coord_step expected s (s\<lparr>cs_table := t, cs_history := ping_event expected (cs_now s) ping (cs_table s) @ cs_history s\<rparr>)"

inductive coord_reach :: "string option \<Rightarrow> nat \<Rightarrow> coord_state \<Rightarrow> bool" for expected dead_timeout where
  cr_start: "coord_reach expected dead_timeout \<lparr>cs_now = now, cs_table = worker_table_new dead_timeout, cs_history = []\<rparr>"
| cr_step: "coord_reach expected dead_timeout s \<Longrightarrow> coord_step expected s s' \<Longrightarrow> coord_reach expected dead_timeout s'"

inductive_cases coord_stepE: "coord_step expected s s'"

text \<open>A stretch of a run during which a worker is live at the moment of every step.\<close>

inductive live_run :: "string option \<Rightarrow> string \<Rightarrow> coord_state \<Rightarrow> coord_state \<Rightarrow> bool" for expected w where
  lr_refl: "live_run expected w s s"
| lr_step: "live_run expected w s s' \<Longrightarrow> coord_step expected s' s'' \<Longrightarrow> is_live (cs_now s'') w (cs_table s') \<Longrightarrow>
    live_run expected w s s''"

section \<open>The table against the history\<close>

definition reap :: "nat \<Rightarrow> worker_table \<Rightarrow> (string, worker_entry) hmap" where
  "reap now t = hm_retain (\<lambda>e. now - we_last_ping e < wt_dead_timeout t * REAP_FACTOR) (wt_map t)"

definition fresh_entry :: "nat \<Rightarrow> string \<Rightarrow> string \<Rightarrow> capabilities \<Rightarrow> worker_entry" where
  "fresh_entry now w ep caps = \<lparr>we_worker_id = w, we_execution_endpoint = ep, we_caps = caps, we_running_actions = 0,
     we_idle_slots = cp_cpu_count caps, we_idle_cpu_pct = None, we_last_ping = now\<rparr>"

lemma reap_look: "hm_inv (wt_map t) \<Longrightarrow>
  map_of (reap now t) k = Some e \<longleftrightarrow> map_of (wt_map t) k = Some e \<and> now - we_last_ping e < wt_dead_timeout t * REAP_FACTOR"
  by (simp add: reap_def hm_look_retain)

lemma live_not_reaped:
  "hm_inv (wt_map t) \<Longrightarrow> map_of (wt_map t) k = Some e \<Longrightarrow> now - we_last_ping e < wt_dead_timeout t \<Longrightarrow> map_of (reap now t) k = Some e"
  by (simp add: reap_look REAP_FACTOR_def)

lemma upsert_register_cases:
  assumes "upsert_register now w ep caps t = (ok, t')"
  shows "wt_dead_timeout t' = wt_dead_timeout t \<and>
    (\<not> ok \<and> wt_map t' = reap now t \<and> (\<exists>e. map_of (reap now t) w = Some e \<and> we_execution_endpoint e \<noteq> ep \<and> now - we_last_ping e < wt_dead_timeout t)
     \<or> ok \<and> wt_map t' = hm_insert w (fresh_entry now w ep caps) (reap now t)
        \<and> (\<forall>e. map_of (reap now t) w = Some e \<longrightarrow> we_execution_endpoint e = ep \<or> wt_dead_timeout t \<le> now - we_last_ping e))"
  using assms
  by (auto simp: upsert_register_def Let_def reap_def [symmetric] fresh_entry_def last_ping_age_def
      split: if_splits option.splits)

lemma coord_register_cases:
  assumes "coord_register expected now req t = (r, t')"
  shows "t' = t \<and> register_event now req r = []
    \<or> (\<exists>caps ok. auth_check expected (rr_auth_token req) = Inr ()
        \<and> upsert_register now (rr_worker_id req) (rr_execution_endpoint req) caps t = (ok, t')
        \<and> register_event now req r
          = (if ok then [Registered now (rr_worker_id req) (rr_execution_endpoint req) (rr_auth_token req)] else []))"
proof (cases "rr_worker_id req = [] \<or> rr_execution_endpoint req = []")
  case True
  then have "\<exists>msg. coord_register expected now req t = (Inl msg, t)"
    by (cases "rr_worker_id req = []") (simp_all add: coord_register_def)
  then obtain msg where "coord_register expected now req t = (Inl msg, t)" ..
  then show ?thesis using assms by (simp add: register_event_def)
next
  case False
  define caps where "caps = (case rr_caps req of None \<Rightarrow> capabilities_default | Some c \<Rightarrow> c)"
  obtain ok t1 where u: "upsert_register now (rr_worker_id req) (rr_execution_endpoint req) caps t = (ok, t1)" by fastforce
  show ?thesis
  proof (cases "auth_check expected (rr_auth_token req)")
    case (Inl e)
    have "coord_register expected now req t
        = (Inr \<lparr>rs_protocol_version = PROTOCOL_VERSION, rs_accepted = False, rs_detail = e\<rparr>, t)"
      using False by (simp add: coord_register_def Inl)
    then show ?thesis using assms by (simp add: register_event_def)
  next
    case (Inr u')
    have "\<exists>d. coord_register expected now req t
        = (Inr \<lparr>rs_protocol_version = PROTOCOL_VERSION, rs_accepted = ok, rs_detail = d\<rparr>, t1)"
      using False by (simp add: coord_register_def Inr caps_def [symmetric] u Let_def)
    then obtain d where "coord_register expected now req t
        = (Inr \<lparr>rs_protocol_version = PROTOCOL_VERSION, rs_accepted = ok, rs_detail = d\<rparr>, t1)" ..
    then have "t' = t1" "register_event now req r
        = (if ok then [Registered now (rr_worker_id req) (rr_execution_endpoint req) (rr_auth_token req)] else [])"
      using assms by (simp_all add: register_event_def)
    moreover have "auth_check expected (rr_auth_token req) = Inr ()" using Inr by simp
    ultimately show ?thesis using u by (intro disjI2 exI [of _ caps] exI [of _ ok]) simp
  qed
qed

lemma heartbeat_turn_cases:
  assumes "heartbeat_turn expected now ping sent t = (go, t')"
  shows "auth_check expected (hp_auth_token ping) \<noteq> Inr () \<and> t' = t
    \<or> auth_check expected (hp_auth_token ping) = Inr ()
      \<and> t' = on_ping now (hp_worker_id ping) (hp_running_actions ping) (hp_idle_slots ping) (hp_idle_cpu_pct ping) t"
  using assms by (auto simp: heartbeat_turn_def split: sum.splits)

definition coord_inv :: "string option \<Rightarrow> nat \<Rightarrow> coord_state \<Rightarrow> bool" where
  "coord_inv expected dead s \<longleftrightarrow>
     hm_inv (wt_map (cs_table s)) \<and> wt_dead_timeout (cs_table s) = dead
     \<and> (\<forall>ev \<in> set (cs_history s). ev_time ev \<le> cs_now s \<and> auth_check expected (ev_token ev) = Inr ())
     \<and> (\<forall>k e. map_of (wt_map (cs_table s)) k = Some e \<longrightarrow> we_worker_id e = k
          \<and> (\<exists>ev \<in> set (cs_history s). ev_worker ev = k \<and> ev_time ev = we_last_ping e)
          \<and> (\<exists>t tok. Registered t k (we_execution_endpoint e) tok \<in> set (cs_history s)))
     \<and> (\<forall>ev \<in> set (cs_history s). cs_now s - ev_time ev < dead \<longrightarrow>
          (\<exists>e. map_of (wt_map (cs_table s)) (ev_worker ev) = Some e \<and> ev_time ev \<le> we_last_ping e))"

lemma coord_invI:
  assumes "hm_inv (wt_map (cs_table s))" "wt_dead_timeout (cs_table s) = dead"
    and "\<And>ev. ev \<in> set (cs_history s) \<Longrightarrow> ev_time ev \<le> cs_now s \<and> auth_check expected (ev_token ev) = Inr ()"
    and "\<And>k e. map_of (wt_map (cs_table s)) k = Some e \<Longrightarrow> we_worker_id e = k
          \<and> (\<exists>ev \<in> set (cs_history s). ev_worker ev = k \<and> ev_time ev = we_last_ping e)
          \<and> (\<exists>t tok. Registered t k (we_execution_endpoint e) tok \<in> set (cs_history s))"
    and "\<And>ev. ev \<in> set (cs_history s) \<Longrightarrow> cs_now s - ev_time ev < dead \<Longrightarrow>
          \<exists>e. map_of (wt_map (cs_table s)) (ev_worker ev) = Some e \<and> ev_time ev \<le> we_last_ping e"
  shows "coord_inv expected dead s"
  unfolding coord_inv_def using assms by blast

lemma coord_invD:
  assumes "coord_inv expected dead s"
  shows "hm_inv (wt_map (cs_table s))" "wt_dead_timeout (cs_table s) = dead"
    and "ev \<in> set (cs_history s) \<Longrightarrow> ev_time ev \<le> cs_now s \<and> auth_check expected (ev_token ev) = Inr ()"
    and "map_of (wt_map (cs_table s)) k = Some e \<Longrightarrow> we_worker_id e = k
          \<and> (\<exists>ev \<in> set (cs_history s). ev_worker ev = k \<and> ev_time ev = we_last_ping e)
          \<and> (\<exists>t tok. Registered t k (we_execution_endpoint e) tok \<in> set (cs_history s))"
    and "ev \<in> set (cs_history s) \<Longrightarrow> cs_now s - ev_time ev < dead \<Longrightarrow>
          \<exists>e. map_of (wt_map (cs_table s)) (ev_worker ev) = Some e \<and> ev_time ev \<le> we_last_ping e"
  using assms unfolding coord_inv_def by blast+

lemma inv_last_ping:
  assumes "coord_inv expected dead s" "map_of (wt_map (cs_table s)) k = Some e"
  shows "we_last_ping e \<le> cs_now s"
  using coord_invD(3,4) [OF assms(1)] assms(2) by metis

lemma inv_kept_live:
  assumes inv: "coord_inv expected dead s" and ev: "ev \<in> set (cs_history s)" "cs_now s - ev_time ev < dead"
  shows "\<exists>e. map_of (reap (cs_now s) (cs_table s)) (ev_worker ev) = Some e \<and> ev_time ev \<le> we_last_ping e"
proof -
  obtain e where e: "map_of (wt_map (cs_table s)) (ev_worker ev) = Some e" "ev_time ev \<le> we_last_ping e"
    using coord_invD(5) [OF inv ev] by blast
  then have "cs_now s - we_last_ping e < wt_dead_timeout (cs_table s)" using ev(2) coord_invD(2) [OF inv] by simp
  then show ?thesis using live_not_reaped [OF coord_invD(1) [OF inv] e(1)] e(2) by blast
qed

lemma inv_reaped:
  assumes inv: "coord_inv expected dead s" and t': "wt_map t' = reap (cs_now s) (cs_table s)" "wt_dead_timeout t' = wt_dead_timeout (cs_table s)"
  shows "coord_inv expected dead (s\<lparr>cs_table := t'\<rparr>)"
proof (rule coord_invI)
  show "hm_inv (wt_map (cs_table (s\<lparr>cs_table := t'\<rparr>)))"
    using coord_invD(1) [OF inv] by (simp add: t' reap_def hm_inv_retain)
  show "wt_dead_timeout (cs_table (s\<lparr>cs_table := t'\<rparr>)) = dead" using t' coord_invD(2) [OF inv] by simp
qed (use coord_invD(3,4) [OF inv] inv_kept_live [OF inv] t' reap_look [OF coord_invD(1) [OF inv]] in auto)

lemma inv_registered:
  assumes inv: "coord_inv expected dead s" and auth: "auth_check expected tok = Inr ()"
    and t': "wt_map t' = hm_insert w (fresh_entry (cs_now s) w ep caps) (reap (cs_now s) (cs_table s))"
      "wt_dead_timeout t' = wt_dead_timeout (cs_table s)"
  shows "coord_inv expected dead (s\<lparr>cs_table := t', cs_history := Registered (cs_now s) w ep tok # cs_history s\<rparr>)"
    (is "coord_inv expected dead ?s")
proof (rule coord_invI)
  show "hm_inv (wt_map (cs_table ?s))" using coord_invD(1) [OF inv] by (simp add: t' reap_def hm_invs)
  show "wt_dead_timeout (cs_table ?s) = dead" using t' coord_invD(2) [OF inv] by simp
  fix ev assume ev: "ev \<in> set (cs_history ?s)"
  show "ev_time ev \<le> cs_now ?s \<and> auth_check expected (ev_token ev) = Inr ()"
    using ev coord_invD(3) [OF inv] auth by auto
  assume "cs_now ?s - ev_time ev < dead"
  then show "\<exists>e. map_of (wt_map (cs_table ?s)) (ev_worker ev) = Some e \<and> ev_time ev \<le> we_last_ping e"
    using ev inv_kept_live [OF inv] coord_invD(3) [OF inv] by (auto simp: t' fresh_entry_def)
next
  fix k e assume k: "map_of (wt_map (cs_table ?s)) k = Some e"
  show "we_worker_id e = k \<and> (\<exists>ev \<in> set (cs_history ?s). ev_worker ev = k \<and> ev_time ev = we_last_ping e)
      \<and> (\<exists>t tok. Registered t k (we_execution_endpoint e) tok \<in> set (cs_history ?s))"
  proof (cases "k = w")
    case True
    then have "e = fresh_entry (cs_now s) w ep caps" using k by (simp add: t')
    then show ?thesis using True by (simp add: fresh_entry_def) blast
  next
    case False
    then have "map_of (wt_map (cs_table s)) k = Some e"
      using k reap_look [OF coord_invD(1) [OF inv]] by (simp add: t')
    from coord_invD(4) [OF inv this] show ?thesis by auto
  qed
qed

lemma inv_pinged:
  assumes inv: "coord_inv expected dead s" and auth: "auth_check expected (hp_auth_token ping) = Inr ()"
    and t': "t' = on_ping (cs_now s) (hp_worker_id ping) ra is pct (cs_table s)"
  shows "coord_inv expected dead (s\<lparr>cs_table := t', cs_history := ping_event expected (cs_now s) ping (cs_table s) @ cs_history s\<rparr>)"
    (is "coord_inv expected dead ?s")
proof (rule coord_invI)
  let ?w = "hp_worker_id ping"
  let ?f = "\<lambda>e. e\<lparr>we_running_actions := ra, we_idle_slots := is, we_idle_cpu_pct := pct, we_last_ping := cs_now s\<rparr>"
  have m: "map_of (wt_map t') = (map_of (wt_map (cs_table s)))(?w := map_option ?f (map_of (wt_map (cs_table s)) ?w))"
    by (simp add: t' on_ping_def hm_look_modify)
  have pe: "ping_event expected (cs_now s) ping (cs_table s)
      = (if map_of (wt_map (cs_table s)) ?w = None then [] else [Pinged (cs_now s) ?w (hp_auth_token ping)])"
    using auth by (simp add: ping_event_def)
  show "hm_inv (wt_map (cs_table ?s))" using coord_invD(1) [OF inv] by (simp add: t' on_ping_def hm_invs)
  show "wt_dead_timeout (cs_table ?s) = dead" using t' coord_invD(2) [OF inv] by (simp add: on_ping_def)
  fix ev assume ev: "ev \<in> set (cs_history ?s)"
  show "ev_time ev \<le> cs_now ?s \<and> auth_check expected (ev_token ev) = Inr ()"
    using ev coord_invD(3) [OF inv] auth by (auto simp: pe split: if_splits)
  assume "cs_now ?s - ev_time ev < dead"
  then have near: "cs_now s - ev_time ev < dead" by simp
  show "\<exists>e. map_of (wt_map (cs_table ?s)) (ev_worker ev) = Some e \<and> ev_time ev \<le> we_last_ping e"
  proof (cases "ev \<in> set (cs_history s)")
    case True
    then obtain e where "map_of (wt_map (cs_table s)) (ev_worker ev) = Some e" "ev_time ev \<le> we_last_ping e" "ev_time ev \<le> cs_now s"
      using coord_invD(3,5) [OF inv] near by blast
    then show ?thesis by (cases "ev_worker ev = ?w") (simp_all add: m)
  next
    case False
    then show ?thesis using ev by (auto simp: m pe split: if_splits)
  qed
next
  fix k e
  let ?w = "hp_worker_id ping"
  let ?f = "\<lambda>e. e\<lparr>we_running_actions := ra, we_idle_slots := is, we_idle_cpu_pct := pct, we_last_ping := cs_now s\<rparr>"
  assume k: "map_of (wt_map (cs_table ?s)) k = Some e"
  then obtain e0 where e0: "map_of (wt_map (cs_table s)) k = Some e0" "e = (if k = ?w then ?f e0 else e0)"
    by (auto simp: t' on_ping_def hm_look_modify split: if_splits)
  note i = coord_invD(4) [OF inv e0(1)]
  show "we_worker_id e = k \<and> (\<exists>ev \<in> set (cs_history ?s). ev_worker ev = k \<and> ev_time ev = we_last_ping e)
      \<and> (\<exists>t tok. Registered t k (we_execution_endpoint e) tok \<in> set (cs_history ?s))"
  proof (cases "k = ?w")
    case True
    then have "ping_event expected (cs_now s) ping (cs_table s) = [Pinged (cs_now s) k (hp_auth_token ping)]"
      using auth e0(1) by (simp add: ping_event_def)
    then show ?thesis using i e0(2) True by auto
  next
    case False
    then show ?thesis using i e0(2) by auto
  qed
qed

lemma coord_step_inv:
  assumes "coord_step expected s s'" "coord_inv expected dead s"
  shows "coord_inv expected dead s'"
  using assms(1)
proof cases
  case (cs_tick now)
  have "ev_time ev \<le> now \<and> auth_check expected (ev_token ev) = Inr ()" if "ev \<in> set (cs_history s)" for ev
    using coord_invD(3) [OF assms(2) that] cs_tick(2) by simp
  moreover have "\<exists>e. map_of (wt_map (cs_table s)) (ev_worker ev) = Some e \<and> ev_time ev \<le> we_last_ping e"
    if "ev \<in> set (cs_history s)" "now - ev_time ev < dead" for ev
    using coord_invD(5) [OF assms(2) that(1)] that(2) cs_tick(2) by simp
  ultimately show ?thesis
    unfolding cs_tick(1) using coord_invD(1,2,4) [OF assms(2)] by (intro coord_invI) simp_all
next
  case (cs_register req r t)
  from coord_register_cases [OF cs_register(2)] show ?thesis
  proof (elim disjE exE conjE)
    assume "t = cs_table s" "register_event (cs_now s) req r = []"
    then show ?thesis unfolding cs_register(1) using assms(2) by simp
  next
    fix caps ok
    assume a: "auth_check expected (rr_auth_token req) = Inr ()"
      and u: "upsert_register (cs_now s) (rr_worker_id req) (rr_execution_endpoint req) caps (cs_table s) = (ok, t)"
      and e: "register_event (cs_now s) req r
          = (if ok then [Registered (cs_now s) (rr_worker_id req) (rr_execution_endpoint req) (rr_auth_token req)] else [])"
    show ?thesis
      using upsert_register_cases [OF u] inv_reaped [OF assms(2), of t] inv_registered [OF assms(2) a, of t] e
      unfolding cs_register(1) by (cases ok) auto
  qed
next
  case (cs_ping ping sent go t)
  from heartbeat_turn_cases [OF cs_ping(2)] show ?thesis
  proof (elim disjE conjE)
    assume "auth_check expected (hp_auth_token ping) \<noteq> Inr ()" "t = cs_table s"
    then show ?thesis unfolding cs_ping(1) using assms(2) by (simp add: ping_event_def)
  next
    assume "auth_check expected (hp_auth_token ping) = Inr ()"
      "t = on_ping (cs_now s) (hp_worker_id ping) (hp_running_actions ping) (hp_idle_slots ping) (hp_idle_cpu_pct ping) (cs_table s)"
    from inv_pinged [OF assms(2) this] show ?thesis unfolding cs_ping(1) .
  qed
qed

lemma coord_reach_inv: "coord_reach expected dead s \<Longrightarrow> coord_inv expected dead s"
proof (induction rule: coord_reach.induct)
  case (cr_start now)
  then show ?case by (intro coord_invI) (simp_all add: worker_table_new_def)
next
  case (cr_step s s')
  then show ?case using coord_step_inv by blast
qed

section \<open>What the scheduler can rely on\<close>

lemma live_snapshot_iff:
  "hm_inv (wt_map t) \<Longrightarrow> e \<in> set (live_snapshot now t) \<longleftrightarrow>
     (\<exists>k. map_of (wt_map t) k = Some e) \<and> now - we_last_ping e < wt_dead_timeout t"
  by (auto simp: live_snapshot_def hm_values_iff)

text \<open>
  C35. Every worker the scheduler can see was admitted by the token check: in any reachable
  state, each entry of the live snapshot has a worker id and an endpoint that some accepted
  registration presented together with the configured token.
\<close>
theorem live_worker_authenticated:
  assumes "coord_reach (Some token) dead s" and "e \<in> set (live_snapshot (cs_now s) (cs_table s))"
  shows "\<exists>t. Registered t (we_worker_id e) (we_execution_endpoint e) token \<in> set (cs_history s)"
proof -
  note inv = coord_reach_inv [OF assms(1)]
  obtain k where k: "map_of (wt_map (cs_table s)) k = Some e"
    using assms(2) live_snapshot_iff [OF coord_invD(1) [OF inv]] by blast
  then obtain t tok where r: "we_worker_id e = k" "Registered t k (we_execution_endpoint e) tok \<in> set (cs_history s)"
    using coord_invD(4) [OF inv] by blast
  have "auth_check (Some token) tok = Inr ()" using coord_invD(3) [OF inv r(2)] by simp
  then have "tok = token" by (auto simp: auth_check_def token_eq_iff split: if_splits)
  then show ?thesis using r by blast
qed

text \<open>
  Liveness is exactly recency: in any reachable state a worker counts as live if and only
  if the agent acted on a registration or ping of it less than the dead timeout ago. So a
  silent worker leaves the schedulable set within the timeout, and reaping or
  re-registration never drops one that is still being heard.
\<close>
theorem live_iff_heard_recently:
  assumes "coord_reach expected dead s"
  shows "is_live (cs_now s) w (cs_table s) \<longleftrightarrow>
    (\<exists>ev \<in> set (cs_history s). ev_worker ev = w \<and> cs_now s - ev_time ev < dead)"
proof -
  note inv = coord_reach_inv [OF assms]
  show ?thesis
  proof
    assume "is_live (cs_now s) w (cs_table s)"
    then obtain e where e: "map_of (wt_map (cs_table s)) w = Some e" "cs_now s - we_last_ping e < dead"
      using coord_invD(2) [OF inv] by (auto simp: is_live_def split: option.splits)
    obtain ev where "ev \<in> set (cs_history s)" "ev_worker ev = w" "ev_time ev = we_last_ping e"
      using coord_invD(4) [OF inv e(1)] by blast
    then show "\<exists>ev \<in> set (cs_history s). ev_worker ev = w \<and> cs_now s - ev_time ev < dead" using e(2) by auto
  next
    assume "\<exists>ev \<in> set (cs_history s). ev_worker ev = w \<and> cs_now s - ev_time ev < dead"
    then obtain ev e where "cs_now s - ev_time ev < dead" "map_of (wt_map (cs_table s)) w = Some e" "ev_time ev \<le> we_last_ping e"
      using coord_invD(5) [OF inv] by blast
    then show "is_live (cs_now s) w (cs_table s)" using coord_invD(2) [OF inv] by (simp add: is_live_def)
  qed
qed

lemma live_step_endpoint:
  assumes inv: "coord_inv expected dead s" and step: "coord_step expected s s'" and live: "is_live (cs_now s') w (cs_table s)"
    and e: "map_of (wt_map (cs_table s)) w = Some e"
  shows "\<exists>e'. map_of (wt_map (cs_table s')) w = Some e' \<and> we_execution_endpoint e' = we_execution_endpoint e"
  using step
proof cases
  case (cs_tick now)
  then show ?thesis using e by simp
next
  case (cs_register req r t)
  have age: "cs_now s - we_last_ping e < wt_dead_timeout (cs_table s)"
    using live e by (simp add: is_live_def cs_register(1))
  note kept = live_not_reaped [OF coord_invD(1) [OF inv] e age]
  from coord_register_cases [OF cs_register(2)] show ?thesis
  proof (elim disjE exE conjE)
    assume "t = cs_table s"
    then show ?thesis using e by (simp add: cs_register(1))
  next
    fix caps ok
    assume u: "upsert_register (cs_now s) (rr_worker_id req) (rr_execution_endpoint req) caps (cs_table s) = (ok, t)"
    show ?thesis using upsert_register_cases [OF u] kept age
      by (cases "w = rr_worker_id req") (auto simp: cs_register(1) fresh_entry_def)
  qed
next
  case (cs_ping ping sent go t)
  from heartbeat_turn_cases [OF cs_ping(2)] show ?thesis
    using e by (auto simp: cs_ping(1) on_ping_def hm_look_modify)
qed

lemma live_run_endpoint:
  assumes "live_run expected w s s'" "coord_inv expected dead s" "map_of (wt_map (cs_table s)) w = Some e"
  shows "coord_inv expected dead s' \<and> (\<exists>e'. map_of (wt_map (cs_table s')) w = Some e' \<and> we_execution_endpoint e' = we_execution_endpoint e)"
  using assms
proof (induction rule: live_run.induct)
  case (lr_step s s' s'')
  from lr_step.IH [OF lr_step.prems] obtain e' where e': "coord_inv expected dead s'"
    "map_of (wt_map (cs_table s')) w = Some e'" "we_execution_endpoint e' = we_execution_endpoint e" by blast
  then show ?case using coord_step_inv [OF lr_step.hyps(2)] live_step_endpoint [OF e'(1) lr_step.hyps(2,3) e'(2)] by simp
qed simp

text \<open>
  A live worker's identity cannot be taken over. From any reachable state, as long as a
  worker id stays live at each step, its entry stays in the table and keeps its execution
  endpoint, whatever registrations and pings arrive under that or any other id. Signed
  capabilities name the worker id, so an action signed for it goes to the endpoint it was
  signed for.
\<close>
theorem live_identity_kept:
  assumes "coord_reach expected dead s" and "map_of (wt_map (cs_table s)) w = Some e" and "live_run expected w s s'"
  shows "\<exists>e'. map_of (wt_map (cs_table s')) w = Some e' \<and> we_execution_endpoint e' = we_execution_endpoint e"
  using live_run_endpoint [OF assms(3) coord_reach_inv [OF assms(1)] assms(2)] by blast

definition demo_request :: "string \<Rightarrow> register_request" where
  "demo_request ep = \<lparr>rr_worker_id = ''w'', rr_caps = None, rr_execution_endpoint = ep, rr_auth_token = ''k''\<rparr>"

definition demo_entry :: worker_entry where
  "demo_entry = fresh_entry 0 ''w'' ''a'' capabilities_default"

definition demo_table :: worker_table where
  "demo_table = \<lparr>wt_map = [(''w'', demo_entry)], wt_dead_timeout = 15\<rparr>"

definition demo_coord :: "nat \<Rightarrow> coord_state" where
  "demo_coord now = \<lparr>cs_now = now, cs_table = demo_table, cs_history = [Registered 0 ''w'' ''a'' ''k'']\<rparr>"

lemma demo_register:
  "coord_register (Some ''k'') 0 (demo_request ''a'') (worker_table_new 15)
   = (Inr \<lparr>rs_protocol_version = 0, rs_accepted = True, rs_detail = []\<rparr>, demo_table)"
  by (simp add: coord_register_def demo_request_def auth_check_def token_eq_iff upsert_register_def worker_table_new_def
      hm_retain_def hm_insert_def PROTOCOL_VERSION_def demo_table_def demo_entry_def fresh_entry_def)

lemma demo_hijack:
  "coord_register (Some ''k'') 5 (demo_request ''b'') demo_table
   = (Inr \<lparr>rs_protocol_version = 0, rs_accepted = False,
        rs_detail = ''worker_id already registered with a different execution endpoint''\<rparr>, demo_table)"
  by (simp add: coord_register_def demo_request_def auth_check_def token_eq_iff upsert_register_def demo_table_def
      demo_entry_def fresh_entry_def hm_retain_def last_ping_age_def PROTOCOL_VERSION_def REAP_FACTOR_def)

lemma demo_coord_reach: "coord_reach (Some ''k'') 15 (demo_coord 5)"
proof -
  have "coord_reach (Some ''k'') 15 (demo_coord 0)"
    using cr_step [OF cr_start cs_register, of "Some ''k''" 0 15 "demo_request ''a''"] demo_register
    by (simp add: demo_coord_def register_event_def demo_request_def)
  from cr_step [OF this cs_tick, of 5] show ?thesis by (simp add: demo_coord_def)
qed

theorem live_worker_authenticated_witness:
  "\<exists>t. Registered t (we_worker_id demo_entry) (we_execution_endpoint demo_entry) ''k'' \<in> set (cs_history (demo_coord 5))"
  by (rule live_worker_authenticated [OF demo_coord_reach])
     (simp add: live_snapshot_def demo_coord_def demo_table_def hm_values_def demo_entry_def fresh_entry_def)

theorem live_iff_heard_recently_witness:
  "is_live (cs_now (demo_coord 5)) ''w'' (cs_table (demo_coord 5)) \<and> \<not> is_live (cs_now (demo_coord 5)) ''v'' (cs_table (demo_coord 5))"
  unfolding live_iff_heard_recently [OF demo_coord_reach] by (simp add: demo_coord_def)

theorem live_identity_kept_witness:
  "\<exists>e'. map_of (wt_map (cs_table (demo_coord 5))) ''w'' = Some e' \<and> we_execution_endpoint e' = we_execution_endpoint demo_entry"
proof (rule live_identity_kept [OF demo_coord_reach])
  show "map_of (wt_map (cs_table (demo_coord 5))) ''w'' = Some demo_entry" by (simp add: demo_coord_def demo_table_def)
  have "coord_step (Some ''k'') (demo_coord 5) (demo_coord 5)"
    using cs_register [of "Some ''k''" "demo_coord 5" "demo_request ''b''"] demo_hijack
    by (simp add: demo_coord_def register_event_def)
  then show "live_run (Some ''k'') ''w'' (demo_coord 5) (demo_coord 5)"
    by (rule lr_step [OF lr_refl]) (simp add: is_live_def demo_coord_def demo_table_def demo_entry_def fresh_entry_def)
qed

end
