(* ===== verification/Action_Tracker.thy ===== *)
theory Action_Tracker
  imports Hash_Map Capability
begin

text \<open>
  The agent's record of running and recent action attempts,
  \<open>src/crates/agent/src/action_tracker.rs\<close>: the attempt table with its life cycle, the
  per-worker display lanes, expiry and eviction, and the lease that closes an attempt when it
  is dropped. An \<open>Instant\<close> is a natural number in milliseconds; each call's clock reading is an
  argument, and calls may carry readings that are out of order (the source reads the clock
  before it takes the lock). A lane heap is the sorted list of its elements.
\<close>

definition ACTIVITY_TTL :: nat where "ACTIVITY_TTL = 60000"
definition MAX_ACTIVITY_ATTEMPTS :: nat where "MAX_ACTIVITY_ATTEMPTS = 4096"
definition MAX_DISPLAY_CHARS :: nat where "MAX_DISPLAY_CHARS = 128"
definition MAX_ID_CHARS :: nat where "MAX_ID_CHARS = 128"

record attempt_key =
  ak_action_id :: string
  ak_attempt_no :: u32

datatype execution_kind = Remote | Local | Fallback

datatype activity_state = Created | Queued | Preparing | Running | Completed | Failed | Interrupted

primrec is_terminal :: "activity_state \<Rightarrow> bool" where
  "is_terminal Created = False"
| "is_terminal Queued = False"
| "is_terminal Preparing = False"
| "is_terminal Running = False"
| "is_terminal Completed = True"
| "is_terminal Failed = True"
| "is_terminal Interrupted = True"

primrec state_rank :: "activity_state \<Rightarrow> nat" where
  "state_rank Created = 0"
| "state_rank Queued = 1"
| "state_rank Preparing = 2"
| "state_rank Running = 3"
| "state_rank Completed = 4"
| "state_rank Failed = 4"
| "state_rank Interrupted = 4"

record attempt_record =
  at_worker_id :: string
  at_execution_kind :: execution_kind
  at_display_name :: string
  at_state :: activity_state
  at_lane_index :: nat
  at_started_at :: nat
  at_finished_at :: "nat option"

record lane_allocator =
  la_next_lane :: nat
  la_free_lanes :: "nat list"
  la_active :: nat

definition lane_allocator_default :: lane_allocator where
  "lane_allocator_default = \<lparr>la_next_lane = 1, la_free_lanes = [], la_active = 0\<rparr>"

record tracker_state =
  ts_attempts :: "(attempt_key, attempt_record) hmap"
  ts_terminal_order :: "attempt_key list"
  ts_worker_lanes :: "(string, lane_allocator) hmap"
  ts_rejected_transitions :: nat

definition tracker_default :: tracker_state where
  "tracker_default = \<lparr>ts_attempts = [], ts_terminal_order = [], ts_worker_lanes = [], ts_rejected_transitions = 0\<rparr>"

section \<open>Lanes\<close>

definition u32_max :: nat where "u32_max = 2 ^ 32 - 1"

definition allocate_lane :: "string \<Rightarrow> (string, lane_allocator) hmap \<Rightarrow> nat \<times> (string, lane_allocator) hmap" where
  "allocate_lane worker_id lanes =
     (let a = (case map_of lanes worker_id of None \<Rightarrow> lane_allocator_default | Some a \<Rightarrow> a);
          (lane, a') = (case la_free_lanes a of
             [] \<Rightarrow> (la_next_lane a, a\<lparr>la_next_lane := min (la_next_lane a + 1) u32_max\<rparr>)
           | l # free \<Rightarrow> (l, a\<lparr>la_free_lanes := free\<rparr>))
      in (lane, hm_insert worker_id (a'\<lparr>la_active := la_active a' + 1\<rparr>) lanes))"

definition release_lane :: "string \<Rightarrow> nat \<Rightarrow> (string, lane_allocator) hmap \<Rightarrow> (string, lane_allocator) hmap" where
  "release_lane worker_id lane_index lanes =
     (case map_of lanes worker_id of
        None \<Rightarrow> lanes
      | Some a \<Rightarrow>
          (let a' = a\<lparr>la_active := la_active a - 1, la_free_lanes := insort lane_index (la_free_lanes a)\<rparr>
           in if la_active a' = 0 then hm_remove worker_id lanes else hm_insert worker_id a' lanes))"

section \<open>The life cycle\<close>

definition reject :: "tracker_state \<Rightarrow> tracker_state" where
  "reject st = st\<lparr>ts_rejected_transitions := saturating_add (ts_rejected_transitions st) 1\<rparr>"

definition enter_state ::
    "attempt_key \<Rightarrow> attempt_record \<Rightarrow> activity_state \<Rightarrow> nat \<Rightarrow> tracker_state \<Rightarrow> tracker_state" where
  "enter_state key rec next now st =
     (let (lane, lanes) = (if next = Running then allocate_lane (at_worker_id rec) (ts_worker_lanes st)
                           else (at_lane_index rec, ts_worker_lanes st));
          released = (is_terminal next \<and> at_lane_index rec \<noteq> 0);
          attempts = hm_modify key (\<lambda>r. r\<lparr>at_state := next,
             at_lane_index := (if next = Running then lane else at_lane_index r),
             at_finished_at := (if is_terminal next then Some now else at_finished_at r)\<rparr>) (ts_attempts st)
      in st\<lparr>ts_attempts := attempts,
            ts_terminal_order := (if is_terminal next then ts_terminal_order st @ [key] else ts_terminal_order st),
            ts_worker_lanes := (if released then release_lane (at_worker_id rec) (at_lane_index rec) lanes else lanes)\<rparr>)"

definition transition_locked :: "attempt_key \<Rightarrow> activity_state \<Rightarrow> nat \<Rightarrow> tracker_state \<Rightarrow> tracker_state" where
  "transition_locked key next now st =
     (case map_of (ts_attempts st) key of
        None \<Rightarrow> reject st
      | Some rec \<Rightarrow>
          let current = at_state rec in
          if is_terminal current then (if current \<noteq> next then reject st else st)
          else if next = current then st
          else if \<not> is_terminal next \<and> state_rank next < state_rank current then reject st
          else enter_state key rec next now st)"

definition tracker_finish :: "attempt_key \<Rightarrow> activity_state \<Rightarrow> nat \<Rightarrow> tracker_state \<Rightarrow> tracker_state" where
  "tracker_finish key terminal now st =
     (if \<not> is_terminal terminal then reject st else transition_locked key terminal now st)"

section \<open>Beginning an attempt\<close>

definition age :: "nat \<Rightarrow> nat \<Rightarrow> nat" where
  "age later earlier = later - earlier"

fun prune_order :: "nat \<Rightarrow> attempt_key list \<Rightarrow> (attempt_key, attempt_record) hmap
    \<Rightarrow> attempt_key list \<times> (attempt_key, attempt_record) hmap" where
  "prune_order now [] attempts = ([], attempts)"
| "prune_order now (key # order) attempts =
     (let expired = (case map_of attempts key of
          None \<Rightarrow> True
        | Some rec \<Rightarrow> (case at_finished_at rec of None \<Rightarrow> True | Some finished \<Rightarrow> age now finished \<ge> ACTIVITY_TTL))
      in if \<not> expired then (key # order, attempts) else prune_order now order (hm_remove key attempts))"

definition prune_locked :: "nat \<Rightarrow> tracker_state \<Rightarrow> tracker_state" where
  "prune_locked now st =
     (case prune_order now (ts_terminal_order st) (ts_attempts st) of
        (order, attempts) \<Rightarrow> st\<lparr>ts_terminal_order := order, ts_attempts := attempts\<rparr>)"

fun evict_order :: "attempt_key list \<Rightarrow> (attempt_key, attempt_record) hmap
    \<Rightarrow> bool \<times> attempt_key list \<times> (attempt_key, attempt_record) hmap" where
  "evict_order [] attempts = (False, [], attempts)"
| "evict_order (key # order) attempts =
     (if map_of attempts key \<noteq> None then (True, order, hm_remove key attempts) else evict_order order attempts)"

definition evict_oldest_terminal :: "tracker_state \<Rightarrow> bool \<times> tracker_state" where
  "evict_oldest_terminal st =
     (case evict_order (ts_terminal_order st) (ts_attempts st) of
        (ok, order, attempts) \<Rightarrow> (ok, st\<lparr>ts_terminal_order := order, ts_attempts := attempts\<rparr>))"

lemma evict_order_shorter: "evict_order order attempts = (True, order', attempts') \<Longrightarrow> length order' < length order"
  by (induction order arbitrary: attempts) (fastforce split: if_splits)+

function evict_until_room :: "tracker_state \<Rightarrow> bool \<times> tracker_state" where
  "evict_until_room st =
     (if length (ts_attempts st) \<ge> MAX_ACTIVITY_ATTEMPTS then
        (case evict_oldest_terminal st of
           (False, st') \<Rightarrow> (False, st')
         | (True, st') \<Rightarrow> evict_until_room st')
      else (True, st))"
  by pat_completeness auto
termination
  by (relation "measure (\<lambda>st. length (ts_terminal_order st))")
     (auto simp: evict_oldest_terminal_def dest: evict_order_shorter split: prod.splits)

declare evict_until_room.simps [simp del]

text \<open>The first \<open>limit\<close> characters of a string: lead bytes count, continuation bytes follow.\<close>

fun truncate_chars :: "string \<Rightarrow> nat \<Rightarrow> string" where
  "truncate_chars [] limit = []"
| "truncate_chars (c # cs) limit =
     (if is_cont_char c then c # truncate_chars cs limit
      else case limit of 0 \<Rightarrow> [] | Suc n \<Rightarrow> c # truncate_chars cs n)"

definition char_count :: "string \<Rightarrow> nat" where
  "char_count s = length (filter (\<lambda>c. \<not> is_cont_char c) s)"

definition bounded_id :: "hash_fn \<Rightarrow> string \<Rightarrow> string" where
  "bounded_id blake3 value =
     (if char_count value \<le> MAX_ID_CHARS then value
      else truncate_chars value 96 @ ''#'' @ take 16 (di_hex (digest_of blake3 (as_bytes value))))"

definition begin_attempt ::
    "hash_fn \<Rightarrow> string \<Rightarrow> u32 \<Rightarrow> string \<Rightarrow> execution_kind \<Rightarrow> string \<Rightarrow> nat \<Rightarrow> tracker_state
     \<Rightarrow> attempt_key option \<times> tracker_state" where
  "begin_attempt blake3 action_id attempt_no worker_id kind name now st0 =
     (let st = prune_locked now st0;
          key = \<lparr>ak_action_id = bounded_id blake3 action_id, ak_attempt_no = attempt_no\<rparr>
      in if map_of (ts_attempts st) key \<noteq> None then (None, st)
         else case evict_until_room st of
           (False, st') \<Rightarrow> (None, st')
         | (True, st') \<Rightarrow>
             (Some key, st'\<lparr>ts_attempts := hm_insert key
                \<lparr>at_worker_id = bounded_id blake3 worker_id, at_execution_kind = kind,
                 at_display_name = truncate_chars name MAX_DISPLAY_CHARS, at_state = Created, at_lane_index = 0,
                 at_started_at = now, at_finished_at = None\<rparr> (ts_attempts st')\<rparr>))"

section \<open>Leases\<close>

record attempt_lease =
  al_key :: attempt_key
  al_finished :: bool

definition begin_attempt_lease ::
    "hash_fn \<Rightarrow> string \<Rightarrow> u32 \<Rightarrow> string \<Rightarrow> execution_kind \<Rightarrow> string \<Rightarrow> nat \<Rightarrow> tracker_state
     \<Rightarrow> attempt_lease option \<times> tracker_state" where
  "begin_attempt_lease blake3 action_id attempt_no worker_id kind name now st =
     (case begin_attempt blake3 action_id attempt_no worker_id kind name now st of
        (k, st') \<Rightarrow> (map_option (\<lambda>key. \<lparr>al_key = key, al_finished = False\<rparr>) k, st'))"

definition lease_finish :: "attempt_lease \<Rightarrow> activity_state \<Rightarrow> nat \<Rightarrow> tracker_state \<Rightarrow> attempt_lease \<times> tracker_state" where
  "lease_finish l terminal now st =
     (if is_terminal terminal then l\<lparr>al_finished := True\<rparr> else l, tracker_finish (al_key l) terminal now st)"

definition lease_drop :: "attempt_lease \<Rightarrow> nat \<Rightarrow> tracker_state \<Rightarrow> tracker_state" where
  "lease_drop l now st = (if \<not> al_finished l then tracker_finish (al_key l) Interrupted now st else st)"

section \<open>Snapshots\<close>

record activity_snapshot =
  sn_key :: attempt_key
  sn_worker_id :: string
  sn_execution_kind :: execution_kind
  sn_display_name :: string
  sn_state :: activity_state
  sn_lane_index :: nat
  sn_started_age :: nat
  sn_finished_age :: "nat option"
  sn_duration :: nat

definition snapshot_of :: "nat \<Rightarrow> attempt_key \<Rightarrow> attempt_record \<Rightarrow> activity_snapshot" where
  "snapshot_of now key r =
     \<lparr>sn_key = key, sn_worker_id = at_worker_id r, sn_execution_kind = at_execution_kind r,
      sn_display_name = at_display_name r, sn_state = at_state r, sn_lane_index = at_lane_index r,
      sn_started_age = age now (at_started_at r), sn_finished_age = map_option (age now) (at_finished_at r),
      sn_duration = age (case at_finished_at r of None \<Rightarrow> now | Some f \<Rightarrow> f) (at_started_at r)\<rparr>"

definition tracker_snapshot :: "nat \<Rightarrow> tracker_state \<Rightarrow> activity_snapshot list \<times> tracker_state" where
  "tracker_snapshot now st0 =
     (let st = prune_locked now st0 in
      (map (\<lambda>(k, r). snapshot_of now k r)
         (sort_key (\<lambda>(k, r). (at_started_at r, ak_action_id k, ak_attempt_no k)) (ts_attempts st)), st))"

section \<open>The invariant\<close>

definition run_lanes :: "attempt_record multiset \<Rightarrow> string \<Rightarrow> nat multiset" where
  "run_lanes vals w = image_mset at_lane_index (filter_mset (\<lambda>r. at_state r = Running \<and> at_worker_id r = w) vals)"

definition lane_ok :: "lane_allocator option \<Rightarrow> nat multiset \<Rightarrow> bool" where
  "lane_ok a L = (case a of
     None \<Rightarrow> L = {#}
   | Some a \<Rightarrow> la_active a = size L \<and> L \<noteq> {#} \<and> sorted (la_free_lanes a) \<and> 1 \<le> la_next_lane a
       \<and> la_next_lane a \<le> MAX_ACTIVITY_ATTEMPTS + 1 \<and> mset (la_free_lanes a) + L = mset [1..<la_next_lane a])"

definition record_ok :: "attempt_record \<Rightarrow> bool" where
  "record_ok r \<longleftrightarrow> (is_terminal (at_state r) \<longleftrightarrow> at_finished_at r \<noteq> None)
     \<and> (at_state r = Running \<longrightarrow> at_lane_index r \<noteq> 0)
     \<and> (\<not> is_terminal (at_state r) \<and> at_state r \<noteq> Running \<longrightarrow> at_lane_index r = 0)"

definition tracker_inv :: "tracker_state \<Rightarrow> bool" where
  "tracker_inv st \<longleftrightarrow> hm_inv (ts_attempts st) \<and> length (ts_attempts st) \<le> MAX_ACTIVITY_ATTEMPTS
     \<and> distinct (ts_terminal_order st)
     \<and> set (ts_terminal_order st) = {k. \<exists>r. map_of (ts_attempts st) k = Some r \<and> is_terminal (at_state r)}
     \<and> (\<forall>r \<in># mset (hm_values (ts_attempts st)). record_ok r)
     \<and> (\<forall>w. lane_ok (map_of (ts_worker_lanes st) w) (run_lanes (mset (hm_values (ts_attempts st))) w))"

lemma tracker_invD:
  assumes "tracker_inv st"
  shows "hm_inv (ts_attempts st)" "length (ts_attempts st) \<le> MAX_ACTIVITY_ATTEMPTS" "distinct (ts_terminal_order st)"
    "set (ts_terminal_order st) = {k. \<exists>r. map_of (ts_attempts st) k = Some r \<and> is_terminal (at_state r)}"
    "r \<in># mset (hm_values (ts_attempts st)) \<Longrightarrow> record_ok r"
    "lane_ok (map_of (ts_worker_lanes st) w) (run_lanes (mset (hm_values (ts_attempts st))) w)"
  using assms by (simp_all add: tracker_inv_def)

lemma tracker_invI:
  assumes "hm_inv (ts_attempts st)" "length (ts_attempts st) \<le> MAX_ACTIVITY_ATTEMPTS" "distinct (ts_terminal_order st)"
    "set (ts_terminal_order st) = {k. \<exists>r. map_of (ts_attempts st) k = Some r \<and> is_terminal (at_state r)}"
    "\<And>r. r \<in># mset (hm_values (ts_attempts st)) \<Longrightarrow> record_ok r"
    "\<And>w. lane_ok (map_of (ts_worker_lanes st) w) (run_lanes (mset (hm_values (ts_attempts st))) w)"
  shows "tracker_inv st"
  using assms by (simp add: tracker_inv_def)

lemma allocate_lane_ok:
  assumes "allocate_lane w lanes = (lane, lanes')" "lane_ok (map_of lanes w) L" "size L < MAX_ACTIVITY_ATTEMPTS"
  shows "lane_ok (map_of lanes' w) (add_mset lane L)" "w' \<noteq> w \<Longrightarrow> map_of lanes' w' = map_of lanes w'"
    "lane \<notin># L" "1 \<le> lane"
proof -
  define a where "a = (case map_of lanes w of None \<Rightarrow> lane_allocator_default | Some a \<Rightarrow> a)"
  have a: "la_active a = size L" "sorted (la_free_lanes a)" "1 \<le> la_next_lane a" "la_next_lane a \<le> MAX_ACTIVITY_ATTEMPTS + 1"
      "mset (la_free_lanes a) + L = mset [1..<la_next_lane a]"
    using assms(2) by (auto simp: a_def lane_ok_def lane_allocator_default_def split: option.splits)
  have d: "x \<notin># mset (la_free_lanes a) \<or> x \<notin># L" for x
  proof -
    have "count (mset (la_free_lanes a)) x + count L x \<le> 1"
      unfolding count_union [symmetric] a(5) by (simp add: count_mset_set')
    then have "count (mset (la_free_lanes a)) x = 0 \<or> count L x = 0" by linarith
    then show ?thesis by (simp add: count_eq_zero_iff)
  qed
  show "w' \<noteq> w \<Longrightarrow> map_of lanes' w' = map_of lanes w'"
    using assms(1) by (auto simp: allocate_lane_def Let_def split: list.splits prod.splits)
  show "lane_ok (map_of lanes' w) (add_mset lane L)" "lane \<notin># L" "1 \<le> lane"
  proof (atomize (full), cases "la_free_lanes a")
    case Nil
    then have L: "L = mset [1..<la_next_lane a]" using a(5) by simp
    then have nl: "la_next_lane a \<le> MAX_ACTIVITY_ATTEMPTS" using assms(3) by simp
    then have m: "min (la_next_lane a + 1) u32_max = la_next_lane a + 1" by (simp add: u32_max_def MAX_ACTIVITY_ATTEMPTS_def)
    have r: "lane = la_next_lane a" "map_of lanes' w = Some (a\<lparr>la_next_lane := la_next_lane a + 1, la_active := la_active a + 1\<rparr>)"
      using assms(1) Nil m by (auto simp: allocate_lane_def a_def [symmetric] Let_def)
    show "lane_ok (map_of lanes' w) (add_mset lane L) \<and> lane \<notin># L \<and> 1 \<le> lane"
      using a nl Nil by (simp add: r lane_ok_def L)
  next
    case (Cons l free)
    have r: "lane = l" "map_of lanes' w = Some (a\<lparr>la_free_lanes := free, la_active := la_active a + 1\<rparr>)"
      using assms(1) Cons by (auto simp: allocate_lane_def a_def [symmetric] Let_def)
    have "l \<in># mset [1..<la_next_lane a]" using a(5) Cons by (metis mset.simps(2) union_iff union_single_eq_member)
    then have "1 \<le> l" by simp
    moreover have "l \<notin># L" using d [of l] Cons by simp
    ultimately show "lane_ok (map_of lanes' w) (add_mset lane L) \<and> lane \<notin># L \<and> 1 \<le> lane"
      using a Cons by (simp add: r lane_ok_def)
  qed
qed

lemma release_lane_ok:
  assumes "lane_ok (map_of lanes w) (add_mset lane L)"
  shows "lane_ok (map_of (release_lane w lane lanes) w) L" "w' \<noteq> w \<Longrightarrow> map_of (release_lane w lane lanes) w' = map_of lanes w'"
proof -
  obtain a where a: "map_of lanes w = Some a" using assms by (cases "map_of lanes w") (simp_all add: lane_ok_def)
  note ok = assms [unfolded a lane_ok_def option.case]
  show "lane_ok (map_of (release_lane w lane lanes) w) L"
    using ok by (auto simp: release_lane_def a Let_def lane_ok_def hm_look_remove sorted_insort)
  show "w' \<noteq> w \<Longrightarrow> map_of (release_lane w lane lanes) w' = map_of lanes w'"
    by (simp add: release_lane_def a Let_def hm_look_remove)
qed

section \<open>Every operation keeps the invariant\<close>

lemma run_lanes_add [simp]:
  "run_lanes (add_mset r vals) w =
     (if at_state r = Running \<and> at_worker_id r = w then add_mset (at_lane_index r) (run_lanes vals w) else run_lanes vals w)"
  by (simp add: run_lanes_def)

lemma size_run_lanes: "size (run_lanes vals w) \<le> size vals"
  by (simp add: run_lanes_def size_filter_mset_lesseq)

lemma attempts_modify:
  assumes inv: "hm_inv (ts_attempts st)" and k: "map_of (ts_attempts st) key = Some rec"
  obtains rest where "mset (hm_values (ts_attempts st)) = add_mset rec rest"
    "mset (hm_values (hm_modify key f (ts_attempts st))) = add_mset (f rec) rest"
proof
  show "mset (hm_values (ts_attempts st)) = add_mset rec (mset (hm_values (ts_attempts st)) - {#rec#})"
    using hm_vals_member [OF k] by simp
  show "mset (hm_values (hm_modify key f (ts_attempts st))) = add_mset (f rec) (mset (hm_values (ts_attempts st)) - {#rec#})"
    using hm_vals_modify [OF inv k] by simp
qed

lemma terminal_keys_modify:
  assumes "map_of (ts_attempts st) key = Some rec" "\<not> is_terminal (at_state rec)"
  shows "{k. \<exists>r. map_of (hm_modify key f (ts_attempts st)) k = Some r \<and> is_terminal (at_state r)}
     = (if is_terminal (at_state (f rec)) then insert key else id) {k. \<exists>r. map_of (ts_attempts st) k = Some r \<and> is_terminal (at_state r)}"
  using assms by (auto simp: hm_look_modify)

lemma enter_state_inv:
  assumes inv: "tracker_inv st" and k: "map_of (ts_attempts st) key = Some rec" and live: "\<not> is_terminal (at_state rec)"
    and nx: "next \<noteq> at_state rec" "is_terminal next \<or> state_rank (at_state rec) \<le> state_rank next"
  shows "tracker_inv (enter_state key rec next now st)"
proof -
  obtain lane lanes where ll: "(if next = Running then allocate_lane (at_worker_id rec) (ts_worker_lanes st)
      else (at_lane_index rec, ts_worker_lanes st)) = (lane, lanes)" by fastforce
  define f where "f = (\<lambda>r :: attempt_record. r\<lparr>at_state := next, at_lane_index := (if next = Running then lane else at_lane_index r),
      at_finished_at := (if is_terminal next then Some now else at_finished_at r)\<rparr>)"
  define lanes' where "lanes' = (if is_terminal next \<and> at_lane_index rec \<noteq> 0
      then release_lane (at_worker_id rec) (at_lane_index rec) lanes else lanes)"
  have st': "enter_state key rec next now st = st\<lparr>ts_attempts := hm_modify key f (ts_attempts st),
      ts_terminal_order := (if is_terminal next then ts_terminal_order st @ [key] else ts_terminal_order st), ts_worker_lanes := lanes'\<rparr>"
    by (simp add: enter_state_def ll Let_def f_def lanes'_def)
  obtain rest where vals: "mset (hm_values (ts_attempts st)) = add_mset rec rest"
      "mset (hm_values (hm_modify key f (ts_attempts st))) = add_mset (f rec) rest"
    using attempts_modify [OF tracker_invD(1) [OF inv] k] .
  have rok: "record_ok rec" using tracker_invD(5) [OF inv] vals(1) by simp
  have notrun: "at_state rec \<noteq> Running" if "\<not> is_terminal next"
    using nx live that by (cases "at_state rec"; cases "next") simp_all
  have keyfree: "key \<notin> set (ts_terminal_order st)" using tracker_invD(4) [OF inv] k live by simp
  have lok: "lane_ok (map_of (ts_worker_lanes st) w) (run_lanes (add_mset rec rest) w)" for w
    using tracker_invD(6) [OF inv] vals(1) by metis
  have room: "size (run_lanes rest w) < MAX_ACTIVITY_ATTEMPTS" for w
  proof -
    have "length (ts_attempts st) = Suc (size rest)" using arg_cong [OF vals(1), of size] by (simp add: hm_values_def)
    then show ?thesis using size_run_lanes [of rest w] tracker_invD(2) [OF inv] by simp
  qed
  have rest_ok: "record_ok r" if "r \<in># rest" for r
    by (rule tracker_invD(5) [OF inv]) (use that in \<open>simp only: vals(1) union_iff, simp\<close>)
  have lanes: "record_ok (f rec) \<and> (\<forall>w. lane_ok (map_of lanes' w) (run_lanes (add_mset (f rec) rest) w))"
  proof (cases "next = Running")
    case True
    then have nr: "at_state rec \<noteq> Running" using notrun by simp
    have al: "allocate_lane (at_worker_id rec) (ts_worker_lanes st) = (lane, lanes)" using ll True by simp
    have "lane_ok (map_of (ts_worker_lanes st) (at_worker_id rec)) (run_lanes rest (at_worker_id rec))"
      using lok [of "at_worker_id rec"] nr by simp
    note a = allocate_lane_ok [OF al this room]
    have "lane_ok (map_of lanes w) (run_lanes (add_mset (f rec) rest) w)" for w
      using a(1) a(2) [of w] lok [of w] nr True by (cases "w = at_worker_id rec") (simp_all add: f_def)
    then show ?thesis using a(4) True live rok by (simp add: f_def record_ok_def lanes'_def)
  next
    case False
    then have l: "lanes = ts_worker_lanes st" using ll by simp
    have fr: "run_lanes (add_mset (f rec) rest) w = run_lanes rest w" for w using False by (simp add: f_def)
    have "record_ok (f rec)" using rok live False notrun by (auto simp: f_def record_ok_def)
    moreover have "lane_ok (map_of lanes' w) (run_lanes rest w)" for w
    proof (cases "at_state rec = Running")
      case True
      then have t: "is_terminal next" "at_lane_index rec \<noteq> 0" using notrun rok by (auto simp: record_ok_def)
      have "lane_ok (map_of (ts_worker_lanes st) (at_worker_id rec)) (add_mset (at_lane_index rec) (run_lanes rest (at_worker_id rec)))"
        using lok [of "at_worker_id rec"] True by simp
      note r = release_lane_ok [OF this]
      show ?thesis using r(1) r(2) [of w] lok [of w] t by (cases "w = at_worker_id rec") (simp_all add: lanes'_def l)
    next
      case nr: False
      then have "at_lane_index rec = 0" using rok live by (simp add: record_ok_def)
      then show ?thesis using lok [of w] nr by (simp add: lanes'_def l)
    qed
    ultimately show ?thesis unfolding fr by simp
  qed
  show ?thesis unfolding st'
  proof (rule tracker_invI)
    show "set (ts_terminal_order (st\<lparr>ts_attempts := hm_modify key f (ts_attempts st),
        ts_terminal_order := (if is_terminal next then ts_terminal_order st @ [key] else ts_terminal_order st), ts_worker_lanes := lanes'\<rparr>))
      = {k. \<exists>r. map_of (ts_attempts (st\<lparr>ts_attempts := hm_modify key f (ts_attempts st),
        ts_terminal_order := (if is_terminal next then ts_terminal_order st @ [key] else ts_terminal_order st), ts_worker_lanes := lanes'\<rparr>)) k
          = Some r \<and> is_terminal (at_state r)}"
      using terminal_keys_modify [OF k live, of f] tracker_invD(4) [OF inv] by (simp add: f_def)
  qed (use tracker_invD(1-3) [OF inv] keyfree lanes rest_ok in
      \<open>auto simp: hm_inv_modify vals(2)\<close>)
qed

lemma reject_inv: "tracker_inv st \<Longrightarrow> tracker_inv (reject st)"
  by (simp add: tracker_inv_def reject_def)

lemma transition_inv: "tracker_inv st \<Longrightarrow> tracker_inv (transition_locked key s now st)"
  using reject_inv enter_state_inv
  by (auto simp: transition_locked_def Let_def not_less split: option.splits)

lemma finish_inv: "tracker_inv st \<Longrightarrow> tracker_inv (tracker_finish key s now st)"
  by (simp add: tracker_finish_def reject_inv transition_inv)

lemma drop_terminal_inv:
  assumes inv: "tracker_inv st" and o: "ts_terminal_order st = key # order"
  shows "tracker_inv (st\<lparr>ts_terminal_order := order, ts_attempts := hm_remove key (ts_attempts st)\<rparr>)"
    and "length (hm_remove key (ts_attempts st)) = length (ts_attempts st) - 1"
proof -
  have "key \<in> set (ts_terminal_order st)" using o by simp
  then obtain r where k: "map_of (ts_attempts st) key = Some r" "is_terminal (at_state r)"
    using tracker_invD(4) [OF inv] by auto
  note v = hm_vals_remove [OF tracker_invD(1) [OF inv] k(1)]
  obtain rest where rest: "mset (hm_values (ts_attempts st)) = add_mset r rest"
    using hm_vals_member [OF k(1)] by (metis insert_DiffM)
  then have v': "mset (hm_values (hm_remove key (ts_attempts st))) = rest" using v(1) by simp
  have "at_state r \<noteq> Running" using k(2) by auto
  then have rl: "run_lanes (mset (hm_values (ts_attempts st))) w = run_lanes rest w" for w by (simp add: rest)
  show "tracker_inv (st\<lparr>ts_terminal_order := order, ts_attempts := hm_remove key (ts_attempts st)\<rparr>)"
  proof (rule tracker_invI)
    show "set (ts_terminal_order (st\<lparr>ts_terminal_order := order, ts_attempts := hm_remove key (ts_attempts st)\<rparr>))
      = {k. \<exists>r. map_of (ts_attempts (st\<lparr>ts_terminal_order := order, ts_attempts := hm_remove key (ts_attempts st)\<rparr>)) k = Some r
          \<and> is_terminal (at_state r)}"
    proof -
      have "set order = set (ts_terminal_order st) - {key}" using tracker_invD(3) [OF inv] o by auto
      then show ?thesis using tracker_invD(4) [OF inv] by (auto simp: hm_look_remove split: if_splits)
    qed
    show "record_ok x" if "x \<in># mset (hm_values (ts_attempts (st\<lparr>ts_terminal_order := order, ts_attempts := hm_remove key (ts_attempts st)\<rparr>)))" for x
      by (rule tracker_invD(5) [OF inv]) (use that v' in \<open>simp only: rest, simp\<close>)
    show "lane_ok (map_of (ts_worker_lanes (st\<lparr>ts_terminal_order := order, ts_attempts := hm_remove key (ts_attempts st)\<rparr>)) w)
        (run_lanes (mset (hm_values (ts_attempts (st\<lparr>ts_terminal_order := order, ts_attempts := hm_remove key (ts_attempts st)\<rparr>)))) w)" for w
      using tracker_invD(6) [OF inv, of w] unfolding rl by (simp add: v')
  qed (use tracker_invD(1-3) [OF inv] o v(2) in \<open>auto simp: hm_inv_remove\<close>)
  show "length (hm_remove key (ts_attempts st)) = length (ts_attempts st) - 1" by (rule v(2))
qed

lemma prune_order_inv:
  "tracker_inv st \<Longrightarrow> prune_order now (ts_terminal_order st) (ts_attempts st) = (order, attempts) \<Longrightarrow>
   tracker_inv (st\<lparr>ts_terminal_order := order, ts_attempts := attempts\<rparr>)"
proof (induction "ts_terminal_order st" arbitrary: st)
  case Nil
  have "order = ts_terminal_order st" "attempts = ts_attempts st"
    using Nil.prems(2) by (simp_all add: Nil.hyps [symmetric])
  then show ?case using Nil.prems(1) by simp
next
  case (Cons key rest)
  let ?st = "st\<lparr>ts_terminal_order := rest, ts_attempts := hm_remove key (ts_attempts st)\<rparr>"
  note d = drop_terminal_inv(1) [OF Cons.prems(1) Cons.hyps(2) [symmetric]]
  show ?case
  proof (cases "(order, attempts) = (key # rest, ts_attempts st)")
    case True
    then have "st\<lparr>ts_terminal_order := order, ts_attempts := attempts\<rparr> = st" using Cons.hyps(2) by simp
    then show ?thesis using Cons.prems(1) by simp
  next
    case False
    then have "prune_order now rest (hm_remove key (ts_attempts st)) = (order, attempts)"
      using Cons.prems(2) Cons.hyps(2) [symmetric] by (auto simp: Let_def split: if_splits)
    then show ?thesis using Cons.hyps(1) [of ?st] d by simp
  qed
qed

lemma prune_inv: "tracker_inv st \<Longrightarrow> tracker_inv (prune_locked now st)"
  using prune_order_inv by (auto simp: prune_locked_def split: prod.splits)

lemma evict_oldest_inv:
  assumes inv: "tracker_inv st" and e: "evict_oldest_terminal st = (ok, st')"
  shows "tracker_inv st'" "ok \<Longrightarrow> length (ts_attempts st') = length (ts_attempts st) - 1"
    "\<not> ok \<Longrightarrow> ts_terminal_order st = [] \<and> st' = st"
proof -
  have "tracker_inv st' \<and> (ok \<longrightarrow> length (ts_attempts st') = length (ts_attempts st) - 1)
      \<and> (\<not> ok \<longrightarrow> ts_terminal_order st = [] \<and> st' = st)"
  proof (cases "ts_terminal_order st")
    case Nil
    then have "ok = False" "st' = st" using e by (auto simp: evict_oldest_terminal_def)
    then show ?thesis using inv Nil by simp
  next
    case (Cons key order)
    have "map_of (ts_attempts st) key \<noteq> None" using tracker_invD(4) [OF inv] Cons by auto
    then have "ok" "st' = st\<lparr>ts_terminal_order := order, ts_attempts := hm_remove key (ts_attempts st)\<rparr>"
      using e Cons by (auto simp: evict_oldest_terminal_def)
    then show ?thesis using drop_terminal_inv [OF inv Cons] by simp
  qed
  then show "tracker_inv st'" "ok \<Longrightarrow> length (ts_attempts st') = length (ts_attempts st) - 1"
    "\<not> ok \<Longrightarrow> ts_terminal_order st = [] \<and> st' = st" by blast+
qed

lemma map_of_evict:
  "evict_oldest_terminal st = (ok, st') \<Longrightarrow> map_of (ts_attempts st) k = None \<Longrightarrow> map_of (ts_attempts st') k = None"
proof -
  have "evict_order order attempts = (ok, order', attempts') \<Longrightarrow> map_of attempts k = None \<Longrightarrow> map_of attempts' k = None"
    for order attempts order' attempts'
    by (induction order arbitrary: attempts) (auto simp: hm_look_remove split: if_splits)
  then show "evict_oldest_terminal st = (ok, st') \<Longrightarrow> map_of (ts_attempts st) k = None \<Longrightarrow> map_of (ts_attempts st') k = None"
    by (auto simp: evict_oldest_terminal_def split: prod.splits)
qed

lemma evict_until_room_inv:
  "tracker_inv st \<Longrightarrow> evict_until_room st = (ok, st') \<Longrightarrow>
   tracker_inv st' \<and> (ok \<longrightarrow> length (ts_attempts st') < MAX_ACTIVITY_ATTEMPTS)
   \<and> (map_of (ts_attempts st) k = None \<longrightarrow> map_of (ts_attempts st') k = None)
   \<and> (\<not> ok \<longrightarrow> length (ts_attempts st') = MAX_ACTIVITY_ATTEMPTS \<and> ts_terminal_order st' = [])"
proof (induction st rule: evict_until_room.induct)
  case (1 st)
  show ?case
  proof (cases "length (ts_attempts st) \<ge> MAX_ACTIVITY_ATTEMPTS")
    case False
    then have "ok" "st' = st" using 1(3) evict_until_room.simps [of st] by simp_all
    then show ?thesis using 1(2) False by simp
  next
    case True
    obtain b st1 where e: "evict_oldest_terminal st = (b, st1)" by fastforce
    note i = evict_oldest_inv [OF 1(2) e]
    show ?thesis
    proof (cases b)
      case True
      then have b: "b = True" by simp
      have "evict_until_room st1 = (ok, st')"
        using 1(3) e b \<open>length (ts_attempts st) \<ge> MAX_ACTIVITY_ATTEMPTS\<close> evict_until_room.simps [of st] by simp
      from 1(1) [OF \<open>length (ts_attempts st) \<ge> MAX_ACTIVITY_ATTEMPTS\<close> e [symmetric] b i(1) this]
      show ?thesis using map_of_evict [OF e, of k] by simp
    next
      case False
      then have "\<not> ok" "st' = st1"
        using 1(3) e \<open>length (ts_attempts st) \<ge> MAX_ACTIVITY_ATTEMPTS\<close> evict_until_room.simps [of st] by simp_all
      moreover have "length (ts_attempts st) = MAX_ACTIVITY_ATTEMPTS" using True tracker_invD(2) [OF 1(2)] by simp
      ultimately show ?thesis using i(1) i(3) [OF False] by simp
    qed
  qed
qed

lemma begin_attempt_inv:
  assumes inv: "tracker_inv st0" and b: "begin_attempt blake3 aid no wid kind name now st0 = (k, st')"
  shows "tracker_inv st'"
proof -
  define st where "st = prune_locked now st0"
  define key where "key = \<lparr>ak_action_id = bounded_id blake3 aid, ak_attempt_no = no\<rparr>"
  have st: "tracker_inv st" using prune_inv [OF inv] by (simp add: st_def)
  show ?thesis
  proof (cases "map_of (ts_attempts st) key")
    case (Some r)
    then show ?thesis using b st by (simp add: begin_attempt_def Let_def st_def [symmetric] key_def [symmetric])
  next
    case None
    obtain ok st1 where e: "evict_until_room st = (ok, st1)" by fastforce
    note ev = evict_until_room_inv [OF st e, of key]
    define r where "r = \<lparr>at_worker_id = bounded_id blake3 wid, at_execution_kind = kind,
                 at_display_name = truncate_chars name MAX_DISPLAY_CHARS, at_state = Created, at_lane_index = 0,
                 at_started_at = now, at_finished_at = None\<rparr>"
    show ?thesis
    proof (cases ok)
      case False
      then show ?thesis using b ev e None by (simp add: begin_attempt_def Let_def st_def [symmetric] key_def [symmetric])
    next
      case True
      have k: "map_of (ts_attempts st1) key = None" and i1: "tracker_inv st1" using ev None by auto
      have st': "st' = st1\<lparr>ts_attempts := hm_insert key r (ts_attempts st1)\<rparr>"
        using b e None True by (simp add: begin_attempt_def Let_def st_def [symmetric] key_def [symmetric] r_def)
      have v: "mset (hm_values (hm_insert key r (ts_attempts st1))) = add_mset r (mset (hm_values (ts_attempts st1)))"
        by (rule hm_vals_insert [OF k])
      have rr: "record_ok r" "at_state r = Created" by (simp_all add: record_ok_def r_def)
      show ?thesis
        unfolding st'
      proof (rule tracker_invI)
        show "record_ok x" if "x \<in># mset (hm_values (ts_attempts (st1\<lparr>ts_attempts := hm_insert key r (ts_attempts st1)\<rparr>)))" for x
          using that tracker_invD(5) [OF i1, of x] rr(1) v by auto
        show "lane_ok (map_of (ts_worker_lanes (st1\<lparr>ts_attempts := hm_insert key r (ts_attempts st1)\<rparr>)) w)
            (run_lanes (mset (hm_values (ts_attempts (st1\<lparr>ts_attempts := hm_insert key r (ts_attempts st1)\<rparr>)))) w)" for w
          using tracker_invD(6) [OF i1, of w] rr(2) by (simp add: v)
        show "set (ts_terminal_order (st1\<lparr>ts_attempts := hm_insert key r (ts_attempts st1)\<rparr>))
            = {k. \<exists>x. map_of (ts_attempts (st1\<lparr>ts_attempts := hm_insert key r (ts_attempts st1)\<rparr>)) k = Some x \<and> is_terminal (at_state x)}"
          using tracker_invD(4) [OF i1] rr(2) k by auto
        show "length (ts_attempts (st1\<lparr>ts_attempts := hm_insert key r (ts_attempts st1)\<rparr>)) \<le> MAX_ACTIVITY_ATTEMPTS"
          using ev True by (simp add: hm_insert_new [OF k])
      qed (use tracker_invD(1,3) [OF i1] in \<open>simp_all add: hm_inv_insert\<close>)
    qed
  qed
qed

section \<open>Runs of the tracker\<close>

inductive tracker_reach :: "hash_fn \<Rightarrow> tracker_state \<Rightarrow> bool" for blake3 where
  tr_start: "tracker_reach blake3 tracker_default"
| tr_begin: "tracker_reach blake3 st \<Longrightarrow> begin_attempt blake3 aid no wid kind name now st = (k, st') \<Longrightarrow> tracker_reach blake3 st'"
| tr_transition: "tracker_reach blake3 st \<Longrightarrow> tracker_reach blake3 (transition_locked key s now st)"
| tr_finish: "tracker_reach blake3 st \<Longrightarrow> tracker_reach blake3 (tracker_finish key s now st)"
| tr_snapshot: "tracker_reach blake3 st \<Longrightarrow> tracker_snapshot now st = (sn, st') \<Longrightarrow> tracker_reach blake3 st'"
| tr_drop: "tracker_reach blake3 st \<Longrightarrow> tracker_reach blake3 (lease_drop l now st)"

lemma tracker_reach_inv: "tracker_reach blake3 st \<Longrightarrow> tracker_inv st"
proof (induction rule: tracker_reach.induct)
  case tr_start
  show ?case by (rule tracker_invI) (simp_all add: tracker_default_def MAX_ACTIVITY_ATTEMPTS_def hm_values_def lane_ok_def run_lanes_def)
next
  case (tr_snapshot st now sn st')
  then show ?case using prune_inv [OF tr_snapshot.IH, of now] by (auto simp: tracker_snapshot_def Let_def)
next
  case (tr_drop st l now)
  then show ?case by (simp add: lease_drop_def finish_inv)
qed (use begin_attempt_inv transition_inv finish_inv in blast)+

lemma running_lane:
  assumes inv: "tracker_inv st" and k: "map_of (ts_attempts st) k = Some r" "at_state r = Running"
  shows "1 \<le> at_lane_index r \<and> at_lane_index r \<le> MAX_ACTIVITY_ATTEMPTS"
    and "k' \<noteq> k \<Longrightarrow> map_of (ts_attempts st) k' = Some r' \<Longrightarrow> at_state r' = Running \<Longrightarrow> at_worker_id r' = at_worker_id r \<Longrightarrow>
      at_lane_index r' \<noteq> at_lane_index r"
proof -
  let ?w = "at_worker_id r" and ?L = "run_lanes (mset (hm_values (ts_attempts st))) (at_worker_id r)"
  note h = tracker_invD(1) [OF inv]
  define rest where "rest = mset (hm_values (hm_remove k (ts_attempts st)))"
  have vals: "mset (hm_values (ts_attempts st)) = add_mset r rest"
    using hm_vals_remove(1) [OF h k(1)] hm_vals_member [OF k(1)] by (simp add: rest_def)
  then have L: "?L = add_mset (at_lane_index r) (run_lanes rest ?w)" using k(2) by simp
  obtain a where a: "map_of (ts_worker_lanes st) ?w = Some a"
    using tracker_invD(6) [OF inv, of ?w] L by (cases "map_of (ts_worker_lanes st) ?w") (simp_all add: lane_ok_def)
  then have m: "mset (la_free_lanes a) + ?L = mset [1..<la_next_lane a]" and n: "la_next_lane a \<le> MAX_ACTIVITY_ATTEMPTS + 1"
    using tracker_invD(6) [OF inv, of ?w] by (auto simp: lane_ok_def)
  have "at_lane_index r \<in># mset [1..<la_next_lane a]" unfolding m [symmetric] L by simp
  then show "1 \<le> at_lane_index r \<and> at_lane_index r \<le> MAX_ACTIVITY_ATTEMPTS" using n by auto
  assume k': "k' \<noteq> k" "map_of (ts_attempts st) k' = Some r'" "at_state r' = Running" "at_worker_id r' = at_worker_id r"
  have "map_of (hm_remove k (ts_attempts st)) k' = Some r'" using k'(1,2) by (simp add: hm_look_remove)
  then have "r' \<in># rest" unfolding rest_def by (rule hm_vals_member)
  then have "at_lane_index r' \<in># run_lanes rest ?w" using k'(3,4) by (auto simp: run_lanes_def)
  moreover have "at_lane_index r \<notin># run_lanes rest ?w"
  proof
    assume "at_lane_index r \<in># run_lanes rest ?w"
    then have "2 \<le> count ?L (at_lane_index r)" by (simp add: L Suc_le_eq)
    also have "\<dots> \<le> count (mset [1..<la_next_lane a]) (at_lane_index r)" unfolding m [symmetric] by simp
    also have "\<dots> \<le> 1" by (simp add: count_mset_set')
    finally show False by simp
  qed
  ultimately show "at_lane_index r' \<noteq> at_lane_index r" by auto
qed

text \<open>
  C36. The activity table stays bounded and its lanes stay disjoint: in every reachable state it
  holds at most 4096 attempts, every running attempt has a lane between 1 and 4096, and two
  attempts running on the same worker never share one, however attempts begin, finish, expire,
  are evicted or are dropped.
\<close>
theorem tracker_lanes_disjoint:
  assumes "tracker_reach blake3 st"
    and "map_of (ts_attempts st) k = Some r" "at_state r = Running"
    and "map_of (ts_attempts st) k' = Some r'" "at_state r' = Running" "at_worker_id r' = at_worker_id r" "k' \<noteq> k"
  shows "length (ts_attempts st) \<le> 4096 \<and> 1 \<le> at_lane_index r \<and> at_lane_index r \<le> 4096 \<and> at_lane_index r' \<noteq> at_lane_index r"
  using running_lane [OF tracker_reach_inv [OF assms(1)] assms(2,3)] assms(4-7) tracker_invD(2) [OF tracker_reach_inv [OF assms(1)]]
  by (simp add: MAX_ACTIVITY_ATTEMPTS_def)

text \<open>
  An attempt only moves forward: a transition touches the record it names and no other,
  never lowers a state's rank, leaves a terminal record exactly as it is, and a terminal
  request leaves the attempt terminal. This is the closing step of \<open>finish\<close> and of a dropped
  lease, so no attempt stays open behind its lease.
\<close>
theorem attempt_life_cycle:
  assumes "map_of (ts_attempts st) k = Some r"
  shows "\<exists>r'. map_of (ts_attempts (transition_locked key s now st)) k = Some r'
    \<and> (k \<noteq> key \<or> is_terminal (at_state r) \<longrightarrow> r' = r) \<and> state_rank (at_state r) \<le> state_rank (at_state r')
    \<and> at_worker_id r' = at_worker_id r \<and> (k = key \<and> is_terminal s \<longrightarrow> is_terminal (at_state r'))"
proof (cases "k = key \<and> ts_attempts (transition_locked key s now st) \<noteq> ts_attempts st")
  case False
  then consider "k \<noteq> key" | "k = key" "ts_attempts (transition_locked key s now st) = ts_attempts st" by blast
  then show ?thesis
  proof cases
    case 1
    have "map_of (ts_attempts (transition_locked key s now st)) k = Some r"
      using assms 1 by (auto simp: transition_locked_def Let_def reject_def enter_state_def hm_look_modify split: option.splits prod.splits)
    then show ?thesis using 1 by simp
  next
    case 2
    have "is_terminal s \<longrightarrow> is_terminal (at_state r)"
    proof
      assume s: "is_terminal s"
      show "is_terminal (at_state r)"
      proof (rule ccontr)
        assume n: "\<not> is_terminal (at_state r)"
        then have "s \<noteq> at_state r" using s by auto
        then have "transition_locked key s now st = enter_state key r s now st"
          using n s assms 2(1) by (simp add: transition_locked_def)
        moreover have "\<exists>r1. map_of (ts_attempts (enter_state key r s now st)) key = Some r1 \<and> at_state r1 = s"
          using assms 2(1) by (simp add: enter_state_def hm_look_modify Let_def split: prod.splits)
        ultimately show False using assms 2 n s by auto
      qed
    qed
    then show ?thesis using assms 2(2) by simp
  qed
next
  case True
  then have e: "transition_locked key s now st = enter_state key r s now st"
    and n: "\<not> is_terminal (at_state r)" "is_terminal s \<or> state_rank (at_state r) \<le> state_rank s"
    using assms by (auto simp: transition_locked_def Let_def reject_def split: if_splits)
  have "is_terminal s \<Longrightarrow> state_rank (at_state r) \<le> state_rank s" by (cases s; cases "at_state r") simp_all
  then show ?thesis
    using assms True n unfolding e by (auto simp: enter_state_def hm_look_modify Let_def split: prod.splits)
qed

definition demo_key :: "string \<Rightarrow> attempt_key" where
  "demo_key a = \<lparr>ak_action_id = a, ak_attempt_no = 0\<rparr>"

definition zero_hash :: hash_fn where "zero_hash bs = replicate 32 0"

definition demo_begun :: tracker_state where
  "demo_begun = snd (begin_attempt zero_hash ''b'' 0 ''w'' Remote ''b.c'' 1
     (snd (begin_attempt zero_hash ''a'' 0 ''w'' Remote ''a.c'' 0 tracker_default)))"

definition demo_tracker :: tracker_state where
  "demo_tracker = transition_locked (demo_key ''b'') Running 3 (transition_locked (demo_key ''a'') Running 2 demo_begun)"

lemma demo_begun_reach: "tracker_reach zero_hash demo_begun"
proof -
  have b: "tracker_reach zero_hash (snd (begin_attempt zero_hash aid no wid kind name now st))" if "tracker_reach zero_hash st"
    for aid no wid kind name now st
    using tr_begin [OF that prod.collapse [symmetric]] .
  show ?thesis unfolding demo_begun_def by (intro b tr_start)
qed

definition demo_record :: "string \<Rightarrow> nat \<Rightarrow> attempt_record" where
  "demo_record a i = \<lparr>at_worker_id = ''w'', at_execution_kind = Remote, at_display_name = a @ ''.c'', at_state = Running,
     at_lane_index = Suc i, at_started_at = i, at_finished_at = None\<rparr>"

lemma demo_strings:
  "bounded_id zero_hash ''a'' = ''a''" "bounded_id zero_hash ''b'' = ''b''" "bounded_id zero_hash ''w'' = ''w''"
  "truncate_chars ''a.c'' MAX_DISPLAY_CHARS = ''a.c''" "truncate_chars ''b.c'' MAX_DISPLAY_CHARS = ''b.c''"
  by (simp_all add: bounded_id_def char_count_def MAX_ID_CHARS_def is_cont_char_def MAX_DISPLAY_CHARS_def numeral_eq_Suc)

lemma demo_begun_eq:
  "demo_begun = tracker_default\<lparr>ts_attempts :=
     [(demo_key ''a'', (demo_record ''a'' 0)\<lparr>at_state := Created, at_lane_index := 0\<rparr>),
      (demo_key ''b'', (demo_record ''b'' 1)\<lparr>at_state := Created, at_lane_index := 0\<rparr>)]\<rparr>"
  unfolding demo_begun_def begin_attempt_def demo_strings
  by (simp add: prune_locked_def tracker_default_def evict_until_room.simps MAX_ACTIVITY_ATTEMPTS_def demo_key_def demo_record_def
      hm_insert_def Let_def)

lemma demo_tracker_attempts:
  "map_of (ts_attempts demo_tracker) (demo_key ''a'') = Some (demo_record ''a'' 0)"
  "map_of (ts_attempts demo_tracker) (demo_key ''b'') = Some (demo_record ''b'' 1)"
  by (simp_all add: demo_tracker_def demo_begun_eq transition_locked_def tracker_default_def demo_key_def demo_record_def
      enter_state_def allocate_lane_def lane_allocator_default_def hm_modify_def u32_max_def Let_def hm_insert_def)

theorem tracker_lanes_disjoint_witness:
  "length (ts_attempts demo_tracker) \<le> 4096 \<and> 1 \<le> at_lane_index (demo_record ''a'' 0) \<and> at_lane_index (demo_record ''a'' 0) \<le> 4096
   \<and> at_lane_index (demo_record ''b'' 1) \<noteq> at_lane_index (demo_record ''a'' 0)"
proof (rule tracker_lanes_disjoint [OF _ demo_tracker_attempts(1) _ demo_tracker_attempts(2)])
  show "tracker_reach zero_hash demo_tracker"
    unfolding demo_tracker_def by (intro tr_transition demo_begun_reach)
qed (simp_all add: demo_record_def demo_key_def)

theorem attempt_life_cycle_witness:
  "\<exists>r'. map_of (ts_attempts (transition_locked (demo_key ''a'') Failed 9 demo_tracker)) (demo_key ''a'') = Some r'
    \<and> state_rank (at_state (demo_record ''a'' 0)) \<le> state_rank (at_state r') \<and> is_terminal (at_state r')"
  using attempt_life_cycle [OF demo_tracker_attempts(1), of "demo_key ''a''" Failed 9] by auto

end
