(* ===== verification/Scheduler.thy ===== *)
theory Scheduler
  imports Worker_Table Action_Tracker
begin

text \<open>
  The agent's scheduler, \<open>src/crates/agent/src/scheduler.rs\<close>: affinity hashing, the admission
  rules, choosing and reserving a worker, the reservation guard, the screen for
  hook-bypassing runtimes, and the dispatch of one action with reassignment and local
  fallback. What a remote or local run produces is the environment of a dispatch, so is the
  live snapshot each pick sees; the worker's capability is minted in the theory of
  capabilities.
\<close>

definition MAX_TRUSTED_CPU :: u32 where "MAX_TRUSTED_CPU = 256"
definition AGENT_VERSION :: string where "AGENT_VERSION = ''0.0.3''"

section \<open>Affinity\<close>

definition mix64 :: "u64 \<Rightarrow> u64" where
  "mix64 z =
     (let z = (z XOR drop_bit 30 z) * 0xbf58476d1ce4e5b9;
          z = (z XOR drop_bit 27 z) * 0x94d049bb133111eb
      in z XOR drop_bit 31 z)"

definition stable_hash :: "bytes \<Rightarrow> u64" where
  "stable_hash bs = mix64 (fold (\<lambda>b h. (h XOR ucast b) * 0x00000100000001b3) bs 0xcbf29ce484222325)"

definition affinity_key :: "string list \<Rightarrow> u64" where
  "affinity_key argv = stable_hash (concat (map (\<lambda>a. as_bytes a @ [0]) argv))"

definition rendezvous_score :: "u64 \<Rightarrow> worker_entry \<Rightarrow> u64" where
  "rendezvous_score key w = mix64 (stable_hash (as_bytes (we_worker_id w)) XOR key)"

fun preferred_loop :: "u64 \<Rightarrow> worker_entry list \<Rightarrow> nat \<Rightarrow> nat \<Rightarrow> u64 \<Rightarrow> nat" where
  "preferred_loop key [] i best best_score = best"
| "preferred_loop key (w # ws) i best best_score =
     (let score = rendezvous_score key w in
      if score > best_score then preferred_loop key ws (Suc i) i score
      else preferred_loop key ws (Suc i) best best_score)"

definition preferred_index :: "worker_entry list \<Rightarrow> u64 \<Rightarrow> nat" where
  "preferred_index workers key = preferred_loop key workers 0 0 0"

section \<open>Admission and load\<close>

definition version_matched :: "worker_entry \<Rightarrow> bool" where
  "version_matched w \<longleftrightarrow> cp_worker_version (we_caps w) = AGENT_VERSION"

definition mode_participating :: "worker_entry \<Rightarrow> bool" where
  "mode_participating w \<longleftrightarrow> cp_participation_mode (we_caps w) \<noteq> ''off''"

definition admissible :: "worker_entry \<Rightarrow> bool" where
  "admissible w \<longleftrightarrow> version_matched w \<and> mode_participating w"

definition saturating_mul_u32 :: "u32 \<Rightarrow> u32 \<Rightarrow> u32" where
  "saturating_mul_u32 a b = (if unat a * unat b < 2 ^ 32 then a * b else - 1)"

definition clamp_cpu :: "u32 \<Rightarrow> u32" where
  "clamp_cpu c = (if c < 1 then 1 else if c > MAX_TRUSTED_CPU then MAX_TRUSTED_CPU else c)"

definition effective_capacity :: "worker_entry \<Rightarrow> u32" where
  "effective_capacity w =
     (let base = clamp_cpu (cp_cpu_count (we_caps w)) in
      case we_idle_cpu_pct w of
        None \<Rightarrow> base
      | Some pct \<Rightarrow> saturating_mul_u32 base (if pct \<le> 100 then pct else 100) div 100)"

definition exclusion_reason :: "worker_entry \<Rightarrow> string" where
  "exclusion_reason w =
     (if \<not> version_matched w then ''version-mismatch''
      else if \<not> mode_participating w then ''off''
      else if effective_capacity w = 0 then ''cpu-busy''
      else [])"

type_synonym in_flight = "(string, u32) hmap"

definition used_slots :: "in_flight \<Rightarrow> string \<Rightarrow> u32" where
  "used_slots m w = (case map_of m w of None \<Rightarrow> 0 | Some c \<Rightarrow> c)"

definition effective_idle :: "worker_entry \<Rightarrow> in_flight \<Rightarrow> u32" where
  "effective_idle w m =
     (let used = used_slots m (we_worker_id w); c = effective_capacity w in if used \<le> c then c - used else 0)"

definition cluster_capacity :: "worker_entry list \<Rightarrow> nat" where
  "cluster_capacity live = sum_list (map (\<lambda>w. unat (clamp_cpu (cp_cpu_count (we_caps w)))) (filter admissible live))"

section \<open>Choosing and reserving\<close>

text \<open>
  \<open>max_by\<close> keeps the later of two elements that compare equal; the comparison is by free
  slots, then by the smaller worker id.
\<close>

definition load_le :: "in_flight \<Rightarrow> worker_entry \<Rightarrow> worker_entry \<Rightarrow> bool" where
  "load_le m a b \<longleftrightarrow> effective_idle a m < effective_idle b m
     \<or> effective_idle a m = effective_idle b m \<and> we_worker_id b \<le> we_worker_id a"

fun max_by_load :: "in_flight \<Rightarrow> worker_entry \<Rightarrow> worker_entry list \<Rightarrow> worker_entry" where
  "max_by_load m best [] = best"
| "max_by_load m best (w # ws) = max_by_load m (if load_le m best w then w else best) ws"

definition eligible :: "string set \<Rightarrow> worker_entry \<Rightarrow> bool" where
  "eligible tried w \<longleftrightarrow> we_worker_id w \<notin> tried \<and> admissible w \<and> effective_capacity w > 0"

definition choose_worker :: "u64 \<Rightarrow> in_flight \<Rightarrow> worker_entry list \<Rightarrow> worker_entry" where
  "choose_worker key m live =
     (let preferred = live ! preferred_index live key in
      if effective_idle preferred m > 0 then preferred
      else case live of [] \<Rightarrow> preferred | w # ws \<Rightarrow> max_by_load m w ws)"

definition pick_and_reserve ::
    "u64 \<Rightarrow> string set \<Rightarrow> worker_entry list \<Rightarrow> in_flight \<Rightarrow> worker_entry option \<times> in_flight" where
  "pick_and_reserve key tried snapshot m =
     (let live = filter (eligible tried) snapshot in
      if live = [] then (None, m)
      else let chosen = choose_worker key m live
           in (Some chosen, hm_upsert (we_worker_id chosen) 0 (\<lambda>c. c + 1) m))"

definition assign_guard_drop :: "string \<Rightarrow> in_flight \<Rightarrow> in_flight" where
  "assign_guard_drop worker_id m =
     (case map_of m worker_id of
        None \<Rightarrow> m
      | Some c \<Rightarrow>
          let c' = (if c = 0 then 0 else c - 1) in
          if c' = 0 then hm_remove worker_id m else hm_insert worker_id c' m)"

section \<open>Hook-bypassing runtimes\<close>

definition BYPASS_RUNTIMES :: "string list" where
  "BYPASS_RUNTIMES = [''msys-2.0.dll'', ''cygwin1.dll'']"

fun windows :: "nat \<Rightarrow> 'a list \<Rightarrow> 'a list list" where
  "windows n [] = []"
| "windows n (x # xs) = (if length (x # xs) < n then [] else take n (x # xs) # windows n xs)"

definition contains_ascii_ci :: "bytes \<Rightarrow> bytes \<Rightarrow> bool" where
  "contains_ascii_ci haystack needle =
     (if needle = [] \<or> length haystack < length needle then False
      else list_ex (\<lambda>w. eq_ignore_ascii_case (of_bytes w) (of_bytes needle)) (windows (length needle) haystack))"

type_synonym verdict_cache = "(string \<times> nat \<times> nat, string option) hmap"

text \<open>The file system as the screen sees it: length and modification time, and the bytes.\<close>

record tool_file =
  tf_meta :: "(nat \<times> nat) option"
  tf_read :: fs_read

definition scan_runtime :: "fs_read \<Rightarrow> string option" where
  "scan_runtime r =
     (case r of
        FsOk bs \<Rightarrow> find (\<lambda>rt. contains_ascii_ci bs (as_bytes rt)) BYPASS_RUNTIMES
      | _ \<Rightarrow> None)"

definition bypass_runtime_of :: "tool_file \<Rightarrow> string \<Rightarrow> verdict_cache \<Rightarrow> string option \<times> verdict_cache" where
  "bypass_runtime_of f path cache =
     (case tf_meta f of
        None \<Rightarrow> (None, cache)
      | Some (len, mtime) \<Rightarrow>
          (case map_of cache (path, len, mtime) of
             Some v \<Rightarrow> (v, cache)
           | None \<Rightarrow> let v = scan_runtime (tf_read f) in (v, hm_insert (path, len, mtime) v cache)))"

section \<open>Dispatch\<close>

record action_outcome =
  oc_states :: "int list"
  oc_exit_code :: "int option"
  oc_wall_time_us :: u64
  oc_resolved_tool_digest :: string
  oc_stdout :: bytes
  oc_stderr :: bytes

definition ACTION_STATE_FAILED :: int where "ACTION_STATE_FAILED = 5"

datatype local_fallback_reason = RouteAway string | NoWorker | RemoteExhausted string

datatype execution = RemoteRun action_outcome | LocalFallback int local_fallback_reason

datatype remote_result = Unreachable string | Outcome action_outcome | AttemptError string | OverBudget

text \<open>
  What one dispatch meets: the snapshot its n-th pick sees, what the n-th remote attempt does
  and which states the observer reports meanwhile, the local exit code (\<open>None\<close> when the local
  run fails to start), and the clock.
\<close>

record dispatch_env =
  de_snapshot :: "nat \<Rightarrow> worker_entry list"
  de_result :: "nat \<Rightarrow> worker_entry \<Rightarrow> remote_result"
  de_observed :: "nat \<Rightarrow> activity_state list"
  de_local_exit :: "int option"
  de_clock :: "nat \<Rightarrow> nat"

record sched_state =
  ss_in_flight :: in_flight
  ss_tracker :: tracker_state

record dispatch_request =
  dr_command :: command
  dr_action_id :: string
  dr_display :: string

definition lease_finish_opt :: "attempt_lease option \<Rightarrow> activity_state \<Rightarrow> nat \<Rightarrow> tracker_state \<Rightarrow> tracker_state" where
  "lease_finish_opt l s now tr = (case l of None \<Rightarrow> tr | Some l \<Rightarrow> snd (lease_finish l s now tr))"

definition observe :: "attempt_lease option \<Rightarrow> activity_state list \<Rightarrow> nat \<Rightarrow> tracker_state \<Rightarrow> tracker_state" where
  "observe l states now tr = (case l of None \<Rightarrow> tr | Some l \<Rightarrow> fold (\<lambda>s. transition_locked (al_key l) s now) states tr)"

text \<open>The \<open>u32\<close> attempt counter of the n-th turn, raised with \<open>saturating_add\<close>.\<close>

definition attempt_no :: "nat \<Rightarrow> u32" where
  "attempt_no n = (if n < 2 ^ 32 then word_of_nat n else - 1)"

definition exit_state :: "int \<Rightarrow> activity_state" where
  "exit_state code = (if code = 0 then Completed else Failed)"

text \<open>One remote attempt: what the tracker shows at its end, and the outcome or the reason to go on.\<close>

definition remote_attempt ::
    "hash_fn \<Rightarrow> dispatch_env \<Rightarrow> dispatch_request \<Rightarrow> nat \<Rightarrow> worker_entry \<Rightarrow> tracker_state
     \<Rightarrow> (local_fallback_reason + action_outcome) \<times> tracker_state" where
  "remote_attempt blake3 env req n w tr =
     (let now = de_clock env n;
          (l, tr1) = begin_attempt_lease blake3 (dr_action_id req) (attempt_no n) (we_worker_id w) Remote (dr_display req) now tr;
          failed = (\<lambda>msg. RemoteExhausted (''worker '' @ we_worker_id w @ msg))
      in case de_result env n w of
           Unreachable e \<Rightarrow> (Inl (failed ('' unreachable: '' @ e)), lease_finish_opt l Interrupted now tr1)
         | r \<Rightarrow>
             (let tr2 = observe l (de_observed env n) now tr1 in
              case r of
                Outcome oc \<Rightarrow>
                  (case oc_exit_code oc of
                     Some code \<Rightarrow> (Inr oc, lease_finish_opt l (exit_state code) now tr2)
                   | None \<Rightarrow>
                       (Inl (failed '' did not complete the action''),
                        lease_finish_opt l (if ACTION_STATE_FAILED \<in> set (oc_states oc) then Failed else Interrupted) now tr2))
              | AttemptError e \<Rightarrow> (Inl (failed ('' failed: '' @ e)), lease_finish_opt l Interrupted now tr2)
              | _ \<Rightarrow> (Inl (failed '' exceeded latency budget''), lease_finish_opt l Interrupted now tr2)))"

text \<open>A run on the agent's own machine under a lease; a run that cannot start counts as exit code -1.\<close>

definition tracked_local_run ::
    "hash_fn \<Rightarrow> string \<Rightarrow> string \<Rightarrow> u32 \<Rightarrow> execution_kind \<Rightarrow> nat \<Rightarrow> int option \<Rightarrow> tracker_state \<Rightarrow> int \<times> tracker_state" where
  "tracked_local_run blake3 action_id display attempt kind now exit_code tr =
     (let (l, tr1) = begin_attempt_lease blake3 action_id attempt ''local'' kind display now tr;
          tr2 = (case l of None \<Rightarrow> tr1 | Some l \<Rightarrow> transition_locked (al_key l) Running now tr1);
          code = (case exit_code of None \<Rightarrow> - 1 | Some c \<Rightarrow> c)
      in (code, lease_finish_opt l (exit_state code) now tr2))"

definition local_run ::
    "hash_fn \<Rightarrow> dispatch_env \<Rightarrow> dispatch_request \<Rightarrow> nat \<Rightarrow> execution_kind \<Rightarrow> tracker_state \<Rightarrow> int \<times> tracker_state" where
  "local_run blake3 env req n kind tr =
     tracked_local_run blake3 (dr_action_id req) (dr_display req) (attempt_no n) kind (de_clock env n) (de_local_exit env) tr"

text \<open>
  The reassignment loop, with fuel for its turns. It ends by itself as soon as no eligible
  untried worker remains; the theorem \<open>dispatch_completes\<close> says how much fuel is enough. The
  loop counts its turns in \<open>n\<close>, from which the attempt numbers are read.
\<close>

fun dispatch_loop ::
    "nat \<Rightarrow> hash_fn \<Rightarrow> dispatch_env \<Rightarrow> dispatch_request \<Rightarrow> nat \<Rightarrow> string set \<Rightarrow> local_fallback_reason \<Rightarrow> sched_state
     \<Rightarrow> (execution \<times> nat \<times> sched_state) option" where
  "dispatch_loop 0 blake3 env req n tried reason st = None"
| "dispatch_loop (Suc fuel) blake3 env req n tried reason st =
     (case pick_and_reserve (affinity_key (cmd_argv (dr_command req))) tried (de_snapshot env n) (ss_in_flight st) of
        (None, m) \<Rightarrow>
          (case local_run blake3 env req n Fallback (ss_tracker st) of
             (code, tr) \<Rightarrow> Some (LocalFallback code reason, Suc n, \<lparr>ss_in_flight = m, ss_tracker = tr\<rparr>))
      | (Some w, m) \<Rightarrow>
          (case remote_attempt blake3 env req n w (ss_tracker st) of
             (Inr oc, tr) \<Rightarrow>
               Some (RemoteRun oc, Suc n, \<lparr>ss_in_flight = assign_guard_drop (we_worker_id w) m, ss_tracker = tr\<rparr>)
           | (Inl reason', tr) \<Rightarrow>
               dispatch_loop fuel blake3 env req (Suc n) (insert (we_worker_id w) tried) reason'
                 \<lparr>ss_in_flight = assign_guard_drop (we_worker_id w) m, ss_tracker = tr\<rparr>))"

definition dispatch ::
    "nat \<Rightarrow> hash_fn \<Rightarrow> dispatch_env \<Rightarrow> dispatch_request \<Rightarrow> string option \<Rightarrow> sched_state \<Rightarrow> (execution \<times> u32 \<times> sched_state) option" where
  "dispatch fuel blake3 env req route_away st =
     (case route_away of
        Some why \<Rightarrow>
          (case local_run blake3 env req 0 Local (ss_tracker st) of
             (code, tr) \<Rightarrow> Some (LocalFallback code (RouteAway why), attempt_no 1, st\<lparr>ss_tracker := tr\<rparr>))
      | None \<Rightarrow>
          map_option (\<lambda>(ex, n, st'). (ex, attempt_no n, st')) (dispatch_loop fuel blake3 env req 0 {} NoWorker st))"

section \<open>Rendezvous hashing\<close>

text \<open>The preferred worker is the first one of the highest score; both directions of that.\<close>

lemma preferred_loop_stay:
  "\<forall>y \<in> set ys. rendezvous_score key y \<le> s \<Longrightarrow> preferred_loop key ys i b s = b"
  by (induction ys arbitrary: i) (auto simp: Let_def)

lemma preferred_loop_append:
  "\<exists>b' s'. (\<forall>zs. preferred_loop key (xs @ zs) i b s = preferred_loop key zs (i + length xs) b' s')
     \<and> (b' = b \<and> s' = s \<or> s' \<in> rendezvous_score key ` set xs)"
proof (induction xs arbitrary: i b s)
  case (Cons x xs)
  let ?s = "rendezvous_score key x"
  show ?case
  proof (cases "?s > s")
    case True
    with Cons.IH [of "Suc i" i ?s] show ?thesis by (auto simp: Let_def)
  next
    case False
    with Cons.IH [of "Suc i" b s] show ?thesis by (auto simp: Let_def)
  qed
qed auto

lemma preferred_index_first:
  assumes before: "\<forall>x \<in> set xs. rendezvous_score key x < rendezvous_score key w"
    and after: "\<forall>y \<in> set ys. rendezvous_score key y \<le> rendezvous_score key w"
  shows "preferred_index (xs @ w # ys) key = length xs"
proof -
  obtain b s where app: "preferred_loop key (xs @ w # ys) 0 0 0 = preferred_loop key (w # ys) (length xs) b s"
      and s: "b = 0 \<and> s = 0 \<or> s \<in> rendezvous_score key ` set xs"
    using preferred_loop_append [of key xs 0 0 0] by auto
  show ?thesis
  proof (cases "rendezvous_score key w > s")
    case True
    then show ?thesis using app after by (simp add: preferred_index_def Let_def preferred_loop_stay)
  next
    case False
    with s before have "s = 0" "b = 0" "xs = []"
      by (auto simp: word_gt_0)
    moreover from this False after have "\<forall>y \<in> set ys. rendezvous_score key y \<le> 0" by (auto simp: word_gt_0)
    ultimately show ?thesis using False app preferred_loop_stay [of ys key 0 "Suc 0" 0]
      by (simp add: preferred_index_def Let_def)
  qed
qed

lemma first_best_split:
  "ws \<noteq> [] \<Longrightarrow> \<exists>xs w ys. ws = xs @ w # ys \<and> (\<forall>x \<in> set xs. f x < (f w :: 'b :: linorder)) \<and> (\<forall>y \<in> set ys. f y \<le> f w)"
proof (induction ws)
  case (Cons v ws)
  show ?case
  proof (cases "ws = []")
    case False
    then obtain xs w ys where ih: "ws = xs @ w # ys" "\<forall>x \<in> set xs. f x < f w" "\<forall>y \<in> set ys. f y \<le> f w"
      using Cons.IH by auto
    show ?thesis
    proof (cases "f v < f w")
      case True
      with ih have "v # ws = (v # xs) @ w # ys" "\<forall>x \<in> set (v # xs). f x < f w" by auto
      with ih(3) show ?thesis by blast
    next
      case False
      with ih have "\<forall>y \<in> set ws. f y \<le> f v" by auto
      then show ?thesis by (intro exI [of _ "[]"] exI [of _ v] exI [of _ ws]) simp
    qed
  next
    case True
    then show ?thesis by (intro exI [of _ "[]"] exI [of _ v] exI [of _ ws]) simp
  qed
qed simp

lemma preferred_index_split:
  assumes "ws \<noteq> []"
  obtains xs w ys where "ws = xs @ w # ys" "preferred_index ws key = length xs"
    "\<forall>x \<in> set xs. rendezvous_score key x < rendezvous_score key w"
    "\<forall>y \<in> set ys. rendezvous_score key y \<le> rendezvous_score key w"
proof -
  obtain xs w ys where s: "ws = xs @ w # ys" "\<forall>x \<in> set xs. rendezvous_score key x < rendezvous_score key w"
      "\<forall>y \<in> set ys. rendezvous_score key y \<le> rendezvous_score key w"
    using first_best_split [OF assms, of "rendezvous_score key"] by auto
  show ?thesis
  proof (rule that [OF s(1) _ s(2,3)])
    show "preferred_index ws key = length xs" unfolding s(1) by (rule preferred_index_first [OF s(2,3)])
  qed
qed

lemma preferred_index_bound: "ws \<noteq> [] \<Longrightarrow> preferred_index ws key < length ws"
  by (erule preferred_index_split [of ws key]) auto

text \<open>
  Rendezvous hashing disrupts minimally. The preferred worker of a key is one of the
  workers and none scores higher; and when any workers leave the live set but the preferred
  one stays, the key keeps its preferred worker, wherever that now stands in the list.
\<close>

theorem rendezvous_minimal_disruption:
  assumes live: "ws \<noteq> []" and stays: "keeps (ws ! preferred_index ws key)"
  shows "preferred_index ws key < length ws
    \<and> (\<forall>w \<in> set ws. rendezvous_score key w \<le> rendezvous_score key (ws ! preferred_index ws key))
    \<and> filter keeps ws ! preferred_index (filter keeps ws) key = ws ! preferred_index ws key"
proof -
  obtain xs w ys where s: "ws = xs @ w # ys" "preferred_index ws key = length xs"
      "\<forall>x \<in> set xs. rendezvous_score key x < rendezvous_score key w"
      "\<forall>y \<in> set ys. rendezvous_score key y \<le> rendezvous_score key w"
    using preferred_index_split [OF live] .
  have at: "ws ! preferred_index ws key = w" using s(1,2) by simp
  have "filter keeps ws = filter keeps xs @ w # filter keeps ys" using stays s(1) unfolding at by simp
  moreover have "preferred_index (filter keeps xs @ w # filter keeps ys) key = length (filter keeps xs)"
    using s(3,4) by (intro preferred_index_first) auto
  ultimately have kept: "filter keeps ws ! preferred_index (filter keeps ws) key = w" by simp
  have "\<forall>v \<in> set ws. rendezvous_score key v \<le> rendezvous_score key w"
    using s(3,4) by (auto simp: s(1) less_imp_le)
  with kept show ?thesis unfolding at using preferred_index_bound [OF live] by simp
qed

section \<open>Admission\<close>

text \<open>
  The displayed exclusion reason is exact: it is empty precisely for the workers the
  picker may choose, it names the version before the mode before the load, and the capacity
  scaled by the reported idle share never exceeds the trusted maximum, so that the
  saturating product never saturates.
\<close>

theorem exclusion_reason_exact:
  "(exclusion_reason w = [] \<longleftrightarrow> eligible {} w)
   \<and> (exclusion_reason w = ''version-mismatch'' \<longleftrightarrow> \<not> version_matched w)
   \<and> (exclusion_reason w = ''off'' \<longleftrightarrow> version_matched w \<and> \<not> mode_participating w)
   \<and> (exclusion_reason w = ''cpu-busy'' \<longleftrightarrow> admissible w \<and> effective_capacity w = 0)
   \<and> unat (effective_capacity w) =
       (let base = max 1 (min 256 (unat (cp_cpu_count (we_caps w)))) in
        case we_idle_cpu_pct w of None \<Rightarrow> base | Some pct \<Rightarrow> base * min 100 (unat pct) div 100)"
proof -
  have base: "unat (clamp_cpu c) = max 1 (min 256 (unat c))" for c
    by (auto simp: clamp_cpu_def MAX_TRUSTED_CPU_def word_less_nat_alt word_le_nat_alt split: if_splits)
  have pct: "unat (if p \<le> 100 then p else 100 :: u32) = min 100 (unat p)" for p
    by (auto simp: word_le_nat_alt)
  have small: "max 1 (min 256 a) * min 100 b < 2 ^ 32" for a b :: nat
  proof -
    have "max 1 (min 256 a) * min 100 b \<le> 256 * 100" by (intro mult_mono) auto
    then show ?thesis by simp
  qed
  have scaled: "unat (saturating_mul_u32 (clamp_cpu c) (if p \<le> 100 then p else 100)) = max 1 (min 256 (unat c)) * min 100 (unat p)"
    for c p :: u32
    using small [of "unat c" "unat p"]
    by (simp only: saturating_mul_u32_def base pct if_True unat_word_ariths) (simp add: base pct)
  have cap: "unat (effective_capacity w) =
       (let base = max 1 (min 256 (unat (cp_cpu_count (we_caps w)))) in
        case we_idle_cpu_pct w of None \<Rightarrow> base | Some pct \<Rightarrow> base * min 100 (unat pct) div 100)"
    by (cases "we_idle_cpu_pct w") (simp_all only: effective_capacity_def Let_def option.case base unat_div scaled, simp)
  show ?thesis unfolding cap
    by (simp add: exclusion_reason_def eligible_def admissible_def word_gt_0)
qed

section \<open>Choosing a worker\<close>

lemma load_le_refl [simp]: "load_le m a a"
  by (simp add: load_le_def)

lemma load_le_trans: "load_le m a b \<Longrightarrow> load_le m b c \<Longrightarrow> load_le m a c"
  by (auto simp: load_le_def)

lemma load_le_total: "load_le m a b \<or> load_le m b a"
  by (auto simp: load_le_def)

lemma max_by_load_best:
  "max_by_load m b ws \<in> set (b # ws) \<and> (\<forall>x \<in> set (b # ws). load_le m x (max_by_load m b ws))"
proof (induction ws arbitrary: b)
  case (Cons w ws)
  let ?b = "if load_le m b w then w else b"
  have "load_le m b ?b" "load_le m w ?b" using load_le_total [of m b w] by auto
  with Cons.IH [of ?b] show ?case by (auto intro: load_le_trans split: if_splits)
qed simp

lemma choose_worker_spec:
  assumes "live \<noteq> []"
  shows "choose_worker key m live \<in> set live"
    and "effective_idle (live ! preferred_index live key) m > 0 \<Longrightarrow> choose_worker key m live = live ! preferred_index live key"
    and "effective_idle (live ! preferred_index live key) m = 0 \<Longrightarrow> w \<in> set live \<Longrightarrow> load_le m w (choose_worker key m live)"
proof -
  obtain v vs where l: "live = v # vs" using assms by (cases live) auto
  have "live ! preferred_index live key \<in> set live" using preferred_index_bound [OF assms] by simp
  with max_by_load_best [of m v vs] show "choose_worker key m live \<in> set live"
    by (auto simp: choose_worker_def Let_def l)
  show "effective_idle (live ! preferred_index live key) m > 0 \<Longrightarrow> choose_worker key m live = live ! preferred_index live key"
    by (simp add: choose_worker_def)
  show "effective_idle (live ! preferred_index live key) m = 0 \<Longrightarrow> w \<in> set live \<Longrightarrow> load_le m w (choose_worker key m live)"
    using max_by_load_best [of m v vs] by (auto simp: choose_worker_def Let_def l)
qed

lemma pick_None: "pick_and_reserve key tried snap m = (None, m') \<longleftrightarrow> m' = m \<and> (\<forall>w \<in> set snap. \<not> eligible tried w)"
  by (auto simp: pick_and_reserve_def Let_def filter_empty_conv)

lemma pick_Some:
  assumes "pick_and_reserve key tried snap m = (Some w, m')"
  shows "w \<in> set snap" "eligible tried w" "m' = hm_upsert (we_worker_id w) 0 (\<lambda>c. c + 1) m"
    "w = choose_worker key m (filter (eligible tried) snap)" "filter (eligible tried) snap \<noteq> []"
  using assms choose_worker_spec(1) [of "filter (eligible tried) snap" key m]
  by (auto simp: pick_and_reserve_def Let_def split: if_splits)

lemma used_slots_upsert:
  "used_slots (hm_upsert k 0 (\<lambda>c. c + 1) m) j = (if j = k then used_slots m k + 1 else used_slots m j)"
  by (auto simp: used_slots_def hm_look_upsert split: option.splits)

text \<open>
  Picking is exact. No worker is returned precisely when none is eligible, and then the
  counts are untouched. A returned worker is a live, untried, admitted worker with capacity;
  it is the affinity-preferred one when that has a free slot; otherwise no eligible worker has
  more free slots, and among equals it has the smallest id; exactly its count is raised.
\<close>

theorem pick_and_reserve_exact:
  "case pick_and_reserve key tried snap m of
     (None, m') \<Rightarrow> m' = m \<and> (\<forall>w \<in> set snap. exclusion_reason w = [] \<longrightarrow> we_worker_id w \<in> tried)
   | (Some w, m') \<Rightarrow>
       (let live = filter (eligible tried) snap; preferred = live ! preferred_index live key in
        w \<in> set snap \<and> we_worker_id w \<notin> tried \<and> exclusion_reason w = []
        \<and> (if effective_idle preferred m > 0 then w = preferred
           else \<forall>v \<in> set live. effective_idle v m \<le> effective_idle w m
                  \<and> (effective_idle v m = effective_idle w m \<longrightarrow> we_worker_id w \<le> we_worker_id v))
        \<and> (\<forall>j. used_slots m' j = used_slots m j + (if j = we_worker_id w then 1 else 0)))"
proof -
  have reason: "exclusion_reason v = [] \<longleftrightarrow> admissible v \<and> effective_capacity v > 0" for v
    by (simp add: exclusion_reason_def admissible_def word_gt_0)
  show ?thesis
  proof (cases "pick_and_reserve key tried snap m")
    case (Pair r m')
    show ?thesis
    proof (cases r)
      case None
      with Pair have pick: "pick_and_reserve key tried snap m = (None, m')" by simp
      then have "m' = m" "\<forall>w \<in> set snap. \<not> eligible tried w" by (simp_all add: pick_None)
      then show ?thesis unfolding pick by (auto simp: reason eligible_def)
    next
      case (Some w)
      with Pair have pick: "pick_and_reserve key tried snap m = (Some w, m')" by simp
      let ?live = "filter (eligible tried) snap"
      note ps = pick_Some [OF pick] and cs = choose_worker_spec [OF pick_Some(5) [OF pick], of key m]
      have least: "load_le m v w \<Longrightarrow> effective_idle v m \<le> effective_idle w m
                  \<and> (effective_idle v m = effective_idle w m \<longrightarrow> we_worker_id w \<le> we_worker_id v)" for v
        by (auto simp: load_le_def)
      have "if effective_idle (?live ! preferred_index ?live key) m > 0 then w = ?live ! preferred_index ?live key
           else \<forall>v \<in> set ?live. effective_idle v m \<le> effective_idle w m
                  \<and> (effective_idle v m = effective_idle w m \<longrightarrow> we_worker_id w \<le> we_worker_id v)"
        using cs(2,3) least unfolding ps(4) [symmetric] word_gt_0 by (metis (no_types, lifting))
      moreover have "\<forall>j. used_slots m' j = used_slots m j + (if j = we_worker_id w then 1 else 0)"
        unfolding ps(3) by (auto simp: used_slots_upsert)
      moreover have "w \<in> set snap \<and> we_worker_id w \<notin> tried \<and> exclusion_reason w = []"
        using ps(1,2) by (simp add: reason eligible_def)
      ultimately show ?thesis unfolding pick prod.case option.case Let_def by blast
    qed
  qed
qed

section \<open>Reservations\<close>

text \<open>
  Any number of dispatchers share the counts. A state is the count map together with the
  reservation guards that exist; \<open>reserve\<close> is a successful pick, \<open>release\<close> the drop of one
  guard, on success, failure, panic or cancellation alike. The bound \<open>cap\<close> is the number of
  dispatches that run at once, each of which holds one guard at most.
\<close>

inductive sched_step :: "nat \<Rightarrow> in_flight \<times> string multiset \<Rightarrow> in_flight \<times> string multiset \<Rightarrow> bool" for cap where
  reserve: "size G < cap \<Longrightarrow> pick_and_reserve key tried snap m = (Some w, m')
     \<Longrightarrow> sched_step cap (m, G) (m', add_mset (we_worker_id w) G)"
| release: "sched_step cap (m, add_mset i G) (assign_guard_drop i m, G)"

inductive sched_reach :: "nat \<Rightarrow> in_flight \<times> string multiset \<Rightarrow> bool" for cap where
  sched_init: "sched_reach cap ([], {#})"
| sched_next: "sched_reach cap s \<Longrightarrow> sched_step cap s s' \<Longrightarrow> sched_reach cap s'"

inductive_cases sched_stepE: "sched_step cap (m, G) s'"

text \<open>The counts agree with the guards and no entry is zero.\<close>

definition counts_guards :: "in_flight \<Rightarrow> string multiset \<Rightarrow> bool" where
  "counts_guards m G \<longleftrightarrow> (\<forall>j. map_of m j = (if j \<in># G then Some (word_of_nat (count G j)) else None))"

lemma counts_guards_used:
  assumes "counts_guards m G" "size G < 2 ^ 32"
  shows "unat (used_slots m j) = count G j"
proof -
  have "count G j < 2 ^ 32" using assms(2) count_le_size [of G j] by linarith
  then have "unat (word_of_nat (count G j) :: u32) = count G j" by (simp add: unat_of_nat take_bit_nat_eq_self)
  moreover have "used_slots m j = word_of_nat (count G j)"
    using assms(1) by (auto simp: counts_guards_def used_slots_def not_in_iff)
  ultimately show ?thesis by simp
qed

lemma counts_guards_reserve:
  assumes "counts_guards m G"
  shows "counts_guards (hm_upsert k 0 (\<lambda>c. c + 1) m) (add_mset k G)"
  unfolding counts_guards_def
proof
  fix j
  have "map_of m k = (if k \<in># G then Some (word_of_nat (count G k)) else None)" "map_of m j = (if j \<in># G then Some (word_of_nat (count G j)) else None)"
    using assms by (simp_all add: counts_guards_def)
  then show "map_of (hm_upsert k 0 (\<lambda>c. c + 1) m) j =
      (if j \<in># add_mset k G then Some (word_of_nat (count (add_mset k G) j)) else None)"
    by (auto simp: hm_look_upsert not_in_iff add.commute)
qed

lemma counts_guards_release:
  assumes inv: "counts_guards m (add_mset k G)" and small: "size (add_mset k G) < 2 ^ 32"
  shows "counts_guards (assign_guard_drop k m) G"
proof -
  let ?c = "word_of_nat (Suc (count G k)) :: u32"
  have k: "map_of m k = Some ?c" and other: "j \<noteq> k \<Longrightarrow> map_of m j = (if j \<in># G then Some (word_of_nat (count G j)) else None)" for j
    using inv by (auto simp: counts_guards_def)
  have "Suc (count G k) < 2 ^ 32" using small count_le_size [of G k] by simp
  then have u: "unat ?c = Suc (count G k)" by (simp add: unat_of_nat take_bit_nat_eq_self del: of_nat_Suc)
  then have "?c \<noteq> 0" by (metis nat.distinct(1) unat_0)
  moreover have pred: "?c - 1 = word_of_nat (count G k)" by simp
  moreover have "word_of_nat (count G k) = (0 :: u32) \<longleftrightarrow> k \<notin># G"
  proof -
    have "unat (word_of_nat (count G k) :: u32) = count G k"
      using \<open>Suc (count G k) < 2 ^ 32\<close> by (simp add: unat_of_nat take_bit_nat_eq_self)
    then show ?thesis by (metis not_in_iff unat_eq_zero)
  qed
  ultimately have drop: "assign_guard_drop k m =
      (if k \<in># G then hm_insert k (word_of_nat (count G k)) m else hm_remove k m)"
    by (simp add: assign_guard_drop_def k del: of_nat_Suc)
  show ?thesis unfolding counts_guards_def drop
    by (auto simp: hm_look_remove other)
qed

lemma sched_reach_counts:
  assumes "sched_reach cap s" "cap < 2 ^ 32"
  shows "counts_guards (fst s) (snd s) \<and> size (snd s) \<le> cap"
  using assms(1)
proof induction
  case (sched_next s s')
  obtain m G where s: "s = (m, G)" by (cases s)
  with sched_next have inv: "counts_guards m G" "size G \<le> cap" by auto
  from sched_next(2) show ?case unfolding s
  proof (rule sched_stepE)
    fix key tried snap w m'
    assume step: "s' = (m', add_mset (we_worker_id w) G)" "size G < cap" "pick_and_reserve key tried snap m = (Some w, m')"
    then show ?thesis using inv pick_Some(3) [OF step(3)] by (simp add: counts_guards_reserve)
  next
    fix i H
    assume step: "G = add_mset i H" "s' = (assign_guard_drop i m, H)"
    have "size (add_mset i H) < 2 ^ 32" using inv(2) assms(2) unfolding step by simp
    with step inv show ?thesis by (auto intro: counts_guards_release)
  qed
qed (simp add: counts_guards_def)

text \<open>
  C16. Reservation accounting. As long as fewer than 2^32 dispatches run at once, in every
  state that any interleaving of picks and guard drops reaches, a worker's count is the
  number of its reservations that are held (so a slot neither leaks nor is freed twice, and
  the counter never wraps), the map has entries only for workers with a reservation, and it is
  empty when none is held.
\<close>

theorem reservations_exact:
  assumes reach: "sched_reach cap (m, G)" and cap: "cap < 2 ^ 32"
  shows "unat (used_slots m i) = count G i \<and> dom (map_of m) = set_mset G \<and> (G = {#} \<longrightarrow> m = [])"
proof -
  have inv: "counts_guards m G" "size G < 2 ^ 32"
    using sched_reach_counts [OF reach cap] cap by auto
  have dom: "dom (map_of m) = set_mset G"
    using inv(1) by (auto simp: counts_guards_def dom_def split: if_splits)
  then have "G = {#} \<longrightarrow> m = []" by (auto simp: dom_map_of_conv_image_fst)
  with dom counts_guards_used [OF inv] show ?thesis by blast
qed

section \<open>Dispatch completes\<close>

definition attempt_failed :: "remote_result \<Rightarrow> bool" where
  "attempt_failed r = (case r of Outcome oc \<Rightarrow> oc_exit_code oc = None | _ \<Rightarrow> True)"

lemma remote_attempt_Inr:
  "remote_attempt blake3 env req n w tr = (Inr oc, tr') \<Longrightarrow> de_result env n w = Outcome oc \<and> oc_exit_code oc \<noteq> None"
  by (auto simp: remote_attempt_def Let_def split: prod.splits remote_result.splits option.splits)

lemma remote_attempt_Inl:
  "remote_attempt blake3 env req n w tr = (Inl r, tr') \<Longrightarrow> attempt_failed (de_result env n w) \<and> (\<exists>msg. r = RemoteExhausted msg)"
  by (auto simp: remote_attempt_def Let_def attempt_failed_def split: prod.splits remote_result.splits option.splits)

lemma drop_reserved:
  assumes "map_of m k \<noteq> Some 0" "map_of m k \<noteq> Some (- 1)"
  shows "map_of (assign_guard_drop k (hm_upsert k 0 (\<lambda>c. c + 1) m)) = map_of m"
proof (cases "map_of m k")
  case None
  then show ?thesis by (auto simp: assign_guard_drop_def hm_look_upsert hm_look_remove fun_eq_iff)
next
  case (Some c)
  with assms have "c \<noteq> 0" "c + 1 \<noteq> 0" by (auto simp flip: eq_neg_iff_add_eq_0)
  with Some show ?thesis by (auto simp: assign_guard_drop_def hm_look_upsert fun_eq_iff)
qed

text \<open>
  What a dispatch that starts at turn \<open>n\<close> may report: the workers \<open>ws\<close> were tried in turn,
  each once, each picked while eligible, and each failed; then either a further eligible
  worker ran the action to an exit code, or no eligible untried worker was left and the
  action ran locally.
\<close>

definition dispatch_explained ::
    "dispatch_env \<Rightarrow> nat \<Rightarrow> string set \<Rightarrow> local_fallback_reason \<Rightarrow> worker_entry list \<Rightarrow> execution \<Rightarrow> bool" where
  "dispatch_explained env n tried reason ws ex \<longleftrightarrow>
     distinct (map we_worker_id ws) \<and> we_worker_id ` set ws \<inter> tried = {}
     \<and> (\<forall>i < length ws. ws ! i \<in> set (de_snapshot env (n + i)) \<and> exclusion_reason (ws ! i) = []
          \<and> attempt_failed (de_result env (n + i) (ws ! i)))
     \<and> (case ex of
          RemoteRun oc \<Rightarrow> \<exists>w \<in> set (de_snapshot env (n + length ws)). eligible (tried \<union> we_worker_id ` set ws) w
            \<and> de_result env (n + length ws) w = Outcome oc \<and> oc_exit_code oc \<noteq> None
        | LocalFallback code r \<Rightarrow> code = (case de_local_exit env of None \<Rightarrow> - 1 | Some c \<Rightarrow> c)
            \<and> (\<forall>w \<in> set (de_snapshot env (n + length ws)). \<not> eligible (tried \<union> we_worker_id ` set ws) w)
            \<and> (if ws = [] then r = reason else \<exists>msg. r = RemoteExhausted msg))"

lemma explained_Nil:
  "dispatch_explained env n tried reason [] ex \<longleftrightarrow>
     (case ex of
        RemoteRun oc \<Rightarrow> \<exists>w \<in> set (de_snapshot env n). eligible tried w \<and> de_result env n w = Outcome oc \<and> oc_exit_code oc \<noteq> None
      | LocalFallback code r \<Rightarrow> code = (case de_local_exit env of None \<Rightarrow> - 1 | Some c \<Rightarrow> c)
          \<and> (\<forall>w \<in> set (de_snapshot env n). \<not> eligible tried w) \<and> r = reason)"
  by (cases ex) (simp_all add: dispatch_explained_def)

lemma explained_Cons:
  assumes ex: "dispatch_explained env (Suc n) (insert (we_worker_id w) tried) (RemoteExhausted msg) ws ex"
    and w: "w \<in> set (de_snapshot env n)" "eligible tried w" "attempt_failed (de_result env n w)"
  shows "dispatch_explained env n tried reason (w # ws) ex"
proof -
  have ids: "insert (we_worker_id w) tried \<union> we_worker_id ` set ws = tried \<union> we_worker_id ` set (w # ws)" by auto
  have reason: "exclusion_reason w = []" using w(2) by (simp add: exclusion_reason_def eligible_def admissible_def word_gt_0)
  have all: "\<forall>i < length (w # ws). (w # ws) ! i \<in> set (de_snapshot env (n + i)) \<and> exclusion_reason ((w # ws) ! i) = []
      \<and> attempt_failed (de_result env (n + i) ((w # ws) ! i))"
  proof (intro allI impI)
    fix i assume "i < length (w # ws)"
    then show "(w # ws) ! i \<in> set (de_snapshot env (n + i)) \<and> exclusion_reason ((w # ws) ! i) = []
      \<and> attempt_failed (de_result env (n + i) ((w # ws) ! i))"
      using ex w(1,3) reason by (cases i) (auto simp: dispatch_explained_def)
  qed
  have "distinct (map we_worker_id (w # ws))" "we_worker_id ` set (w # ws) \<inter> tried = {}"
    using ex w(2) by (auto simp: dispatch_explained_def eligible_def)
  with all ex show ?thesis unfolding dispatch_explained_def ids by (auto split: execution.splits if_splits)
qed

lemma dispatch_loop_completes:
  assumes fin: "finite U" and ids: "\<And>n. we_worker_id ` set (de_snapshot env n) \<subseteq> U"
    and fuel: "card (U - tried) < fuel"
    and counts: "\<And>k. map_of (ss_in_flight st) k \<noteq> Some 0 \<and> map_of (ss_in_flight st) k \<noteq> Some (- 1)"
  shows "\<exists>ex ws st'. dispatch_loop fuel blake3 env req n tried reason st = Some (ex, Suc (n + length ws), st')
    \<and> map_of (ss_in_flight st') = map_of (ss_in_flight st) \<and> dispatch_explained env n tried reason ws ex"
  using fuel counts
proof (induction fuel arbitrary: n tried reason st)
  case (Suc fuel)
  obtain r m where pick: "pick_and_reserve (affinity_key (cmd_argv (dr_command req))) tried (de_snapshot env n) (ss_in_flight st) = (r, m)"
    by (meson surj_pair)
  show ?case
  proof (cases r)
    case None
    with pick have p: "m = ss_in_flight st" "\<forall>w \<in> set (de_snapshot env n). \<not> eligible tried w" by (simp_all add: pick_None)
    obtain code tr where run: "local_run blake3 env req n Fallback (ss_tracker st) = (code, tr)" by (meson surj_pair)
    then have "code = (case de_local_exit env of None \<Rightarrow> - 1 | Some c \<Rightarrow> c)"
      by (auto simp: local_run_def tracked_local_run_def Let_def split: prod.splits)
    with None p pick run show ?thesis
      by (intro exI [of _ "LocalFallback code reason"] exI [of _ "[]"]) (simp add: explained_Nil)
  next
    case (Some w)
    note p = pick_Some [OF pick [unfolded Some]]
    have rest: "map_of (assign_guard_drop (we_worker_id w) m) = map_of (ss_in_flight st)"
      unfolding p(3) using Suc.prems(2) by (intro drop_reserved) blast+
    obtain a tr where att: "remote_attempt blake3 env req n w (ss_tracker st) = (a, tr)" by (meson surj_pair)
    let ?st = "\<lparr>ss_in_flight = assign_guard_drop (we_worker_id w) m, ss_tracker = tr\<rparr>"
    show ?thesis
    proof (cases a)
      case (Inr oc)
      with att have "de_result env n w = Outcome oc \<and> oc_exit_code oc \<noteq> None" by (auto dest: remote_attempt_Inr)
      with Inr Some pick att rest p(1,2) show ?thesis
        by (intro exI [of _ "RemoteRun oc"] exI [of _ "[]"]) (auto simp: explained_Nil)
    next
      case (Inl r')
      with att obtain msg where f: "attempt_failed (de_result env n w)" "r' = RemoteExhausted msg"
        by (auto dest: remote_attempt_Inl)
      have "we_worker_id w \<in> U - tried" using p(1,2) ids [of n] by (auto simp: eligible_def)
      then have "card (U - insert (we_worker_id w) tried) < card (U - tried)"
        using fin by (intro psubset_card_mono) auto
      with Suc.prems(1) have "card (U - insert (we_worker_id w) tried) < fuel" by simp
      then obtain ex ws st' where ih: "dispatch_loop fuel blake3 env req (Suc n) (insert (we_worker_id w) tried) r' ?st
              = Some (ex, Suc (Suc n + length ws), st')"
          "map_of (ss_in_flight st') = map_of (ss_in_flight ?st)"
          "dispatch_explained env (Suc n) (insert (we_worker_id w) tried) r' ws ex"
        using Suc.IH [of "insert (we_worker_id w) tried" ?st "Suc n" r'] Suc.prems(2) by (auto simp: rest)
      have "dispatch_explained env n tried reason (w # ws) ex"
        using ih(3) p(1,2) f(1) unfolding f(2) by (rule explained_Cons)
      with ih(1,2) Some pick att Inl rest show ?thesis
        by (intro exI [of _ ex] exI [of _ "w # ws"] exI [of _ st']) simp
    qed
  qed
qed simp

lemma dispatch_returns:
  assumes "finite U" and "\<And>n. we_worker_id ` set (de_snapshot env n) \<subseteq> U" and "card U < fuel"
    and "\<And>k. map_of (ss_in_flight st) k \<noteq> Some 0 \<and> map_of (ss_in_flight st) k \<noteq> Some (- 1)"
  shows "\<exists>ex ws st'. dispatch fuel blake3 env req route_away st = Some (ex, attempt_no (Suc (length ws)), st')
    \<and> map_of (ss_in_flight st') = map_of (ss_in_flight st)
    \<and> (case route_away of
         Some why \<Rightarrow> ws = [] \<and> ex = LocalFallback (case de_local_exit env of None \<Rightarrow> - 1 | Some c \<Rightarrow> c) (RouteAway why)
       | None \<Rightarrow> dispatch_explained env 0 {} NoWorker ws ex)"
proof (cases route_away)
  case None
  have "card (U - {}) < fuel" using assms(3) by simp
  then obtain ex ws st' where "dispatch_loop fuel blake3 env req 0 {} NoWorker st = Some (ex, Suc (0 + length ws), st')"
      "map_of (ss_in_flight st') = map_of (ss_in_flight st)" "dispatch_explained env 0 {} NoWorker ws ex"
    using dispatch_loop_completes [OF assms(1,2) _ assms(4)] by blast
  with None show ?thesis by (auto simp: dispatch_def)
next
  case (Some why)
  obtain code tr where run: "local_run blake3 env req 0 Local (ss_tracker st) = (code, tr)" by (meson surj_pair)
  then have "code = (case de_local_exit env of None \<Rightarrow> - 1 | Some c \<Rightarrow> c)"
    by (auto simp: local_run_def tracked_local_run_def Let_def split: prod.splits)
  with Some run show ?thesis
    by (intro exI [of _ "LocalFallback code (RouteAway why)"] exI [of _ "[]"]) (simp add: dispatch_def)
qed

text \<open>
  C14. A dispatched action always completes. When the worker ids that can ever be live form a
  finite set, fuel for one turn more than there are ids is enough: the dispatch returns, every
  reservation it took is freed, and what it reports is explained by its turns: no worker is
  tried twice or while excluded, a remote result comes from a worker that reported an exit
  code, and the local fallback runs only once no eligible untried worker is live, with the
  reason NoWorker exactly when no worker was tried. A routed-away action runs locally at once.
\<close>

theorem dispatch_completes:
  assumes "finite U" and "\<And>n. we_worker_id ` set (de_snapshot env n) \<subseteq> U" and "card U < fuel"
    and "\<And>k. map_of (ss_in_flight st) k \<noteq> Some 0 \<and> map_of (ss_in_flight st) k \<noteq> Some (- 1)"
  shows "\<exists>ex ws st'. dispatch fuel blake3 env req route_away st = Some (ex, attempt_no (Suc (length ws)), st')
    \<and> map_of (ss_in_flight st') = map_of (ss_in_flight st)
    \<and> (case route_away of
         Some why \<Rightarrow> ws = [] \<and> ex = LocalFallback (case de_local_exit env of None \<Rightarrow> - 1 | Some c \<Rightarrow> c) (RouteAway why)
       | None \<Rightarrow> dispatch_explained env 0 {} NoWorker ws ex)"
  by (rule dispatch_returns [OF assms])

section \<open>Witnesses\<close>

definition demo_worker :: "string \<Rightarrow> worker_entry" where
  "demo_worker i = \<lparr>we_worker_id = i, we_execution_endpoint = [],
     we_caps = capabilities_default\<lparr>cp_worker_version := ''0.0.3'', cp_cpu_count := 2\<rparr>,
     we_running_actions = 0, we_idle_slots = 2, we_idle_cpu_pct = None, we_last_ping = 0\<rparr>"

lemma demo_worker_eligible: "eligible {} (demo_worker i)" "exclusion_reason (demo_worker i) = []" "we_worker_id (demo_worker i) = i"
  by (simp_all add: demo_worker_def eligible_def admissible_def version_matched_def mode_participating_def AGENT_VERSION_def
      effective_capacity_def clamp_cpu_def MAX_TRUSTED_CPU_def capabilities_default_def exclusion_reason_def)

lemma demo_pick: "pick_and_reserve 0 {} [demo_worker ''a''] [] = (Some (demo_worker ''a''), [(''a'', 1)])"
  by (simp add: pick_and_reserve_def demo_worker_eligible choose_worker_def preferred_index_def Let_def)

theorem rendezvous_minimal_disruption_witness:
  "let ws = [demo_worker ''a''] in filter (\<lambda>w. we_worker_id w = ''a'') ws ! preferred_index (filter (\<lambda>w. we_worker_id w = ''a'') ws) 7
     = ws ! preferred_index ws 7"
proof -
  have "[demo_worker ''a''] ! preferred_index [demo_worker ''a''] 7 = demo_worker ''a''"
    using preferred_index_bound [of "[demo_worker ''a'']" 7] by simp
  then show ?thesis
    using rendezvous_minimal_disruption [of "[demo_worker ''a'']" "\<lambda>w. we_worker_id w = ''a''" 7]
    by (simp add: demo_worker_eligible Let_def)
qed

theorem pick_and_reserve_exact_witness:
  "pick_and_reserve 0 {} [demo_worker ''a''] [] = (Some (demo_worker ''a''), [(''a'', 1)])
   \<and> used_slots [(''a'', 1)] ''a'' = used_slots [] ''a'' + 1"
  using pick_and_reserve_exact [where key = 0 and tried = "{}" and snap = "[demo_worker ''a'']" and m = "[]"]
  by (simp add: demo_pick demo_worker_eligible Let_def)

theorem reservations_exact_witness:
  "unat (used_slots [(''a'', 1)] ''a'') = count {#''a''#} ''a'' \<and> dom (map_of [(''a'', 1 :: u32)]) = set_mset {#''a''#}"
proof -
  have "sched_step 4 ([], {#}) ([(''a'', 1)], add_mset (we_worker_id (demo_worker ''a'')) {#})"
    using demo_pick by (intro reserve) auto
  then have "sched_reach 4 ([(''a'', 1)], {#''a''#})"
    using sched_next [OF sched_init] by (simp add: demo_worker_eligible)
  from reservations_exact [OF this, of "''a''"] show ?thesis by simp
qed

definition demo_env :: dispatch_env where
  "demo_env = \<lparr>de_snapshot = (\<lambda>n. [demo_worker ''a'', demo_worker ''b'']), de_result = (\<lambda>n w. AttemptError ''reset''),
     de_observed = (\<lambda>n. [Running]), de_local_exit = Some 0, de_clock = id\<rparr>"

definition demo_dispatch :: dispatch_request where
  "demo_dispatch = \<lparr>dr_command = \<lparr>cmd_argv = [''cl''], cmd_env = [], cmd_cwd = []\<rparr>,
     dr_action_id = ''x'', dr_display = ''cl''\<rparr>"

theorem dispatch_completes_witness:
  "\<exists>ex ws st'. dispatch 3 zero_hash demo_env demo_dispatch None \<lparr>ss_in_flight = [], ss_tracker = tracker_default\<rparr>
      = Some (ex, attempt_no (Suc (length ws)), st')
    \<and> map_of (ss_in_flight st') = Map.empty \<and> dispatch_explained demo_env 0 {} NoWorker ws ex"
  using dispatch_completes [of "{''a'', ''b''}" demo_env 3 "\<lparr>ss_in_flight = [], ss_tracker = tracker_default\<rparr>" zero_hash demo_dispatch None]
  by (simp add: demo_env_def demo_worker_eligible)

end
