(* ===== verification/Remote_Drive.thy ===== *)
theory Remote_Drive
  imports Scheduler Worker_Exec
begin

text \<open>
  The agent's side of one remote execution (\<open>crates/agent/src/lib.rs\<close>): connecting under a
  policy, folding the worker's event stream into an outcome with bounded console buffers, and
  the single-shot execution with local fallback. The last section composes it with the
  worker's executor: what the agent takes for a finished remote run is one.
\<close>

section \<open>Connecting\<close>

record connect_policy =
  cp_attempts :: u32
  cp_per_attempt_timeout_ms :: nat
  cp_retry_sleep_ms :: nat

definition PATIENT :: connect_policy where
  "PATIENT = \<lparr>cp_attempts = 20, cp_per_attempt_timeout_ms = 200, cp_retry_sleep_ms = 50\<rparr>"

definition FAST :: connect_policy where
  "FAST = \<lparr>cp_attempts = 2, cp_per_attempt_timeout_ms = 250, cp_retry_sleep_ms = 25\<rparr>"

text \<open>
  The attempts from number \<open>i\<close> on, \<open>n\<close> of them left, with the last error; the result carries
  the number of the attempt that connected, and the time slept on the way is added up.
\<close>

fun connect_loop :: "(nat \<Rightarrow> string option) \<Rightarrow> connect_policy \<Rightarrow> nat \<Rightarrow> nat \<Rightarrow> string \<Rightarrow> nat \<Rightarrow> (string + nat) \<times> nat" where
  "connect_loop try policy 0 i err slept = (Inl err, slept)"
| "connect_loop try policy (Suc n) i err slept =
     (case try i of
        None \<Rightarrow> (Inr i, slept)
      | Some e \<Rightarrow> connect_loop try policy n (i + 1) e
                   (slept + (if i + 1 < unat (cp_attempts policy) then cp_retry_sleep_ms policy else 0)))"

definition connect_with_policy :: "(string + (nat \<Rightarrow> string option)) \<Rightarrow> connect_policy \<Rightarrow> (string + nat) \<times> nat" where
  "connect_with_policy endpoint policy =
     (case endpoint of
        Inl e \<Rightarrow> (Inl e, 0)
      | Inr try \<Rightarrow> connect_loop try policy (max (unat (cp_attempts policy)) 1) 0 [] 0)"

section \<open>Folding the event stream\<close>

datatype wire_event = WState int string | WExit int u64 string | WStdio bool bytes | WOutput | WNone

definition MAX_CONSOLE_BYTES :: nat where "MAX_CONSOLE_BYTES = 8 * 1024 * 1024"

definition CONSOLE_TRUNCATION_NOTICE :: bytes where
  "CONSOLE_TRUNCATION_NOTICE = as_bytes (CHR 0x0A # ''[sembazuru: console output capped at 8 MiB]'' @ [CHR 0x0A])"

definition append_console_capped :: "bytes \<Rightarrow> bytes \<Rightarrow> bytes" where
  "append_console_capped buf data =
     (if length buf \<ge> MAX_CONSOLE_BYTES then buf
      else let room = MAX_CONSOLE_BYTES - length buf; n = min (length data) room; buf = buf @ take n data
           in if n < length data then buf @ CONSOLE_TRUNCATION_NOTICE else buf)"

text \<open>The state the observer records for a worker's state, when it records one.\<close>

definition observed_state :: "int \<Rightarrow> activity_state option" where
  "observed_state state = (if state = 1 then Some Queued else if state = 2 then Some Preparing else if state = 3 then Some Running else None)"

definition outcome_default :: action_outcome where
  "outcome_default = \<lparr>oc_states = [], oc_exit_code = None, oc_wall_time_us = 0, oc_resolved_tool_digest = [], oc_stdout = [], oc_stderr = []\<rparr>"

fun drive_event :: "wire_event \<Rightarrow> action_outcome \<times> activity_state list \<Rightarrow> action_outcome \<times> activity_state list" where
  "drive_event (WState s d) (oc, seen) =
     (oc\<lparr>oc_states := oc_states oc @ [s]\<rparr>, seen @ (case observed_state s of Some a \<Rightarrow> [a] | None \<Rightarrow> []))"
| "drive_event (WExit code wall tool) (oc, seen) =
     (oc\<lparr>oc_exit_code := Some code, oc_wall_time_us := wall, oc_resolved_tool_digest := tool\<rparr>, seen)"
| "drive_event (WStdio is_stderr data) (oc, seen) =
     (if is_stderr then oc\<lparr>oc_stderr := append_console_capped (oc_stderr oc) data\<rparr>
      else oc\<lparr>oc_stdout := append_console_capped (oc_stdout oc) data\<rparr>, seen)"
| "drive_event WOutput (oc, seen) = (oc, seen)"
| "drive_event WNone (oc, seen) = (oc, seen)"

text \<open>
  \<open>drive_execute\<close> over the messages of the stream: \<open>start\<close> is the answer to the request itself,
  and the stream ends by closing or with an error.
\<close>

definition drive_execute :: "string option \<Rightarrow> wire_event list \<Rightarrow> string option \<Rightarrow> (string + action_outcome) \<times> activity_state list" where
  "drive_execute start evs failure =
     (case start of
        Some e \<Rightarrow> (Inl e, [])
      | None \<Rightarrow>
          (case fold drive_event evs (outcome_default, []) of
             (oc, seen) \<Rightarrow> (case failure of Some e \<Rightarrow> Inl e | None \<Rightarrow> Inr oc, seen)))"

definition execute_with_fallback :: "string + action_outcome \<Rightarrow> int option \<Rightarrow> execution" where
  "execute_with_fallback remote local_exit =
     (let local = (\<lambda>reason. LocalFallback (case local_exit of Some c \<Rightarrow> c | None \<Rightarrow> - 1) (RemoteExhausted reason)) in
      case remote of
        Inr oc \<Rightarrow> if oc_exit_code oc \<noteq> None then RemoteRun oc else local ''remote action did not complete (no exit status)''
      | Inl e \<Rightarrow> local (''remote execution failed: '' @ e))"

fun is_route_away :: "local_fallback_reason \<Rightarrow> bool" where
  "is_route_away (RouteAway why) = True"
| "is_route_away _ = False"

fun reason_display :: "local_fallback_reason \<Rightarrow> string" where
  "reason_display (RouteAway why) = ''route-away ('' @ why @ '')''"
| "reason_display NoWorker = ''no live workers''"
| "reason_display (RemoteExhausted detail) = detail"

section \<open>Console buffers\<close>

lemma console_step:
  assumes "take MAX_CONSOLE_BYTES buf = take MAX_CONSOLE_BYTES full" "length full \<le> MAX_CONSOLE_BYTES \<longrightarrow> buf = full"
    and "length full \<ge> MAX_CONSOLE_BYTES \<longrightarrow> length buf \<ge> MAX_CONSOLE_BYTES"
    and "length buf \<le> MAX_CONSOLE_BYTES + length CONSOLE_TRUNCATION_NOTICE"
  shows "let buf' = append_console_capped buf data; full' = full @ data in
     take MAX_CONSOLE_BYTES buf' = take MAX_CONSOLE_BYTES full' \<and> (length full' \<le> MAX_CONSOLE_BYTES \<longrightarrow> buf' = full')
     \<and> (length full' \<ge> MAX_CONSOLE_BYTES \<longrightarrow> length buf' \<ge> MAX_CONSOLE_BYTES)
     \<and> length buf' \<le> MAX_CONSOLE_BYTES + length CONSOLE_TRUNCATION_NOTICE"
proof (cases "length full \<ge> MAX_CONSOLE_BYTES")
  case True
  then show ?thesis using assms by (cases data) (simp_all add: append_console_capped_def Let_def)
next
  case False
  then have "buf = full" "length buf < MAX_CONSOLE_BYTES" using assms(2) by simp_all
  then show ?thesis by (auto simp: append_console_capped_def Let_def min_def)
qed

definition console_ok :: "bytes \<Rightarrow> bytes \<Rightarrow> bool" where
  "console_ok buf full \<longleftrightarrow> take MAX_CONSOLE_BYTES buf = take MAX_CONSOLE_BYTES full
     \<and> (length full \<le> MAX_CONSOLE_BYTES \<longrightarrow> buf = full) \<and> (length full \<ge> MAX_CONSOLE_BYTES \<longrightarrow> length buf \<ge> MAX_CONSOLE_BYTES)
     \<and> length buf \<le> MAX_CONSOLE_BYTES + length CONSOLE_TRUNCATION_NOTICE"

lemma console_ok_append: "console_ok buf full \<Longrightarrow> console_ok (append_console_capped buf data) (full @ data)"
  using console_step [of buf full data] unfolding console_ok_def Let_def by blast

definition console_of :: "bool \<Rightarrow> wire_event list \<Rightarrow> bytes" where
  "console_of is_stderr evs = concat (map (\<lambda>e. case e of WStdio s data \<Rightarrow> if s = is_stderr then data else [] | _ \<Rightarrow> []) evs)"

lemma fold_events_console:
  "console_ok (oc_stdout oc) out \<Longrightarrow> console_ok (oc_stderr oc) err \<Longrightarrow> fold drive_event evs (oc, seen) = (oc', seen') \<Longrightarrow>
   console_ok (oc_stdout oc') (out @ console_of False evs) \<and> console_ok (oc_stderr oc') (err @ console_of True evs)"
proof (induction evs arbitrary: oc seen out err)
  case Nil
  then show ?case by (simp add: console_of_def)
next
  case (Cons e evs)
  obtain oc1 seen1 where e: "drive_event e (oc, seen) = (oc1, seen1)" by fastforce
  have run: "fold drive_event evs (oc1, seen1) = (oc', seen')" using Cons.prems(3) e by simp
  have o1: "console_ok (oc_stdout oc1) (out @ console_of False [e])" "console_ok (oc_stderr oc1) (err @ console_of True [e])"
    using e Cons.prems(1,2) by (cases e; auto simp: console_of_def intro: console_ok_append split: if_splits)+
  have "console_of s (e # evs) = console_of s [e] @ console_of s evs" for s by (simp add: console_of_def)
  then show ?case using Cons.IH [OF o1 run] by simp
qed

section \<open>Exit statuses and observed states\<close>

definition exits_of :: "wire_event list \<Rightarrow> int list" where
  "exits_of evs = concat (map (\<lambda>e. case e of WExit code wall tool \<Rightarrow> [code] | _ \<Rightarrow> []) evs)"

definition seen_of :: "wire_event list \<Rightarrow> activity_state list" where
  "seen_of evs = concat (map (\<lambda>e. case e of WState s d \<Rightarrow> (case observed_state s of Some a \<Rightarrow> [a] | None \<Rightarrow> []) | _ \<Rightarrow> []) evs)"

lemma fold_events_exit:
  "fold drive_event evs (oc, seen) = (oc', seen') \<Longrightarrow>
   oc_exit_code oc' = (if exits_of evs = [] then oc_exit_code oc else Some (last (exits_of evs))) \<and> seen' = seen @ seen_of evs"
proof (induction evs arbitrary: oc seen)
  case Nil
  then show ?case by (simp add: exits_of_def seen_of_def)
next
  case (Cons e evs)
  obtain oc1 seen1 where e: "drive_event e (oc, seen) = (oc1, seen1)" by fastforce
  have run: "fold drive_event evs (oc1, seen1) = (oc', seen')" using Cons.prems e by simp
  show ?case using Cons.IH [OF run] e by (cases e) (auto simp: exits_of_def seen_of_def split: if_splits)
qed

fun to_wire :: "execute_event \<Rightarrow> wire_event" where
  "to_wire (EvState s d) = WState (state_code s) d"
| "to_wire (EvExit code wall tool) = WExit code wall tool"
| "to_wire (EvStdio is_stderr data) = WStdio is_stderr data"

lemma stdio_silent: "list_all is_stdio io \<Longrightarrow> exits_of (map to_wire io) = [] \<and> seen_of (map to_wire io) = []"
proof (induction io)
  case (Cons e io)
  then show ?case by (cases e) (auto simp: exits_of_def seen_of_def)
qed (simp add: exits_of_def seen_of_def)

lemma of_append: "exits_of (a @ b) = exits_of a @ exits_of b" "seen_of (a @ b) = seen_of a @ seen_of b"
  by (simp_all add: exits_of_def seen_of_def)

lemma exits_mem: "code \<in> set (exits_of (map to_wire evs)) \<longleftrightarrow> (\<exists>wall tool. EvExit code wall tool \<in> set evs)"
proof (induction evs)
  case (Cons e evs)
  then show ?case by (cases e) (auto simp: exits_of_def)
qed (simp add: exits_of_def)

lemma prefix_of: "prefix a b \<Longrightarrow> prefix (seen_of (map to_wire a)) (seen_of (map to_wire b))"
  by (auto simp: prefix_def of_append)

section \<open>Properties\<close>

text \<open>
  C15. A remote result can be trusted. Whatever part of a finished action's event stream reaches the
  agent before the stream ends, the agent takes the action for done only if the worker's
  process exited by itself with exactly that code, passed every check of the worker and left
  neither marker of an access the VFS does not support; otherwise the agent runs the action
  itself. The whole stream of such a run gives its exit code. The states recorded meanwhile
  are an initial part of queued, preparing, running.
\<close>

theorem remote_result_trusted:
  assumes w: "configured ws" "worker_reach ws w" "i < length (wk_tasks w)" "tk_phase (wk_tasks w ! i) = Live"
    and evs: "prefix evs (tk_events (wk_tasks (run_at i (run_finish fin rp) w) ! i))"
    and run: "drive_execute None (map to_wire evs) failure = (r, seen)"
  shows "(case execute_with_fallback r local_exit of
       RemoteRun oc \<Rightarrow> failure = None \<and> (\<exists>code. fin = Exited (Some code) \<and> oc_exit_code oc = Some (sint code)
         \<and> rp_attestation rp \<noteq> Some False \<and> code \<noteq> VFS_INJECTION_FAIL_CLOSED_EXIT_CODE
         \<and> rp_publish rp \<and> \<not> rp_unvirt rp \<and> \<not> rp_unsafe rp)
     | LocalFallback c reason \<Rightarrow> failure = None \<longrightarrow> evs = tk_events (wk_tasks (run_at i (run_finish fin rp) w) ! i) \<longrightarrow>
         (\<forall>c wall tool. EvExit c wall tool \<notin> set evs))
    \<and> prefix seen [Queued, Preparing, Running]"
proof -
  let ?all = "tk_events (wk_tasks (run_at i (run_finish fin rp) w) ! i)"
  have "stream_ok (tk_phase (wk_tasks w ! i)) (tk_events (wk_tasks w ! i))"
    using worker_reach_inv(3) [OF w(2,1)] w(3) by (simp add: streams_ok_def)
  then obtain io where io: "list_all is_stdio io" "?all = [ev_queued, ev_preparing, ev_running] @ io @ finish_events fin rp"
    using w(3,4) by (auto simp: stream_ok_def run_at_def run_finish_def emit_def)
  have no_exit: "EvExit c wall tool \<notin> set io" for c wall tool using io(1) by (auto simp: list_all_iff)
  obtain oc where fold: "fold drive_event (map to_wire evs) (outcome_default, []) = (oc, seen)"
      "r = (case failure of Some e \<Rightarrow> Inl e | None \<Rightarrow> Inr oc)"
    using run by (auto simp: drive_execute_def split: prod.splits)
  note exit = fold_events_exit [OF fold(1)]
  have seen: "seen_of (map to_wire (finish_events fin rp)) = []"
    by (auto simp: finish_events_def seen_of_def observed_state_def split: finish.splits option.splits)
  have "seen_of (map to_wire ?all) = [Queued, Preparing, Running]"
    using stdio_silent [OF io(1)] seen unfolding io(2) map_append of_append by (simp add: seen_of_def observed_state_def)
  then have pre: "prefix seen [Queued, Preparing, Running]" using prefix_of [OF evs] exit by simp
  have complete: "\<exists>wall tool. EvExit c wall tool \<in> set (finish_events fin rp)" if "oc_exit_code oc = Some c" for c
  proof -
    have "exits_of (map to_wire evs) \<noteq> []" "last (exits_of (map to_wire evs)) = c"
      using that exit by (auto simp: outcome_default_def split: if_splits)
    then have "c \<in> set (exits_of (map to_wire evs))" by auto
    then obtain wall tool where "EvExit c wall tool \<in> set evs" using exits_mem by blast
    then have "EvExit c wall tool \<in> set ?all" using set_mono_prefix [OF evs] by blast
    then show ?thesis using no_exit by (auto simp: io(2))
  qed
  have "exits_of (map to_wire evs) \<noteq> []" if "EvExit c wall tool \<in> set evs" for c wall tool
    using exits_mem [of c evs] that by (cases "exits_of (map to_wire evs) = []") auto
  then have whole: "EvExit c wall tool \<notin> set evs" if "oc_exit_code oc = None" for c wall tool
    using that exit by (auto split: if_splits)
  show ?thesis
    using pre complete whole by (auto simp: execute_with_fallback_def fold(2) Let_def finish_events_exit split: option.splits)
qed

text \<open>
  Console output is bounded and loses only its tail. However much a worker streams, each
  console buffer of the outcome stays within 8 MiB and the notice; its first 8 MiB are the
  first 8 MiB of the stream, and output that fits is kept whole.
\<close>

theorem console_bounded:
  assumes "drive_execute None evs None = (Inr oc, seen)"
  shows "\<forall>(buf, full) \<in> {(oc_stdout oc, console_of False evs), (oc_stderr oc, console_of True evs)}.
     length buf \<le> MAX_CONSOLE_BYTES + length CONSOLE_TRUNCATION_NOTICE
     \<and> take MAX_CONSOLE_BYTES buf = take MAX_CONSOLE_BYTES full \<and> (length full \<le> MAX_CONSOLE_BYTES \<longrightarrow> buf = full)"
proof -
  have fold: "fold drive_event evs (outcome_default, []) = (oc, seen)" using assms by (auto simp: drive_execute_def split: prod.splits)
  have "console_ok [] []" by (simp add: console_ok_def)
  then have "console_ok (oc_stdout oc) (console_of False evs) \<and> console_ok (oc_stderr oc) (console_of True evs)"
    using fold_events_console [OF _ _ fold, of "[]" "[]"] by (simp add: outcome_default_def)
  then show ?thesis by (auto simp: console_ok_def)
qed

text \<open>
  The notice can be missing. When a chunk fills the buffer exactly, whatever follows is dropped
  without the notice; and with the worker's full chunks of 8192 bytes the limit is met exactly.
\<close>

theorem console_truncated_silently:
  assumes "length buf < MAX_CONSOLE_BYTES" "length buf + length data = MAX_CONSOLE_BYTES"
  shows "append_console_capped (append_console_capped buf data) extra = buf @ data \<and> MAX_CONSOLE_BYTES mod 8192 = 0"
  using assms by (simp add: append_console_capped_def Let_def MAX_CONSOLE_BYTES_def)

theorem console_truncated_silently_witness:
  "append_console_capped (append_console_capped (replicate (MAX_CONSOLE_BYTES - 1) 7) [8]) [9] = replicate (MAX_CONSOLE_BYTES - 1) 7 @ [8]"
  using console_truncated_silently [of "replicate (MAX_CONSOLE_BYTES - 1) 7" "[8]" "[9]"] by (simp add: MAX_CONSOLE_BYTES_def)

theorem console_bounded_witness:
  "\<exists>oc. drive_execute None [WStdio False [1], WStdio True [2], WStdio False [3]] None = (Inr oc, []) \<and> oc_stdout oc = [1, 3]"
proof -
  have "\<exists>oc. drive_execute None [WStdio False [1], WStdio True [2], WStdio False [3]] None = (Inr oc, [])" by (simp add: drive_execute_def)
  then obtain oc where oc: "drive_execute None [WStdio False [1], WStdio True [2], WStdio False [3]] None = (Inr oc, [])" by blast
  have "oc_stdout oc = [1, 3]" using console_bounded [OF oc] by (simp add: console_of_def MAX_CONSOLE_BYTES_def)
  with oc show ?thesis by blast
qed

theorem remote_result_trusted_witness:
  "let evs = tk_events (wk_tasks (run_at 0 (run_finish (Exited (Some 2)) one_report) one_live) ! 0) in
   \<exists>oc seen. drive_execute None (map to_wire evs) None = (Inr oc, seen) \<and> oc_exit_code oc = Some 2 \<and> prefix seen [Queued, Preparing, Running]"
proof -
  let ?evs = "tk_events (wk_tasks (run_at 0 (run_finish (Exited (Some 2)) one_report) one_live) ! 0)"
  have evs: "?evs = [ev_queued, ev_preparing, ev_running, EvExit 2 5 ''t'', EvState StCompleted []]"
    by (simp add: run_at_def run_finish_def emit_def one_live_state finish_events_def vfs_injection_fail_closed_detail_def
        VFS_INJECTION_FAIL_CLOSED_EXIT_CODE_def one_report_def wall_u64_def)
  obtain r seen where run: "drive_execute None (map to_wire ?evs) None = (r, seen)" by fastforce
  then obtain oc where r: "r = Inr oc" by (auto simp: drive_execute_def split: prod.splits)
  from remote_result_trusted [OF one_worker_configured one_live_reach, of 0 ?evs "Exited (Some 2)" one_report None r seen "Some 1"] run r
  show ?thesis
    by (auto simp: one_live_state evs execute_with_fallback_def Let_def split: if_splits)
qed

end
