(* ===== verification/Submission.thy ===== *)
theory Submission
  imports Cache_Queries Cache_Hit Output_Staging Remote_Drive
begin

text \<open>
  One submitted action from end to end, \<open>src/crates/agent/src/intake.rs\<close>: the weak key and the
  cache lookup, the session, the dispatch, the publication of the outputs, the recording of
  the run and the events sent to the launcher; with the daemon's counters
  (\<open>src/crates/agent/src/status.rs\<close>) and the launcher's reading of the events. The composed
  parts are the definitions of the other theories. What the submission meets outside (the
  clock, the files, the workers, the data-plane requests served meanwhile) is one record. A
  panic in one of the blocking closures and the removal of the trace directory are not
  modelled.
\<close>

section \<open>Counters\<close>

record metrics =
  mx_cache_hits :: u64
  mx_cache_misses :: u64
  mx_exec_remote :: u64
  mx_exec_local :: u64
  mx_exec_fallback :: u64
  mx_compiler_digest_mismatch :: u64
  mx_in_flight :: u64

definition record_cache_hit :: "metrics \<Rightarrow> metrics" where
  "record_cache_hit m = m\<lparr>mx_cache_hits := mx_cache_hits m + 1\<rparr>"

definition record_cache_miss :: "metrics \<Rightarrow> metrics" where
  "record_cache_miss m = m\<lparr>mx_cache_misses := mx_cache_misses m + 1\<rparr>"

definition record_compiler_digest_mismatch :: "metrics \<Rightarrow> metrics" where
  "record_compiler_digest_mismatch m = m\<lparr>mx_compiler_digest_mismatch := mx_compiler_digest_mismatch m + 1\<rparr>"

definition record_outcome :: "execution \<Rightarrow> metrics \<Rightarrow> metrics" where
  "record_outcome outcome m =
     (case outcome of
        RemoteRun _ \<Rightarrow> m\<lparr>mx_exec_remote := mx_exec_remote m + 1\<rparr>
      | LocalFallback _ reason \<Rightarrow>
          if is_route_away reason then m\<lparr>mx_exec_local := mx_exec_local m + 1\<rparr>
          else m\<lparr>mx_exec_fallback := mx_exec_fallback m + 1\<rparr>)"

definition in_flight_guard :: "metrics \<Rightarrow> metrics" where
  "in_flight_guard m = m\<lparr>mx_in_flight := mx_in_flight m + 1\<rparr>"

definition in_flight_guard_drop :: "metrics \<Rightarrow> metrics" where
  "in_flight_guard_drop m = m\<lparr>mx_in_flight := mx_in_flight m - 1\<rparr>"

section \<open>Events and display names\<close>

datatype submit_event = SState int string | SExit int u64 | SStdio bool bytes

definition ACTION_STATE_COMPLETED :: int where "ACTION_STATE_COMPLETED = 4"

definition stdio_ev :: "bool \<Rightarrow> bytes \<Rightarrow> submit_event list" where
  "stdio_ev is_stderr data = (if data = [] then [] else [SStdio is_stderr data])"

definition emit_outcome :: "execution \<Rightarrow> submit_event list" where
  "emit_outcome outcome =
     (case outcome of
        RemoteRun o' \<Rightarrow>
          stdio_ev False (oc_stdout o') @ stdio_ev True (oc_stderr o')
          @ [SState ACTION_STATE_COMPLETED ''remote'',
             SExit (case oc_exit_code o' of None \<Rightarrow> - 1 | Some c \<Rightarrow> c) (oc_wall_time_us o')]
      | LocalFallback code reason \<Rightarrow>
          [SState ACTION_STATE_COMPLETED (''local fallback: '' @ reason_display reason), SExit code 0])"

definition emit_hit :: "u32 \<Rightarrow> bytes \<Rightarrow> bytes \<Rightarrow> submit_event list" where
  "emit_hit code so se =
     SState ACTION_STATE_COMPLETED ''cache hit'' # stdio_ev False so @ stdio_ev True se @ [SExit (sint code) 0]"

text \<open>The launcher's loop over the events: its exit code, its note, and what it writes to its two streams.\<close>

record launcher_view =
  lv_exit :: "int option"
  lv_note :: string
  lv_stdout :: bytes
  lv_stderr :: bytes

definition launcher_start :: launcher_view where
  "launcher_start = \<lparr>lv_exit = None, lv_note = [], lv_stdout = [], lv_stderr = []\<rparr>"

fun launcher_event :: "submit_event \<Rightarrow> launcher_view \<Rightarrow> launcher_view" where
  "launcher_event (SExit code wall) v = v\<lparr>lv_exit := Some code\<rparr>"
| "launcher_event (SState s detail) v = (if detail \<noteq> [] then v\<lparr>lv_note := detail\<rparr> else v)"
| "launcher_event (SStdio is_stderr data) v =
     (if is_stderr then v\<lparr>lv_stderr := lv_stderr v @ data\<rparr> else v\<lparr>lv_stdout := lv_stdout v @ data\<rparr>)"

definition submit_with_transport :: "submit_event list \<Rightarrow> (string + int \<times> string) \<times> launcher_view" where
  "submit_with_transport evs =
     (let v = fold launcher_event evs launcher_start in
      (case lv_exit v of
         Some c \<Rightarrow> Inr (c, lv_note v)
       | None \<Rightarrow> Inl ''daemon closed the stream with no exit status'', v))"

definition SOURCE_EXTENSIONS :: "string list" where
  "SOURCE_EXTENSIONS = [''c'', ''cc'', ''cpp'', ''cxx'', ''m'', ''mm'', ''rs'']"

definition basename :: "string \<Rightarrow> string" where
  "basename argument = rev (takeWhile (\<lambda>c. c \<noteq> bsl \<and> c \<noteq> CHR ''/'') (rev argument))"

definition source_name :: "string \<Rightarrow> string option" where
  "source_name argument =
     (case path_ext (basename argument) of
        Some ext \<Rightarrow> if list_ex (eq_ignore_ascii_case ext) SOURCE_EXTENSIONS then file_name (basename argument) else None
      | None \<Rightarrow> None)"

definition display_name :: "command \<Rightarrow> string" where
  "display_name c =
     (let sources = List.map_filter source_name (cmd_argv c);
          first = (case sources of
                     s # _ \<Rightarrow> s
                   | [] \<Rightarrow> (case cmd_argv c of a # _ \<Rightarrow> basename a | [] \<Rightarrow> ''process''));
          extra = length sources - 1
      in truncate_chars (if extra = 0 then first else first @ '' +'' @ dec extra) MAX_DISPLAY_CHARS)"

section \<open>Cacheability\<close>

definition VERIFIED_TOOLS :: "string list" where
  "VERIFIED_TOOLS = [''cl'', ''clang-cl'', ''clang'', ''clang++'', ''dxc'']"

text \<open>\<open>opted_in\<close> is the variable \<open>SEMBAZURU_VERIFIED_TOOLS\<close> of the daemon.\<close>

definition is_verified_tool :: "string option \<Rightarrow> string \<Rightarrow> bool" where
  "is_verified_tool opted_in argv0 =
     (if argv0 = [] then False
      else let base = to_ascii_lowercase (case file_stem argv0 of Some s \<Rightarrow> s | None \<Rightarrow> argv0) in
        base \<in> set VERIFIED_TOOLS
        \<or> (case opted_in of
             None \<Rightarrow> False
           | Some v \<Rightarrow> list_ex (\<lambda>t. eq_ignore_ascii_case (str_trim t) base) (split_on (CHR '','') v)))"

definition worker_tool_matches :: "string \<Rightarrow> digest \<Rightarrow> bool" where
  "worker_tool_matches reported expected \<longleftrightarrow> reported \<noteq> [] \<and> reported = digest_canonical expected"

definition should_record_cache :: "bool \<Rightarrow> tool_identity \<Rightarrow> string \<Rightarrow> bool" where
  "should_record_cache tool_verified identity reported \<longleftrightarrow>
     tool_verified \<and> is_content identity \<and> worker_tool_matches reported (identity_digest identity)"

definition declared_output_specs :: "(string \<Rightarrow> string) \<Rightarrow> string list \<Rightarrow> string option \<Rightarrow> output_spec list" where
  "declared_output_specs lc declared root =
     map (\<lambda>(i, p). \<lparr>sp_id = word_of_nat i, sp_final_path = parent_and_name p, sp_max_size = word_of_nat DEFAULT_OUTPUT_MAX_BYTES\<rparr>)
       (List.enumerate 0 (List.map_filter (\<lambda>p. normalize_scoped_requested lc p root) declared))"

section \<open>A submission\<close>

record submit_request =
  sq_command :: command
  sq_declared_outputs :: "string list"
  sq_non_deterministic :: bool
  sq_strict_vfs :: bool
  sq_input_root :: string
  sq_action_id :: string
  sq_session_id :: string
  sq_number :: nat

record exec_options =
  xo_predicted_paths :: "string list"
  xo_vfs :: "vfs_execution option"

record submit_env =
  se_vfs :: bool
  se_cache :: "action_cache option"
  se_agent_fileserver :: string
  se_scratch_root :: string
  se_verified_tools :: "string option"
  se_world :: "nat \<Rightarrow> tool_fs"
  se_found_at :: nat
  se_times :: call_times
  se_memo_found :: tool_digests
  se_resolve_env :: agent_env
  se_opens :: "string \<Rightarrow> bool"
  se_now :: nat
  se_dispatch :: "exec_options \<Rightarrow> dispatch_env"
  se_route_away :: "string option"
  se_data_plane :: "server \<Rightarrow> server"
  se_publish :: "nat \<Rightarrow> publish_io"
  se_publish_error :: string
  se_remove :: bool
  se_fallback_exit :: "int option"
  se_fallback_at :: nat
  se_record_env :: agent_env
  se_record_root :: "file_system \<Rightarrow> string \<Rightarrow> fs_read"
  se_trace_listing :: "string + (string + string) list"
  se_trace_read :: "string \<Rightarrow> string + bytes"
  se_phase :: "submission_phase option"

record daemon =
  dm_cache :: agent_state
  dm_server :: server
  dm_sched :: sched_state
  dm_metrics :: metrics
  dm_memo :: tool_digests

definition bump :: "(metrics \<Rightarrow> metrics) \<Rightarrow> daemon \<Rightarrow> daemon" where
  "bump f dm = dm\<lparr>dm_metrics := f (dm_metrics dm)\<rparr>"

definition root_decl :: "submit_request \<Rightarrow> string option" where
  "root_decl rq = (let t = str_trim (sq_input_root rq) in if t = [] then None else Some (normalize_for_compare t))"

definition sq_argv0 :: "submit_request \<Rightarrow> string" where
  "sq_argv0 rq = (case cmd_argv (sq_command rq) of [] \<Rightarrow> [] | a # _ \<Rightarrow> a)"

text \<open>The weak key, for a daemon with a cache and an action declared deterministic.\<close>

definition submission_key ::
    "hash_fn \<Rightarrow> submit_env \<Rightarrow> submit_request \<Rightarrow> tool_digests \<Rightarrow> (digest \<times> tool_identity) option \<times> tool_digests" where
  "submission_key blake3 se rq memo =
     (if se_cache se = None \<or> sq_non_deterministic rq then (None, memo)
      else apfst Some (weak_key_and_tool blake3 (se_world se) (se_found_at se) (se_times se) (cmd_argv (sq_command rq))
             (sort (cmd_env (sq_command rq))) (cmd_cwd (sq_command rq)) (se_memo_found se) memo))"

definition vfs_root_of :: "submit_request \<Rightarrow> string" where
  "vfs_root_of rq = (if sq_input_root rq = [] then cmd_cwd (sq_command rq) else sq_input_root rq)"

definition trace_dir_of :: "submit_env \<Rightarrow> submit_request \<Rightarrow> string" where
  "trace_dir_of se rq = (if se_cache se = None then [] else path_push (se_scratch_root se) (''trace-'' @ dec (sq_number rq)))"

definition exec_options_of ::
    "hash_fn \<Rightarrow> (string \<Rightarrow> string) \<Rightarrow> submit_env \<Rightarrow> submit_request \<Rightarrow> digest option \<Rightarrow> disk \<Rightarrow> exec_options" where
  "exec_options_of blake3 lc se rq weak dk =
     \<lparr>xo_predicted_paths =
        (case (se_cache se, weak) of
           (Some ac, Some w) \<Rightarrow>
             (case predicted_paths blake3 lc ac w (normalize_root lc (vfs_root_of rq)) dk of Inr ps \<Rightarrow> ps | Inl _ \<Rightarrow> [])
         | _ \<Rightarrow> []),
      xo_vfs = Some \<lparr>vx_agent_fileserver = se_agent_fileserver se, vx_vfs_root = vfs_root_of rq, vx_trace_dir = trace_dir_of se rq,
                     vx_strict = sq_strict_vfs rq, vx_allow_original_cwd = False\<rparr>\<rparr>"

definition dispatch_observed ::
    "nat \<Rightarrow> hash_fn \<Rightarrow> submit_env \<Rightarrow> submit_request \<Rightarrow> exec_options \<Rightarrow> sched_state \<Rightarrow> (execution \<times> u32 \<times> sched_state) option" where
  "dispatch_observed fuel blake3 se rq opts =
     dispatch fuel blake3 (se_dispatch se opts)
       \<lparr>dr_command = sq_command rq, dr_action_id = sq_action_id rq, dr_display = display_name (sq_command rq)\<rparr> (se_route_away se)"

definition publish_remote_or_fallback ::
    "hash_fn \<Rightarrow> submit_env \<Rightarrow> submit_request \<Rightarrow> nat \<Rightarrow> u32 \<Rightarrow> execution \<Rightarrow> daemon \<Rightarrow> execution \<times> daemon" where
  "publish_remote_or_fallback blake3 se rq a next_attempt outcome dm =
     (case outcome of
        RemoteRun o' \<Rightarrow>
          if oc_exit_code o' = Some 0 then
            (case publish_at blake3 (se_publish se) a (dm_server dm) of
               (True, sv) \<Rightarrow> (outcome, dm\<lparr>dm_server := sv\<rparr>)
             | (False, sv) \<Rightarrow>
                 (case tracked_local_run blake3 (sq_action_id rq) (display_name (sq_command rq)) next_attempt Fallback
                         (se_fallback_at se) (se_fallback_exit se) (ss_tracker (dm_sched dm)) of
                    (code, tr) \<Rightarrow>
                      (LocalFallback code (RemoteExhausted (''remote writeback publish failed: '' @ se_publish_error se)),
                       dm\<lparr>dm_server := sv, dm_sched := (dm_sched dm)\<lparr>ss_tracker := tr\<rparr>\<rparr>)))
          else (outcome, dm)
      | _ \<Rightarrow> (outcome, dm))"

definition discard_session :: "submit_env \<Rightarrow> nat \<Rightarrow> daemon \<Rightarrow> daemon" where
  "discard_session se a dm =
     dm\<lparr>dm_server := with_registry_files (dm_server dm) (discard_at (se_remove se) a (sr_registry (dm_server dm), sr_files (dm_server dm)))\<rparr>"

definition finish_session :: "submit_request \<Rightarrow> daemon \<Rightarrow> daemon" where
  "finish_session rq dm =
     dm\<lparr>dm_server := (dm_server dm)\<lparr>sr_registry := snd (registry_finish (sq_session_id rq) (sr_registry (dm_server dm)))\<rparr>\<rparr>"

text \<open>The session, the dispatch under it, and the publication; the daemon serves data-plane requests meanwhile.\<close>

definition run_session ::
    "nat \<Rightarrow> hash_fn \<Rightarrow> (string \<Rightarrow> string) \<Rightarrow> submit_env \<Rightarrow> submit_request \<Rightarrow> digest option \<Rightarrow> daemon \<Rightarrow> (execution \<times> daemon) option" where
  "run_session fuel blake3 lc se rq weak dm =
     (let root = normalize_root lc (vfs_root_of rq);
          opts = exec_options_of blake3 lc se rq weak (as_disk (dm_cache dm));
          (a, rg) = registry_create (se_opens se) (se_now se) (sq_session_id rq) root
                      (declared_output_specs lc (sq_declared_outputs rq) root) (sr_registry (dm_server dm));
          dm1 = dm\<lparr>dm_server := (dm_server dm)\<lparr>sr_registry := rg\<rparr>\<rparr>
      in case dispatch_observed fuel blake3 se rq opts (dm_sched dm1) of
           None \<Rightarrow> None
         | Some (ex, next_attempt, ss) \<Rightarrow>
             (let dm2 = finish_session rq (dm1\<lparr>dm_sched := ss, dm_server := se_data_plane se (dm_server dm1)\<rparr>);
                  (outcome, dm3) = publish_remote_or_fallback blake3 se rq a next_attempt ex dm2
              in Some (outcome, discard_session se a dm3)))"

text \<open>The recording of a run; the recorded root is what the published files show under the build root.\<close>

definition record_plan :: "submit_env \<Rightarrow> submit_request \<Rightarrow> tool_identity \<Rightarrow> (input_manifest \<times> string list) option" where
  "record_plan se rq identity =
     (let td = \<lparr>td_path = trace_dir_of se rq, td_listing = se_trace_listing se, td_read = se_trace_read se\<rparr>;
          outs = (if sq_declared_outputs rq \<noteq> [] then sq_declared_outputs rq
                  else case outputs_from_trace_dir td (root_decl rq) of Inr os \<Rightarrow> os | Inl _ \<Rightarrow> [])
      in if outs = [] then None
         else case manifest_from_trace_dir_verified_tool (ae_fs (se_record_env se)) td (root_decl rq) identity of
           Inl _ \<Rightarrow> None
         | Inr manifest \<Rightarrow> Some (manifest, outs))"

definition record_verified ::
    "hash_fn \<Rightarrow> action_cache \<Rightarrow> submit_env \<Rightarrow> submit_request \<Rightarrow> digest \<Rightarrow> tool_identity \<Rightarrow> action_outcome \<Rightarrow> agent_state \<Rightarrow> agent_state" where
  "record_verified blake3 ac se rq weak identity o' st =
     (case record_plan se rq identity of
        None \<Rightarrow> st
      | Some (manifest, outs) \<Rightarrow>
          snd (record_action blake3 ac (se_record_env se) weak manifest outs 0 (oc_stdout o') (oc_stderr o') st))"

definition record_submission ::
    "hash_fn \<Rightarrow> submit_env \<Rightarrow> submit_request \<Rightarrow> (digest \<times> tool_identity) option \<Rightarrow> execution \<Rightarrow> daemon \<Rightarrow> daemon" where
  "record_submission blake3 se rq key outcome dm =
     (case (se_cache se, key, outcome) of
        (Some ac, Some (weak, identity), RemoteRun o') \<Rightarrow>
          let tool_verified = is_verified_tool (se_verified_tools se) (sq_argv0 rq) in
          if oc_exit_code o' = Some 0 \<and> trace_dir_of se rq \<noteq> [] \<and> \<not> sq_non_deterministic rq \<and> tool_verified then
            if should_record_cache tool_verified identity (oc_resolved_tool_digest o') then
              dm\<lparr>dm_cache := record_verified blake3 ac se rq weak identity o'
                   ((dm_cache dm)\<lparr>as_root := se_record_root se (sr_files (dm_server dm))\<rparr>)\<rparr>
            else if is_content identity then bump record_compiler_digest_mismatch dm
            else dm
          else dm
      | _ \<Rightarrow> dm)"

text \<open>What a submission whose lookup did not hit goes on to do.\<close>

definition run_miss ::
    "nat \<Rightarrow> hash_fn \<Rightarrow> (string \<Rightarrow> string) \<Rightarrow> submit_env \<Rightarrow> submit_request \<Rightarrow> (digest \<times> tool_identity) option
     \<Rightarrow> daemon \<Rightarrow> (submit_event list \<times> daemon) option" where
  "run_miss fuel blake3 lc se rq key dm =
     (case run_session fuel blake3 lc se rq (map_option fst key) dm of
        None \<Rightarrow> None
      | Some (outcome, dm') \<Rightarrow>
          Some (if se_phase se \<in> {None, Some Idle, Some NaturalReaped} then emit_outcome outcome else [],
                bump (record_outcome outcome) (record_submission blake3 se rq key outcome dm')))"

definition run_cached ::
    "nat \<Rightarrow> hash_fn \<Rightarrow> (string \<Rightarrow> string) \<Rightarrow> submit_env \<Rightarrow> submit_request \<Rightarrow> daemon \<Rightarrow> (submit_event list \<times> daemon) option" where
  "run_cached fuel blake3 lc se rq dm =
     (let (key, memo) = submission_key blake3 se rq (dm_memo dm); dm1 = dm\<lparr>dm_memo := memo\<rparr> in
      case (se_cache se, key) of
        (Some ac, Some (weak, _)) \<Rightarrow>
          (case resolve blake3 ac (se_resolve_env se) weak (dm_cache dm1) of
             (Inr (Hit code so se'), st) \<Rightarrow> Some (emit_hit code so se', bump record_cache_hit (dm1\<lparr>dm_cache := st\<rparr>))
           | (_, st) \<Rightarrow> run_miss fuel blake3 lc se rq key (bump record_cache_miss (dm1\<lparr>dm_cache := st\<rparr>)))
      | _ \<Rightarrow> run_miss fuel blake3 lc se rq key dm1)"

definition run_plain ::
    "nat \<Rightarrow> hash_fn \<Rightarrow> submit_env \<Rightarrow> submit_request \<Rightarrow> daemon \<Rightarrow> (submit_event list \<times> daemon) option" where
  "run_plain fuel blake3 se rq dm =
     map_option (\<lambda>(ex, _, ss). (emit_outcome ex, bump (record_outcome ex) (dm\<lparr>dm_sched := ss\<rparr>)))
       (dispatch_observed fuel blake3 se rq \<lparr>xo_predicted_paths = [], xo_vfs = None\<rparr> (dm_sched dm))"

definition run_submission ::
    "nat \<Rightarrow> hash_fn \<Rightarrow> (string \<Rightarrow> string) \<Rightarrow> submit_env \<Rightarrow> submit_request \<Rightarrow> daemon \<Rightarrow> (submit_event list \<times> daemon) option" where
  "run_submission fuel blake3 lc se rq dm =
     map_option (apsnd (bump in_flight_guard_drop))
       (if se_vfs se then run_cached fuel blake3 lc se rq (bump in_flight_guard dm)
        else run_plain fuel blake3 se rq (bump in_flight_guard dm))"

section \<open>What the launcher sees\<close>

lemma launcher_stdio: "fold launcher_event (stdio_ev False so @ stdio_ev True se) v
    = v\<lparr>lv_stdout := lv_stdout v @ so, lv_stderr := lv_stderr v @ se\<rparr>"
  by (simp add: stdio_ev_def)


section \<open>Every submission completes\<close>

text \<open>Exactly one exit event, and it comes last.\<close>

definition answered :: "submit_event list \<Rightarrow> bool" where
  "answered evs \<longleftrightarrow> (\<exists>pre code wall. evs = pre @ [SExit code wall] \<and> (\<forall>c w. SExit c w \<notin> set pre))"

lemma stdio_no_exit [simp]: "SExit c w \<notin> set (stdio_ev e d)"
  by (simp add: stdio_ev_def)

lemma emit_outcome_answered: "answered (emit_outcome ex)"
proof (cases ex)
  case (RemoteRun oc)
  then show ?thesis unfolding answered_def
    by (intro exI [of _ "stdio_ev False (oc_stdout oc) @ stdio_ev True (oc_stderr oc) @ [SState ACTION_STATE_COMPLETED ''remote'']"])
       (simp add: emit_outcome_def)
next
  case (LocalFallback c r)
  then show ?thesis unfolding answered_def
    by (intro exI [of _ "[SState ACTION_STATE_COMPLETED (''local fallback: '' @ reason_display r)]"]) (simp add: emit_outcome_def)
qed

lemma emit_hit_answered: "answered (emit_hit w so se)"
  unfolding answered_def
  by (intro exI [of _ "SState ACTION_STATE_COMPLETED ''cache hit'' # stdio_ev False so @ stdio_ev True se"]) (simp add: emit_hit_def)

lemma bump_fields [simp]:
  "dm_cache (bump f dm) = dm_cache dm" "dm_server (bump f dm) = dm_server dm" "dm_sched (bump f dm) = dm_sched dm"
  "dm_memo (bump f dm) = dm_memo dm" "dm_metrics (bump f dm) = f (dm_metrics dm)"
  by (simp_all add: bump_def)

lemma in_flight_unmoved [simp]:
  "mx_in_flight (record_cache_hit m) = mx_in_flight m" "mx_in_flight (record_cache_miss m) = mx_in_flight m"
  "mx_in_flight (record_compiler_digest_mismatch m) = mx_in_flight m" "mx_in_flight (record_outcome ex m) = mx_in_flight m"
  "mx_in_flight (in_flight_guard m) = mx_in_flight m + 1" "mx_in_flight (in_flight_guard_drop m) = mx_in_flight m - 1"
  by (simp_all add: record_cache_hit_def record_cache_miss_def record_compiler_digest_mismatch_def record_outcome_def
      in_flight_guard_def in_flight_guard_drop_def split: execution.split)

text \<open>What the later phases leave alone.\<close>

lemma publish_remote_or_fallback_keeps:
  assumes "publish_remote_or_fallback blake3 se rq a n ex dm = (outcome, dm')"
  shows "dm_cache dm' = dm_cache dm" "dm_metrics dm' = dm_metrics dm" "ss_in_flight (dm_sched dm') = ss_in_flight (dm_sched dm)"
    "rg_sessions (sr_registry (dm_server dm')) = rg_sessions (sr_registry (dm_server dm))"
    "\<forall>oc. outcome = RemoteRun oc \<longrightarrow> ex = RemoteRun oc"
  using assms
  by (auto simp: publish_remote_or_fallback_def publish_at_def cap_update_def split: execution.splits if_splits prod.splits bool.splits)

lemma discard_session_keeps [simp]:
  "dm_cache (discard_session se a dm) = dm_cache dm" "dm_metrics (discard_session se a dm) = dm_metrics dm"
  "dm_sched (discard_session se a dm) = dm_sched dm"
  "rg_sessions (sr_registry (dm_server (discard_session se a dm))) = rg_sessions (sr_registry (dm_server dm))"
  by (simp_all add: discard_session_def with_registry_files_def discard_at_def cap_update_def split: prod.split)

lemma finish_session_keeps [simp]:
  "dm_cache (finish_session rq dm) = dm_cache dm" "dm_metrics (finish_session rq dm) = dm_metrics dm"
  "dm_sched (finish_session rq dm) = dm_sched dm"
  by (simp_all add: finish_session_def)

lemma finish_session_gone: "map_of (rg_sessions (sr_registry (dm_server (finish_session rq dm)))) (sq_session_id rq) = None"
  by (simp add: finish_session_def registry_finish_def cap_update_def hm_look_remove split: option.split)

lemma run_session_spec:
  assumes "run_session fuel blake3 lc se rq weak dm = Some (outcome, dm')"
  shows "dm_cache dm' = dm_cache dm" "dm_metrics dm' = dm_metrics dm"
    "map_of (rg_sessions (sr_registry (dm_server dm'))) (sq_session_id rq) = None"
    "\<exists>ex n ss. dispatch_observed fuel blake3 se rq (exec_options_of blake3 lc se rq weak (as_disk (dm_cache dm))) (dm_sched dm) = Some (ex, n, ss)
       \<and> ss_in_flight (dm_sched dm') = ss_in_flight ss \<and> (\<forall>oc. outcome = RemoteRun oc \<longrightarrow> ex = RemoteRun oc)"
proof -
  let ?opts = "exec_options_of blake3 lc se rq weak (as_disk (dm_cache dm))"
  let ?root = "normalize_root lc (vfs_root_of rq)"
  obtain a rg where c: "registry_create (se_opens se) (se_now se) (sq_session_id rq) ?root
      (declared_output_specs lc (sq_declared_outputs rq) ?root) (sr_registry (dm_server dm)) = (a, rg)" by (meson surj_pair)
  let ?dm1 = "dm\<lparr>dm_server := (dm_server dm)\<lparr>sr_registry := rg\<rparr>\<rparr>"
  obtain ex n ss where d: "dispatch_observed fuel blake3 se rq ?opts (dm_sched dm) = Some (ex, n, ss)"
    using assms c by (auto simp: run_session_def Let_def split: option.splits)
  let ?dm2 = "finish_session rq (?dm1\<lparr>dm_sched := ss, dm_server := se_data_plane se (dm_server ?dm1)\<rparr>)"
  obtain oc dm3 where p: "publish_remote_or_fallback blake3 se rq a n ex ?dm2 = (oc, dm3)" by (meson surj_pair)
  have out: "outcome = oc" "dm' = discard_session se a dm3"
    using assms c d p by (auto simp: run_session_def Let_def)
  note k = publish_remote_or_fallback_keeps [OF p]
  show "dm_cache dm' = dm_cache dm" "dm_metrics dm' = dm_metrics dm" by (simp_all add: out k)
  show "map_of (rg_sessions (sr_registry (dm_server dm'))) (sq_session_id rq) = None"
    by (simp add: out k finish_session_gone)
  show "\<exists>ex n ss. dispatch_observed fuel blake3 se rq ?opts (dm_sched dm) = Some (ex, n, ss)
       \<and> ss_in_flight (dm_sched dm') = ss_in_flight ss \<and> (\<forall>oc. outcome = RemoteRun oc \<longrightarrow> ex = RemoteRun oc)"
    using d k(3,5) by (auto simp: out)
qed

lemma record_submission_keeps [simp]:
  "dm_sched (record_submission blake3 se rq key outcome dm) = dm_sched dm"
  "dm_server (record_submission blake3 se rq key outcome dm) = dm_server dm"
  "mx_in_flight (dm_metrics (record_submission blake3 se rq key outcome dm)) = mx_in_flight (dm_metrics dm)"
  by (simp_all add: record_submission_def Let_def split: option.split execution.split prod.split)

lemma dispatch_observed_returns:
  assumes "finite U" and "\<And>opts n. we_worker_id ` set (de_snapshot (se_dispatch se opts) n) \<subseteq> U" and "card U < fuel"
    and "\<And>k. map_of (ss_in_flight st) k \<noteq> Some 0 \<and> map_of (ss_in_flight st) k \<noteq> Some (- 1)"
  obtains ex n ss where "dispatch_observed fuel blake3 se rq opts st = Some (ex, n, ss)" "map_of (ss_in_flight ss) = map_of (ss_in_flight st)"
  using dispatch_returns [OF assms(1) assms(2) assms(3,4)] unfolding dispatch_observed_def by metis

definition silenced :: "submit_env \<Rightarrow> bool" where
  "silenced se \<longleftrightarrow> se_vfs se \<and> se_phase se \<notin> {None, Some Idle, Some NaturalReaped}"

text \<open>One submission returns, gives every slot back, and answers unless its deadline forbids it.\<close>

definition completes ::
    "(submit_event list \<times> daemon) option \<Rightarrow> bool \<Rightarrow> daemon \<Rightarrow> bool" where
  "completes r silent dm \<longleftrightarrow> (\<exists>evs dm'. r = Some (evs, dm') \<and> mx_in_flight (dm_metrics dm') = mx_in_flight (dm_metrics dm)
     \<and> map_of (ss_in_flight (dm_sched dm')) = map_of (ss_in_flight (dm_sched dm))
     \<and> (answered evs \<or> silent \<and> evs = []))"

lemma run_miss_completes:
  assumes "finite U" and "\<And>opts n. we_worker_id ` set (de_snapshot (se_dispatch se opts) n) \<subseteq> U" and "card U < fuel"
    and "\<And>k. map_of (ss_in_flight (dm_sched dm)) k \<noteq> Some 0 \<and> map_of (ss_in_flight (dm_sched dm)) k \<noteq> Some (- 1)"
    and vfs: "se_vfs se"
  shows "completes (run_miss fuel blake3 lc se rq key dm) (silenced se) dm"
proof -
  let ?opts = "exec_options_of blake3 lc se rq (map_option fst key) (as_disk (dm_cache dm))"
  obtain ex n ss where d: "dispatch_observed fuel blake3 se rq ?opts (dm_sched dm) = Some (ex, n, ss)"
      "map_of (ss_in_flight ss) = map_of (ss_in_flight (dm_sched dm))"
    using dispatch_observed_returns [OF assms(1-4)] by metis
  have "\<exists>outcome dm'. run_session fuel blake3 lc se rq (map_option fst key) dm = Some (outcome, dm')"
    using d(1) by (simp add: run_session_def Let_def split: prod.split)
  then obtain outcome dm' where r: "run_session fuel blake3 lc se rq (map_option fst key) dm = Some (outcome, dm')" by blast
  note spec = run_session_spec [OF r]
  have "map_of (ss_in_flight (dm_sched dm')) = map_of (ss_in_flight (dm_sched dm))" using spec(4) d by auto
  then show ?thesis using r spec(2) vfs emit_outcome_answered
    by (auto simp: completes_def run_miss_def silenced_def)
qed

lemma run_cached_cases:
  assumes k: "submission_key blake3 se rq (dm_memo dm) = (key, memo)"
  obtains (uncached) "run_cached fuel blake3 lc se rq dm = run_miss fuel blake3 lc se rq key (dm\<lparr>dm_memo := memo\<rparr>)"
    | (miss) ac weak identity r st where "se_cache se = Some ac" "key = Some (weak, identity)"
        "resolve blake3 ac (se_resolve_env se) weak (dm_cache dm) = (r, st)"
        "run_cached fuel blake3 lc se rq dm = run_miss fuel blake3 lc se rq key (bump record_cache_miss (dm\<lparr>dm_memo := memo, dm_cache := st\<rparr>))"
    | (hit) ac weak identity code so se' st where "se_cache se = Some ac" "key = Some (weak, identity)"
        "resolve blake3 ac (se_resolve_env se) weak (dm_cache dm) = (Inr (Hit code so se'), st)"
        "run_cached fuel blake3 lc se rq dm = Some (emit_hit code so se', bump record_cache_hit (dm\<lparr>dm_memo := memo, dm_cache := st\<rparr>))"
proof (cases "se_cache se = None \<or> key = None")
  case True
  then show thesis using uncached k by (auto simp: run_cached_def Let_def split: option.split)
next
  case False
  then obtain ac weak identity where f: "se_cache se = Some ac" "key = Some (weak, identity)" by auto
  obtain r st where r: "resolve blake3 ac (se_resolve_env se) weak (dm_cache dm) = (r, st)" by (meson surj_pair)
  show thesis
  proof (cases "\<exists>code so se'. r = Inr (Hit code so se')")
    case True
    then obtain code so se' where h: "r = Inr (Hit code so se')" by blast
    show thesis by (rule hit [OF f r [unfolded h]]) (simp add: run_cached_def Let_def k f r [unfolded h] h)
  next
    case False
    then have "(\<exists>e. r = Inl e) \<or> r = Inr Miss" by (cases r; cases "projr r") auto
    then show thesis by (intro miss [OF f r]) (auto simp: run_cached_def Let_def k f r)
  qed
qed

lemma run_cached_completes:
  assumes "finite U" and "\<And>opts n. we_worker_id ` set (de_snapshot (se_dispatch se opts) n) \<subseteq> U" and "card U < fuel"
    and "\<And>k. map_of (ss_in_flight (dm_sched dm)) k \<noteq> Some 0 \<and> map_of (ss_in_flight (dm_sched dm)) k \<noteq> Some (- 1)"
    and vfs: "se_vfs se"
  shows "completes (run_cached fuel blake3 lc se rq dm) (silenced se) dm"
proof -
  have miss: "completes (run_miss fuel blake3 lc se rq key dm1) (silenced se) dm"
    if "dm_sched dm1 = dm_sched dm" "mx_in_flight (dm_metrics dm1) = mx_in_flight (dm_metrics dm)" for key dm1
    using run_miss_completes [OF assms(1-3), of dm1 blake3 lc rq key] assms(4) vfs that by (simp add: completes_def)
  obtain key memo where k: "submission_key blake3 se rq (dm_memo dm) = (key, memo)" by (meson surj_pair)
  show ?thesis
  proof (cases rule: run_cached_cases [OF k, of fuel lc])
    case (3 ac weak identity code so se' st)
    then show ?thesis using emit_hit_answered by (simp add: completes_def)
  qed (use miss in simp_all)
qed


section \<open>What is recorded\<close>

text \<open>
  A run that may be recorded: traced, not declared non-deterministic, a verified tool that the
  agent resolved to a file and hashed to \<open>d\<close>, and an exit status 0 from a worker that reports
  the same digest.
\<close>

definition recordable :: "submit_env \<Rightarrow> submit_request \<Rightarrow> tool_identity \<Rightarrow> action_outcome \<Rightarrow> bool" where
  "recordable se rq identity oc \<longleftrightarrow> trace_dir_of se rq \<noteq> [] \<and> \<not> sq_non_deterministic rq \<and> is_verified_tool (se_verified_tools se) (sq_argv0 rq)
     \<and> (\<exists>d path. identity = ContentTool d path \<and> oc_resolved_tool_digest oc = digest_canonical d) \<and> oc_exit_code oc = Some 0"

lemma should_record_iff:
  "should_record_cache v identity reported \<longleftrightarrow> v \<and> (\<exists>d path. identity = ContentTool d path \<and> reported = digest_canonical d)"
  by (cases identity) (auto simp: should_record_cache_def worker_tool_matches_def)

lemma record_submission_cache:
  "dm_cache (record_submission blake3 se rq key outcome dm) =
     (case (se_cache se, key, outcome) of
        (Some ac, Some (weak, identity), RemoteRun oc) \<Rightarrow>
          if recordable se rq identity oc
          then record_verified blake3 ac se rq weak identity oc ((dm_cache dm)\<lparr>as_root := se_record_root se (sr_files (dm_server dm))\<rparr>)
          else dm_cache dm
      | _ \<Rightarrow> dm_cache dm)"
  by (auto simp: record_submission_def recordable_def should_record_iff Let_def split: option.split execution.split)

lemma submission_key_SomeD:
  "submission_key blake3 se rq memo = (Some (weak, identity), memo') \<Longrightarrow>
     se_cache se \<noteq> None \<and> \<not> sq_non_deterministic rq
     \<and> weak = weak_fingerprint blake3 (cmd_argv (sq_command rq)) (sort (cmd_env (sq_command rq))) (cmd_cwd (sq_command rq)) (identity_digest identity)"
  by (auto simp: submission_key_def weak_key_and_tool_def split: if_splits prod.splits)

text \<open>The disk of the cache moves only by the recording phase.\<close>

lemma run_miss_disk:
  assumes "run_miss fuel blake3 lc se rq key dm = Some (evs, dm')" "as_disk (dm_cache dm') \<noteq> as_disk (dm_cache dm)"
  shows "\<exists>ac weak identity oc n ss. se_cache se = Some ac \<and> key = Some (weak, identity) \<and> recordable se rq identity oc
    \<and> evs \<in> {[], emit_outcome (RemoteRun oc)} \<and> mx_exec_remote (dm_metrics dm') = mx_exec_remote (dm_metrics dm) + 1
    \<and> dispatch_observed fuel blake3 se rq (exec_options_of blake3 lc se rq (Some weak) (as_disk (dm_cache dm))) (dm_sched dm)
        = Some (RemoteRun oc, n, ss)"
proof -
  obtain outcome dm1 where r: "run_session fuel blake3 lc se rq (map_option fst key) dm = Some (outcome, dm1)"
      "evs = (if se_phase se \<in> {None, Some Idle, Some NaturalReaped} then emit_outcome outcome else [])"
      "dm' = bump (record_outcome outcome) (record_submission blake3 se rq key outcome dm1)"
    using assms(1) by (auto simp: run_miss_def split: option.splits prod.splits)
  note spec = run_session_spec [OF r(1)]
  show ?thesis
  proof -
    obtain ac weak identity oc where stored: "se_cache se = Some ac" "key = Some (weak, identity)" "outcome = RemoteRun oc"
        "recordable se rq identity oc"
      using assms(2) r(3) spec(1) by (auto simp: record_submission_cache split: option.splits execution.splits if_splits)
    have "mx_exec_remote (dm_metrics (record_submission blake3 se rq key outcome dm1)) = mx_exec_remote (dm_metrics dm1)"
      using stored by (simp add: record_submission_def Let_def record_compiler_digest_mismatch_def)
    then have "mx_exec_remote (dm_metrics dm') = mx_exec_remote (dm_metrics dm) + 1"
      using r(3) stored(3) spec(2) by (simp add: record_outcome_def)
    moreover have "evs \<in> {[], emit_outcome (RemoteRun oc)}" using r(2) stored(3) by simp
    ultimately show ?thesis using stored spec(4) by auto
  qed
qed

lemma run_cached_disk:
  assumes run: "run_cached fuel blake3 lc se rq dm = Some (evs, dm')" and moved: "as_disk (dm_cache dm') \<noteq> as_disk (dm_cache dm)"
    and k: "submission_key blake3 se rq (dm_memo dm) = (key, memo)"
  shows "\<exists>weak identity oc opts n ss. key = Some (weak, identity) \<and> recordable se rq identity oc
    \<and> evs \<in> {[], emit_outcome (RemoteRun oc)} \<and> mx_exec_remote (dm_metrics dm') = mx_exec_remote (dm_metrics dm) + 1
    \<and> dispatch_observed fuel blake3 se rq opts (dm_sched dm) = Some (RemoteRun oc, n, ss)"
proof (cases rule: run_cached_cases [OF k, of fuel lc])
  case 1
  with run run_miss_disk [of fuel blake3 lc se rq key "dm\<lparr>dm_memo := memo\<rparr>" evs dm'] moved show ?thesis by fastforce
next
  case (2 ac weak identity r st)
  have "as_disk st = as_disk (dm_cache dm)" using resolve_keeps_disk [OF 2(3)] .
  with 2(4) run run_miss_disk [of fuel blake3 lc se rq key "bump record_cache_miss (dm\<lparr>dm_memo := memo, dm_cache := st\<rparr>)" evs dm'] moved
  show ?thesis by (fastforce simp: record_cache_miss_def)
next
  case (3 ac weak identity code so se' st)
  then have "dm_cache dm' = st" using run by auto
  with moved resolve_keeps_disk [OF 3(3)] show ?thesis by simp
qed

text \<open>
  C5. Only a verified remote run is ever recorded. When a submission has changed anything on the
  cache's disk, the action was declared deterministic, its tool is in the verified profile,
  the agent had resolved that tool to a file and hashed it to a digest, a worker ran the
  action to exit status 0 and reported the very same digest for the tool it ran, and the
  launcher was told of that remote run or of nothing. A run whose publication failed, a local
  run, a failed run, a differing compiler or an unresolved one leaves the cache as it was.
\<close>
theorem record_guarded:
  assumes run: "run_submission fuel blake3 lc se rq dm = Some (evs, dm')" and moved: "as_disk (dm_cache dm') \<noteq> as_disk (dm_cache dm)"
  shows "\<exists>weak d path memo oc opts n ss. \<not> sq_non_deterministic rq \<and> is_verified_tool (se_verified_tools se) (sq_argv0 rq)
    \<and> submission_key blake3 se rq (dm_memo dm) = (Some (weak, ContentTool d path), memo)
    \<and> dispatch_observed fuel blake3 se rq opts (dm_sched dm) = Some (RemoteRun oc, n, ss)
    \<and> oc_exit_code oc = Some 0 \<and> oc_resolved_tool_digest oc = digest_canonical d
    \<and> evs \<in> {[], emit_outcome (RemoteRun oc)} \<and> mx_exec_remote (dm_metrics dm') = mx_exec_remote (dm_metrics dm) + 1"
proof -
  obtain dm1 where d: "dm' = bump in_flight_guard_drop dm1"
      "(if se_vfs se then run_cached fuel blake3 lc se rq (bump in_flight_guard dm)
        else run_plain fuel blake3 se rq (bump in_flight_guard dm)) = Some (evs, dm1)"
    using run by (auto simp: run_submission_def split: if_splits)
  have "se_vfs se" using d moved by (auto simp: run_plain_def split: if_splits)
  with d have c: "run_cached fuel blake3 lc se rq (bump in_flight_guard dm) = Some (evs, dm1)" by simp
  obtain key memo where k: "submission_key blake3 se rq (dm_memo dm) = (key, memo)" by (meson surj_pair)
  obtain weak identity oc opts n ss where x: "key = Some (weak, identity)" "recordable se rq identity oc"
      "evs \<in> {[], emit_outcome (RemoteRun oc)}" "mx_exec_remote (dm_metrics dm1) = mx_exec_remote (dm_metrics (bump in_flight_guard dm)) + 1"
      "dispatch_observed fuel blake3 se rq opts (dm_sched dm) = Some (RemoteRun oc, n, ss)"
    using run_cached_disk [OF c, of key memo] moved k d(1) by auto
  then obtain dg path where i: "identity = ContentTool dg path" "oc_resolved_tool_digest oc = digest_canonical dg"
    by (auto simp: recordable_def)
  have "mx_exec_remote (dm_metrics dm') = mx_exec_remote (dm_metrics dm) + 1"
    using x(4) by (simp add: d(1) in_flight_guard_def in_flight_guard_drop_def)
  then show ?thesis
    using x i k by (intro exI [of _ weak] exI [of _ dg] exI [of _ path] exI [of _ memo] exI [of _ oc] exI [of _ opts]
        exI [of _ n] exI [of _ ss]) (simp add: recordable_def)
qed

section \<open>Where a hit comes from\<close>

text \<open>One recorded run: the submission, its key, its outcome, and the entry it made.\<close>

record recording =
  rc_env :: submit_env
  rc_request :: submit_request
  rc_identity :: tool_identity
  rc_outcome :: action_outcome
  rc_event :: cache_event

definition recordings ::
    "hash_fn \<Rightarrow> submit_env \<Rightarrow> submit_request \<Rightarrow> (digest \<times> tool_identity) option \<Rightarrow> execution \<Rightarrow> daemon \<Rightarrow> recording list" where
  "recordings blake3 se rq key outcome dm =
     (case (key, outcome) of
        (Some (weak, identity), RemoteRun oc) \<Rightarrow>
          (case record_plan se rq identity of
             Some (manifest, outs) \<Rightarrow>
               if se_cache se \<noteq> None \<and> recordable se rq identity oc then
                 [\<lparr>rc_env = se, rc_request = rq, rc_identity = identity, rc_outcome = oc,
                   rc_event = recorded_event blake3 (se_record_env se) weak manifest outs 0 (oc_stdout oc) (oc_stderr oc)
                     ((dm_cache dm)\<lparr>as_root := se_record_root se (sr_files (dm_server dm))\<rparr>)\<rparr>]
               else []
           | None \<Rightarrow> [])
      | _ \<Rightarrow> [])"

text \<open>
  The states of the daemon's cache: submissions look up and record in any interleaving, and the
  world outside takes entries away. The log has what was recorded.
\<close>

inductive intake_reach :: "hash_fn \<Rightarrow> action_cache \<Rightarrow> agent_state \<Rightarrow> recording list \<Rightarrow> bool" for blake3 ac where
  intake_start: "dk_files (as_disk st) = (\<lambda>_. FsNotFound) \<Longrightarrow> intake_reach blake3 ac st []"
| intake_lookup: "intake_reach blake3 ac st log \<Longrightarrow> resolve blake3 ac env weak st = (r, st') \<Longrightarrow> intake_reach blake3 ac st' log"
| intake_record: "\<lbrakk>intake_reach blake3 ac (dm_cache dm) log; se_cache se = Some ac;
    submission_key blake3 se rq memo = (key, memo')\<rbrakk>
    \<Longrightarrow> intake_reach blake3 ac (dm_cache (record_submission blake3 se rq key outcome dm)) (recordings blake3 se rq key outcome dm @ log)"
| intake_world: "intake_reach blake3 ac st log \<Longrightarrow> world_step st st' \<Longrightarrow> intake_reach blake3 ac st' log"

definition genuine :: "hash_fn \<Rightarrow> recording \<Rightarrow> bool" where
  "genuine blake3 r \<longleftrightarrow> recordable (rc_env r) (rc_request r) (rc_identity r) (rc_outcome r)
     \<and> ce_weak (rc_event r) = weak_fingerprint blake3 (cmd_argv (sq_command (rc_request r))) (sort (cmd_env (sq_command (rc_request r))))
         (cmd_cwd (sq_command (rc_request r))) (identity_digest (rc_identity r))
     \<and> (\<forall>s res. ce_result (rc_event r) = Some (s, res) \<longrightarrow> ar_exit_code res = 0)"

lemma recordings_genuine:
  assumes "submission_key blake3 se rq memo = (key, memo')" "r \<in> set (recordings blake3 se rq key outcome dm)"
  shows "genuine blake3 r"
proof -
  obtain weak identity oc m outs where f: "key = Some (weak, identity)" "outcome = RemoteRun oc" "recordable se rq identity oc"
      "r = \<lparr>rc_env = se, rc_request = rq, rc_identity = identity, rc_outcome = oc,
        rc_event = recorded_event blake3 (se_record_env se) weak m outs 0 (oc_stdout oc) (oc_stderr oc)
          ((dm_cache dm)\<lparr>as_root := se_record_root se (sr_files (dm_server dm))\<rparr>)\<rparr>"
    using assms(2) by (auto simp: recordings_def split: option.splits execution.splits prod.splits if_splits)
  have "ar_exit_code res = 0" if "ce_result (rc_event r) = Some (s, res)" for s res
  proof -
    from that f(4) obtain bl' where "prepare_result blake3 (se_record_env se) weak m outs 0 (oc_stdout oc) (oc_stderr oc)
        (se_record_root se (sr_files (dm_server dm))) (as_blobs (dm_cache dm)) = (Inr (Some (s, res)), bl')"
      by (auto simp: recorded_event_def prepared_def split: sum.splits) (metis prod.collapse)
    then show ?thesis by (rule prepare_result_spec(2))
  qed
  then show ?thesis using f(3,4) submission_key_SomeD [OF assms(1) [unfolded f(1)]]
    by (simp add: genuine_def recorded_event_def)
qed

lemma submission_key_ok: "blake3_output blake3 \<Longrightarrow> submission_key blake3 se rq memo = (Some (weak, identity), memo') \<Longrightarrow> digest_ok weak"
  using submission_key_SomeD digest_of_ok by (metis weak_fingerprint_def)

lemma intake_reach_agent:
  assumes "intake_reach blake3 ac st log" "blake3_output blake3"
  shows "agent_reach blake3 ac st (map rc_event log) \<and> (\<forall>r \<in> set log. genuine blake3 r)"
  using assms(1)
proof induction
  case (intake_start st)
  then show ?case by (simp add: reach_start)
next
  case (intake_lookup st log env weak r st')
  then show ?case using reach_resolve by fastforce
next
  case (intake_world st log st')
  then show ?case using reach_world by fastforce
next
  case (intake_record dm log se rq memo key memo' outcome)
  let ?st = "(dm_cache dm)\<lparr>as_root := se_record_root se (sr_files (dm_server dm))\<rparr>"
  have g: "\<forall>r \<in> set (recordings blake3 se rq key outcome dm @ log). genuine blake3 r"
    using intake_record.IH recordings_genuine [OF intake_record.hyps(3)] by auto
  have ar: "agent_reach blake3 ac (dm_cache dm) (map rc_event log)" using intake_record.IH by simp
  then have viewed: "agent_reach blake3 ac ?st (map rc_event log)" by (rule reach_world) (simp add: world_step_def)
  have "agent_reach blake3 ac (dm_cache (record_submission blake3 se rq key outcome dm))
      (map rc_event (recordings blake3 se rq key outcome dm) @ map rc_event log)"
  proof (cases "\<exists>weak identity oc. key = Some (weak, identity) \<and> outcome = RemoteRun oc \<and> recordable se rq identity oc")
    case False
    then have "recordings blake3 se rq key outcome dm = []"
        "dm_cache (record_submission blake3 se rq key outcome dm) = dm_cache dm"
      by (auto simp: recordings_def record_submission_cache split: option.split execution.split)
    then show ?thesis using ar by simp
  next
    case True
    then obtain weak identity oc where f: "key = Some (weak, identity)" "outcome = RemoteRun oc" "recordable se rq identity oc" by blast
    have cache: "dm_cache (record_submission blake3 se rq key outcome dm) = record_verified blake3 ac se rq weak identity oc ?st"
      using f intake_record.hyps(2) by (simp add: record_submission_cache)
    have "digest_ok weak" using submission_key_ok [OF assms(2) intake_record.hyps(3) [unfolded f(1)]] .
    from reach_record [OF viewed this prod.collapse [symmetric]] show ?thesis
      using viewed f intake_record.hyps(2) unfolding cache
      by (auto simp: recordings_def record_verified_def recorded_event_def split: option.splits)
  qed
  then show ?case using g by simp
qed

text \<open>
  C2. A cached answer stands for a real run. In every state that lookups, recordings and losses
  lead to, when a submission's lookup hits, the submission runs nothing (no session, no
  dispatch, no local process: the server and the scheduler stay as they are) and reports exit
  status 0; and there is a recorded submission with the same weak key that a worker had run to
  exit status 0 with a verified tool of the very digest the agent had computed, and whose
  recorded inputs read now as they did then, unless one of the two hash functions collides on
  the strings involved.
\<close>
theorem hit_genuine:
  assumes reach: "intake_reach blake3 (action_cache_open root) (dm_cache dm) log" and blake3: "blake3_output blake3"
    and ok: "\<forall>r \<in> set log. event_ok blake3 (rc_event r)"
    and se: "se_vfs se" "se_cache se = Some (action_cache_open root)"
    and key: "submission_key blake3 se rq (dm_memo dm) = (Some (weak, identity), memo)"
    and inj: "inj_on blake3 (strong_blobs (ae_fs (se_resolve_env se)) weak (map rc_event log))"
      "inj_on sha256_hex (sha_strings (ae_fs (se_resolve_env se)) (map rc_event log))"
    and hit: "resolve blake3 (action_cache_open root) (se_resolve_env se) weak (dm_cache dm) = (Inr (Hit code so er), st)"
  shows "\<exists>dm'. run_submission fuel blake3 lc se rq dm = Some (emit_hit 0 so er, dm')
    \<and> dm_server dm' = dm_server dm \<and> dm_sched dm' = dm_sched dm
    \<and> (\<exists>r \<in> set log. \<exists>stored \<in> set log. genuine blake3 r \<and> ce_weak (rc_event r) = weak \<and> ce_weak (rc_event stored) = weak
        \<and> same_inputs (ae_fs (se_resolve_env se)) (ce_manifest (rc_event stored)) (ce_fs (rc_event r)) (ce_manifest (rc_event r)))"
proof -
  note ag = intake_reach_agent [OF reach blake3]
  obtain r stored s res where r: "r \<in> set log" "stored \<in> set log" "ce_weak (rc_event r) = weak" "ce_weak (rc_event stored) = weak"
      "ce_result (rc_event r) = Some (s, res)" "code = ar_exit_code res"
      "same_inputs (ae_fs (se_resolve_env se)) (ce_manifest (rc_event stored)) (ce_fs (rc_event r)) (ce_manifest (rc_event r))"
    using hit_was_recorded [OF conjunct1 [OF ag] blake3 _ submission_key_ok [OF blake3 key] inj hit] ok by auto
  have "genuine blake3 r" using ag r(1) by blast
  then have "code = 0" using r(5,6) by (simp add: genuine_def)
  with hit se key have "run_submission fuel blake3 lc se rq dm = Some (emit_hit 0 so er,
      bump in_flight_guard_drop (bump record_cache_hit ((bump in_flight_guard dm)\<lparr>dm_memo := memo, dm_cache := st\<rparr>)))"
    by (simp add: run_submission_def run_cached_def Let_def)
  then show ?thesis using r \<open>genuine blake3 r\<close> by auto
qed

end
