(* ===== verification/Submission_Examples.thy ===== *)
theory Submission_Examples
  imports Submission
begin

text \<open>
  One submission worked out from end to end: a compiler found on the path, a traced remote run
  that is recorded, and the same submission answered from the cache. The theorems of
  \<open>Submission\<close> and \<open>Cache_Queries\<close> are instantiated on it.
\<close>

section \<open>The compiler and its key\<close>

definition sub_command :: command where
  "sub_command = \<lparr>cmd_argv = [''cl''], cmd_env = [(''PATH'', the tool_demo_path)], cmd_cwd = []\<rparr>"

definition sub_rq :: submit_request where
  "sub_rq = \<lparr>sq_command = sub_command, sq_declared_outputs = [''a.obj''], sq_non_deterministic = False, sq_strict_vfs = False,
     sq_input_root = ''C:'' @ [bsl] @ ''w'', sq_action_id = ''intake-0'', sq_session_id = ''s'', sq_number = 0\<rparr>"

abbreviation sub_digest :: digest where "sub_digest \<equiv> digest_of toy_hash [1]"

definition sub_outcome :: action_outcome where
  "sub_outcome = \<lparr>oc_states = [], oc_exit_code = Some 0, oc_wall_time_us = 5, oc_resolved_tool_digest = digest_canonical sub_digest,
     oc_stdout = [], oc_stderr = []\<rparr>"

definition sub_dispatch :: dispatch_env where
  "sub_dispatch = \<lparr>de_snapshot = (\<lambda>n. [demo_worker ''a'']), de_result = (\<lambda>n w. Outcome sub_outcome), de_observed = (\<lambda>n. []),
     de_local_exit = None, de_clock = id\<rparr>"

definition sub_trace :: bytes where "sub_trace = encode_header sample_header"

definition sub_se :: submit_env where
  "sub_se = \<lparr>se_vfs = True, se_cache = Some demo_cache, se_agent_fileserver = [], se_scratch_root = ''C:'', se_verified_tools = None,
     se_world = (\<lambda>t. tool_demo_fs [1]), se_found_at = 0, se_times = tool_demo_call 0, se_memo_found = [],
     se_resolve_env = Agent_Cache.demo_env, se_opens = (\<lambda>_. True), se_now = 0, se_dispatch = (\<lambda>_. sub_dispatch), se_route_away = None,
     se_data_plane = id, se_publish = (\<lambda>_. \<lparr>pb_tamper = id, pb_rename = True, pb_remove = True\<rparr>), se_publish_error = [],
     se_remove = True, se_fallback_exit = None, se_fallback_at = 0, se_record_env = Agent_Cache.demo_env,
     se_record_root = (\<lambda>_. as_root demo_start), se_trace_listing = Inr [Inr ''t.sbzt''], se_trace_read = (\<lambda>_. Inr sub_trace),
     se_phase = None\<rparr>"

definition sub_daemon :: daemon where
  "sub_daemon = \<lparr>dm_cache = demo_start, dm_server = server_new no_files, dm_sched = \<lparr>ss_in_flight = [], ss_tracker = tracker_default\<rparr>,
     dm_metrics = \<lparr>mx_cache_hits = 0, mx_cache_misses = 0, mx_exec_remote = 0, mx_exec_local = 0, mx_exec_fallback = 0,
       mx_compiler_digest_mismatch = 0, mx_in_flight = 0\<rparr>, dm_memo = []\<rparr>"

definition sub_weak :: digest where
  "sub_weak = weak_fingerprint toy_hash [''cl''] [(''PATH'', the tool_demo_path)] [] sub_digest"

definition sub_tool :: tool_identity where "sub_tool = ContentTool sub_digest tool_demo_cl"

lemma sub_resolved: "resolve_program (tool_demo_fs [1]) ''cl'' (Some (the tool_demo_path)) [] = Some tool_demo_cl"
  by code_simp

lemma sub_env_path: "env_path [(''PATH'', the tool_demo_path)] = Some (the tool_demo_path)"
proof -
  have "eq_ignore_ascii_case ''PATH'' ''PATH''" by (simp add: eq_ignore_ascii_case_def)
  then show ?thesis by (simp add: env_path_def)
qed

lemma sub_identity:
  "\<exists>memo. toolchain_identity toy_hash (\<lambda>t. tool_demo_fs [1]) 0 (tool_demo_call 0) ''cl'' (Some (the tool_demo_path)) [] [] memo0 = (sub_tool, memo)"
  unfolding toolchain_identity_def sub_resolved
  by (simp add: digest_file_memoized_def memo_key_def tool_demo_fs_def tool_demo_cl_def memo_lookup_def hash_file_def hasher_new_def
      hasher_update_def hasher_finalize_def sub_tool_def)

lemma sub_key: "\<exists>memo. submission_key toy_hash sub_se sub_rq memo0 = (Some (sub_weak, sub_tool), memo)"
proof -
  obtain memo where "toolchain_identity toy_hash (\<lambda>t. tool_demo_fs [1]) 0 (tool_demo_call 0) ''cl'' (Some (the tool_demo_path)) [] [] memo0 = (sub_tool, memo)"
    using sub_identity by blast
  then show ?thesis
    by (simp add: submission_key_def sub_se_def sub_rq_def sub_command_def weak_key_and_tool_def sub_env_path sub_weak_def sub_tool_def)
qed

section \<open>The trace and the manifest\<close>

definition sub_manifest :: input_manifest where
  "sub_manifest = \<lparr>im_inputs = [], im_cmds = [''c''], im_cacheable = True\<rparr>"

definition sub_run :: trace where "sub_run = trace_of sample_header [] False"

lemma sub_parse: "parse sub_trace = Inr sub_run"
proof -
  have "parse (encode_header sample_header @ concat (map encode_record []) @ []) = Inr (trace_of sample_header (map event_of []) ([] \<noteq> ([] :: bytes)))"
    by (rule parse_encoded [of _ _ sample_record])
       (simp_all add: header_ok_def sample_header_def MAX_STRING_UNITS_def raw_ok_def sample_record_def strict_prefix_def encode_record_def
         encode_header_def encode_units_def MAGIC_def usize_bound_def)
  then show ?thesis by (simp add: sub_trace_def sub_run_def)
qed

lemma sub_lossy: "from_utf16_lossy [99, 108] = ''cl''" "from_utf16_lossy [99] = ''c''" "from_utf16_lossy [] = []"
  by (simp_all add: from_utf16_lossy_def is_high_surrogate_def is_low_surrogate_def encode_utf8_char_def char_of_eq_iff take_bit_eq_mod)

lemma sub_graph:
  "dg_inputs (build_graph [sub_run]) = [] \<and> dg_outputs (build_graph [sub_run]) = [] \<and> dg_registry (build_graph [sub_run]) = []
   \<and> dg_env (build_graph [sub_run]) = [] \<and> dg_warnings (build_graph [sub_run]) = []
   \<and> map pn_command_line (dg_processes (build_graph [sub_run])) = [''c'']"
  by (simp add: build_graph_def sub_run_def trace_of_def sample_header_def sub_lossy link_children_def node_of_def graph_roots_def
      truncated_warnings_def gap_warnings_def fold_trace_def accumulator_new_def bt_values_def bt_insert_def Let_def)

lemma sub_root: "effective_root (root_decl sub_rq) cwd = ''c:'' @ [bsl] @ ''w''"
proof -
  have 1: "str_trim (''C:'' @ [bsl] @ ''w'') = ''C:'' @ [bsl] @ ''w''" by code_simp
  have 2: "normalize_for_compare (''C:'' @ [bsl] @ ''w'') = ''c:'' @ [bsl] @ ''w''" by code_simp
  have 3: "normalize_for_compare (''c:'' @ [bsl] @ ''w'') = ''c:'' @ [bsl] @ ''w''" by code_simp
  have 4: "\<not> is_blank (''c:'' @ [bsl] @ ''w'')" by code_simp
  have "root_decl sub_rq = Some (''c:'' @ [bsl] @ ''w'')"
    using 1 2 by (simp add: root_decl_def sub_rq_def Let_def)
  then show ?thesis using 3 4 by (simp add: effective_root_def)
qed

lemma sub_command_line: "replace_sub (''c:'' @ [bsl] @ ''w'') ''.'' (to_ascii_lowercase ''c'') = ''c''"
  by code_simp

lemma sub_policy: "input_manifest_with_policy fs (build_graph [sub_run]) (''c:'' @ [bsl] @ ''w'') policy = sub_manifest"
proof -
  have "map (\<lambda>p. replace_sub (''c:'' @ [bsl] @ ''w'') ''.'' (to_ascii_lowercase (pn_command_line p))) (dg_processes (build_graph [sub_run]))
      = map (\<lambda>c. replace_sub (''c:'' @ [bsl] @ ''w'') ''.'' (to_ascii_lowercase c)) (map pn_command_line (dg_processes (build_graph [sub_run])))"
    by simp
  also have "\<dots> = [''c'']" using sub_graph sub_command_line by simp
  finally show ?thesis
    using sub_graph unfolding input_manifest_with_policy_def side_effects_allowed_def Let_def by (simp add: sub_manifest_def)
qed

lemma sub_sbzt: "is_sbzt ''t.sbzt''"
  by code_simp

lemma sub_load: "\<exists>cwd. load_run_from_dir dir (Inr [Inr ''t.sbzt'']) (\<lambda>_. Inr sub_trace) = Inr (build_graph [sub_run], cwd)"
  by (simp add: load_run_from_dir_def load_traces_from_dir_def sub_sbzt sub_parse Let_def)

lemma sub_plan: "record_plan sub_se sub_rq sub_tool = Some (sub_manifest, [''a.obj''])"
proof -
  obtain cwd where "load_run_from_dir (trace_dir_of sub_se sub_rq) (Inr [Inr ''t.sbzt'']) (\<lambda>_. Inr sub_trace) = Inr (build_graph [sub_run], cwd)"
    using sub_load by blast
  then have "manifest_from_trace_dir_verified_tool (ae_fs (se_record_env sub_se))
      \<lparr>td_path = trace_dir_of sub_se sub_rq, td_listing = se_trace_listing sub_se, td_read = se_trace_read sub_se\<rparr> (root_decl sub_rq) sub_tool = Inr sub_manifest"
    using sub_root [of cwd] sub_policy by (simp add: manifest_from_trace_dir_verified_tool_def load_run_def sub_se_def)
  then show ?thesis by (simp add: record_plan_def Let_def) (simp add: sub_rq_def)
qed

section \<open>The recording\<close>

lemma sub_hash: "\<exists>h. manifest_hash (ae_fs Agent_Cache.demo_env) sub_manifest = Some h"
  by (simp add: manifest_hash_def manifest_components_def sub_manifest_def)

definition sub_h :: string where "sub_h = the (manifest_hash (ae_fs Agent_Cache.demo_env) sub_manifest)"

lemma sub_manifest_hash: "manifest_hash (ae_fs Agent_Cache.demo_env) sub_manifest = Some sub_h"
  using sub_hash by (auto simp: sub_h_def)

lemma sub_prepare:
  "prepare_result toy_hash Agent_Cache.demo_env sub_weak sub_manifest [''a.obj''] 0 [] [] (as_root demo_start) (as_blobs demo_start)
   = (Inr (Some (strong_fingerprint toy_hash sub_weak sub_h, demo_result)), as_blobs demo_recorded)"
  unfolding prepare_result_def demo_ingest
  by (simp add: sub_manifest_hash ingest_stream_def) (simp add: demo_result_def)

lemma sub_record:
  "\<exists>st. record_action toy_hash demo_cache Agent_Cache.demo_env sub_weak sub_manifest [''a.obj''] 0 [] [] demo_start = (Inr (), st)
     \<and> as_disk st \<noteq> as_disk demo_start"
proof -
  let ?dk = "(as_disk demo_start)\<lparr>dk_files := (\<lambda>_. FsNotFound)(key_path (ac_weak_root demo_cache) sub_weak := FsOk (encode_manifest toy_hash sub_manifest))\<rparr>"
  have 1: "put_manifest demo_cache sub_weak (encode_manifest toy_hash sub_manifest) (as_disk demo_start) = (True, ?dk)"
    by (simp add: put_manifest_def write_atomic_def demo_start_def)
  have g: "im_cacheable sub_manifest" "ae_root_ok Agent_Cache.demo_env" by (simp_all add: sub_manifest_def Agent_Cache.demo_env_def)
  obtain st where st: "record_action toy_hash demo_cache Agent_Cache.demo_env sub_weak sub_manifest [''a.obj''] 0 [] [] demo_start = (Inr (), st)"
    unfolding record_action_def 1 sub_prepare using g
    by (simp add: demo_root_rel put_result_def write_atomic_def) (simp add: demo_start_def)
  have nf: "\<And>p. \<not> dk_rename_fails (as_disk demo_start) p" by (simp add: demo_start_def)
  obtain s res where "dk_files (as_disk st) (key_path (ac_weak_root demo_cache) sub_weak) = FsOk (encode_manifest toy_hash sub_manifest)"
    using record_action_stored [OF st g(1) demo_cache_def sub_manifest_hash nf] by metis
  then have "as_disk st \<noteq> as_disk demo_start" by (auto simp: demo_start_def)
  with st show ?thesis by blast
qed

definition sub_recorded :: agent_state where
  "sub_recorded = snd (record_action toy_hash demo_cache Agent_Cache.demo_env sub_weak sub_manifest [''a.obj''] 0 [] [] demo_start)"

lemma sub_verified: "is_verified_tool (se_verified_tools sub_se) (sq_argv0 sub_rq)"
proof -
  have "is_verified_tool None ''cl''" by code_simp
  then show ?thesis by (simp add: sub_se_def sq_argv0_def sub_rq_def sub_command_def)
qed

lemma sub_trace_dir: "trace_dir_of sub_se sub_rq \<noteq> []"
proof -
  have "path_push ''C:'' (''trace-'' @ dec 0) \<noteq> []" by code_simp
  then show ?thesis by (simp add: trace_dir_of_def sub_se_def sub_rq_def)
qed

lemma sub_recordable: "recordable sub_se sub_rq sub_tool sub_outcome"
  using sub_verified sub_trace_dir by (simp add: recordable_def sub_tool_def sub_outcome_def) (simp add: sub_rq_def)

lemma sub_record_submission:
  "dm_cache dm = demo_start \<Longrightarrow>
   dm_cache (record_submission toy_hash sub_se sub_rq (Some (sub_weak, sub_tool)) (RemoteRun sub_outcome) dm) = sub_recorded"
proof -
  assume dm: "dm_cache dm = demo_start"
  have "demo_start\<lparr>as_root := as_root demo_start\<rparr> = demo_start" by simp
  moreover have "se_cache sub_se = Some demo_cache" "se_record_root sub_se = (\<lambda>_. as_root demo_start)"
      "se_record_env sub_se = Agent_Cache.demo_env" by (simp_all add: sub_se_def)
  ultimately show ?thesis using sub_recordable sub_plan dm
    by (simp add: record_submission_cache record_verified_def sub_recorded_def) (simp add: sub_outcome_def)
qed

definition sub_recording :: recording where
  "sub_recording = \<lparr>rc_env = sub_se, rc_request = sub_rq, rc_identity = sub_tool, rc_outcome = sub_outcome,
     rc_event = \<lparr>ce_weak = sub_weak, ce_manifest = sub_manifest, ce_fs = ae_fs Agent_Cache.demo_env,
       ce_result = Some (strong_fingerprint toy_hash sub_weak sub_h, demo_result)\<rparr>\<rparr>"

lemma sub_event: "recorded_event toy_hash Agent_Cache.demo_env sub_weak sub_manifest [''a.obj''] 0 [] [] demo_start = rc_event sub_recording"
  unfolding recorded_event_def sub_prepare by (simp add: prepared_def sub_recording_def)

lemma sub_recordings:
  "recordings toy_hash sub_se sub_rq (Some (sub_weak, sub_tool)) (RemoteRun sub_outcome) sub_daemon = [sub_recording]"
proof -
  have "oc_stdout sub_outcome = []" "oc_stderr sub_outcome = []" by (simp_all add: sub_outcome_def)
  moreover have "(dm_cache sub_daemon)\<lparr>as_root := se_record_root sub_se f\<rparr> = demo_start" for f
    by (simp add: sub_daemon_def sub_se_def)
  moreover have "se_cache sub_se \<noteq> None" "se_record_env sub_se = Agent_Cache.demo_env" by (simp_all add: sub_se_def)
  ultimately show ?thesis
    unfolding recordings_def using sub_recordable by (simp add: sub_plan sub_event) (simp add: sub_recording_def)
qed

lemma sub_reach: "intake_reach toy_hash (action_cache_open ''c'') sub_recorded [sub_recording]"
proof -
  have start: "intake_reach toy_hash (action_cache_open ''c'') (dm_cache sub_daemon) []"
    by (rule intake_start) (simp add: sub_daemon_def demo_start_def)
  obtain memo where k: "submission_key toy_hash sub_se sub_rq [] = (Some (sub_weak, sub_tool), memo)" using sub_key by blast
  have "dm_cache sub_daemon = demo_start" "se_cache sub_se = Some (action_cache_open ''c'')"
    by (simp_all add: sub_daemon_def sub_se_def demo_cache_def)
  from intake_record [OF start this(2) k, of "RemoteRun sub_outcome"] sub_record_submission [OF this(1)] show ?thesis
    by (simp add: sub_recordings)
qed

lemma sub_event_ok: "event_ok toy_hash (rc_event sub_recording)"
proof -
  have "utf8_str ''c''" unfolding utf8_str_def by code_simp
  then have "manifest_ok sub_manifest"
    by (simp add: manifest_ok_def sub_manifest_def cstr_ok_def MAX_INPUTS_def MAX_CMDS_def MAX_STRING_LEN_def)
  moreover have "length (encode_manifest toy_hash sub_manifest) < usize_bound"
    by (simp add: encode_manifest_def manifest_body_def sub_manifest_def put_str_def MANIFEST_CODEC_MAGIC_def codec_checksum_def
        usize_bound_def toy_hash_def)
  moreover have "manifest_wf sub_manifest" by (simp add: manifest_wf_def sub_manifest_def)
  ultimately show ?thesis using demo_result_ok by (simp add: event_ok_def sub_recording_def)
qed

lemma sub_again: "\<exists>st. resolve toy_hash (action_cache_open ''c'') Agent_Cache.demo_env sub_weak sub_recorded = (Inr (Hit 0 [] []), st)"
proof -
  obtain st where st: "record_action toy_hash demo_cache Agent_Cache.demo_env sub_weak sub_manifest [''a.obj''] 0 [] [] demo_start = (Inr (), st)"
    using sub_record by blast
  then have "st = sub_recorded" by (simp add: sub_recorded_def)
  have out: "\<forall>l \<in> set [''a.obj'']. \<forall>bs. as_root demo_start (root_rel l) = FsOk bs \<longrightarrow> no_second_preimage toy_hash bs"
    using toy_hash_preimage by (simp add: demo_root_rel demo_start_def)
  have good: "env_good Agent_Cache.demo_env" by (simp add: env_good_def Agent_Cache.demo_env_def toy_os_def)
  have "\<exists>now'. resolve toy_hash (action_cache_open ''c'') Agent_Cache.demo_env sub_weak st = (Inr (Hit 0 [] []), now')
      \<and> (\<forall>l \<in> set [''a.obj'']. as_root now' (root_rel l) = as_root demo_start (root_rel l))"
    by (rule record_then_hit [OF st [unfolded demo_cache_def] _ toy_hash_output _ _ sub_manifest_hash sub_manifest_hash refl refl good out])
       (simp_all add: sub_event sub_event_ok, simp_all add: sub_manifest_def demo_start_def)
  then show ?thesis using \<open>st = sub_recorded\<close> by blast
qed

definition sub_warm :: daemon where "sub_warm = sub_daemon\<lparr>dm_cache := sub_recorded\<rparr>"

theorem hit_genuine_witness:
  "\<exists>dm'. run_submission 0 toy_hash id sub_se sub_rq sub_warm = Some (emit_hit 0 [] [], dm')
    \<and> dm_server dm' = dm_server sub_warm \<and> dm_sched dm' = dm_sched sub_warm
    \<and> (\<exists>r \<in> set [sub_recording]. \<exists>stored \<in> set [sub_recording]. genuine toy_hash r \<and> ce_weak (rc_event r) = sub_weak
        \<and> ce_weak (rc_event stored) = sub_weak
        \<and> same_inputs (ae_fs (se_resolve_env sub_se)) (ce_manifest (rc_event stored)) (ce_fs (rc_event r)) (ce_manifest (rc_event r)))"
proof -
  let ?fs = "ae_fs (se_resolve_env sub_se)"
  obtain memo where k: "submission_key toy_hash sub_se sub_rq (dm_memo sub_warm) = (Some (sub_weak, sub_tool), memo)" using sub_key by blast
  obtain st where hit: "resolve toy_hash (action_cache_open ''c'') (se_resolve_env sub_se) sub_weak (dm_cache sub_warm) = (Inr (Hit 0 [] []), st)"
    using sub_again by (auto simp: sub_se_def sub_warm_def)
  have env: "?fs = ae_fs Agent_Cache.demo_env" "se_vfs sub_se" "se_cache sub_se = Some (action_cache_open ''c'')"
    by (simp_all add: sub_se_def demo_cache_def)
  have reach: "intake_reach toy_hash (action_cache_open ''c'') (dm_cache sub_warm) [sub_recording]"
    using sub_reach by (simp add: sub_warm_def)
  have ok: "\<forall>r \<in> set [sub_recording]. event_ok toy_hash (rc_event r)" using sub_event_ok by simp
  have "strong_blobs ?fs sub_weak (map rc_event [sub_recording]) \<subseteq> {strong_blob sub_weak sub_h}"
    unfolding env(1) by (auto simp: strong_blobs_def sub_recording_def sub_manifest_hash)
  then have inj1: "inj_on toy_hash (strong_blobs ?fs sub_weak (map rc_event [sub_recording]))"
    using inj_on_subset [of toy_hash "{strong_blob sub_weak sub_h}"] by simp
  have "sha_strings ?fs (map rc_event [sub_recording]) \<subseteq> {components_blob (the (manifest_components ?fs sub_manifest))}"
    unfolding env(1) by (auto simp: sha_strings_def sub_recording_def hashed_def file_contents_def sub_manifest_def)
  then have inj2: "inj_on sha256_hex (sha_strings ?fs (map rc_event [sub_recording]))"
    using inj_on_subset [of sha256_hex "{components_blob (the (manifest_components ?fs sub_manifest))}"] by simp
  show ?thesis by (rule hit_genuine [OF reach toy_hash_output ok env(2,3) k inj1 inj2 hit])
qed

section \<open>The first run\<close>

lemma sub_dispatched:
  "\<exists>n ss. dispatch_observed 2 toy_hash sub_se sub_rq opts \<lparr>ss_in_flight = [], ss_tracker = tracker_default\<rparr> = Some (RemoteRun sub_outcome, n, ss)"
proof -
  let ?req = "\<lparr>dr_command = sq_command sub_rq, dr_action_id = sq_action_id sub_rq, dr_display = display_name (sq_command sub_rq)\<rparr>"
  obtain ex ws st' where d: "dispatch 2 toy_hash sub_dispatch ?req None \<lparr>ss_in_flight = [], ss_tracker = tracker_default\<rparr>
      = Some (ex, attempt_no (Suc (length ws)), st')" "dispatch_explained sub_dispatch 0 {} NoWorker ws ex"
    using dispatch_returns [of "{''a''}" sub_dispatch 2 "\<lparr>ss_in_flight = [], ss_tracker = tracker_default\<rparr>" toy_hash ?req None]
    by (auto simp: sub_dispatch_def demo_worker_eligible)
  have "ws = []"
  proof (rule ccontr)
    assume "ws \<noteq> []"
    then have "attempt_failed (de_result sub_dispatch (0 + 0) (ws ! 0))"
      using d(2) unfolding dispatch_explained_def by (metis length_greater_0_conv)
    then show False by (simp add: sub_dispatch_def attempt_failed_def sub_outcome_def)
  qed
  then have "ex = RemoteRun sub_outcome"
    using d(2) demo_worker_eligible(1) by (cases ex) (auto simp: explained_Nil sub_dispatch_def)
  with d(1) show ?thesis by (simp add: dispatch_observed_def sub_se_def)
qed

lemma sub_session:
  assumes "dm_server dm = server_new no_files" "dm_sched dm = \<lparr>ss_in_flight = [], ss_tracker = tracker_default\<rparr>"
  shows "\<exists>dm'. run_session 2 toy_hash id sub_se sub_rq weak dm = Some (RemoteRun sub_outcome, dm')"
proof -
  let ?opts = "exec_options_of toy_hash id sub_se sub_rq weak (as_disk (dm_cache dm))"
  obtain n ss where d: "dispatch_observed 2 toy_hash sub_se sub_rq ?opts (dm_sched dm) = Some (RemoteRun sub_outcome, n, ss)"
    using sub_dispatched assms(2) by metis
  have env: "se_data_plane sub_se = id" "se_opens sub_se = (\<lambda>_. True)" by (simp_all add: sub_se_def)
  have zero: "oc_exit_code sub_outcome = Some 0" by (simp add: sub_outcome_def)
  let ?root = "normalize_root id (vfs_root_of sub_rq)"
  let ?rg = "snd (registry_create (se_opens sub_se) (se_now sub_se) (sq_session_id sub_rq) ?root
      (declared_output_specs id (sq_declared_outputs sub_rq) ?root) registry_new)"
  let ?sv = "(server_new no_files)\<lparr>sr_registry := snd (registry_finish (sq_session_id sub_rq) ?rg)\<rparr>"
  have "sc_staged (cap_at (sr_registry ?sv) 0) = []"
    by (simp add: registry_create_def registry_new_def registry_finish_def Let_def cap_update_def cap_at_def session_new_def session_close_def
        hm_insert_def)
  then have "\<exists>sv. publish_at toy_hash (se_publish sub_se) 0 ?sv = (True, sv)"
    by (simp add: publish_at_def publish_staged_def hm_values_def)
  moreover have "sr_registry (dm_server dm) = registry_new" using assms(1) by (simp add: server_new_def)
  ultimately show ?thesis
    using d assms zero unfolding run_session_def
    by (simp add: Let_def env publish_remote_or_fallback_def finish_session_def registry_create_def registry_new_def split: prod.split)
       (auto simp: server_new_def registry_new_def)
qed

lemma sub_first_lookup: "resolve toy_hash demo_cache env weak demo_start = (Inr Miss, demo_start)"
  by (simp add: resolve_def get_manifest_def demo_start_def)

lemma sub_first_run:
  "\<exists>evs dm'. run_submission 2 toy_hash id sub_se sub_rq sub_daemon = Some (evs, dm') \<and> as_disk (dm_cache dm') \<noteq> as_disk (dm_cache sub_daemon)"
proof -
  let ?dm = "bump in_flight_guard sub_daemon"
  obtain memo where k: "submission_key toy_hash sub_se sub_rq (dm_memo ?dm) = (Some (sub_weak, sub_tool), memo)" using sub_key by blast
  let ?dm1 = "bump record_cache_miss (?dm\<lparr>dm_memo := memo, dm_cache := demo_start\<rparr>)"
  have f: "dm_cache ?dm = demo_start" "se_cache sub_se = Some demo_cache" "se_vfs sub_se"
    by (simp_all add: sub_daemon_def sub_se_def)
  have cached: "run_cached 2 toy_hash id sub_se sub_rq ?dm = run_miss 2 toy_hash id sub_se sub_rq (Some (sub_weak, sub_tool)) ?dm1"
    unfolding run_cached_def k using f by (simp add: Let_def sub_first_lookup)
  have "dm_server ?dm1 = server_new no_files" "dm_sched ?dm1 = \<lparr>ss_in_flight = [], ss_tracker = tracker_default\<rparr>"
    by (simp_all add: sub_daemon_def)
  then obtain dm2 where s: "run_session 2 toy_hash id sub_se sub_rq (Some sub_weak) ?dm1 = Some (RemoteRun sub_outcome, dm2)"
    using sub_session by blast
  have "dm_cache dm2 = demo_start" using run_session_spec(1) [OF s] by simp
  note rec = sub_record_submission [OF this]
  have "as_disk sub_recorded \<noteq> as_disk (dm_cache sub_daemon)" using sub_record by (auto simp: sub_recorded_def sub_daemon_def)
  with f cached s rec show ?thesis by (auto simp: run_submission_def run_miss_def)
qed

theorem record_guarded_witness:
  "\<exists>evs dm' weak d path memo oc opts n ss. run_submission 2 toy_hash id sub_se sub_rq sub_daemon = Some (evs, dm')
    \<and> submission_key toy_hash sub_se sub_rq (dm_memo sub_daemon) = (Some (weak, ContentTool d path), memo)
    \<and> dispatch_observed 2 toy_hash sub_se sub_rq opts (dm_sched sub_daemon) = Some (RemoteRun oc, n, ss)
    \<and> oc_exit_code oc = Some 0 \<and> oc_resolved_tool_digest oc = digest_canonical d \<and> evs \<in> {[], emit_outcome (RemoteRun oc)}"
  using sub_first_run record_guarded [of 2 toy_hash id sub_se sub_rq sub_daemon] by fastforce



section \<open>A prediction\<close>

definition pred_manifest :: input_manifest where
  "pred_manifest = \<lparr>im_inputs = [\<lparr>ie_logical = ''a.h'', ie_absolute = ''c:'' @ [bsl] @ ''a.h'', ie_kind = Content\<rparr>], im_cmds = [], im_cacheable = True\<rparr>"

definition pred_disk :: disk where
  "pred_disk = \<lparr>dk_files = \<lambda>_. FsOk (encode_manifest toy_hash pred_manifest), dk_temp_fails = \<lambda>_. False, dk_rename_fails = \<lambda>_. False\<rparr>"

lemma pred_decode: "decode_manifest toy_hash (encode_manifest toy_hash pred_manifest) = Some pred_manifest"
proof -
  have u: "utf8_str (''c:'' @ [bsl] @ ''a.h'')" "utf8_str ''a.h''" unfolding utf8_str_def by code_simp+
  have ok: "manifest_ok pred_manifest"
    using u by (simp add: manifest_ok_def pred_manifest_def entry_ok_def cstr_ok_def MAX_INPUTS_def MAX_CMDS_def MAX_STRING_LEN_def)
  have "length (encode_manifest toy_hash pred_manifest) < usize_bound"
    by (simp add: encode_manifest_def manifest_body_def pred_manifest_def put_entry_def put_str_def MANIFEST_CODEC_MAGIC_def
        codec_checksum_def usize_bound_def toy_hash_def)
  from manifest_codec [OF toy_hash_output this] ok show ?thesis by simp
qed

lemma pred_of: "predicted_of id None pred_manifest = [''c:'' @ [bsl] @ ''a.h'']"
  by code_simp

theorem predicted_paths_bounded_witness:
  "predicted_paths toy_hash id demo_cache sample_tool None pred_disk = Inr [''c:'' @ [bsl] @ ''a.h'']
   \<and> path_in_scope id (''c:'' @ [bsl] @ ''a.h'') None"
proof -
  have p: "predicted_paths toy_hash id demo_cache sample_tool None pred_disk = Inr [''c:'' @ [bsl] @ ''a.h'']"
    using pred_decode pred_of by (simp add: predicted_paths_def get_manifest_def pred_disk_def)
  from predicted_paths_bounded [OF this] p show ?thesis by simp
qed

end
