(* ===== verification/Wide_Str.thy ===== *)
theory Wide_Str
  imports Trace_Format
begin

text \<open>
  The two encodings a Windows program converts between: a Rust string is UTF-8, a list of
  scalar values (\<open>str::chars\<close>); the system interfaces take UTF-16 units (\<open>OsStr::encode_wide\<close>,
  \<open>str::encode_utf16\<close>), which \<open>String::from_utf16\<close> reads back. Both directions are defined as
  the standard library defines them, and the round trip is proved for every valid string.
\<close>

section \<open>Scalar values of a string\<close>

fun utf8_scalars :: "nat list \<Rightarrow> nat list" where
  "utf8_scalars [] = []"
| "utf8_scalars (b # bs) =
     (if b < 0x80 then b # utf8_scalars bs
      else if b < 0xE0 then (b mod 32 * 64 + bs ! 0 mod 64) # utf8_scalars (drop 1 bs)
      else if b < 0xF0 then (b mod 16 * 4096 + bs ! 0 mod 64 * 64 + bs ! 1 mod 64) # utf8_scalars (drop 2 bs)
      else (b mod 8 * 262144 + bs ! 0 mod 64 * 4096 + bs ! 1 mod 64 * 64 + bs ! 2 mod 64) # utf8_scalars (drop 3 bs))"

definition scalars :: "string \<Rightarrow> nat list" where
  "scalars s = utf8_scalars (map of_char s)"

definition scalar_value :: "nat \<Rightarrow> bool" where
  "scalar_value v \<longleftrightarrow> v < 0x110000 \<and> \<not> (0xD800 \<le> v \<and> v \<le> 0xDFFF)"

definition utf16_units :: "nat \<Rightarrow> nat list" where
  "utf16_units v = (if v < 0x10000 then [v] else [0xD800 + (v - 0x10000) div 0x400, 0xDC00 + (v - 0x10000) mod 0x400])"

definition encode_wide :: "string \<Rightarrow> u16 list" where
  "encode_wide s = map word_of_nat (concat (map utf16_units (scalars s)))"

fun decode_utf16_strict :: "nat list \<Rightarrow> nat list option" where
  "decode_utf16_strict [] = Some []"
| "decode_utf16_strict [u] = (if is_high_surrogate u \<or> is_low_surrogate u then None else Some [u])"
| "decode_utf16_strict (u # v # us) =
     (if is_high_surrogate u then
        (if is_low_surrogate v
         then map_option (Cons (0x10000 + (u - 0xD800) * 0x400 + (v - 0xDC00))) (decode_utf16_strict us)
         else None)
      else if is_low_surrogate u then None
      else map_option (Cons u) (decode_utf16_strict (v # us)))"

definition from_utf16 :: "u16 list \<Rightarrow> string option" where
  "from_utf16 us = map_option (\<lambda>vs. concat (map encode_utf8_char vs)) (decode_utf16_strict (map unat us))"

section \<open>From UTF-8 to scalar values and back\<close>

lemma utf8_lead_cases:
  assumes "utf8_lead b = Some (lo, hi, k)"
  shows "k = 1 \<and> 0xC2 \<le> unat b \<and> unat b \<le> 0xDF \<and> unat lo = 0x80 \<and> unat hi = 0xBF
    \<or> k = 2 \<and> 0xE0 \<le> unat b \<and> unat b \<le> 0xEF \<and> unat lo = (if unat b = 0xE0 then 0xA0 else 0x80) \<and> unat hi = (if unat b = 0xED then 0x9F else 0xBF)
    \<or> k = 3 \<and> 0xF0 \<le> unat b \<and> unat b \<le> 0xF4 \<and> unat lo = (if unat b = 0xF0 then 0x90 else 0x80) \<and> unat hi = (if unat b = 0xF4 then 0x8F else 0xBF)"
  using assms
  by (auto simp: utf8_lead_def word_le_nat_alt word_unat_eq_iff split: if_splits)

lemma mod_offset: "k * m \<le> n \<Longrightarrow> n < Suc k * m \<Longrightarrow> n mod m = n - k * (m :: nat)"
proof -
  assume "k * m \<le> n" "n < Suc k * m"
  then have "n = k * m + (n - k * m)" "n - k * m < m" by auto
  then show ?thesis by (metis mod_less mod_mult_self3)
qed

lemma cont_mod: "0x80 \<le> c \<Longrightarrow> c \<le> 0xBF \<Longrightarrow> c mod 64 = c - (0x80 :: nat) \<and> c - 0x80 < 64"
  using mod_offset [of 2 64 c] by simp

lemma utf8_char2:
  assumes "0xC2 \<le> b" "b \<le> 0xDF" "0x80 \<le> c" "c \<le> 0xBF" "v = b mod 32 * 64 + c mod 64"
  shows "encode_utf8_char v = [char_of b, char_of c] \<and> scalar_value v \<and> 0x80 \<le> v"
proof -
  define x y where xy: "x = b - 0xC0" "y = c - 0x80"
  have b: "b mod 32 = x" "b = 0xC0 + x" "x < 32" "2 \<le> x" using mod_offset [of 6 32 b] assms(1,2) by (simp_all add: xy)
  have c: "c mod 64 = y" "c = 0x80 + y" "y < 64" using cont_mod [OF assms(3,4)] assms(3) by (simp_all add: xy)
  then have "v div 64 = x" "v mod 64 = y" "0x80 \<le> v" "v < 0x800" using b c assms(5) by simp_all
  then show ?thesis using b c by (simp add: encode_utf8_char_def scalar_value_def)
qed

lemma utf8_char3:
  assumes "0xE0 \<le> b" "b \<le> 0xEF" "(if b = 0xE0 then 0xA0 else 0x80) \<le> c" "c \<le> (if b = 0xED then 0x9F else 0xBF)"
    and "0x80 \<le> d" "d \<le> 0xBF" "v = b mod 16 * 4096 + c mod 64 * 64 + d mod 64"
  shows "encode_utf8_char v = [char_of b, char_of c, char_of d] \<and> scalar_value v \<and> 0x80 \<le> v"
proof -
  define x y z where xyz: "x = b - 0xE0" "y = c - 0x80" "z = d - 0x80"
  have b: "b mod 16 = x" "b = 0xE0 + x" "x < 16" using mod_offset [of 14 16 b] assms(1,2) by (simp_all add: xyz)
  have "0x80 \<le> c" "c \<le> 0xBF" using assms(3,4) by (simp_all split: if_splits)
  then have c: "c mod 64 = y" "c = 0x80 + y" "y < 64" using cont_mod by (simp_all add: xyz)
  have d: "d mod 64 = z" "d = 0x80 + z" "z < 64" using cont_mod [OF assms(5,6)] assms(5) by (simp_all add: xyz)
  have edge: "x = 0 \<longrightarrow> 32 \<le> y" "x = 13 \<longrightarrow> y < 32" using assms(3,4) b c by (auto split: if_splits)
  have v: "v = x * 4096 + y * 64 + z" using assms(7) b(1) c(1) d(1) by simp
  have "v div 4096 = x" "v div 64 = x * 64 + y" using v c(3) d(3) by simp_all
  moreover have "v mod 64 = z" using mod_offset [of "x * 64 + y" 64 v] v d(3) by simp
  moreover have "(x * 64 + y) mod 64 = y" using c(3) by simp
  moreover have "0x800 \<le> v" "v < 0x10000" using v edge(1) b(3) c(3) d(3) by (cases "x = 0", simp_all)
  moreover have "\<not> (0xD800 \<le> v \<and> v \<le> 0xDFFF)" using v edge(2) c(3) d(3) by (cases "x = 13"; cases "x < 13") auto
  ultimately show ?thesis using b c d by (simp add: encode_utf8_char_def scalar_value_def)
qed

lemma utf8_char4:
  assumes "0xF0 \<le> b" "b \<le> 0xF4" "(if b = 0xF0 then 0x90 else 0x80) \<le> c" "c \<le> (if b = 0xF4 then 0x8F else 0xBF)"
    and "0x80 \<le> d" "d \<le> 0xBF" "0x80 \<le> e" "e \<le> 0xBF"
    and "v = b mod 8 * 262144 + c mod 64 * 4096 + d mod 64 * 64 + e mod 64"
  shows "encode_utf8_char v = [char_of b, char_of c, char_of d, char_of e] \<and> scalar_value v \<and> 0x80 \<le> v"
proof -
  define w x y z where wxyz: "w = b - 0xF0" "x = c - 0x80" "y = d - 0x80" "z = e - 0x80"
  have b: "b mod 8 = w" "b = 0xF0 + w" "w < 5" using mod_offset [of 30 8 b] assms(1,2) by (simp_all add: wxyz)
  have "0x80 \<le> c" "c \<le> 0xBF" using assms(3,4) by (simp_all split: if_splits)
  then have c: "c mod 64 = x" "c = 0x80 + x" "x < 64" using cont_mod by (simp_all add: wxyz)
  have d: "d mod 64 = y" "d = 0x80 + y" "y < 64" using cont_mod [OF assms(5,6)] assms(5) by (simp_all add: wxyz)
  have e: "e mod 64 = z" "e = 0x80 + z" "z < 64" using cont_mod [OF assms(7,8)] assms(7) by (simp_all add: wxyz)
  have edge: "w = 0 \<longrightarrow> 16 \<le> x" "w = 4 \<longrightarrow> x < 16" using assms(3,4) b c by (auto split: if_splits)
  have v: "v = w * 262144 + x * 4096 + y * 64 + z" using assms(9) b(1) c(1) d(1) e(1) by simp
  have "v div 262144 = w" "v div 4096 = w * 64 + x" "v div 64 = w * 4096 + x * 64 + y"
    using v c(3) d(3) e(3) by simp_all
  moreover have "v mod 64 = z" using mod_offset [of "w * 4096 + x * 64 + y" 64 v] v e(3) by simp
  moreover have "(w * 64 + x) mod 64 = x" "(w * 4096 + x * 64 + y) mod 64 = y"
    using c(3) d(3) mod_offset [of "w * 64 + x" 64 "w * 4096 + x * 64 + y"] by simp_all
  moreover have "0x10000 \<le> v" using v edge(1) by (cases "w = 0") simp_all
  moreover have "v < 0x110000" using v edge(2) b(3) c(3) d(3) e(3) by (cases "w = 4") simp_all
  ultimately show ?thesis using b c d e by (simp add: encode_utf8_char_def scalar_value_def)
qed

definition scalars_exact :: "bytes \<Rightarrow> bool" where
  "scalars_exact bs \<longleftrightarrow> concat (map encode_utf8_char (utf8_scalars (map unat bs))) = map (\<lambda>b. char_of (unat b)) bs
     \<and> list_all scalar_value (utf8_scalars (map unat bs))
     \<and> (\<forall>a < 0x80. a \<in> set (utf8_scalars (map unat bs)) \<longleftrightarrow> a \<in> unat ` set bs)"

lemma scalars_exact_Cons:
  assumes "scalars_exact cs" "encode_utf8_char v = map (\<lambda>b. char_of (unat b)) ps" "scalar_value v"
    and "utf8_scalars (map unat (ps @ cs)) = v # utf8_scalars (map unat cs)"
    and "(\<forall>b \<in> set ps. 0x80 \<le> unat b) \<and> 0x80 \<le> v \<or> ps = [word_of_nat v] \<and> v < 0x80"
  shows "scalars_exact (ps @ cs)"
proof -
  have "a \<in> set (v # utf8_scalars (map unat cs)) \<longleftrightarrow> a \<in> unat ` set (ps @ cs)" if "a < 0x80" for a
    using assms(1,5) that by (auto simp: scalars_exact_def unat_of_nat)
  then show ?thesis using assms(1-4) by (simp add: scalars_exact_def)
qed

lemma utf8_valid_scalars: "utf8_valid bs \<Longrightarrow> scalars_exact bs"
proof (induction bs rule: utf8_valid.induct)
  case 1
  then show ?case by (simp add: scalars_exact_def)
next
  case (2 b bs)
  show ?case
  proof (cases "b < 0x80")
    case True
    then have "unat b < 0x80" by (simp add: word_less_nat_alt)
    then show ?thesis using scalars_exact_Cons [of bs "unat b" "[b]"] 2 True
      by (simp add: encode_utf8_char_def scalar_value_def)
  next
    case False
    then obtain lo hi k where lead: "utf8_lead b = Some (lo, hi, k)" "k \<le> length bs" "lo \<le> hd bs" "hd bs \<le> hi"
        "list_all utf8_cont (take (k - 1) (tl bs))" "utf8_valid (drop k bs)"
      using "2.prems" by (auto split: option.splits)
    have IH: "scalars_exact (drop k bs)" using 2(2) [OF False lead(1)] lead(6) by simp
    have cont: "utf8_cont c \<Longrightarrow> 0x80 \<le> unat c \<and> unat c \<le> 0xBF" for c by (simp add: utf8_cont_def word_le_nat_alt)
    have ends: "unat lo \<le> unat (hd bs)" "unat (hd bs) \<le> unat hi" using lead(3,4) by (simp_all add: word_le_nat_alt)
    consider (two) c cs where "bs = c # cs" "k = 1" "0xC2 \<le> unat b" "unat b \<le> 0xDF" "0x80 \<le> unat c" "unat c \<le> 0xBF"
      | (three) c d cs where "bs = c # d # cs" "k = 2" "0xE0 \<le> unat b" "unat b \<le> 0xEF" "(if unat b = 0xE0 then 0xA0 else 0x80) \<le> unat c"
          "unat c \<le> (if unat b = 0xED then 0x9F else 0xBF)" "utf8_cont d"
      | (four) c d e cs where "bs = c # d # e # cs" "k = 3" "0xF0 \<le> unat b" "unat b \<le> 0xF4"
          "(if unat b = 0xF0 then 0x90 else 0x80) \<le> unat c" "unat c \<le> (if unat b = 0xF4 then 0x8F else 0xBF)" "utf8_cont d" "utf8_cont e"
      using utf8_lead_cases [OF lead(1)] lead(2,5) ends
      by (cases bs; cases "tl bs"; cases "tl (tl bs)") auto
    then show ?thesis
    proof cases
      case two
      from utf8_char2 [OF two(3-6) refl] show ?thesis
        using scalars_exact_Cons [OF IH, of _ "[b, c]"] two by auto
    next
      case three
      from utf8_char3 [OF three(3-6) _ _ refl, of "unat d"] cont [OF three(7)] show ?thesis
        using scalars_exact_Cons [OF IH, of _ "[b, c, d]"] three by (simp split: if_splits)
    next
      case four
      from utf8_char4 [OF four(3-6) _ _ _ _ refl, of "unat d" "unat e"] cont [OF four(7)] cont [OF four(8)] show ?thesis
        using scalars_exact_Cons [OF IH, of _ "[b, c, d, e]"] four by (simp split: if_splits)
    qed
  qed
qed

lemma map_unat_as_bytes [simp]: "map unat (as_bytes s) = map of_char s"
  by (simp add: as_bytes_def unat_of_char)

lemma scalars_of_str:
  assumes "utf8_str s"
  shows "concat (map encode_utf8_char (scalars s)) = s" "list_all scalar_value (scalars s)"
    and "of_char c < (0x80 :: nat) \<Longrightarrow> of_char c \<in> set (scalars s) \<longleftrightarrow> c \<in> set s"
proof -
  have x: "scalars_exact (as_bytes s)" using assms utf8_valid_scalars by (simp add: utf8_str_def)
  have bytes: "map (\<lambda>b. char_of (unat b)) (as_bytes s) = s" using of_bytes_as_bytes [of s] by (simp add: of_bytes_def)
  show "concat (map encode_utf8_char (scalars s)) = s" "list_all scalar_value (scalars s)"
    using x bytes by (simp_all add: scalars_exact_def scalars_def)
  have img: "unat ` set (as_bytes s) = of_char ` set s"
    by (simp add: as_bytes_def image_image unat_of_char)
  show "of_char c < (0x80 :: nat) \<Longrightarrow> of_char c \<in> set (scalars s) \<longleftrightarrow> c \<in> set s"
    using x by (auto simp: scalars_exact_def scalars_def img)
qed

section \<open>From scalar values to UTF-16 and back\<close>

lemma astral_units:
  assumes "0x10000 \<le> v" "v < (0x110000 :: nat)"
  shows "is_high_surrogate (0xD800 + (v - 0x10000) div 0x400)" "is_low_surrogate (0xDC00 + (v - 0x10000) mod 0x400)"
    and "0x10000 + (v - 0x10000) div 0x400 * 0x400 + (v - 0x10000) mod 0x400 = v"
proof -
  have "(v - 0x10000) div 0x400 < 0x400" using assms by (simp add: div_less_iff_less_mult)
  then show "is_high_surrogate (0xD800 + (v - 0x10000) div 0x400)" by (simp add: is_high_surrogate_def)
  have "(v - 0x10000) mod 0x400 < 0x400" by simp
  then show "is_low_surrogate (0xDC00 + (v - 0x10000) mod 0x400)" unfolding is_low_surrogate_def by linarith
  have "(v - 0x10000) div 0x400 * 0x400 + (v - 0x10000) mod 0x400 = v - 0x10000" by (rule div_mult_mod_eq)
  then show "0x10000 + (v - 0x10000) div 0x400 * 0x400 + (v - 0x10000) mod 0x400 = v" using assms(1) by linarith
qed

lemma decode_units_Cons:
  assumes "scalar_value v"
  shows "decode_utf16_strict (utf16_units v @ us) = map_option (Cons v) (decode_utf16_strict us)"
proof (cases "v < 0x10000")
  case True
  then have "\<not> is_high_surrogate v" "\<not> is_low_surrogate v"
    using assms by (auto simp: scalar_value_def is_high_surrogate_def is_low_surrogate_def)
  then show ?thesis using True by (cases us) (simp_all add: utf16_units_def)
next
  case False
  then have "0x10000 \<le> v" "v < 0x110000" using assms by (simp_all add: scalar_value_def)
  from astral_units [OF this] show ?thesis using False by (simp add: utf16_units_def add.assoc)
qed

lemma decode_encoded_units:
  "list_all scalar_value vs \<Longrightarrow> decode_utf16_strict (concat (map utf16_units vs)) = Some vs"
  by (induction vs) (simp_all add: decode_units_Cons)

lemma units_small: "scalar_value v \<Longrightarrow> u \<in> set (utf16_units v) \<Longrightarrow> u < 0x10000"
  using astral_units [of v] by (auto simp: utf16_units_def scalar_value_def is_high_surrogate_def is_low_surrogate_def split: if_splits)

lemma unat_encode_wide:
  "utf8_str s \<Longrightarrow> map unat (encode_wide s) = concat (map utf16_units (scalars s))"
proof -
  assume "utf8_str s"
  then have "list_all scalar_value (scalars s)" by (rule scalars_of_str)
  then have "u < 0x10000" if "u \<in> set (concat (map utf16_units (scalars s)))" for u
    using that units_small by (auto simp: list_all_iff)
  then have "unat (word_of_nat u :: u16) = u" if "u \<in> set (concat (map utf16_units (scalars s)))" for u
    using that by (simp add: unat_of_nat)
  then show ?thesis unfolding encode_wide_def map_map by (intro map_idI) simp
qed

lemma from_utf16_encode_wide: "utf8_str s \<Longrightarrow> from_utf16 (encode_wide s) = Some s"
  by (simp add: from_utf16_def unat_encode_wide decode_encoded_units scalars_of_str)

section \<open>Concatenation and single units\<close>

lemma utf8_scalars_append:
  "utf8_valid bs \<Longrightarrow> utf8_scalars (map unat bs @ cs) = utf8_scalars (map unat bs) @ utf8_scalars cs"
proof (induction bs rule: utf8_valid.induct)
  case (2 b bs)
  show ?case
  proof (cases "b < 0x80")
    case False
    then obtain lo hi k where lead: "utf8_lead b = Some (lo, hi, k)" "k \<le> length bs" "utf8_valid (drop k bs)"
      using "2.prems" by (auto split: option.splits)
    have IH: "utf8_scalars (map unat (drop k bs) @ cs) = utf8_scalars (map unat (drop k bs)) @ utf8_scalars cs"
      using 2(2) [OF False lead(1)] lead(3) by simp
    from False have "\<not> unat b < 0x80" by (simp add: word_less_nat_alt)
    with utf8_lead_cases [OF lead(1)] lead(2) IH show ?thesis
      by (auto simp: nth_append drop_map)
  qed (use 2 in \<open>simp add: word_less_nat_alt\<close>)
qed simp

lemma encode_wide_append: "utf8_str s \<Longrightarrow> encode_wide (s @ t) = encode_wide s @ encode_wide t"
  using utf8_scalars_append [of "as_bytes s" "map of_char t"]
  by (simp add: encode_wide_def scalars_def utf8_str_def)

lemma encode_wide_Nil [simp]: "encode_wide [] = []"
  by (simp add: encode_wide_def scalars_def)

lemma encode_wide_ascii:
  "of_char c < (0x80 :: nat) \<Longrightarrow> encode_wide (c # s) = word_of_nat (of_char c) # encode_wide s"
  by (simp add: encode_wide_def scalars_def utf16_units_def)

lemma utf8_str_ascii: "of_char c < (0x80 :: nat) \<Longrightarrow> utf8_str (c # s) = utf8_str s"
  by (simp add: utf8_str_def as_bytes_def word_less_nat_alt unat_of_char)

lemma utf8_valid_append: "utf8_valid bs \<Longrightarrow> utf8_valid (bs @ cs) = utf8_valid cs"
proof (induction bs rule: utf8_valid.induct)
  case (2 b bs)
  show ?case
  proof (cases "b < 0x80")
    case False
    then obtain lo hi k where lead: "utf8_lead b = Some (lo, hi, k)" "k \<le> length bs" "lo \<le> hd bs" "hd bs \<le> hi"
        "list_all utf8_cont (take (k - 1) (tl bs))" "utf8_valid (drop k bs)"
      using "2.prems" by (auto split: option.splits)
    then have "bs \<noteq> []" using utf8_lead_cases [OF lead(1)] by (cases bs) auto
    moreover have "utf8_valid (drop k bs @ cs) = utf8_valid cs" using 2(2) [OF False lead(1)] lead(6) by simp
    moreover have "drop k (bs @ cs) = drop k bs @ cs" "take (k - 1) (tl bs @ cs) = take (k - 1) (tl bs)" using lead(2) by simp_all
    ultimately show ?thesis using False lead by (simp del: drop_append take_append)
  qed (use 2 in simp)
qed simp

lemma utf8_str_append: "utf8_str s \<Longrightarrow> utf8_str (s @ t) = utf8_str t"
  by (simp add: utf8_str_def utf8_valid_append)

lemma encode_wide_char:
  assumes s: "utf8_str s" and c: "of_char c < (0x80 :: nat)"
  shows "word_of_nat (of_char c) \<in> set (encode_wide s) \<longleftrightarrow> c \<in> set s"
proof -
  have u: "unat (word_of_nat (of_char c) :: u16) = of_char c" using c by (simp add: unat_of_nat)
  have "word_of_nat (of_char c) \<in> set (encode_wide s) \<longleftrightarrow> unat (word_of_nat (of_char c) :: u16) \<in> unat ` set (encode_wide s)"
    by (rule inj_image_mem_iff [symmetric]) (rule injI, simp add: word_unat_eq_iff)
  also have "\<dots> \<longleftrightarrow> of_char c \<in> set (map unat (encode_wide s))" by (simp add: u)
  also have "\<dots> \<longleftrightarrow> of_char c \<in> set (scalars s)"
    using c by (auto simp: unat_encode_wide [OF s] utf16_units_def split: if_splits)
  finally show ?thesis using scalars_of_str(3) [OF s c] by simp
qed

lemma encode_wide_nul: "utf8_str s \<Longrightarrow> 0 \<in> set (encode_wide s) \<longleftrightarrow> nul \<in> set s"
  using encode_wide_char [of s nul] by simp

lemma encode_wide_unit:
  assumes "utf8_str s" "u \<in> set (encode_wide s)"
  shows "unat u \<in> set (scalars s) \<or> 0xD800 \<le> unat u"
proof -
  have "unat u \<in> set (concat (map utf16_units (scalars s)))"
    using assms by (metis image_eqI list.set_map unat_encode_wide)
  then show ?thesis by (auto simp: utf16_units_def split: if_splits)
qed

end
