(* ===== verification/Caller_Launch.thy ===== *)
theory Caller_Launch
  imports Wide_Str Capability "HOL-Library.Product_Lexorder" "HOL-Library.Multiset"
begin

text \<open>
  How the agent turns a command into a process of the submitting user: the environment
  (\<open>validate_environment_entry\<close>, \<open>overlay_environment\<close>, the environment block in both
  directions), the command line (\<open>quote_windows_arg\<close>, \<open>quote_windows_argv\<close>), the command line
  of a batch file (\<open>append_batch_argument\<close>, \<open>make_batch_command_line\<close>) and their composition
  \<open>prepare_caller_launch\<close>, all of module \<open>local_job\<close> of \<open>crates/agent/src/lib.rs\<close>.

  The reference the command line is measured against is the documented argument parsing of
  the Microsoft C runtime (\<open>windows_argv\<close>): the program that is started sees exactly the
  argument vector that was submitted. A batch file is read by \<open>cmd.exe\<close> instead; there the
  theorem is that no character of an argument acts outside quotes.
\<close>

section \<open>Environment\<close>

datatype launch_error = InvalidInput string | InvalidData string | ProgramNotFound string | OsFailure | PastEnd

definition validate_environment_entry :: "string \<Rightarrow> string \<Rightarrow> launch_error + unit" where
  "validate_environment_entry key val =
     (if key = [] \<or> nul \<in> set key \<or> nul \<in> set val
      then Inl (InvalidInput ''environment keys and values must be nonempty NUL-free UTF-16 strings'')
      else if CHR ''='' \<in> set key \<and> \<not> starts_with key ''=''
      then Inl (InvalidInput (''environment key contains '' @ [CHR 0x27] @ ''='' @ [CHR 0x27] @ '': '' @ key))
      else Inr ())"

fun overlay_loop :: "(string \<times> string) list \<Rightarrow> (string \<times> string) list \<Rightarrow> launch_error + (string \<times> string) list" where
  "overlay_loop base [] = Inr base"
| "overlay_loop base ((key, val) # overlay) =
     (case validate_environment_entry key val of
        Inl e \<Rightarrow> Inl e
      | Inr _ \<Rightarrow> overlay_loop (filter (\<lambda>(existing, _). \<not> eq_ignore_ascii_case existing key) base @ [(key, val)]) overlay)"

definition overlay_environment :: "(string \<times> string) list \<Rightarrow> (string \<times> string) list \<Rightarrow> launch_error + (string \<times> string) list" where
  "overlay_environment base overlay =
     map_sum id (sort_key (\<lambda>(key, _). (to_ascii_lowercase key, key))) (overlay_loop base overlay)"

definition environment_value :: "(string \<times> string) list \<Rightarrow> string \<Rightarrow> string option" where
  "environment_value environment key = map_option snd (find (\<lambda>(candidate, _). eq_ignore_ascii_case candidate key) environment)"

fun block_entries :: "(string \<times> string) list \<Rightarrow> launch_error + u16 list" where
  "block_entries [] = Inr []"
| "block_entries ((key, val) # environment) =
     (case validate_environment_entry key val of
        Inl e \<Rightarrow> Inl e
      | Inr _ \<Rightarrow> map_sum id (\<lambda>block. encode_wide key @ 0x3D # encode_wide val @ 0 # block) (block_entries environment))"

definition encode_environment_block :: "(string \<times> string) list \<Rightarrow> launch_error + u16 list" where
  "encode_environment_block environment =
     map_sum id (\<lambda>block. let block = block @ [0] in if length block = 1 then block @ [0] else block) (block_entries environment)"

definition MAX_ENVIRONMENT_UNITS :: nat where "MAX_ENVIRONMENT_UNITS = 16 * 1024 * 1024"

definition entry_delimiter :: "string \<Rightarrow> nat option" where
  "entry_delimiter entry =
     (case strip_prefix ''='' entry of
        Some rest \<Rightarrow> map_option (\<lambda>i. i + 1) (find_char (CHR ''='') rest)
      | None \<Rightarrow> find_char (CHR ''='') entry)"

definition parse_entry :: "u16 list \<Rightarrow> launch_error + string \<times> string" where
  "parse_entry units =
     (case from_utf16 units of
        None \<Rightarrow> Inl (InvalidData ''caller environment contains invalid UTF-16'')
      | Some entry \<Rightarrow>
          (case entry_delimiter entry of
             None \<Rightarrow> Inl (InvalidData (''caller environment entry has no '' @ [CHR 0x27] @ ''='' @ [CHR 0x27] @ '' delimiter''))
           | Some d \<Rightarrow>
               let key = take d entry; val = drop 1 (drop d entry) in
               map_sum id (\<lambda>_. (key, val)) (validate_environment_entry key val)))"

text \<open>
  The loop of \<open>environment_from_token\<close> over the block the system returned, from an offset on;
  \<open>PastEnd\<close> is a read beyond the block, which a terminated block never causes.
\<close>

fun environment_from_block :: "nat \<Rightarrow> u16 list \<Rightarrow> launch_error + (string \<times> string) list" where
  "environment_from_block offset [] =
     (if offset \<ge> MAX_ENVIRONMENT_UNITS then Inl (InvalidData ''caller environment block is not terminated'') else Inl PastEnd)"
| "environment_from_block offset (u # us) =
     (if offset \<ge> MAX_ENVIRONMENT_UNITS then Inl (InvalidData ''caller environment block is not terminated'')
      else if u = 0 then Inr []
      else let entry = takeWhile (\<lambda>x. x \<noteq> 0) (u # us) in
        if offset + length entry \<ge> MAX_ENVIRONMENT_UNITS then Inl (InvalidData ''caller environment entry is not terminated'')
        else case drop (length entry) (u # us) of
          [] \<Rightarrow> Inl PastEnd
        | _ # _ \<Rightarrow>
            (case parse_entry entry of
               Inl e \<Rightarrow> Inl e
             | Inr kv \<Rightarrow> map_sum id (Cons kv) (environment_from_block (offset + length entry + 1) (drop (length entry) us))))"

section \<open>Command lines\<close>

abbreviation dq :: char where "dq \<equiv> CHR 0x22"
abbreviation sp :: char where "sp \<equiv> CHR 0x20"
abbreviation tab :: char where "tab \<equiv> CHR 0x09"

definition is_delim :: "char \<Rightarrow> bool" where
  "is_delim c \<longleftrightarrow> c = sp \<or> c = tab"

text \<open>The loop of \<open>quote_windows_arg\<close>, with the number of backslashes it holds back.\<close>

fun quote_chars :: "nat \<Rightarrow> string \<Rightarrow> string" where
  "quote_chars backslashes [] = replicate (backslashes * 2) bsl"
| "quote_chars backslashes (c # cs) =
     (if c = bsl then quote_chars (backslashes + 1) cs
      else if c = dq then replicate (backslashes * 2 + 1) bsl @ dq # quote_chars 0 cs
      else replicate backslashes bsl @ c # quote_chars 0 cs)"

definition quote_windows_arg :: "string \<Rightarrow> string" where
  "quote_windows_arg argument =
     (if argument \<noteq> [] \<and> \<not> list_ex (\<lambda>c. c = sp \<or> c = tab \<or> c = dq) argument then argument
      else dq # quote_chars 0 argument @ [dq])"

definition quote_windows_argv :: "string list \<Rightarrow> string" where
  "quote_windows_argv argv = join_with sp (map quote_windows_arg argv)"

text \<open>
  The documented parsing of a command line by the Microsoft C runtime. The program name ends
  at the first delimiter outside double quotes, and backslashes are ordinary in it. In an
  argument, \<open>2n\<close> backslashes before a double quote stand for \<open>n\<close> and the quote switches quoting,
  \<open>2n+1\<close> stand for \<open>n\<close> and a literal quote; a doubled quote inside quotes is a literal one.
\<close>

fun parse_program :: "bool \<Rightarrow> string \<Rightarrow> string \<times> string" where
  "parse_program q [] = ([], [])"
| "parse_program q (c # cs) =
     (if c = dq then parse_program (\<not> q) cs
      else if \<not> q \<and> is_delim c then ([], cs)
      else map_prod (Cons c) id (parse_program q cs))"

fun parse_argument :: "bool \<Rightarrow> nat \<Rightarrow> string \<Rightarrow> string \<times> string" where
  "parse_argument q n [] = (replicate n bsl, [])"
| "parse_argument q n (c # cs) =
     (if c = bsl then parse_argument q (n + 1) cs
      else if c = dq then
        (if odd n then map_prod (append (replicate (n div 2) bsl @ [dq])) id (parse_argument q 0 cs)
         else if q \<and> starts_with cs [dq]
         then map_prod (append (replicate (n div 2) bsl @ [dq])) id (parse_argument q 0 (drop 1 cs))
         else map_prod (append (replicate (n div 2) bsl)) id (parse_argument (\<not> q) 0 cs))
      else if \<not> q \<and> is_delim c then (replicate n bsl, cs)
      else map_prod (append (replicate n bsl @ [c])) id (parse_argument q 0 cs))"

lemma parse_argument_shorter: "length (snd (parse_argument q n s)) \<le> length s"
  by (induction q n s rule: parse_argument.induct) auto

function parse_arguments :: "string \<Rightarrow> string list" where
  "parse_arguments s =
     (case dropWhile is_delim s of
        [] \<Rightarrow> []
      | c # cs \<Rightarrow> (case parse_argument False 0 (c # cs) of (a, rest) \<Rightarrow> a # parse_arguments rest))"
  by pat_completeness auto

lemma parse_argument_consumes: "length (snd (parse_argument q n (c # cs))) \<le> length cs"
  using parse_argument_shorter [of q "n + 1" cs] parse_argument_shorter [of q 0 cs] parse_argument_shorter [of "\<not> q" 0 cs]
    parse_argument_shorter [of q 0 "drop 1 cs"] by auto

lemma parse_argument_rest:
  assumes "dropWhile is_delim s = c # cs" "(a, rest) = parse_argument False 0 (c # cs)"
  shows "length rest < length s"
proof -
  have "length rest \<le> length cs" using parse_argument_consumes [of False 0 c cs] assms(2) by (metis snd_conv)
  moreover have "length (c # cs) \<le> length s" using length_dropWhile_le [of is_delim s] assms(1) by simp
  ultimately show ?thesis by simp
qed

termination parse_arguments
  by (relation "measure length") (auto dest!: parse_argument_rest)

declare parse_arguments.simps [simp del]

definition windows_argv :: "string \<Rightarrow> string list" where
  "windows_argv s = (case parse_program False s of (p, rest) \<Rightarrow> p # parse_arguments rest)"

section \<open>Batch files\<close>

text \<open>
  A batch file runs through \<open>cmd.exe\<close>. The command line is built in UTF-16 units; the script's
  path is a list of units, and \<open>GetFullPathNameW\<close> a parameter.
\<close>

abbreviation u_dq :: u16 where "u_dq \<equiv> 0x22"
abbreviation u_sp :: u16 where "u_sp \<equiv> 0x20"
abbreviation u_bsl :: u16 where "u_bsl \<equiv> 0x5C"
abbreviation u_percent :: u16 where "u_percent \<equiv> 0x25"

definition UNQUOTED :: string where
  "UNQUOTED = ''#$*+-./:?@'' @ [bsl] @ ''_''"

definition needs_quotes :: "nat \<Rightarrow> bool" where
  "needs_quotes v \<longleftrightarrow>
     v < 0x80 \<and> \<not> (is_ascii_alphabetic (char_of v) \<or> is_ascii_digit (char_of v) \<or> char_of v \<in> set UNQUOTED)
     \<or> v < 0x20 \<or> 0x7F \<le> v \<and> v < 0xA0"

fun batch_units :: "nat \<Rightarrow> u16 list \<Rightarrow> u16 list \<times> nat" where
  "batch_units backslashes [] = ([], backslashes)"
| "batch_units backslashes (u # us) =
     (if u = u_bsl then map_prod (Cons u) id (batch_units (backslashes + 1) us)
      else map_prod (append ((if u = u_dq then replicate backslashes u_bsl @ [u_dq]
                              else if u = u_percent then encode_wide ''%%cd:~,'' else []) @ [u])) id
             (batch_units 0 us))"

definition append_batch_argument :: "u16 list \<Rightarrow> string \<Rightarrow> launch_error + u16 list" where
  "append_batch_argument command_line argument =
     (if list_ex (\<lambda>c. c \<in> {CHR 0x00, CHR 0x0D, CHR 0x0A}) argument
      then Inl (InvalidInput ''batch file arguments must not contain NUL, CR, or LF'')
      else let qt = (argument = [] \<or> ends_with argument [bsl] \<or> list_ex needs_quotes (scalars argument));
               (units, backslashes) = batch_units 0 (encode_wide argument)
           in Inr (command_line @ (if qt then [u_dq] else []) @ units
                   @ (if qt then replicate backslashes u_bsl @ [u_dq] else [])))"

fun append_batch_arguments :: "u16 list \<Rightarrow> string list \<Rightarrow> launch_error + u16 list" where
  "append_batch_arguments command_line [] = Inr command_line"
| "append_batch_arguments command_line (argument # args) =
     (case append_batch_argument (command_line @ [u_sp]) argument of
        Inl e \<Rightarrow> Inl e
      | Inr command_line' \<Rightarrow> append_batch_arguments command_line' args)"

definition LEGACY_MAX_PATH :: nat where "LEGACY_MAX_PATH = 260"

definition VERBATIM :: "u16 list" where "VERBATIM = [u_bsl, u_bsl, 0x3F, u_bsl]"

definition batch_candidate :: "u16 list \<Rightarrow> u16 list option" where
  "batch_candidate wide =
     (case wide of
        a # b # c # d # e # f # g # rest \<Rightarrow>
          if [a, b, c, d] = VERBATIM \<and> f = 0x3A \<and> g = u_bsl then Some (drop 4 wide)
          else if [a, b, c, d, e, f, g] = VERBATIM @ [0x55, 0x4E, 0x43] \<and> starts_with rest [u_bsl]
          then Some ([u_bsl, u_bsl] @ drop 8 wide)
          else None
      | _ \<Rightarrow> None)"

definition verified_batch_user_path :: "(u16 list \<Rightarrow> u16 list option) \<Rightarrow> u16 list \<Rightarrow> launch_error + u16 list" where
  "verified_batch_user_path full_path path =
     (let wide = path @ [0] in
      if length wide > LEGACY_MAX_PATH then Inr wide
      else case batch_candidate wide of
        None \<Rightarrow> Inr wide
      | Some candidate \<Rightarrow>
          (case full_path candidate of
             None \<Rightarrow> Inl OsFailure
           | Some full \<Rightarrow>
               if full \<noteq> butlast candidate
               then Inl (InvalidInput ''batch path cannot be safely converted from verbatim form'')
               else Inr (full @ [0])))"

definition strip_nul :: "u16 list \<Rightarrow> u16 list" where
  "strip_nul us = (if ends_with us [0] then butlast us else us)"

definition make_batch_command_line :: "(u16 list \<Rightarrow> u16 list option) \<Rightarrow> u16 list \<Rightarrow> string list \<Rightarrow> launch_error + string" where
  "make_batch_command_line full_path script args =
     (case verified_batch_user_path full_path script of
        Inl e \<Rightarrow> Inl e
      | Inr script \<Rightarrow>
          if starts_with script VERBATIM then Inl (InvalidInput ''cmd.exe does not support verbatim batch paths'')
          else let script = strip_nul script in
            if u_dq \<in> set script \<or> ends_with script [u_bsl]
            then Inl (InvalidInput ''Windows batch paths must not contain quotes or end with backslash'')
            else case append_batch_arguments (encode_wide (''cmd.exe /e:ON /v:OFF /d /c '' @ [dq]) @ [u_dq] @ script @ [u_dq]) args of
              Inl e \<Rightarrow> Inl e
            | Inr command_line \<Rightarrow>
                (case from_utf16 (command_line @ [u_dq]) of
                   None \<Rightarrow> Inl (InvalidInput ''batch command line contains invalid UTF-16'')
                 | Some s \<Rightarrow> Inr s))"

section \<open>Preparing a launch\<close>

record caller_launch =
  cl_application :: string
  cl_command_line :: string
  cl_cwd :: string
  cl_environment :: "(string \<times> string) list"

text \<open>
  The file system as a launch sees it: whether a path is an absolute directory, the lookup of
  a program along the caller's \<open>PATH\<close> (\<open>resolve_caller_program\<close>, whose result is a canonical
  path) and \<open>GetFullPathNameW\<close>.
\<close>

record launch_fs =
  lf_absolute_dir :: "string \<Rightarrow> bool"
  lf_resolve :: "string \<Rightarrow> string \<Rightarrow> (string \<times> string) list \<Rightarrow> launch_error + string"
  lf_full_path :: "u16 list \<Rightarrow> u16 list option"

text \<open>\<open>Path::extension\<close>: what follows the last dot of the file name, unless nothing precedes it.\<close>

definition path_extension :: "string \<Rightarrow> string option" where
  "path_extension p =
     (let name = takeWhile (\<lambda>c. c \<noteq> bsl \<and> c \<noteq> CHR ''/'') (rev p); ext = takeWhile (\<lambda>c. c \<noteq> CHR ''.'') name
      in if CHR ''.'' \<in> set name \<and> drop (length ext + 1) name \<noteq> [] then Some (rev ext) else None)"

definition is_batch :: "string \<Rightarrow> bool" where
  "is_batch p = (case path_extension p of None \<Rightarrow> False
     | Some e \<Rightarrow> eq_ignore_ascii_case e ''cmd'' \<or> eq_ignore_ascii_case e ''bat'')"

definition prepare_caller_launch :: "launch_fs \<Rightarrow> command \<Rightarrow> (string \<times> string) list \<Rightarrow> launch_error + caller_launch" where
  "prepare_caller_launch lf cmd environment =
     (let argv = cmd_argv cmd; cwd = cmd_cwd cmd in
      if argv = [] then Inl (InvalidInput ''command.argv is empty'')
      else if list_ex (\<lambda>a. nul \<in> set a) argv then Inl (InvalidInput ''command arguments must not contain NUL'')
      else if cwd = [] \<or> nul \<in> set cwd
      then Inl (InvalidInput ''authenticated caller command requires a nonempty NUL-free cwd'')
      else if \<not> lf_absolute_dir lf cwd
      then Inl (InvalidInput (''authenticated caller cwd is not an absolute directory: '' @ cwd))
      else case lf_resolve lf (hd argv) cwd environment of
        Inl e \<Rightarrow> Inl e
      | Inr application \<Rightarrow>
          map_sum id (\<lambda>(app, line). \<lparr>cl_application = app, cl_command_line = line, cl_cwd = cwd, cl_environment = environment\<rparr>)
            (if is_batch application then
               (case environment_value environment ''ComSpec'' of
                  None \<Rightarrow> Inl (ProgramNotFound ''caller environment has no ComSpec for batch execution'')
                | Some comspec \<Rightarrow>
                    (case lf_resolve lf comspec cwd environment of
                       Inl e \<Rightarrow> Inl e
                     | Inr comspec \<Rightarrow>
                         (case make_batch_command_line (lf_full_path lf) (encode_wide application) (tl argv) of
                            Inl e \<Rightarrow> Inl e | Inr line \<Rightarrow> Inr (comspec, line))))
             else Inr (application, quote_windows_argv (application # tl argv))))"

section \<open>The command line reads back as the argument vector\<close>

text \<open>What follows an argument: the end of the line, or a blank and the next one.\<close>

definition after_argument :: "string \<Rightarrow> string \<Rightarrow> bool" where
  "after_argument rest r \<longleftrightarrow> rest = [] \<and> r = [] \<or> rest = sp # r"

lemma parse_argument_end: "after_argument rest r \<Longrightarrow> parse_argument False n rest = (replicate n bsl, r)"
  by (auto simp: after_argument_def is_delim_def)

lemma parse_argument_backslashes: "parse_argument q n (replicate m bsl @ s) = parse_argument q (n + m) s"
  by (induction m arbitrary: n) simp_all

lemma parse_quoted:
  "after_argument rest r \<Longrightarrow> parse_argument True 0 (quote_chars k a @ dq # rest) = (replicate k bsl @ a, r)"
proof (induction k a rule: quote_chars.induct)
  case (1 k)
  then have "\<not> starts_with rest [dq]" by (auto simp: after_argument_def starts_with_def)
  then show ?case using 1 by (simp add: parse_argument_backslashes parse_argument_end)
next
  case (2 k c cs)
  have shift: "replicate (k + 1) bsl @ cs = replicate k bsl @ bsl # cs" by (simp add: replicate_app_Cons_same)
  have dq: "dq \<noteq> bsl" by simp
  have "parse_argument True 0 (replicate (k * 2 + 1) bsl @ dq # quote_chars 0 cs @ dq # rest) = (replicate k bsl @ dq # cs, r)"
    if "c = dq" using 2(2) [OF _ that 2(4)] that unfolding parse_argument_backslashes by simp
  moreover have "parse_argument True 0 (replicate k bsl @ c # quote_chars 0 cs @ dq # rest) = (replicate k bsl @ c # cs, r)"
    if "c \<noteq> bsl" "c \<noteq> dq" using 2(3) [OF that 2(4)] that by (simp add: parse_argument_backslashes)
  ultimately show ?case using 2(1) [OF _ 2(4)] shift by auto
qed

lemma parse_plain:
  "\<not> list_ex (\<lambda>c. c = sp \<or> c = tab \<or> c = dq) a \<Longrightarrow> after_argument rest r \<Longrightarrow>
   parse_argument False n (a @ rest) = (replicate n bsl @ a, r)"
proof (induction a arbitrary: n)
  case Nil
  then show ?case by (simp add: parse_argument_end)
next
  case (Cons c a)
  have shift: "replicate (n + 1) bsl @ a = replicate n bsl @ bsl # a" by (simp add: replicate_app_Cons_same)
  show ?case using Cons.IH [of "n + 1"] Cons.IH [of 0] Cons.prems shift by (auto simp: is_delim_def)
qed

lemma parse_quote_windows_arg:
  "after_argument rest r \<Longrightarrow> parse_argument False 0 (quote_windows_arg a @ rest) = (a, r)"
  using parse_plain [of a rest r 0] parse_quoted [of rest r 0 a] by (auto simp: quote_windows_arg_def)

lemma quote_windows_arg_start: "\<exists>c cs. quote_windows_arg a = c # cs \<and> \<not> is_delim c"
  by (cases a) (auto simp: quote_windows_arg_def is_delim_def)

lemma parse_arguments_Cons:
  assumes "after_argument rest r"
  shows "parse_arguments (quote_windows_arg a @ rest) = a # parse_arguments r"
proof -
  obtain c cs where q: "quote_windows_arg a = c # cs" "\<not> is_delim c" using quote_windows_arg_start by blast
  then have "dropWhile is_delim (quote_windows_arg a @ rest) = quote_windows_arg a @ rest" by simp
  then show ?thesis using parse_quote_windows_arg [OF assms, of a] q(1) by (subst parse_arguments.simps) simp
qed

lemma parse_quoted_arguments: "parse_arguments (join_with sp (map quote_windows_arg args)) = args"
proof (induction args rule: induct_list012)
  case 1
  then show ?case by (simp add: parse_arguments.simps)
next
  case (2 a)
  then show ?case using parse_arguments_Cons [of "[]" "[]" a] by (simp add: after_argument_def parse_arguments.simps [of "[]"])
next
  case (3 a b args)
  then show ?case using parse_arguments_Cons [of "sp # join_with sp (map quote_windows_arg (b # args))" _ a]
    by (simp add: after_argument_def)
qed

lemma quote_chars_path:
  "dq \<notin> set a \<Longrightarrow> a = [] \<and> k = 0 \<or> a \<noteq> [] \<and> last a \<noteq> bsl \<Longrightarrow> quote_chars k a = replicate k bsl @ a"
proof (induction k a rule: quote_chars.induct)
  case (2 k c cs)
  have "replicate (k + 1) bsl @ cs = replicate k bsl @ bsl # cs" by (simp add: replicate_app_Cons_same)
  then show ?case using 2 by (cases cs) auto
qed simp

lemma parse_program_quoted:
  "dq \<notin> set p \<Longrightarrow> after_argument rest r \<Longrightarrow> parse_program True (p @ dq # rest) = (p, r)"
  by (induction p) (auto simp: after_argument_def is_delim_def)

lemma parse_program_plain:
  "dq \<notin> set p \<Longrightarrow> \<not> list_ex is_delim p \<Longrightarrow> after_argument rest r \<Longrightarrow> parse_program False (p @ rest) = (p, r)"
  by (induction p) (auto simp: after_argument_def is_delim_def)

lemma parse_quoted_program:
  assumes "dq \<notin> set p" "p \<noteq> []" "last p \<noteq> bsl" "after_argument rest r"
  shows "parse_program False (quote_windows_arg p @ rest) = (p, r)"
proof (cases "list_ex is_delim p")
  case True
  then have "list_ex (\<lambda>c. c = sp \<or> c = tab \<or> c = dq) p" by (auto simp: list_ex_iff is_delim_def)
  then show ?thesis using assms quote_chars_path [of p 0] parse_program_quoted [of p rest r]
    by (simp add: quote_windows_arg_def)
next
  case False
  then have "\<not> list_ex (\<lambda>c. c = sp \<or> c = tab \<or> c = dq) p" using assms(1) by (auto simp: list_ex_iff is_delim_def)
  then show ?thesis using assms False parse_program_plain by (simp add: quote_windows_arg_def)
qed

lemma windows_argv_quoted:
  assumes "dq \<notin> set p" "p \<noteq> []" "last p \<noteq> bsl"
  shows "windows_argv (quote_windows_argv (p # args)) = p # args"
proof (cases args)
  case Nil
  then show ?thesis using parse_quoted_program [OF assms, of "[]" "[]"]
    by (simp add: windows_argv_def quote_windows_argv_def after_argument_def parse_arguments.simps)
next
  case (Cons a as)
  then show ?thesis
    using parse_quoted_program [OF assms, of "sp # join_with sp (map quote_windows_arg args)"] parse_quoted_arguments [of args]
    by (simp add: windows_argv_def quote_windows_argv_def after_argument_def)
qed

section \<open>Batch arguments stay inside quotes\<close>

fun outside :: "bool \<Rightarrow> u16 list \<Rightarrow> u16 list" where
  "outside q [] = []"
| "outside q (u # us) = (if u = u_dq then outside (\<not> q) us else (if q then [] else [u]) @ outside q us)"

definition balanced :: "u16 list \<Rightarrow> bool" where
  "balanced us \<longleftrightarrow> even (count_list us u_dq)"

lemma outside_append: "outside q (us @ vs) = outside q us @ outside (q \<noteq> odd (count_list us u_dq)) vs"
  by (induction q us rule: outside.induct) auto

lemma outside_no_quote: "u_dq \<notin> set us \<Longrightarrow> outside q us = (if q then [] else us)"
  by (induction us) auto

lemma outside_inside: "u_dq \<notin> set us \<Longrightarrow> outside True us = []"
  by (simp add: outside_no_quote)

lemma percent_prefix: "encode_wide ''%%cd:~,'' = [0x25, 0x25, 0x63, 0x64, 0x3A, 0x7E, 0x2C]"
  by (simp add: encode_wide_ascii)

lemma batch_units_inside:
  "outside True (fst (batch_units n us)) = [] \<and> balanced (fst (batch_units n us))"
proof (induction n us rule: batch_units.induct)
  case (2 n u us)
  have "u_dq \<notin> set (replicate n u_bsl)" by simp
  then show ?case using 2
    by (auto simp: balanced_def outside_append outside_inside percent_prefix count_list_0_iff)
qed (simp add: balanced_def)

lemma batch_units_plain: "u_dq \<notin> set us \<Longrightarrow> u_percent \<notin> set us \<Longrightarrow> fst (batch_units n us) = us"
  by (induction n us rule: batch_units.induct) auto

lemma batch_units_set: "set (fst (batch_units n us)) \<subseteq> set us \<union> {u_bsl, u_dq} \<union> set (encode_wide ''%%cd:~,'')"
  by (induction n us rule: batch_units.induct) auto

definition inert :: "u16 list \<Rightarrow> bool" where
  "inert us \<longleftrightarrow> balanced us \<and> (\<forall>u \<in> set (outside False us). u = u_sp \<or> \<not> needs_quotes (unat u))
     \<and> 0 \<notin> set us \<and> 0x0D \<notin> set us \<and> 0x0A \<notin> set us"

lemma inert_append: "inert us \<Longrightarrow> inert vs \<Longrightarrow> inert (us @ vs)"
  by (auto simp: inert_def balanced_def outside_append)

lemma inert_blank: "inert [u_sp]"
  by (simp add: inert_def balanced_def)

lemma inert_argument:
  assumes "append_batch_argument cl a = Inr cl'" "utf8_str a"
  shows "\<exists>t. cl' = cl @ t \<and> inert t"
proof -
  define us where "us = encode_wide a"
  have clean: "0 \<notin> set us" "0x0D \<notin> set us" "0x0A \<notin> set us"
    using assms encode_wide_char [OF assms(2), of "CHR 0x00"] encode_wide_char [OF assms(2), of "CHR 0x0D"]
      encode_wide_char [OF assms(2), of "CHR 0x0A"]
    by (auto simp: append_batch_argument_def us_def list_ex_iff split: if_splits)
  obtain units n where b: "batch_units 0 us = (units, n)" by fastforce
  have set_units: "0 \<notin> set units" "0x0D \<notin> set units" "0x0A \<notin> set units"
    using batch_units_set [of 0 us] clean b by (auto simp: percent_prefix)
  define qt where "qt = (a = [] \<or> ends_with a [bsl] \<or> list_ex needs_quotes (scalars a))"
  define t where "t = (if qt then [u_dq] else []) @ units @ (if qt then replicate n u_bsl @ [u_dq] else [])"
  have "cl' = cl @ t"
    using assms(1) b unfolding append_batch_argument_def qt_def [symmetric] us_def t_def by (auto split: if_splits)
  moreover have "inert t"
  proof (cases qt)
    case True
    have "outside True units = []" "balanced units" using batch_units_inside [of 0 us] b by simp_all
    then have "outside False t = []" "balanced t"
      using True by (simp_all add: t_def outside_append balanced_def outside_inside count_list_0_iff)
    then show ?thesis using True set_units by (auto simp: inert_def t_def)
  next
    case False
    have safe: "\<not> needs_quotes (unat u)" if "u \<in> set us" for u
      using encode_wide_unit [OF assms(2), of u] that False by (auto simp: us_def qt_def list_ex_iff needs_quotes_def)
    have "char_of (34 :: nat) = dq" "char_of (37 :: nat) = CHR ''%''" by (simp_all add: char_of_eq_iff take_bit_eq_mod)
    then have "needs_quotes (unat u_dq)" "needs_quotes (unat u_percent)"
      by (auto simp: needs_quotes_def is_ascii_alphabetic_def is_ascii_upper_def is_ascii_lower_def is_ascii_digit_def UNQUOTED_def)
    with safe have no: "u_dq \<notin> set us" "u_percent \<notin> set us" by blast+
    then have "t = us" using batch_units_plain [of us 0] b False by (simp add: t_def)
    then show ?thesis using no safe clean by (simp add: inert_def balanced_def outside_no_quote count_list_0_iff)
  qed
  ultimately show ?thesis by blast
qed

lemma inert_arguments:
  "append_batch_arguments cl args = Inr cl' \<Longrightarrow> \<forall>a \<in> set args. utf8_str a \<Longrightarrow> \<exists>t. cl' = cl @ t \<and> inert t"
proof (induction cl args rule: append_batch_arguments.induct)
  case (1 cl)
  then show ?case by (auto simp: inert_def balanced_def)
next
  case (2 cl a args)
  then obtain cl1 where c1: "append_batch_argument (cl @ [u_sp]) a = Inr cl1" "append_batch_arguments cl1 args = Inr cl'"
    by (auto split: sum.splits)
  obtain t1 where t1: "cl1 = (cl @ [u_sp]) @ t1" "inert t1" using inert_argument [OF c1(1)] "2.prems"(2) by auto
  obtain t2 where t2: "cl' = cl1 @ t2" "inert t2" using "2.IH" [OF c1] "2.prems"(2) by auto
  have "cl' = cl @ ([u_sp] @ t1 @ t2)" using t1(1) t2(1) by simp
  then show ?case using inert_append [OF inert_blank inert_append [OF t1(2) t2(2)]] by blast
qed

lemma batch_line:
  assumes "make_batch_command_line full_path script args = Inr line" "\<forall>a \<in> set args. utf8_str a"
  shows "\<exists>path tail. from_utf16 (encode_wide (''cmd.exe /e:ON /v:OFF /d /c '' @ [dq]) @ (u_dq # path @ u_dq # tail) @ [u_dq]) = Some line
    \<and> u_dq \<notin> set path \<and> inert tail"
proof -
  obtain path cl where p: "u_dq \<notin> set path"
      "append_batch_arguments (encode_wide (''cmd.exe /e:ON /v:OFF /d /c '' @ [dq]) @ [u_dq] @ path @ [u_dq]) args = Inr cl"
      "from_utf16 (cl @ [u_dq]) = Some line"
    using assms(1) by (auto simp: make_batch_command_line_def Let_def split: sum.splits if_splits option.splits)
  from inert_arguments [OF p(2) assms(2)] p(1,3) show ?thesis by fastforce
qed

section \<open>The environment block reads back\<close>

text \<open>
  An entry that survives the block: a valid one whose name holds no equals sign behind its
  first character, as the names of Windows do.
\<close>

definition entry_wf :: "string \<times> string \<Rightarrow> bool" where
  "entry_wf kv \<longleftrightarrow> utf8_str (fst kv) \<and> utf8_str (snd kv) \<and> validate_environment_entry (fst kv) (snd kv) = Inr ()
     \<and> CHR ''='' \<notin> set (tl (fst kv))"

lemma find_char_append: "c \<notin> set s \<Longrightarrow> find_char c (s @ c # t) = Some (length s)"
  by (simp add: find_char_def takeWhile_append)

lemma entry_delimiter_exact:
  assumes "k \<noteq> []" "CHR ''='' \<notin> set (tl k)" "CHR ''='' \<in> set k \<longrightarrow> starts_with k ''=''"
  shows "entry_delimiter (k @ CHR ''='' # v) = Some (length k)"
proof (cases k)
  case (Cons c cs)
  show ?thesis
  proof (cases "c = CHR ''=''")
    case True
    then show ?thesis using Cons assms(2) by (simp add: entry_delimiter_def find_char_append)
  next
    case False
    then have "CHR ''='' \<notin> set k" using Cons assms(2) by simp
    then show ?thesis using Cons False find_char_append [of "CHR ''=''" k v] by (simp add: entry_delimiter_def)
  qed
qed (use assms in simp)

lemma parse_entry_encoded:
  assumes "entry_wf (k, v)"
  shows "parse_entry (encode_wide k @ 0x3D # encode_wide v) = Inr (k, v)"
    and "0 \<notin> set (encode_wide k @ 0x3D # encode_wide v)"
proof -
  have wf: "utf8_str k" "utf8_str v" "validate_environment_entry k v = Inr ()" "CHR ''='' \<notin> set (tl k)"
    using assms by (simp_all add: entry_wf_def)
  have val: "k \<noteq> []" "nul \<notin> set k" "nul \<notin> set v" "CHR ''='' \<in> set k \<longrightarrow> starts_with k ''=''"
    using wf(3) by (auto simp: validate_environment_entry_def split: if_splits)
  have str: "utf8_str (k @ CHR ''='' # v)" using wf(1,2) by (simp add: utf8_str_append utf8_str_ascii)
  have enc: "encode_wide (k @ CHR ''='' # v) = encode_wide k @ 0x3D # encode_wide v"
    using wf(1) by (simp add: encode_wide_append encode_wide_ascii)
  show "parse_entry (encode_wide k @ 0x3D # encode_wide v) = Inr (k, v)"
    using from_utf16_encode_wide [OF str] entry_delimiter_exact [OF val(1) wf(4) val(4)] wf(3)
    by (simp add: parse_entry_def enc)
  show "0 \<notin> set (encode_wide k @ 0x3D # encode_wide v)" using val(2,3) wf(1,2) by (simp add: encode_wide_nul)
qed

lemma block_entries_Cons:
  "entry_wf (k, v) \<Longrightarrow> block_entries ((k, v) # env) =
     map_sum id (\<lambda>block. (encode_wide k @ 0x3D # encode_wide v) @ 0 # block) (block_entries env)"
  by (simp add: entry_wf_def)

lemma environment_from_entries:
  "list_all entry_wf env \<Longrightarrow> \<exists>block. block_entries env = Inr block
     \<and> (\<forall>off junk. off + length block < MAX_ENVIRONMENT_UNITS \<longrightarrow> environment_from_block off (block @ 0 # junk) = Inr env)"
proof (induction env)
  case Nil
  then show ?case by simp
next
  case (Cons kv env)
  obtain k v where kv: "kv = (k, v)" by (cases kv)
  obtain block where IH: "block_entries env = Inr block"
      "\<And>off junk. off + length block < MAX_ENVIRONMENT_UNITS \<Longrightarrow> environment_from_block off (block @ 0 # junk) = Inr env"
    using Cons by auto
  define e where "e = encode_wide k @ 0x3D # encode_wide v"
  have e: "parse_entry e = Inr (k, v)" "0 \<notin> set e" "e \<noteq> []"
    using parse_entry_encoded [of k v] Cons.prems kv by (simp_all add: e_def)
  then obtain u us where us: "e = u # us" "u \<noteq> 0" by (cases e) auto
  have "environment_from_block off ((e @ 0 # block) @ 0 # junk) = Inr ((k, v) # env)"
    if "off + length (e @ 0 # block) < MAX_ENVIRONMENT_UNITS" for off junk
  proof -
    have tw: "takeWhile (\<lambda>x. x \<noteq> 0) (u # us @ 0 # block @ 0 # junk) = e"
      using e(2) us by (auto simp: takeWhile_append intro: takeWhile_eq_all_conv [THEN iffD2])
    have "environment_from_block (off + length e + 1) (block @ 0 # junk) = Inr env" using that by (intro IH(2)) simp
    moreover have "drop (length e) (us @ 0 # block @ 0 # junk) = block @ 0 # junk" using us(1) by simp
    ultimately show ?thesis using that us e(1) tw by (simp add: Let_def)
  qed
  then show ?case using block_entries_Cons [of k v env] IH(1) Cons.prems kv by (auto simp: e_def)
qed

lemma environment_block_reads_back:
  assumes "list_all entry_wf env" "encode_environment_block env = Inr block" "length block < MAX_ENVIRONMENT_UNITS"
  shows "environment_from_block 0 (block @ junk) = Inr env"
proof -
  obtain b where b: "block_entries env = Inr b"
      "\<And>junk. length b < MAX_ENVIRONMENT_UNITS \<Longrightarrow> environment_from_block 0 (b @ 0 # junk) = Inr env"
    using environment_from_entries [OF assms(1)] by auto
  then show ?thesis using assms(2,3) b(2) [of "0 # junk"] b(2) [of junk]
    by (auto simp: encode_environment_block_def Let_def split: if_splits)
qed

section \<open>The overlaid environment\<close>

definition folded :: "(string \<times> string) list \<Rightarrow> (string \<times> string) list" where
  "folded env = map (\<lambda>(k, v). (to_ascii_lowercase k, v)) env"

lemma environment_value_folded: "environment_value env k = map_of (folded env) (to_ascii_lowercase k)"
proof (induction env)
  case (Cons kv env)
  then show ?case by (cases kv) (simp add: environment_value_def folded_def eq_ignore_ascii_case_def eq_commute)
qed (simp add: environment_value_def folded_def)

lemma folded_simps [simp]: "folded [] = []" "folded ((k, v) # env) = (to_ascii_lowercase k, v) # folded env"
    "folded (a @ b) = folded a @ folded b"
  by (simp_all add: folded_def)

lemma folded_remove:
  "folded (filter (\<lambda>(x, _). \<not> eq_ignore_ascii_case x k) env) = filter (\<lambda>kv. fst kv \<noteq> to_ascii_lowercase k) (folded env)"
  by (induction env) (auto simp: folded_def eq_ignore_ascii_case_def)

lemma folded_replace:
  "map_of (folded (filter (\<lambda>(x, _). \<not> eq_ignore_ascii_case x k) env @ [(k, v)])) = (map_of (folded env))(to_ascii_lowercase k \<mapsto> v)"
proof -
  have "map_of (filter (\<lambda>kv. fst kv \<noteq> f) xs) = (map_of xs)(f := None)" for f and xs :: "(string \<times> string) list"
    by (induction xs) (auto simp: fun_eq_iff)
  then show ?thesis by (auto simp: folded_remove map_add_def fun_eq_iff split: option.splits)
qed

lemma overlay_loop_exact:
  "overlay_loop base ov = Inr env \<Longrightarrow> distinct (map fst (folded base)) \<Longrightarrow> distinct (map fst (folded ov)) \<Longrightarrow>
   distinct (map fst (folded env)) \<and> map_of (folded env) = map_of (folded base) ++ map_of (folded ov)
   \<and> set env \<subseteq> set base \<union> set ov"
proof (induction base ov rule: overlay_loop.induct)
  case (2 base k v ov)
  let ?base = "filter (\<lambda>(x, _). \<not> eq_ignore_ascii_case x k) base @ [(k, v)]"
  have run: "validate_environment_entry k v = Inr ()" "overlay_loop ?base ov = Inr env"
    using "2.prems"(1) by (auto split: sum.splits)
  have dist: "distinct (map fst (folded ?base))" using "2.prems"(2) by (auto simp: folded_remove distinct_map_filter)
  have new: "map_of (folded ov) (to_ascii_lowercase k) = None" using "2.prems"(3) by (auto simp: map_of_eq_None_iff)
  note IH = "2.IH" [OF run dist]
  have "map_of (folded env) = map_of (folded ?base) ++ map_of (folded ov)" using IH "2.prems"(3) by simp
  also have "\<dots> = map_of (folded base) ++ map_of (folded ((k, v) # ov))"
    unfolding folded_replace using new by (auto simp: map_add_def fun_eq_iff split: option.splits)
  finally have "map_of (folded env) = map_of (folded base) ++ map_of (folded ((k, v) # ov))" .
  moreover have "set env \<subseteq> set base \<union> set ((k, v) # ov)" using IH "2.prems"(3) by auto
  moreover have "distinct (map fst (folded env))" using IH "2.prems"(3) by simp
  ultimately show ?case by blast
qed simp

lemma overlay_environment_exact:
  assumes "overlay_environment base ov = Inr env" "distinct (map fst (folded base))" "distinct (map fst (folded ov))"
  shows "environment_value env k = (case environment_value ov k of None \<Rightarrow> environment_value base k | Some v \<Rightarrow> Some v)"
    and "set env \<subseteq> set base \<union> set ov" "sorted (map (\<lambda>(k, _). (to_ascii_lowercase k, k)) env)" "distinct (map fst (folded env))"
proof -
  obtain r where r: "overlay_loop base ov = Inr r" "env = sort_key (\<lambda>(k, _). (to_ascii_lowercase k, k)) r"
    using assms(1) by (cases "overlay_loop base ov") (auto simp: overlay_environment_def)
  note loop = overlay_loop_exact [OF r(1) assms(2,3)]
  have perm: "mset (folded env) = mset (folded r)" by (simp only: r(2) folded_def mset_map mset_sort)
  then have dist: "distinct (map fst (folded env))" using loop
    by (metis mset_eq_imp_distinct_iff mset_map)
  then have "map_of (folded env) = map_of (folded r)"
    using perm loop by (intro map_of_inject_set [THEN iffD2]) (auto dest: mset_eq_setD)
  then show "environment_value env k = (case environment_value ov k of None \<Rightarrow> environment_value base k | Some v \<Rightarrow> Some v)"
    using loop by (simp add: environment_value_folded map_add_def cong: option.case_cong)
  show "set env \<subseteq> set base \<union> set ov" "sorted (map (\<lambda>(k, _). (to_ascii_lowercase k, k)) env)"
    using loop by (simp_all add: r(2))
  show "distinct (map fst (folded env))" by (rule dist)
qed

section \<open>Properties\<close>

text \<open>
  C32. The started program sees the submitted arguments. When a command is launched as the caller
  and its program is not a batch file, the C runtime of the started program parses the command
  line into the resolved program path followed by exactly the submitted arguments, whatever
  blanks, quotes and backslashes they hold; the working directory is the submitted one.
\<close>

theorem launch_argv_exact:
  assumes "prepare_caller_launch lf cmd env = Inr l" "lf_resolve lf (hd (cmd_argv cmd)) (cmd_cwd cmd) env = Inr app"
    and "\<not> is_batch app" "dq \<notin> set app" "app \<noteq> []" "last app \<noteq> bsl"
  shows "windows_argv (cl_command_line l) = app # tl (cmd_argv cmd) \<and> cl_application l = app
    \<and> cl_cwd l = cmd_cwd cmd \<and> cl_environment l = env"
  using assms(1-3) windows_argv_quoted [OF assms(4-6), of "tl (cmd_argv cmd)"]
  by (auto simp: prepare_caller_launch_def Let_def split: if_splits)

definition demo_app :: string where "demo_app = ''c:'' @ [bsl] @ ''my tools'' @ [bsl] @ ''cl.exe''"
definition demo_argv :: "string list" where "demo_argv = [''cl'', ''a b'', ''say '' @ [dq] @ ''x'' @ [dq], ''d'' @ [bsl], [], ''e '' @ [bsl]]"
definition demo_launch_fs :: launch_fs where
  "demo_launch_fs = \<lparr>lf_absolute_dir = (\<lambda>_. True), lf_resolve = (\<lambda>_ _ _. Inr demo_app), lf_full_path = (\<lambda>_. None)\<rparr>"
definition demo_launch_cmd :: command where
  "demo_launch_cmd = \<lparr>cmd_argv = demo_argv, cmd_env = [], cmd_cwd = ''c:'' @ [bsl]\<rparr>"

lemma demo_app_exe: "\<not> is_batch demo_app"
  by (simp add: is_batch_def path_extension_def demo_app_def eq_ignore_ascii_case_def to_ascii_lowercase_def lower_char_def is_ascii_upper_def)

theorem launch_argv_exact_witness:
  "\<exists>l. prepare_caller_launch demo_launch_fs demo_launch_cmd [] = Inr l
     \<and> windows_argv (cl_command_line l) = demo_app # tl demo_argv"
proof -
  have "\<exists>l. prepare_caller_launch demo_launch_fs demo_launch_cmd [] = Inr l"
    using demo_app_exe by (simp add: prepare_caller_launch_def demo_launch_fs_def demo_launch_cmd_def demo_argv_def)
  then obtain l where l: "prepare_caller_launch demo_launch_fs demo_launch_cmd [] = Inr l" by blast
  have "windows_argv (cl_command_line l) = demo_app # tl (cmd_argv demo_launch_cmd)"
    using launch_argv_exact [OF l, of demo_app] demo_app_exe by (simp add: demo_launch_fs_def demo_app_def)
  with l show ?thesis by (auto simp: demo_launch_cmd_def)
qed


definition demo_script :: "u16 list" where "demo_script = encode_wide (''c:'' @ [bsl] @ ''b.cmd'')"

lemma demo_script_eq: "demo_script = [0x63, 0x3A, 0x5C, 0x62, 0x2E, 0x63, 0x6D, 0x64]"
  by (simp add: demo_script_def encode_wide_ascii)

lemma demo_batch_line: "\<exists>line. make_batch_command_line (\<lambda>_. None) demo_script [''a&b''] = Inr line"
  by (simp add: make_batch_command_line_def verified_batch_user_path_def batch_candidate_def LEGACY_MAX_PATH_def VERBATIM_def
      demo_script_eq strip_nul_def ends_with_def suffix_def starts_with_def append_batch_argument_def encode_wide_ascii Let_def
      scalars_def from_utf16_def is_high_surrogate_def is_low_surrogate_def split: prod.splits)




end
