(* ===== verification/File_Client.thy ===== *)
theory File_Client
  imports Ops Cas_Digest Hash_Map
begin

text \<open>
  The worker's data-plane client, \<open>src/crates/worker/src/fileclient.rs\<close>. The operations issue
  calls over one connection; a call is an argument of every operation, a computation on the
  peer's state that gives the payload of the response or an error, so that the theorems hold
  for any peer, a lying one included. The multiplexed connection behind the calls (request
  ids, waiters, the reader task, the permits) is a step relation. The synthetic round-trip
  delay of the benchmarks is not modelled.
\<close>

section \<open>Errors and constants\<close>

datatype fc_error =
  FcIo io_error
| FcDial
| FcBrokenPipe
| FcTimedOut
| FcUncorrelated
| FcWire wire_error
| FcRejected string
| FcBadDigest digest_error
| FcShortRead
| FcCardinality
| FcUnbufferable u64
| FcMismatch digest digest

definition READ_CHUNK :: u32 where "READ_CHUNK = 256 * 1024"
definition WRITEBACK_CHUNK :: nat where "WRITEBACK_CHUNK = 1024 * 1024"
definition MAX_IN_FLIGHT_REQUESTS :: nat where "MAX_IN_FLIGHT_REQUESTS = 128"

type_synonym 's fc_call = "op_code \<Rightarrow> bytes \<Rightarrow> ('s, fc_error, bytes) sm"

definition to_io :: "wire_error + 'a \<Rightarrow> ('s, fc_error, 'a) sm" where
  "to_io r = (case r of Inl e \<Rightarrow> sm_err (FcWire e) | Inr a \<Rightarrow> sm_ret a)"

section \<open>The session handshake\<close>

text \<open>
  \<open>reply\<close> is what the peer sends when it has received the given bytes, \<open>None\<close> when it cannot
  be dialed.
\<close>

definition fc_connect :: "(bytes \<Rightarrow> bytes) option \<Rightarrow> string \<Rightarrow> string \<Rightarrow> string \<Rightarrow> fc_error + unit" where
  "fc_connect reply token root session_id =
     (case reply of
        None \<Rightarrow> Inl FcDial
      | Some answer \<Rightarrow>
          (case write_frame \<lparr>request_id = 0, op = Hello, is_response = False\<rparr>
                  (hello_request_encode \<lparr>hlq_token = token, hlq_root = root, hlq_session_id = session_id\<rparr>) [] of
             Inl e \<Rightarrow> Inl (FcIo e)
           | Inr sent \<Rightarrow>
               (case read_frame (answer sent) of
                  Inl e \<Rightarrow> Inl (FcIo e)
                | Inr (header, resp, _) \<Rightarrow>
                    if op header \<noteq> Hello \<or> \<not> is_response header then Inl FcUncorrelated
                    else case hello_response_decode resp of
                      Inl e \<Rightarrow> Inl (FcWire e)
                    | Inr hello \<Rightarrow> if \<not> hlr_ok hello then Inl (FcRejected (hlr_detail hello)) else Inr ())))"

section \<open>Batched operations\<close>

text \<open>\<open>slice::chunks\<close>: the chunks of a positive size, the last one possibly shorter.\<close>

function chunks :: "nat \<Rightarrow> 'a list \<Rightarrow> 'a list list" where
  "chunks n xs = (if xs = [] \<or> n = 0 then [] else take n xs # chunks n (drop n xs))"
  by pat_completeness auto

termination by (relation "measure (length o snd)") (auto simp: less_Suc_eq_le)

declare chunks.simps [simp del]

text \<open>The loop of the batched operations: one call per chunk, the first error ends it.\<close>

fun for_chunks :: "('a \<Rightarrow> ('s, fc_error, 'b list) sm) \<Rightarrow> 'a list \<Rightarrow> ('s, fc_error, 'b list) sm" where
  "for_chunks f [] = sm_ret []"
| "for_chunks f (c # cs) = sm_bind (f c) (\<lambda>bs. sm_bind (for_chunks f cs) (\<lambda>rest. sm_ret (bs @ rest)))"

definition fc_stat_batch :: "'s fc_call \<Rightarrow> string list \<Rightarrow> ('s, fc_error, stat_response) sm" where
  "fc_stat_batch call paths =
     (if paths = [] then sm_ret \<lparr>str_entries = []\<rparr>
      else sm_bind (for_chunks (\<lambda>chunk.
             sm_bind (call StatBatch (stat_request_encode \<lparr>stq_paths = chunk\<rparr>)) (\<lambda>resp.
             sm_bind (to_io (stat_response_decode resp)) (\<lambda>r. sm_ret (str_entries r)))) (chunks MAX_STAT_PATHS paths)) (\<lambda>entries.
           sm_ret \<lparr>str_entries = entries\<rparr>))"

definition fc_metadata_batch :: "'s fc_call \<Rightarrow> string list \<Rightarrow> ('s, fc_error, metadata_response) sm" where
  "fc_metadata_batch call paths =
     (if paths = [] then sm_ret \<lparr>mdr_entries = []\<rparr>
      else sm_bind (for_chunks (\<lambda>chunk.
             sm_bind (to_io (metadata_request_encode \<lparr>mdq_paths = chunk\<rparr>)) (\<lambda>payload.
             sm_bind (call MetadataBatchV1 payload) (\<lambda>resp.
             sm_bind (to_io (metadata_response_decode resp)) (\<lambda>r.
             sm_bind (sm_guard (length (mdr_entries r) = length chunk) FcCardinality) (\<lambda>_. sm_ret (mdr_entries r))))))
             (chunks MAX_METADATA_PATHS paths)) (\<lambda>entries.
           sm_ret \<lparr>mdr_entries = entries\<rparr>))"

definition fc_has :: "'s fc_call \<Rightarrow> string list \<Rightarrow> ('s, fc_error, bool list) sm" where
  "fc_has call digests =
     (if digests = [] then sm_ret []
      else for_chunks (\<lambda>chunk.
             sm_bind (call Has (has_request_encode \<lparr>hsq_digests = chunk\<rparr>)) (\<lambda>resp.
             sm_bind (to_io (has_response_decode resp)) (\<lambda>r. sm_ret (hsr_present r)))) (chunks MAX_HAS_DIGESTS digests))"

definition fc_dir_list :: "'s fc_call \<Rightarrow> string \<Rightarrow> u32 \<Rightarrow> ('s, fc_error, dir_list_response) sm" where
  "fc_dir_list call path depth =
     sm_bind (call DirList (dir_list_request_encode \<lparr>dlq_path = path, dlq_depth = depth\<rparr>)) (\<lambda>resp.
     to_io (dir_list_response_decode resp))"

section \<open>Reading content\<close>

definition fc_open_read :: "'s fc_call \<Rightarrow> string \<Rightarrow> bool \<Rightarrow> ('s, fc_error, open_read_response) sm" where
  "fc_open_read call path want_inline =
     sm_bind (call OpenRead (open_read_request_encode \<lparr>orq_path = path, orq_want_inline = want_inline\<rparr>)) (\<lambda>resp.
     to_io (open_read_response_decode resp))"

definition fc_read :: "'s fc_call \<Rightarrow> string \<Rightarrow> u64 \<Rightarrow> u32 \<Rightarrow> ('s, fc_error, read_response) sm" where
  "fc_read call digest offset len =
     sm_bind (call Read (read_request_encode \<lparr>rdq_digest_hex = digest, rdq_offset = offset, rdq_len = len\<rparr>)) (\<lambda>resp.
     to_io (read_response_decode resp))"

definition parse_reported :: "string \<Rightarrow> ('s, fc_error, digest) sm" where
  "parse_reported s = (case digest_parse s of Inl e \<Rightarrow> sm_err (FcBadDigest e) | Inr d \<Rightarrow> sm_ret d)"

definition probe_digest :: "'s fc_call \<Rightarrow> string \<Rightarrow> ('s, fc_error, (digest \<times> u64) option) sm" where
  "probe_digest call path =
     sm_bind (fc_open_read call path False) (\<lambda>opn.
     if \<not> orr_exists opn then sm_ret None
     else sm_bind (parse_reported (orr_digest_hex opn)) (\<lambda>d. sm_ret (Some (d, orr_size opn))))"

definition read_request_len :: "nat \<Rightarrow> u32" where
  "read_request_len remaining = word_of_nat (min remaining (unat READ_CHUNK))"

text \<open>\<open>reserves\<close> is whether the allocator grants the additional bytes.\<close>

definition content_buffer :: "(nat \<Rightarrow> bool) \<Rightarrow> bytes \<Rightarrow> u64 \<Rightarrow> fc_error + (bytes \<times> nat)" where
  "content_buffer reserves initial declared_size =
     (let target = unat declared_size in
      if reserves (target - length initial) then Inr (initial, target) else Inl (FcUnbufferable declared_size))"

definition verify :: "hash_fn \<Rightarrow> bytes \<Rightarrow> digest \<Rightarrow> ('s, fc_error, unit) sm" where
  "verify blake3 bs d = sm_guard (digest_of blake3 bs = d) (FcMismatch d (digest_of blake3 bs))"

lemma longer_read: "\<not> target \<le> length bs \<Longrightarrow> cs \<noteq> [] \<Longrightarrow> target - length (bs @ cs) < target - length bs"
  by (cases cs) auto

text \<open>The loop of ranged reads that \<open>fetch\<close> and \<open>fetch_by_digest\<close> share.\<close>

function read_rest :: "'s fc_call \<Rightarrow> string \<Rightarrow> nat \<Rightarrow> bytes \<Rightarrow> ('s, fc_error, bytes) sm" where
  "read_rest call digest_str target bs s =
     (if length bs \<ge> target then (Inr bs, s)
      else case fc_read call digest_str (word_of_nat (length bs)) (read_request_len (target - length bs)) s of
        (Inl e, s') \<Rightarrow> (Inl e, s')
      | (Inr chunk, s') \<Rightarrow>
          if rdr_bytes chunk = [] then (Inl FcShortRead, s')
          else read_rest call digest_str target (bs @ rdr_bytes chunk) s')"
  by pat_completeness auto

termination
  by (relation "measure (\<lambda>(call, digest_str, target, bs, s). target - length bs)") (auto intro: longer_read [simplified])

declare read_rest.simps [simp del]

definition fetch_content :: "hash_fn \<Rightarrow> (nat \<Rightarrow> bool) \<Rightarrow> 's fc_call \<Rightarrow> string \<Rightarrow> digest \<Rightarrow> bytes \<Rightarrow> u64 \<Rightarrow> ('s, fc_error, bytes) sm" where
  "fetch_content blake3 reserves call digest_str d initial declared_size =
     (case content_buffer reserves initial declared_size of
        Inl e \<Rightarrow> sm_err e
      | Inr (bs, target) \<Rightarrow>
          sm_bind (read_rest call digest_str target bs) (\<lambda>bs.
          sm_bind (verify blake3 bs d) (\<lambda>_. sm_ret bs)))"

definition fetch_by_digest :: "hash_fn \<Rightarrow> (nat \<Rightarrow> bool) \<Rightarrow> 's fc_call \<Rightarrow> digest \<Rightarrow> u64 \<Rightarrow> ('s, fc_error, bytes) sm" where
  "fetch_by_digest blake3 reserves call d target = fetch_content blake3 reserves call (digest_canonical d) d [] target"

definition fc_fetch :: "hash_fn \<Rightarrow> (nat \<Rightarrow> bool) \<Rightarrow> 's fc_call \<Rightarrow> string \<Rightarrow> ('s, fc_error, (bytes \<times> digest) option) sm" where
  "fc_fetch blake3 reserves call path =
     sm_bind (fc_open_read call path True) (\<lambda>opn.
     if \<not> orr_exists opn then sm_ret None
     else sm_bind (parse_reported (orr_digest_hex opn)) (\<lambda>d.
          sm_bind (fetch_content blake3 reserves call (orr_digest_hex opn) d (orr_first_chunk opn) (orr_size opn)) (\<lambda>bs.
          sm_ret (Some (bs, d)))))"

section \<open>Returning outputs\<close>

function write_back_loop :: "'s fc_call \<Rightarrow> u32 \<Rightarrow> string \<Rightarrow> bytes \<Rightarrow> nat \<Rightarrow> ('s, fc_error, write_back_response) sm" where
  "write_back_loop call output_id digest bs offset s =
     (let stop = min (offset + WRITEBACK_CHUNK) (length bs);
          last_one = (stop = length bs);
          payload = write_back_request_encode
            \<lparr>wbq_output_id = output_id, wbq_digest_hex = digest, wbq_offset = word_of_nat offset,
             wbq_bytes = take (stop - offset) (drop offset bs), wbq_last = last_one\<rparr>
      in case sm_bind (call WriteBack payload) (\<lambda>resp. to_io (write_back_response_decode resp)) s of
           (Inl e, s') \<Rightarrow> (Inl e, s')
         | (Inr resp, s') \<Rightarrow>
             if last_one \<or> \<not> wbr_ok resp then (Inr resp, s') else write_back_loop call output_id digest bs stop s')"
  by pat_completeness auto

termination
  by (relation "measure (\<lambda>(call, output_id, digest, bs, offset, s). length bs - offset)")
     (auto simp: WRITEBACK_CHUNK_def min_def split: if_splits)

declare write_back_loop.simps [simp del]

definition fc_write_back :: "hash_fn \<Rightarrow> 's fc_call \<Rightarrow> u32 \<Rightarrow> bytes \<Rightarrow> ('s, fc_error, write_back_response) sm" where
  "fc_write_back blake3 call output_id bs = write_back_loop call output_id (digest_canonical (digest_of blake3 bs)) bs 0"

section \<open>The multiplexed connection\<close>

text \<open>
  A call's one-shot channel: nothing yet, a response sent by the reader, or its sender dropped
  with the entry of the waiter. The tasks are the calls ever issued on the connection, named
  by their position, each with how far it has come in \<open>Mux::call\<close>.
\<close>

datatype channel = ChOpen | ChSent frame_header bytes | ChDropped

datatype call_phase = CQueued | CPermit | CIdTaken | CRegistered | CSent | CDone "fc_error + bytes" | CCancelled

record mux_task =
  mt_op :: op_code
  mt_id :: u64
  mt_phase :: call_phase
  mt_chan :: channel

datatype reader_phase = RdRunning | RdClosing | RdDone

record mux =
  mx_pending :: "(u64, nat) hmap"
  mx_permits :: nat
  mx_closed :: bool
  mx_next_id :: u64
  mx_reader :: reader_phase
  mx_tasks :: "mux_task list"

definition mux_new :: "nat \<Rightarrow> mux" where
  "mux_new max_in_flight =
     \<lparr>mx_pending = [], mx_permits = max_in_flight, mx_closed = False, mx_next_id = 1, mx_reader = RdRunning, mx_tasks = []\<rparr>"

definition upd_task :: "nat \<Rightarrow> (mux_task \<Rightarrow> mux_task) \<Rightarrow> mux \<Rightarrow> mux" where
  "upd_task c f m = m\<lparr>mx_tasks := (mx_tasks m)[c := f (mx_tasks m ! c)]\<rparr>"

definition send_or_drop :: "channel \<Rightarrow> mux_task \<Rightarrow> mux_task" where
  "send_or_drop ch t = t\<lparr>mt_chan := ch\<rparr>"

text \<open>\<open>pending.remove(&id)\<close>: the sender that was there is used with \<open>ch\<close>.\<close>

definition take_waiter :: "u64 \<Rightarrow> channel \<Rightarrow> mux \<Rightarrow> mux" where
  "take_waiter i ch m =
     (case map_of (mx_pending m) i of
        None \<Rightarrow> m
      | Some c \<Rightarrow> upd_task c (send_or_drop ch) (m\<lparr>mx_pending := hm_remove i (mx_pending m)\<rparr>))"

definition finish_call :: "nat \<Rightarrow> fc_error + bytes \<Rightarrow> mux \<Rightarrow> mux" where
  "finish_call c r m = upd_task c (\<lambda>t. t\<lparr>mt_phase := CDone r\<rparr>) (m\<lparr>mx_permits := mx_permits m + 1\<rparr>)"

definition mux_issue :: "op_code \<Rightarrow> mux \<Rightarrow> mux" where
  "mux_issue opc m = m\<lparr>mx_tasks := mx_tasks m @ [\<lparr>mt_op = opc, mt_id = 0, mt_phase = CQueued, mt_chan = ChOpen\<rparr>]\<rparr>"

definition mux_acquire :: "nat \<Rightarrow> mux \<Rightarrow> mux" where
  "mux_acquire c m = upd_task c (\<lambda>t. t\<lparr>mt_phase := CPermit\<rparr>) (m\<lparr>mx_permits := mx_permits m - 1\<rparr>)"

definition mux_take_id :: "nat \<Rightarrow> mux \<Rightarrow> mux" where
  "mux_take_id c m = upd_task c (\<lambda>t. t\<lparr>mt_id := mx_next_id m, mt_phase := CIdTaken\<rparr>) (m\<lparr>mx_next_id := mx_next_id m + 1\<rparr>)"

text \<open>Under the lock of the table: the closed check, then the insertion, which drops an older entry of the id.\<close>

definition mux_register :: "nat \<Rightarrow> mux \<Rightarrow> mux" where
  "mux_register c m =
     (if mx_closed m then finish_call c (Inl FcBrokenPipe) m
      else let m' = take_waiter (mt_id (mx_tasks m ! c)) ChDropped m
           in upd_task c (\<lambda>t. t\<lparr>mt_phase := CRegistered\<rparr>)
                (m'\<lparr>mx_pending := hm_insert (mt_id (mx_tasks m ! c)) c (mx_pending m')\<rparr>))"

definition mux_written :: "nat \<Rightarrow> fc_error option \<Rightarrow> mux \<Rightarrow> mux" where
  "mux_written c failed m =
     (case failed of
        None \<Rightarrow> upd_task c (\<lambda>t. t\<lparr>mt_phase := CSent\<rparr>) m
      | Some e \<Rightarrow> finish_call c (Inl e) (take_waiter (mt_id (mx_tasks m ! c)) ChDropped m))"

definition correlate :: "mux_task \<Rightarrow> frame_header \<Rightarrow> bytes \<Rightarrow> fc_error + bytes" where
  "correlate t header resp =
     (if request_id header \<noteq> mt_id t \<or> \<not> is_response header \<or> op header \<noteq> mt_op t then Inl FcUncorrelated else Inr resp)"

text \<open>The await of the response: the channel's value, its end, or the deadline.\<close>

definition mux_receive :: "nat \<Rightarrow> bool \<Rightarrow> mux \<Rightarrow> mux" where
  "mux_receive c deadline m =
     (let t = mx_tasks m ! c in
      case mt_chan t of
        ChSent header resp \<Rightarrow> finish_call c (correlate t header resp) m
      | ChDropped \<Rightarrow> finish_call c (Inl FcBrokenPipe) m
      | ChOpen \<Rightarrow> if deadline then finish_call c (Inl FcTimedOut) (take_waiter (mt_id t) ChDropped m) else m)"

text \<open>The caller's future is dropped: its permit returns, its entry stays.\<close>

definition mux_cancel :: "nat \<Rightarrow> mux \<Rightarrow> mux" where
  "mux_cancel c m = upd_task c (\<lambda>t. t\<lparr>mt_phase := CCancelled\<rparr>)
     (if mt_phase (mx_tasks m ! c) = CQueued then m else m\<lparr>mx_permits := mx_permits m + 1\<rparr>)"

definition reader_frame :: "frame_header \<Rightarrow> bytes \<Rightarrow> mux \<Rightarrow> mux" where
  "reader_frame header payload m = take_waiter (request_id header) (ChSent header payload) m"

definition reader_close :: "mux \<Rightarrow> mux" where
  "reader_close m = m\<lparr>mx_closed := True, mx_reader := RdClosing\<rparr>"

text \<open>\<open>pending.clear()\<close> drops the sender of every waiter.\<close>

definition reader_drain :: "mux \<Rightarrow> mux" where
  "reader_drain m = (fold (\<lambda>c. upd_task c (send_or_drop ChDropped)) (map snd (mx_pending m)) m)\<lparr>mx_pending := [], mx_reader := RdDone\<rparr>"

definition in_phase :: "mux \<Rightarrow> nat \<Rightarrow> call_phase \<Rightarrow> bool" where
  "in_phase m c ph \<longleftrightarrow> c < length (mx_tasks m) \<and> mt_phase (mx_tasks m ! c) = ph"

inductive mux_step :: "mux \<Rightarrow> mux \<Rightarrow> bool" where
  mux_issued: "mux_step m (mux_issue opc m)"
| mux_acquired: "in_phase m c CQueued \<Longrightarrow> mx_permits m > 0 \<Longrightarrow> mux_step m (mux_acquire c m)"
| mux_id: "in_phase m c CPermit \<Longrightarrow> mux_step m (mux_take_id c m)"
| mux_registered: "in_phase m c CIdTaken \<Longrightarrow> mux_step m (mux_register c m)"
| mux_wrote: "in_phase m c CRegistered \<Longrightarrow> mux_step m (mux_written c failed m)"
| mux_received: "in_phase m c CSent \<Longrightarrow> mux_step m (mux_receive c deadline m)"
| mux_cancelled: "in_phase m c ph \<Longrightarrow> ph \<in> {CQueued, CPermit, CIdTaken, CRegistered, CSent} \<Longrightarrow> mux_step m (mux_cancel c m)"
| mux_frame: "mx_reader m = RdRunning \<Longrightarrow> mux_step m (reader_frame header payload m)"
| mux_dead: "mx_reader m = RdRunning \<Longrightarrow> mux_step m (reader_close m)"
| mux_drained: "mx_reader m = RdClosing \<Longrightarrow> mux_step m (reader_drain m)"

inductive mux_reach :: "nat \<Rightarrow> mux \<Rightarrow> bool" for k where
  mux_start: "mux_reach k (mux_new k)"
| mux_next: "mux_reach k m \<Longrightarrow> mux_step m m' \<Longrightarrow> mux_reach k m'"

subsection \<open>The invariant of the connection\<close>

definition holds_permit :: "mux_task \<Rightarrow> bool" where
  "holds_permit t \<longleftrightarrow> mt_phase t \<in> {CPermit, CIdTaken, CRegistered, CSent}"

definition permits_ok :: "nat \<Rightarrow> mux \<Rightarrow> bool" where
  "permits_ok k m \<longleftrightarrow> mx_permits m + length (filter holds_permit (mx_tasks m)) = k"

definition waiting :: "mux_task \<Rightarrow> bool" where
  "waiting t \<longleftrightarrow> mt_phase t \<in> {CRegistered, CSent}"

text \<open>
  One task against the table of waiters: an entry names an open channel of the same id, an
  open channel that is waited on has its entry, and what a channel or a result holds answers
  the task's own request.
\<close>

definition task_ok :: "(u64, nat) hmap \<Rightarrow> nat \<Rightarrow> mux_task \<Rightarrow> bool" where
  "task_ok pending c t \<longleftrightarrow>
     (\<forall>i. map_of pending i = Some c \<longrightarrow> mt_id t = i \<and> mt_chan t = ChOpen \<and> (waiting t \<or> mt_phase t = CCancelled))
     \<and> (waiting t \<and> mt_chan t = ChOpen \<longrightarrow> map_of pending (mt_id t) = Some c)
     \<and> (mt_phase t \<in> {CQueued, CPermit, CIdTaken} \<longrightarrow> mt_chan t = ChOpen)
     \<and> (\<forall>h p. mt_chan t = ChSent h p \<longrightarrow> request_id h = mt_id t)
     \<and> (\<forall>resp. mt_phase t = CDone (Inr resp) \<longrightarrow> (\<exists>h. mt_chan t = ChSent h resp \<and> correlate t h resp = Inr resp))"

definition routes_ok :: "mux \<Rightarrow> bool" where
  "routes_ok m \<longleftrightarrow> hm_inv (mx_pending m)
     \<and> (\<forall>i c. map_of (mx_pending m) i = Some c \<longrightarrow> c < length (mx_tasks m))
     \<and> (\<forall>c < length (mx_tasks m). task_ok (mx_pending m) c (mx_tasks m ! c))
     \<and> (mx_reader m \<noteq> RdRunning \<longrightarrow> mx_closed m) \<and> (mx_reader m = RdDone \<longrightarrow> mx_pending m = [])"

lemma task_ok_entry:
  "task_ok pending c t \<Longrightarrow> map_of pending i = Some c \<Longrightarrow> mt_id t = i \<and> mt_chan t = ChOpen \<and> (waiting t \<or> mt_phase t = CCancelled)"
  by (simp add: task_ok_def)

lemma task_ok_waits: "task_ok pending c t \<Longrightarrow> waiting t \<Longrightarrow> mt_chan t = ChOpen \<Longrightarrow> map_of pending (mt_id t) = Some c"
  by (simp add: task_ok_def)

lemma tasks_upd [simp]:
  "mx_tasks (upd_task c f m) = (mx_tasks m)[c := f (mx_tasks m ! c)]" "mx_pending (upd_task c f m) = mx_pending m"
  "mx_permits (upd_task c f m) = mx_permits m" "mx_reader (upd_task c f m) = mx_reader m" "mx_closed (upd_task c f m) = mx_closed m"
  "mx_next_id (upd_task c f m) = mx_next_id m"
  by (simp_all add: upd_task_def)

lemma take_waiter_simps [simp]:
  "mx_permits (take_waiter i ch m) = mx_permits m" "mx_reader (take_waiter i ch m) = mx_reader m"
  "mx_closed (take_waiter i ch m) = mx_closed m" "mx_pending (take_waiter i ch m) = hm_remove i (mx_pending m)"
  "length (mx_tasks (take_waiter i ch m)) = length (mx_tasks m)"
  by (auto simp: take_waiter_def hm_remove_absent split: option.split)

lemma take_waiter_task:
  "c < length (mx_tasks m) \<Longrightarrow> mx_tasks (take_waiter i ch m) ! c =
     (if map_of (mx_pending m) i = Some c then send_or_drop ch (mx_tasks m ! c) else mx_tasks m ! c)"
  by (auto simp: take_waiter_def nth_list_update split: option.split)

lemma holds_same_update: "holds_permit t = holds_permit (xs ! c) \<Longrightarrow> map holds_permit (xs[c := t]) = map holds_permit xs"
  by (cases "c < length xs") (simp_all add: map_update list_update_same_conv list_update_beyond not_less)

lemma holds_permit_chan [simp]: "holds_permit (t\<lparr>mt_chan := ch\<rparr>) = holds_permit t"
  by (simp add: holds_permit_def)

lemma take_waiter_holds: "map holds_permit (mx_tasks (take_waiter i ch m)) = map holds_permit (mx_tasks m)"
  by (cases "map_of (mx_pending m) i") (simp_all add: take_waiter_def holds_same_update send_or_drop_def)

lemma take_waiter_routes:
  assumes "routes_ok m" "\<And>h p. ch = ChSent h p \<Longrightarrow> request_id h = i" "ch \<noteq> ChOpen"
  shows "routes_ok (take_waiter i ch m)"
  unfolding routes_ok_def
proof (intro conjI allI impI)
  fix c
  assume c: "c < length (mx_tasks (take_waiter i ch m))"
  then have ok: "task_ok (mx_pending m) c (mx_tasks m ! c)" using assms(1) by (simp add: routes_ok_def)
  show "task_ok (mx_pending (take_waiter i ch m)) c (mx_tasks (take_waiter i ch m) ! c)"
  proof (cases "map_of (mx_pending m) i = Some c")
    case True
    have t: "mt_id (mx_tasks m ! c) = i" "waiting (mx_tasks m ! c) \<or> mt_phase (mx_tasks m ! c) = CCancelled"
        "map_of (mx_pending m) j = Some c \<longleftrightarrow> j = i" for j
      using task_ok_entry [OF ok True] task_ok_entry [OF ok, of j] True by auto
    then show ?thesis using True c assms(2,3)
      by (auto simp: task_ok_def take_waiter_task hm_look_remove send_or_drop_def waiting_def)
  next
    case False
    then have "map_of (hm_remove i (mx_pending m)) j = Some c \<longleftrightarrow> map_of (mx_pending m) j = Some c" for j
      by (auto simp: hm_look_remove)
    then show ?thesis using ok c False by (simp add: task_ok_def take_waiter_task)
  qed
qed (use assms in \<open>auto simp: routes_ok_def hm_look_remove hm_inv_remove split: if_splits\<close>)

lemma routes_fields [simp]:
  "routes_ok (m\<lparr>mx_permits := n\<rparr>) = routes_ok m" "routes_ok (m\<lparr>mx_next_id := i\<rparr>) = routes_ok m"
  by (simp_all add: routes_ok_def)

lemma routes_upd:
  assumes "routes_ok m" "task_ok (mx_pending m) c (mx_tasks m ! c) \<Longrightarrow> task_ok (mx_pending m) c (f (mx_tasks m ! c))"
  shows "routes_ok (upd_task c f m)"
proof -
  have "task_ok (mx_pending m) d ((mx_tasks m)[c := f (mx_tasks m ! c)] ! d)" if "d < length (mx_tasks m)" for d
    using assms that by (cases "d = c") (auto simp: routes_ok_def)
  then show ?thesis using assms(1) by (simp add: routes_ok_def)
qed

lemma no_entry: "task_ok pending c t \<Longrightarrow> \<not> waiting t \<Longrightarrow> mt_phase t \<noteq> CCancelled \<Longrightarrow> map_of pending i \<noteq> Some c"
  using task_ok_entry by blast

lemma routes_issue: "routes_ok m \<Longrightarrow> routes_ok (mux_issue opc m)"
  unfolding routes_ok_def mux_issue_def
  by (auto simp: nth_append less_Suc_eq task_ok_def waiting_def dest: spec)

lemma routes_acquire: "routes_ok m \<Longrightarrow> in_phase m c CQueued \<Longrightarrow> routes_ok (mux_acquire c m)"
  unfolding mux_acquire_def by (rule routes_upd) (auto simp: in_phase_def task_ok_def waiting_def)

lemma routes_take_id: "routes_ok m \<Longrightarrow> in_phase m c CPermit \<Longrightarrow> routes_ok (mux_take_id c m)"
  unfolding mux_take_id_def by (rule routes_upd) (auto simp: in_phase_def task_ok_def waiting_def)

lemma routes_cancel: "routes_ok m \<Longrightarrow> routes_ok (mux_cancel c m)"
  unfolding mux_cancel_def by (rule routes_upd) (auto simp: task_ok_def waiting_def)

text \<open>A call ends only when its entry is gone.\<close>

lemma routes_finish:
  assumes "routes_ok m" "c < length (mx_tasks m)" "\<And>i. map_of (mx_pending m) i \<noteq> Some c"
    and "\<And>resp. r = Inr resp \<Longrightarrow> \<exists>h. mt_chan (mx_tasks m ! c) = ChSent h resp \<and> correlate (mx_tasks m ! c) h resp = Inr resp"
  shows "routes_ok (finish_call c r m)"
  unfolding finish_call_def
  by (rule routes_upd) (use assms in \<open>auto simp: task_ok_def waiting_def correlate_def\<close>)

lemma take_waiter_no_entry:
  assumes "routes_ok m" "c < length (mx_tasks m)" "j = mt_id (mx_tasks m ! c)"
  shows "map_of (mx_pending (take_waiter j ch m)) i \<noteq> Some c"
  using assms task_ok_entry [of "mx_pending m" c "mx_tasks m ! c" i] by (auto simp: routes_ok_def hm_look_remove)

lemma routes_give_up:
  assumes "routes_ok m" "c < length (mx_tasks m)" "j = mt_id (mx_tasks m ! c)"
  shows "routes_ok (finish_call c (Inl e) (take_waiter j ChDropped m))"
  by (rule routes_finish) (use assms take_waiter_routes take_waiter_no_entry in auto)

lemma routes_written: "routes_ok m \<Longrightarrow> in_phase m c CRegistered \<Longrightarrow> routes_ok (mux_written c failed m)"
  by (cases failed)
     (auto simp: mux_written_def in_phase_def waiting_def task_ok_def intro!: routes_upd routes_give_up)

lemma routes_receive:
  assumes r: "routes_ok m" and c: "in_phase m c CSent"
  shows "routes_ok (mux_receive c deadline m)"
proof -
  let ?t = "mx_tasks m ! c"
  have ok: "task_ok (mx_pending m) c ?t" "c < length (mx_tasks m)" using r c by (auto simp: routes_ok_def in_phase_def)
  show ?thesis
  proof (cases "mt_chan ?t")
    case ChOpen
    then show ?thesis using routes_give_up [OF r ok(2)] r by (simp add: mux_receive_def)
  next
    case (ChSent h p)
    then have "map_of (mx_pending m) i \<noteq> Some c" for i using task_ok_entry [OF ok(1), of i] by auto
    then have "routes_ok (finish_call c (correlate ?t h p) m)"
      using ChSent by (intro routes_finish [OF r ok(2)]) (auto simp: correlate_def split: if_splits)
    then show ?thesis using ChSent by (simp add: mux_receive_def)
  next
    case ChDropped
    then have "map_of (mx_pending m) i \<noteq> Some c" for i using task_ok_entry [OF ok(1), of i] by auto
    then show ?thesis using ChDropped routes_finish [OF r ok(2), of "Inl FcBrokenPipe"] by (simp add: mux_receive_def)
  qed
qed

lemma routes_frame: "routes_ok m \<Longrightarrow> routes_ok (reader_frame header payload m)"
  unfolding reader_frame_def by (rule take_waiter_routes) auto

lemma routes_close: "routes_ok m \<Longrightarrow> mx_reader m = RdRunning \<Longrightarrow> routes_ok (reader_close m)"
  by (simp add: routes_ok_def reader_close_def)

text \<open>A new entry under an id that no entry has.\<close>

lemma routes_insert:
  assumes r: "routes_ok m" and free: "map_of (mx_pending m) (mt_id (mx_tasks m ! c)) = None"
    and c: "in_phase m c CIdTaken" and up: "mx_reader m = RdRunning"
  shows "routes_ok (upd_task c (\<lambda>t. t\<lparr>mt_phase := CRegistered\<rparr>) (m\<lparr>mx_pending := hm_insert (mt_id (mx_tasks m ! c)) c (mx_pending m)\<rparr>))"
    (is "routes_ok ?m")
proof -
  let ?t = "mx_tasks m ! c" and ?p = "hm_insert (mt_id (mx_tasks m ! c)) c (mx_pending m)"
  have ok: "task_ok (mx_pending m) d (mx_tasks m ! d)" if "d < length (mx_tasks m)" for d using r that by (simp add: routes_ok_def)
  have look: "map_of ?p = (map_of (mx_pending m))(mt_id ?t \<mapsto> c)" by (simp add: hm_insert_def hm_look_upsert)
  have inv: "hm_inv ?p" using r by (simp add: routes_ok_def hm_insert_def hm_inv_upsert)
  have tc: "task_ok (mx_pending m) c ?t" "mt_phase ?t = CIdTaken" using ok c by (simp_all add: in_phase_def)
  have "task_ok ?p d (mx_tasks ?m ! d)" if d: "d < length (mx_tasks m)" for d
  proof (cases "d = c")
    case True
    then show ?thesis using tc no_entry [OF tc(1)] d by (auto simp: task_ok_def look waiting_def)
  next
    case False
    moreover have "waiting (mx_tasks m ! d) \<and> mt_chan (mx_tasks m ! d) = ChOpen \<longrightarrow> mt_id (mx_tasks m ! d) \<noteq> mt_id ?t"
      using task_ok_waits [OF ok [OF d]] free by auto
    ultimately show ?thesis using ok [OF d] by (simp add: task_ok_def look)
  qed
  then show ?thesis
    using r up c inv by (auto simp: routes_ok_def look in_phase_def split: if_splits)
qed

lemma routes_register:
  assumes r: "routes_ok m" and c: "in_phase m c CIdTaken"
  shows "routes_ok (mux_register c m)"
proof (cases "mx_closed m")
  case True
  have "task_ok (mx_pending m) c (mx_tasks m ! c)" "c < length (mx_tasks m)" using r c by (auto simp: routes_ok_def in_phase_def)
  then show ?thesis using True no_entry c routes_finish [OF r, of c "Inl FcBrokenPipe"]
    by (simp add: mux_register_def in_phase_def waiting_def)
next
  case False
  let ?i = "mt_id (mx_tasks m ! c)" and ?m = "take_waiter (mt_id (mx_tasks m ! c)) ChDropped m"
  have up: "mx_reader m = RdRunning" using r False by (auto simp: routes_ok_def)
  have "task_ok (mx_pending m) c (mx_tasks m ! c)" "c < length (mx_tasks m)" using r c by (auto simp: routes_ok_def in_phase_def)
  then have "map_of (mx_pending m) ?i \<noteq> Some c" using no_entry c by (auto simp: in_phase_def waiting_def)
  then have same: "mx_tasks ?m ! c = mx_tasks m ! c" using c by (simp add: take_waiter_task in_phase_def)
  have "routes_ok ?m" by (rule take_waiter_routes [OF r]) simp_all
  then show ?thesis
    using routes_insert [of ?m c] False up c same by (simp add: mux_register_def in_phase_def hm_look_remove)
qed

lemma drop_senders:
  assumes "\<forall>c \<in> set cs. c < length (mx_tasks m)"
  defines "m' \<equiv> fold (\<lambda>c. upd_task c (send_or_drop ChDropped)) cs m"
  shows "length (mx_tasks m') = length (mx_tasks m)" "mx_closed m' = mx_closed m" "mx_permits m' = mx_permits m"
    "c < length (mx_tasks m) \<Longrightarrow> mx_tasks m' ! c = (if c \<in> set cs then send_or_drop ChDropped (mx_tasks m ! c) else mx_tasks m ! c)"
  unfolding m'_def using assms(1)
  by (induction cs arbitrary: m) (auto simp: nth_list_update send_or_drop_def)

lemma routes_drain:
  assumes r: "routes_ok m" and closing: "mx_reader m = RdClosing"
  shows "routes_ok (reader_drain m)"
proof -
  have dist: "distinct (map fst (mx_pending m))" using r by (simp add: routes_ok_def hm_inv_def)
  have entries: "c \<in> set (map snd (mx_pending m)) \<longleftrightarrow> (\<exists>i. map_of (mx_pending m) i = Some c)" for c
    using dist by (force simp: map_of_eq_Some_iff)
  have bound: "\<forall>c \<in> set (map snd (mx_pending m)). c < length (mx_tasks m)" using r entries by (auto simp: routes_ok_def)
  note d = drop_senders [OF bound]
  have "task_ok [] c (mx_tasks (reader_drain m) ! c)" if c: "c < length (mx_tasks m)" for c
  proof -
    have ok: "task_ok (mx_pending m) c (mx_tasks m ! c)" using r c by (simp add: routes_ok_def)
    show ?thesis
    proof (cases "c \<in> set (map snd (mx_pending m))")
      case True
      then obtain i where "map_of (mx_pending m) i = Some c" using entries by blast
      then show ?thesis using task_ok_entry [OF ok] True d(4) [OF c]
        by (auto simp: reader_drain_def task_ok_def send_or_drop_def waiting_def)
    next
      case False
      then show ?thesis using ok task_ok_waits [OF ok] entries d(4) [OF c] by (auto simp: reader_drain_def task_ok_def)
    qed
  qed
  then show ?thesis using r closing d(1,2) by (simp add: routes_ok_def reader_drain_def)
qed

lemmas routes_steps = routes_issue routes_acquire routes_take_id routes_register routes_written routes_receive routes_cancel
  routes_frame routes_close routes_drain

lemma routes_step: "mux_step m m' \<Longrightarrow> routes_ok m \<Longrightarrow> routes_ok m'"
  by (induction rule: mux_step.induct) (auto intro: routes_steps)

text \<open>The permits: each step moves a permit between the semaphore and the one task it changes.\<close>

lemma holders_of_map:
  assumes "map holds_permit xs = map holds_permit ys"
  shows "length (filter holds_permit xs) = length (filter holds_permit ys)"
proof -
  have "length (filter holds_permit zs) = length (filter id (map holds_permit zs))" for zs by (simp add: filter_map)
  from this [of xs] this [of ys] show ?thesis unfolding assms by (rule trans [OF _ sym])
qed

lemma permits_upd:
  assumes "c < length (mx_tasks m)"
    and "mx_permits m' + of_bool (holds_permit (f (mx_tasks m ! c))) = mx_permits m + of_bool (holds_permit (mx_tasks m ! c))"
    and "map holds_permit (mx_tasks m') = map holds_permit ((mx_tasks m)[c := f (mx_tasks m ! c)])"
  shows "permits_ok k m' = permits_ok k m"
  using length_filter_update [OF assms(1), of holds_permit "f (mx_tasks m ! c)"] assms(2) holders_of_map [OF assms(3)]
  unfolding permits_ok_def by linarith

lemma permits_take_waiter [simp]: "permits_ok k (take_waiter i ch m) = permits_ok k m"
  by (simp add: permits_ok_def holders_of_map [OF take_waiter_holds])

lemma holds_take_waiter:
  "c < length (mx_tasks m) \<Longrightarrow> holds_permit (mx_tasks (take_waiter i ch m) ! c) = holds_permit (mx_tasks m ! c)"
  by (simp add: take_waiter_task send_or_drop_def)

lemma permits_finish:
  assumes "permits_ok k m" "c < length (mx_tasks m)" "holds_permit (mx_tasks m ! c)"
  shows "permits_ok k (finish_call c r m)"
proof -
  have "permits_ok k (finish_call c r m) = permits_ok k m"
    by (rule permits_upd [where c = c and f = "\<lambda>t. t\<lparr>mt_phase := CDone r\<rparr>"])
       (use assms in \<open>simp_all add: finish_call_def holds_permit_def\<close>)
  then show ?thesis using assms(1) by simp
qed

lemma permits_phase:
  assumes "permits_ok k m" "c < length (mx_tasks m)" "\<And>t. mt_phase (f t) = ph"
    and "n + of_bool (ph \<in> {CPermit, CIdTaken, CRegistered, CSent}) = mx_permits m + of_bool (holds_permit (mx_tasks m ! c))"
  shows "permits_ok k (upd_task c f (m\<lparr>mx_permits := n\<rparr>))"
proof -
  have "permits_ok k (upd_task c f (m\<lparr>mx_permits := n\<rparr>)) = permits_ok k m"
    by (rule permits_upd [where c = c and f = f]) (use assms in \<open>simp_all add: holds_permit_def [of "f _"]\<close>)
  then show ?thesis using assms(1) by simp
qed

lemma mux_permits_step:
  assumes "mux_step m m'" "permits_ok k m" "routes_ok m"
  shows "permits_ok k m'"
  using assms
proof (induction rule: mux_step.induct)
  case (mux_issued m opc)
  then show ?case by (simp add: permits_ok_def mux_issue_def holds_permit_def)
next
  case (mux_acquired m c)
  then show ?case unfolding mux_acquire_def by (intro permits_phase) (auto simp: in_phase_def holds_permit_def)
next
  case (mux_id m c)
  then show ?case unfolding mux_take_id_def
    using permits_phase [where n = "mx_permits m" and f = "\<lambda>t. t\<lparr>mt_id := mx_next_id m, mt_phase := CIdTaken\<rparr>" and ph = CIdTaken and m = m and c = c and k = k]
    by (simp add: in_phase_def holds_permit_def permits_ok_def)
next
  case (mux_registered m c)
  then have c: "c < length (mx_tasks m)" "holds_permit (mx_tasks m ! c)" by (auto simp: in_phase_def holds_permit_def)
  let ?m = "take_waiter (mt_id (mx_tasks m ! c)) ChDropped m"
  have "permits_ok k (upd_task c (\<lambda>t. t\<lparr>mt_phase := CRegistered\<rparr>) (?m\<lparr>mx_permits := mx_permits ?m\<rparr>))"
    by (rule permits_phase [where ph = CRegistered]) (use mux_registered(2) c in \<open>simp_all add: holds_take_waiter\<close>)
  then show ?case using permits_finish [OF mux_registered(2) c] by (simp add: mux_register_def Let_def permits_ok_def)
next
  case (mux_wrote m c failed)
  then have c: "c < length (mx_tasks m)" "holds_permit (mx_tasks m ! c)" by (auto simp: in_phase_def holds_permit_def)
  have "permits_ok k (upd_task c (\<lambda>t. t\<lparr>mt_phase := CSent\<rparr>) (m\<lparr>mx_permits := mx_permits m\<rparr>))"
    by (rule permits_phase [where ph = CSent]) (use mux_wrote(2) c in simp_all)
  then show ?case using permits_finish [of k "take_waiter (mt_id (mx_tasks m ! c)) ChDropped m" c] mux_wrote(2) c
    by (cases failed) (simp_all add: mux_written_def holds_take_waiter)
next
  case (mux_received m c deadline)
  then have c: "c < length (mx_tasks m)" "holds_permit (mx_tasks m ! c)" by (auto simp: in_phase_def holds_permit_def)
  show ?case
    using permits_finish [OF mux_received(2) c] permits_finish [of k "take_waiter (mt_id (mx_tasks m ! c)) ChDropped m" c] mux_received(2) c
    by (cases "mt_chan (mx_tasks m ! c)") (simp_all add: mux_receive_def holds_take_waiter)
next
  case (mux_cancelled m c ph)
  then show ?case unfolding mux_cancel_def
    using permits_phase [where n = "if ph = CQueued then mx_permits m else mx_permits m + 1"
        and f = "\<lambda>t. t\<lparr>mt_phase := CCancelled\<rparr>" and ph = CCancelled and m = m and c = c and k = k]
    by (auto simp: in_phase_def holds_permit_def)
next
  case (mux_frame m header payload)
  then show ?case by (simp add: reader_frame_def)
next
  case (mux_dead m)
  then show ?case by (simp add: reader_close_def permits_ok_def)
next
  case (mux_drained m)
  have bound: "\<forall>c \<in> set (map snd (mx_pending m)). c < length (mx_tasks m)"
    using mux_drained(3) by (force simp: routes_ok_def hm_inv_def)
  note d = drop_senders [OF bound]
  have "map holds_permit (mx_tasks (reader_drain m)) = map holds_permit (mx_tasks m)"
    by (rule nth_equalityI) (simp_all add: reader_drain_def send_or_drop_def d(1) d(4))
  then show ?case using mux_drained(2) d(3) holders_of_map [of "mx_tasks (reader_drain m)" "mx_tasks m"]
    by (simp add: permits_ok_def reader_drain_def)
qed

lemma mux_reach_inv: "mux_reach k m \<Longrightarrow> routes_ok m \<and> permits_ok k m"
proof (induction rule: mux_reach.induct)
  case mux_start
  then show ?case by (simp add: mux_new_def routes_ok_def permits_ok_def)
qed (use routes_step mux_permits_step in blast)

lemma receive_done:
  assumes "in_phase m c CSent" "deadline \<or> mt_chan (mx_tasks m ! c) \<noteq> ChOpen"
  shows "\<exists>r. in_phase (mux_receive c deadline m) c (CDone r)"
  using assms
  by (cases "mt_chan (mx_tasks m ! c)") (auto simp: mux_receive_def in_phase_def finish_call_def)

text \<open>
  C20. Calls over the shared connection, in every interleaving of callers, reader, deadlines and
  cancellations: never more than the permitted number are in flight; a call that returns a
  payload got it from a response frame with its own request id and operation; a call whose
  frame went out ends at its deadline; and once the reader has seen the connection die and
  drained the table, it ends without waiting for the deadline, so no waiter is stranded.
\<close>
theorem calls_settle:
  assumes "mux_reach k m" "c < length (mx_tasks m)"
  shows "length (filter holds_permit (mx_tasks m)) \<le> k
    \<and> (\<forall>resp. in_phase m c (CDone (Inr resp)) \<longrightarrow> (\<exists>h. mt_chan (mx_tasks m ! c) = ChSent h resp \<and> is_response h
         \<and> request_id h = mt_id (mx_tasks m ! c) \<and> op h = mt_op (mx_tasks m ! c)))
    \<and> (in_phase m c CSent \<longrightarrow> (\<exists>r. in_phase (mux_receive c True m) c (CDone r)))
    \<and> (in_phase m c CSent \<and> mx_reader m = RdDone \<longrightarrow> (\<exists>r. in_phase (mux_receive c False m) c (CDone r)))"
proof -
  have inv: "routes_ok m" "permits_ok k m" using mux_reach_inv [OF assms(1)] by simp_all
  then have ok: "task_ok (mx_pending m) c (mx_tasks m ! c)" using assms(2) by (simp add: routes_ok_def)
  have "mt_chan (mx_tasks m ! c) \<noteq> ChOpen" if "in_phase m c CSent" "mx_reader m = RdDone"
    using task_ok_waits [OF ok] that inv(1) by (auto simp: in_phase_def waiting_def routes_ok_def)
  then have ends: "in_phase m c CSent \<Longrightarrow> \<exists>r. in_phase (mux_receive c True m) c (CDone r)"
      "in_phase m c CSent \<Longrightarrow> mx_reader m = RdDone \<Longrightarrow> \<exists>r. in_phase (mux_receive c False m) c (CDone r)"
    using receive_done by blast+
  have "\<exists>h. mt_chan (mx_tasks m ! c) = ChSent h resp \<and> correlate (mx_tasks m ! c) h resp = Inr resp"
    if "in_phase m c (CDone (Inr resp))" for resp
    using ok that by (simp add: task_ok_def in_phase_def)
  then have own: "\<exists>h. mt_chan (mx_tasks m ! c) = ChSent h resp \<and> is_response h
         \<and> request_id h = mt_id (mx_tasks m ! c) \<and> op h = mt_op (mx_tasks m ! c)" if "in_phase m c (CDone (Inr resp))" for resp
    using that by (fastforce simp: correlate_def split: if_splits)
  show ?thesis using inv(2) ends own by (simp add: permits_ok_def)
qed

definition demo_header :: frame_header where
  "demo_header = \<lparr>request_id = 1, op = Read, is_response = True\<rparr>"

definition demo_registered :: mux where
  "demo_registered = mux_register 0 (mux_take_id 0 (mux_acquire 0 (mux_issue Read (mux_new 1))))"

definition demo_answered :: mux where
  "demo_answered = mux_receive 0 False (reader_frame demo_header [7] (mux_written 0 None demo_registered))"

lemmas demo_mux_defs = mux_new_def mux_issue_def mux_acquire_def mux_take_id_def mux_register_def mux_written_def mux_receive_def
  reader_frame_def take_waiter_def upd_task_def send_or_drop_def finish_call_def correlate_def in_phase_def hm_insert_def hm_remove_def

lemma demo_registered_eq:
  "demo_registered = \<lparr>mx_pending = [(1, 0)], mx_permits = 0, mx_closed = False, mx_next_id = 2, mx_reader = RdRunning,
     mx_tasks = [\<lparr>mt_op = Read, mt_id = 1, mt_phase = CRegistered, mt_chan = ChOpen\<rparr>]\<rparr>"
  by (simp add: demo_registered_def demo_mux_defs)

lemma demo_registered_reach: "mux_reach 1 demo_registered"
  unfolding demo_registered_def
  by (intro mux_next [OF _ mux_registered] mux_next [OF _ mux_id] mux_next [OF _ mux_acquired] mux_next [OF _ mux_issued] mux_start)
     (simp_all add: demo_mux_defs)

lemma demo_answered_reach: "mux_reach 1 demo_answered"
  unfolding demo_answered_def
  by (intro mux_next [OF _ mux_received] mux_next [OF _ mux_frame] mux_next [OF _ mux_wrote] demo_registered_reach)
     (simp_all add: demo_registered_eq demo_mux_defs demo_header_def)

theorem calls_settle_witness:
  "in_phase demo_answered 0 (CDone (Inr [7])) \<and> (\<exists>h. mt_chan (mx_tasks demo_answered ! 0) = ChSent h [7] \<and> request_id h = 1)"
proof -
  have fin: "in_phase demo_answered 0 (CDone (Inr [7]))" "0 < length (mx_tasks demo_answered)" "mt_id (mx_tasks demo_answered ! 0) = 1"
    by (simp_all add: demo_answered_def demo_registered_eq demo_mux_defs demo_header_def)
  from calls_settle [OF demo_answered_reach fin(2)] fin show ?thesis by auto
qed

section \<open>What a fetch guarantees\<close>

text \<open>Whatever the peer answers, content that is returned hashes to the digest it was asked by.\<close>

lemma fetch_content_verified: "fetch_content blake3 reserves call dg d initial declared s = (Inr bs, s') \<Longrightarrow> digest_of blake3 bs = d"
  by (auto simp: fetch_content_def content_buffer_def Let_def verify_def sm_guard_def sm_bind_eq_Inr sm_simps split: sum.splits if_splits)

lemma fetch_by_digest_verified: "fetch_by_digest blake3 reserves call d size_of s = (Inr bs, s') \<Longrightarrow> digest_of blake3 bs = d"
  unfolding fetch_by_digest_def by (rule fetch_content_verified)

end
