(* ===== verification/File_Supply.thy ===== *)
theory File_Supply
  imports Output_Staging File_Client
begin

text \<open>
  The worker's client (\<open>src/crates/worker/src/fileclient.rs\<close>) against the agent's server
  (\<open>src/crates/agent/src/fileserver.rs\<close>): a call carries its payload to \<open>serve_dispatch\<close> on the
  session of the connection and the encoded response back. What a fetch returns is what the
  agent read.
\<close>

section \<open>The connection\<close>

text \<open>A dispatch that fails shuts the writer down, which the client sees as a closed connection.\<close>

definition server_call :: "hash_fn \<Rightarrow> (string \<Rightarrow> string) \<Rightarrow> serve_env \<Rightarrow> serve_state fc_call" where
  "server_call blake3 lc sx = (\<lambda>opc payload st.
     case serve_dispatch blake3 lc sx opc payload st of
       (None, st') \<Rightarrow> (Inl FcBrokenPipe, st')
     | (Some resp, st') \<Rightarrow> (Inr resp, st'))"

section \<open>Ranged reads\<close>

lemma digest_str_ok:
  assumes "digest_ok d"
  shows "str_ok (digest_canonical d)"
proof -
  have "of_char c < (128 :: nat)" if "is_lower_hex c" for c
    using that by (auto simp: is_lower_hex_def is_ascii_digit_def less_eq_char_def)
  then show ?thesis
    using assms by (cases "di_algo d") (auto simp: digest_ok_def digest_canonical_def list_all_iff intro!: str_ok_literal)
qed

text \<open>The session can serve the content: it is open, sees the digest, and the store holds the bytes.\<close>

definition serves :: "serve_env \<Rightarrow> digest \<Rightarrow> bytes \<Rightarrow> serve_state \<Rightarrow> bool" where
  "serves sx d bs st \<longleftrightarrow> os_open (sx_os sx) \<and> \<not> sc_closed (ss_cap st) \<and> digest_ok d \<and> digest_visible (ss_cap st) d
     \<and> ss_store st (di_hex d) = FsOk bs"

definition only_counts :: "serve_state \<Rightarrow> serve_state \<Rightarrow> bool" where
  "only_counts st st' \<longleftrightarrow> (\<exists>sv. st' = st\<lparr>ss_stats := sv\<rparr>)"

lemma only_counts_refl [simp]: "only_counts st st"
  unfolding only_counts_def by (rule exI [of _ "ss_stats st"]) simp

lemma only_counts_trans: "only_counts a b \<Longrightarrow> only_counts b c \<Longrightarrow> only_counts a c"
  by (auto simp: only_counts_def)

lemma serves_cong: "only_counts st st' \<Longrightarrow> serves sx d bs st' = serves sx d bs st"
  by (auto simp: only_counts_def serves_def)

lemma read_call:
  assumes s: "serves sx d bs st" and k: "k < length bs" "length bs < 2 ^ 64" and n: "n \<le> MAX_READ_CHUNK"
  shows "\<exists>st'. fc_read (server_call blake3 lc sx) (digest_canonical d) (word_of_nat k) (word_of_nat n) st
      = (Inr \<lparr>rdr_bytes = take n (drop k bs)\<rparr>, st') \<and> only_counts st st'"
proof -
  let ?q = "\<lparr>rdq_digest_hex = digest_canonical d, rdq_offset = word_of_nat k, rdq_len = word_of_nat n\<rparr>"
  let ?r = "\<lparr>rdr_bytes = take n (drop k bs)\<rparr>"
  have d: "digest_ok d" using s by (simp add: serves_def)
  have len: "length (digest_canonical d) \<le> 1000" using d by (cases "di_algo d") (simp add: digest_ok_def digest_canonical_def)
  have q: "read_request_decode (read_request_encode ?q) = Inr ?q"
    by (rule read_request_roundtrip) (use digest_str_ok [OF d] len in \<open>simp_all add: read_request_encode_def usize_bound_def\<close>)
  have small: "length (take n (drop k bs)) \<le> 256 * 1024" using n by (simp add: MAX_READ_CHUNK_def)
  then have r: "read_response_decode (read_response_encode ?r) = Inr ?r"
    by (intro read_response_roundtrip) (simp_all add: read_response_encode_def usize_bound_def MAX_FRAME_BODY_def)
  have unat: "unat (word_of_nat k :: u64) = k" "unat (word_of_nat n :: u32) = n"
    using k n by (simp_all add: unat_of_nat MAX_READ_CHUNK_def)
  have p: "digest_parse (digest_canonical d) = Inr d" using d by (simp add: digest_parse_iff)
  have range: "store_get_range (sx_os sx) (ss_store st) d k n = Inr (Some (take n (drop k bs)))"
    using s k by (auto simp: serves_def store_get_range_def get_with_def read_range_from_def min_def)
  have "\<exists>sv. serve_dispatch blake3 lc sx Read (read_request_encode ?q) st = (Some (read_response_encode ?r), st\<lparr>ss_stats := sv\<rparr>)"
    using s n by (simp add: serves_def serve_dispatch_def q read_range_def p unat range range_or_empty_def Let_def min_absorb1)
      (rule exI, rule refl)
  then show ?thesis
    by (auto simp: fc_read_def server_call_def to_io_def r only_counts_def sm_simps)
qed

lemma read_rest_serves:
  assumes "serves sx d bs st" "length bs < 2 ^ 64" "k \<le> length bs"
  shows "\<exists>st'. read_rest (server_call blake3 lc sx) (digest_canonical d) (length bs) (take k bs) st = (Inr bs, st') \<and> only_counts st st'"
  using assms
proof (induction "length bs - k" arbitrary: k st rule: less_induct)
  case less
  show ?case
  proof (cases "k = length bs")
    case True
    then show ?thesis by (subst read_rest.simps) (auto intro: only_counts_refl)
  next
    case False
    let ?n = "min (length bs - k) (unat READ_CHUNK)"
    have n: "?n \<le> MAX_READ_CHUNK" "?n > 0" using False less.prems(3) by (auto simp: READ_CHUNK_def MAX_READ_CHUNK_def)
    obtain st1 where r: "fc_read (server_call blake3 lc sx) (digest_canonical d) (word_of_nat k) (word_of_nat ?n) st
        = (Inr \<lparr>rdr_bytes = take ?n (drop k bs)\<rparr>, st1)" "only_counts st st1"
      using read_call [OF less.prems(1) _ less.prems(2) n(1), of k] False less.prems(3) by (metis le_neq_implies_less)
    have "length bs - (k + ?n) < length bs - k" "k + ?n \<le> length bs" using False less.prems(3) n(2) by auto
    then obtain st' where rest: "read_rest (server_call blake3 lc sx) (digest_canonical d) (length bs) (take (k + ?n) bs) st1 = (Inr bs, st')"
        "only_counts st1 st'"
      using less.hyps [of "k + ?n" st1] less.prems(1,2) serves_cong [OF r(2)] by auto
    have "take ?n (drop k bs) \<noteq> []" using n(2) False less.prems(3) by auto
    moreover have "take k bs @ take ?n (drop k bs) = take (k + ?n) bs" by (simp only: take_add)
    ultimately show ?thesis
      using r rest False less.prems(3) only_counts_trans [OF r(2) rest(2)]
      by (subst read_rest.simps) (auto simp: read_request_len_def min_absorb2)
  qed
qed

lemma fetch_by_digest_serves:
  assumes s: "serves sx (digest_of blake3 bs) bs st" and len: "length bs < 2 ^ 64" and mem: "reserves (length bs)"
  shows "\<exists>st'. fetch_by_digest blake3 reserves (server_call blake3 lc sx) (digest_of blake3 bs) (word_of_nat (length bs)) st = (Inr bs, st')
    \<and> only_counts st st'"
proof -
  have "unat (word_of_nat (length bs) :: u64) = length bs" using len by (simp add: unat_of_nat)
  then show ?thesis
    using read_rest_serves [OF s len, of 0 blake3 lc] mem
    by (auto simp: fetch_by_digest_def fetch_content_def content_buffer_def verify_def sm_simps)
qed

section \<open>Probing and fetching\<close>

lemma pin_contained_stored:
  assumes pin: "pin_contained blake3 os p content (cap, ow, bl) = (Some v, cap', ow', bl')"
    and new: "\<not> (\<exists>v. map_of (sc_pinned cap) p = Some (Some v))"
  shows "\<exists>bs. content = Some bs \<and> verify_secure_file blake3 bl' (digest_of blake3 bs)"
proof -
  have touched: "map_of (hm_upsert p None id (sc_pinned cap)) p = Some None"
    using new by (cases "map_of (sc_pinned cap) p") (auto simp: hm_look_upsert, metis not_None_eq surj_pair)
  have cap_open: "\<not> sc_closed cap" using pin by (auto simp: pin_contained_def)
  obtain bs where c: "content = Some bs"
    using pin cap_open touched by (cases content) (simp_all add: pin_contained_def)
  obtain rd ow1 bl1 where per: "persist_pin_bytes blake3 os bs (ow, bl) = (rd, ow1, bl1)" by (metis surj_pair)
  obtain d where d: "rd = Some d" and bl: "bl' = bl1"
    using pin cap_open touched c per by (cases rd) (auto simp: pin_contained_def Let_def split: prod.splits if_splits bool.splits)
  then have "store_put blake3 os bs bl = (Inr d, bl')"
    using per by (auto simp: persist_pin_bytes_def split: option.splits prod.splits sum.splits)
  then have "verify_secure_file blake3 bl' (digest_of blake3 bs)" using store_put_spec(1,2) by metis
  then show ?thesis using c by blast
qed

definition agent_content :: "(string \<Rightarrow> string) \<Rightarrow> supply_fs \<Rightarrow> session_capability \<Rightarrow> string \<Rightarrow> bytes option" where
  "agent_content lc fs cap p =
     (case contained_root_access lc cap p of Some (root, rel) \<Rightarrow> sf_read_at fs root rel | None \<Rightarrow> sf_read fs p)"

lemma open_read_fresh:
  assumes "open_read blake3 os lc fs \<lparr>orq_path = p, orq_want_inline = False\<rparr> st = (r, st1)" "orr_exists r"
    and "\<not> (\<exists>v. map_of (sc_pinned (ss_cap st)) p = Some (Some v))"
  obtains bs where "agent_content lc fs (ss_cap st) p = Some bs" "\<not> sc_closed (ss_cap st1)" "digest_visible (ss_cap st1) (digest_of blake3 bs)"
    "verify_secure_file blake3 (ss_store st1) (digest_of blake3 bs)"
    "r = \<lparr>orr_exists = True, orr_size = word_of_nat (length bs), orr_digest_hex = digest_canonical (digest_of blake3 bs), orr_first_chunk = []\<rparr>"
proof -
  have vis: "\<not> hidden lc (ss_cap st) p" using assms(1,2) by (auto simp: open_read_def not_found_open_def)
  obtain pin cap' ow' bl' where pin: "pin_contained blake3 os p (agent_content lc fs (ss_cap st) p) (ss_cap st, ss_owner st, ss_store st) = (pin, cap', ow', bl')"
    by (metis surj_pair)
  show ?thesis
  proof (rule pin_contained_cases [OF pin])
    assume "pin = None"
    then show ?thesis using assms(1,2) vis pin by (auto simp: open_read_def agent_content_def Let_def not_found_open_def split: prod.splits)
  next
    fix bs
    assume fresh: "agent_content lc fs (ss_cap st) p = Some bs" "pin = Some (digest_of blake3 bs, word_of_nat (length bs))" "\<not> sc_closed (ss_cap st)"
      "cap' = (ss_cap st)\<lparr>sc_allowed_digests := insert (digest_of blake3 bs) (sc_allowed_digests (ss_cap st)),
               sc_pinned := hm_insert p (Some (digest_of blake3 bs, word_of_nat (length bs))) (hm_upsert p None id (sc_pinned (ss_cap st)))\<rparr>"
    have "verify_secure_file blake3 bl' (digest_of blake3 bs)"
      using pin_contained_stored [OF _ assms(3)] pin fresh(1,2) by fastforce
    then show ?thesis
      using that [OF fresh(1)] assms(1) vis pin fresh by (auto simp: open_read_def agent_content_def Let_def digest_visible_def)
  qed (use assms(3) in blast)
qed

lemma not_found_roundtrip [simp]: "open_read_response_decode (open_read_response_encode not_found_open) = Inr not_found_open"
  by (rule open_read_response_roundtrip) (simp_all add: open_read_response_encode_def not_found_open_def str_ok_literal usize_bound_def)

lemma open_read_absent: "open_read blake3 os lc fs q st = (r, st1) \<Longrightarrow> \<not> orr_exists r \<Longrightarrow> r = not_found_open"
  by (auto simp: open_read_def Let_def split: if_splits prod.splits option.splits)

text \<open>The answer to a probe of a path not pinned before, after the trip over the wire.\<close>

lemma fc_open_read_over:
  assumes p: "str_ok p" and live: "\<not> sc_closed (ss_cap st)"
    and r: "open_read blake3 (sx_os sx) lc (sx_fs sx) \<lparr>orq_path = p, orq_want_inline = False\<rparr> st = (r, st')"
  shows "fc_open_read (server_call blake3 lc sx) p False st = to_io (open_read_response_decode (open_read_response_encode r)) st'"
proof -
  let ?q = "\<lparr>orq_path = p, orq_want_inline = False\<rparr>"
  have "open_read_request_decode (open_read_request_encode ?q) = Inr ?q"
    by (rule open_read_request_roundtrip) (use p in \<open>simp_all add: open_read_request_encode_def str_ok_def MAX_FRAME_BODY_def usize_bound_def\<close>)
  then show ?thesis using live by (simp add: fc_open_read_def server_call_def serve_dispatch_def r sm_bind_def)
qed

lemma fc_open_read_found:
  assumes "blake3_output blake3" "str_ok p" "\<not> sc_closed (ss_cap st)" "orr_exists r"
    and new: "\<not> (\<exists>v. map_of (sc_pinned (ss_cap st)) p = Some (Some v))"
    and r: "open_read blake3 (sx_os sx) lc (sx_fs sx) \<lparr>orq_path = p, orq_want_inline = False\<rparr> st = (r, st')"
  shows "fc_open_read (server_call blake3 lc sx) p False st = (Inr r, st')"
proof -
  obtain bs where "r = \<lparr>orr_exists = True, orr_size = word_of_nat (length bs), orr_digest_hex = digest_canonical (digest_of blake3 bs), orr_first_chunk = []\<rparr>"
    using open_read_fresh [OF r assms(4) new] by blast
  moreover have "digest_ok (digest_of blake3 bs)" by (rule digest_of_ok [OF assms(1)])
  moreover from this have "str_ok (digest_canonical (digest_of blake3 bs))" "length (digest_canonical (digest_of blake3 bs)) \<le> 1000"
    by (simp_all add: digest_str_ok) (simp add: digest_canonical_def digest_ok_def digest_of_def)
  ultimately have "open_read_response_decode (open_read_response_encode r) = Inr r"
    by (intro open_read_response_roundtrip) (simp_all add: open_read_response_encode_def usize_bound_def)
  then show ?thesis using fc_open_read_over [OF assms(2,3) r] by (simp add: to_io_def sm_simps)
qed

lemma probe_open_read:
  assumes hash: "blake3_output blake3" and p: "str_ok p" and new: "\<not> (\<exists>v. map_of (sc_pinned (ss_cap st)) p = Some (Some v))"
  obtains (absent) st1 where "fc_open_read (server_call blake3 lc sx) p False st = (Inr not_found_open, st1)"
  | (found) r st1 where "fc_open_read (server_call blake3 lc sx) p False st = (Inr r, st1)" "orr_exists r"
      "open_read blake3 (sx_os sx) lc (sx_fs sx) \<lparr>orq_path = p, orq_want_inline = False\<rparr> st = (r, st1)"
proof -
  obtain r st' where r: "open_read blake3 (sx_os sx) lc (sx_fs sx) \<lparr>orq_path = p, orq_want_inline = False\<rparr> st = (r, st')"
    by (metis surj_pair)
  show ?thesis
  proof (cases "sc_closed (ss_cap st) \<or> \<not> orr_exists r")
    case True
    then show ?thesis
      using fc_open_read_over [OF p _ r] open_read_absent [OF r] absent
      by (cases "sc_closed (ss_cap st)")
         (simp_all add: fc_open_read_def server_call_def serve_dispatch_def closed_response_def to_io_def sm_simps sm_bind_def)
  next
    case False
    then show ?thesis using found [OF _ _ r] fc_open_read_found [OF hash p _ _ new r] by blast
  qed
qed

text \<open>What a probe reports of a path not pinned before, and that the session then can serve it.\<close>

lemma probe_reports:
  assumes hash: "blake3_output blake3" "no_second_preimage blake3 bs"
    and content: "agent_content lc (sx_fs sx) (ss_cap st) p = Some bs" "str_ok p"
    and new: "\<not> (\<exists>v. map_of (sc_pinned (ss_cap st)) p = Some (Some v))"
    and probe: "probe_digest (server_call blake3 lc sx) p st = (Inr (Some (d, n)), st1)"
  shows "d = digest_of blake3 bs" "n = word_of_nat (length bs)" "os_open (sx_os sx') \<Longrightarrow> serves sx' d bs st1"
proof -
  have *: "d = digest_of blake3 bs \<and> n = word_of_nat (length bs) \<and> (os_open (sx_os sx') \<longrightarrow> serves sx' d bs st1)"
    using hash(1) content(2) new
  proof (cases rule: probe_open_read [of blake3 p st lc sx])
    case (absent st')
    then show ?thesis using probe by (simp add: probe_digest_def not_found_open_def sm_simps)
  next
    case (found r st')
    obtain bs' where r: "agent_content lc (sx_fs sx) (ss_cap st) p = Some bs'" "\<not> sc_closed (ss_cap st')" "digest_visible (ss_cap st') (digest_of blake3 bs')"
        "verify_secure_file blake3 (ss_store st') (digest_of blake3 bs')"
        "r = \<lparr>orr_exists = True, orr_size = word_of_nat (length bs'), orr_digest_hex = digest_canonical (digest_of blake3 bs'), orr_first_chunk = []\<rparr>"
      using open_read_fresh [OF found(3,2) new] by blast
    then have bs: "bs' = bs" using content(1) by simp
    have ok: "digest_ok (digest_of blake3 bs)" by (rule digest_of_ok [OF hash(1)])
    then have p: "digest_parse (digest_canonical (digest_of blake3 bs)) = Inr (digest_of blake3 bs)" by (simp add: digest_parse_iff)
    have d: "d = digest_of blake3 bs" "n = word_of_nat (length bs)" "st1 = st'"
      using probe found(1,2) r(5) bs p by (simp_all add: probe_digest_def parse_reported_def sm_simps)
    have "ss_store st' (di_hex (digest_of blake3 bs)) = FsOk bs"
      using r(4) bs digest_of_preimage [OF hash(2)] by (auto simp: verify_secure_file_def split: fs_read.splits)
    then show ?thesis using d r(2,3) bs ok by (simp add: serves_def)
  qed
  then show "d = digest_of blake3 bs" "n = word_of_nat (length bs)" "os_open (sx_os sx') \<Longrightarrow> serves sx' d bs st1" by blast+
qed

text \<open>
  What the worker fetches is what the agent read. When the digest probe of a path that the
  session has not pinned yet finds it, the digest and the size are those of the file's content
  at that moment, and fetching that digest returns exactly this content, even when the file
  and everything else on the agent's file system have changed in between.
\<close>
theorem supplied_content_exact:
  assumes hash: "blake3_output blake3" "no_second_preimage blake3 bs"
    and content: "agent_content lc (sx_fs sx) (ss_cap st) p = Some bs" "length bs < 2 ^ 64" "str_ok p"
    and new: "\<not> (\<exists>v. map_of (sc_pinned (ss_cap st)) p = Some (Some v))"
    and probe: "probe_digest (server_call blake3 lc sx) p st = (Inr (Some (d, n)), st1)"
    and later: "os_open (sx_os sx')" "reserves (length bs)"
  shows "d = digest_of blake3 bs \<and> n = word_of_nat (length bs)
    \<and> (\<exists>st2. fetch_by_digest blake3 reserves (server_call blake3 lc sx') d n st1 = (Inr bs, st2) \<and> only_counts st1 st2)"
proof -
  note r = probe_reports [OF hash content(1,3) new probe]
  have "serves sx' (digest_of blake3 bs) bs st1" using r(1,3) later(1) by simp
  from fetch_by_digest_serves [where reserves = reserves and lc = lc, OF this content(2) later(2)] r(1,2) show ?thesis by blast
qed

lemma demo_state: "ss_cap (serve_state_of 0 demo_granted) = demo_cap" "ss_store (serve_state_of 0 demo_granted) = (\<lambda>_. FsNotFound)"
    "ss_owner (serve_state_of 0 demo_granted) = pin_owner_new"
  by (simp_all add: serve_state_of_def demo_granted_caps cap_at_def)

lemma demo_opened:
  obtains st1 where "open_read toy_hash (sx_os demo_sx) id (sx_fs demo_sx) \<lparr>orq_path = demo_path, orq_want_inline = False\<rparr> (serve_state_of 0 demo_granted)
      = (\<lparr>orr_exists = True, orr_size = 1, orr_digest_hex = digest_canonical demo_digest, orr_first_chunk = []\<rparr>, st1)"
  using demo_visible
  by (auto simp: open_read_def demo_state demo_sx_def demo_fs_def pin_contained_def persist_pin_bytes_def pin_register_def pin_owner_new_def
      checked_add_usize_def usize_bound_def demo_put_pin commit_if_accepting_def demo_cap_def session_new_def hm_insert_def
      demo_cap_def [symmetric] Let_def)

lemma demo_path_ok: "str_ok demo_path"
  by (simp add: demo_path_def str_ok_literal)

lemma demo_fresh: "\<not> sc_closed demo_cap" "\<not> (\<exists>v. map_of (sc_pinned demo_cap) demo_path = Some (Some v))"
    "agent_content id (sx_fs demo_sx) demo_cap demo_path = Some [1]"
  using demo_visible by (simp_all add: demo_cap_def session_new_def agent_content_def demo_sx_def demo_fs_def)

lemma demo_probe:
  obtains st1 where "probe_digest (server_call toy_hash id demo_sx) demo_path (serve_state_of 0 demo_granted) = (Inr (Some (demo_digest, 1)), st1)"
proof -
  obtain st1 where o: "open_read toy_hash (sx_os demo_sx) id (sx_fs demo_sx) \<lparr>orq_path = demo_path, orq_want_inline = False\<rparr> (serve_state_of 0 demo_granted)
      = (\<lparr>orr_exists = True, orr_size = 1, orr_digest_hex = digest_canonical demo_digest, orr_first_chunk = []\<rparr>, st1)"
    by (rule demo_opened)
  have "probe_digest (server_call toy_hash id demo_sx) demo_path (serve_state_of 0 demo_granted) = (Inr (Some (demo_digest, 1)), st1)"
    using fc_open_read_found [OF toy_hash_output demo_path_ok _ _ _ o] demo_fresh demo_parse
    by (simp add: probe_digest_def demo_state parse_reported_def sm_simps)
  then show ?thesis by (rule that)
qed

theorem supplied_content_exact_witness:
  "\<exists>st1 st2. probe_digest (server_call toy_hash id demo_sx) demo_path (serve_state_of 0 demo_granted) = (Inr (Some (demo_digest, 1)), st1)
     \<and> fetch_by_digest toy_hash (\<lambda>_. True) (server_call toy_hash id (demo_sx\<lparr>sx_fs := demo_fs\<lparr>sf_read_at := \<lambda>_ _. Some [9]\<rparr>\<rparr>)) demo_digest 1 st1
         = (Inr [1], st2)"
proof -
  obtain st1 where probe: "probe_digest (server_call toy_hash id demo_sx) demo_path (serve_state_of 0 demo_granted) = (Inr (Some (demo_digest, 1)), st1)"
    by (rule demo_probe)
  have "\<exists>st2. fetch_by_digest toy_hash (\<lambda>_. True) (server_call toy_hash id (demo_sx\<lparr>sx_fs := demo_fs\<lparr>sf_read_at := \<lambda>_ _. Some [9]\<rparr>\<rparr>))
      demo_digest 1 st1 = (Inr [1], st2)"
    using supplied_content_exact [OF toy_hash_output toy_hash_preimage _ _ demo_path_ok _ probe, where reserves = "\<lambda>_. True"
        and sx' = "demo_sx\<lparr>sx_fs := demo_fs\<lparr>sf_read_at := \<lambda>_ _. Some [9]\<rparr>\<rparr>"] demo_fresh
    by (auto simp: demo_state demo_sx_def toy_os_def)
  then show ?thesis using probe by blast
qed

section \<open>Returning an output\<close>

lemma begin_closed: "write_back_begin io req spec (cap, fy) = (ok, cap', fy') \<Longrightarrow> sc_closed cap' = sc_closed cap"
  by (auto simp: write_back_begin_def Let_def split: if_splits prod.splits option.splits)

lemma finish_closed: "write_back_finish blake3 io req spec s (cap, fy) = (r, cap', fy') \<Longrightarrow> sc_closed cap' = sc_closed cap"
  by (auto simp: write_back_finish_def Let_def record_staged_def split: if_splits prod.splits bool.splits)

lemma append_closed: "write_back_append blake3 io req spec s (cap, fy) = (r, cap', fy') \<Longrightarrow> sc_closed cap' = sc_closed cap"
  by (auto simp: write_back_append_def Let_def dest!: finish_closed split: if_splits option.splits)

lemma write_back_closed: "write_back blake3 io req (cap, fy) = (r, cap', fy') \<Longrightarrow> sc_closed cap' = sc_closed cap"
  by (auto simp: write_back_def dest!: begin_closed append_closed split: if_splits option.splits prod.splits bool.splits)

lemma write_back_over:
  assumes dg: "str_ok (wbq_digest_hex req)" "length (wbq_digest_hex req) \<le> 1000" and c: "length (wbq_bytes req) \<le> WRITEBACK_CHUNK"
    and live: "\<not> sc_closed (ss_cap st)" and wb: "write_back blake3 (sx_io sx) req (ss_cap st, ss_files st) = (wb_ok, cap, fy)"
  shows "sm_bind (server_call blake3 lc sx WriteBack (write_back_request_encode req)) (\<lambda>resp. to_io (write_back_response_decode resp)) st
    = (Inr wb_ok, st\<lparr>ss_cap := cap, ss_files := fy\<rparr>)"
proof -
  have q: "write_back_request_decode (write_back_request_encode req) = Inr req"
    by (rule write_back_request_roundtrip)
       (use dg c in \<open>simp_all add: write_back_request_encode_def WRITEBACK_CHUNK_def MAX_FRAME_BODY_def usize_bound_def\<close>)
  have "write_back_response_decode (write_back_response_encode wb_ok) = Inr wb_ok"
    by (rule write_back_response_roundtrip) (simp_all add: wb_ok_def write_back_response_encode_def usize_bound_def str_ok_literal)
  then show ?thesis using live by (simp add: server_call_def serve_dispatch_def q wb to_io_def sm_simps sm_bind_def)
qed

text \<open>The chunks the client cuts: one empty chunk for an empty output.\<close>

definition wb_chunks :: "bytes \<Rightarrow> bytes list" where
  "wb_chunks bs = (if bs = [] then [[]] else chunks WRITEBACK_CHUNK bs)"

lemma chunks_eq: "xs \<noteq> [] \<Longrightarrow> n > 0 \<Longrightarrow> chunks n xs = take n xs # chunks n (drop n xs)"
  by (subst chunks.simps) simp

lemma chunks_Nil [simp]: "chunks n [] = []"
  by (subst chunks.simps) simp

lemma chunks_props:
  assumes "n > 0"
  shows "concat (chunks n xs) = xs" "\<forall>c \<in> set (chunks n xs). c \<noteq> []" "chunks n xs = [] \<longleftrightarrow> xs = []"
proof -
  have "concat (chunks n xs) = xs \<and> (\<forall>c \<in> set (chunks n xs). c \<noteq> []) \<and> (chunks n xs = [] \<longleftrightarrow> xs = [])"
    using assms
  proof (induction n xs rule: chunks.induct)
    case (1 n xs)
    then show ?case by (cases "xs = []") (simp_all add: chunks_eq)
  qed
  then show "concat (chunks n xs) = xs" "\<forall>c \<in> set (chunks n xs). c \<noteq> []" "chunks n xs = [] \<longleftrightarrow> xs = []" by simp_all
qed

lemma wb_chunks_props: "concat (wb_chunks bs) = bs" "wb_chunks bs \<noteq> []" "\<forall>c \<in> set (butlast (wb_chunks bs)). c \<noteq> []"
  using chunks_props [of WRITEBACK_CHUNK bs] in_set_butlastD by (fastforce simp: wb_chunks_def WRITEBACK_CHUNK_def)+

lemma wb_chunks_step:
  "wb_chunks bs = take WRITEBACK_CHUNK bs # (if length bs \<le> WRITEBACK_CHUNK then [] else wb_chunks (drop WRITEBACK_CHUNK bs))"
  by (auto simp: wb_chunks_def chunks_eq WRITEBACK_CHUNK_def)

lemma write_back_loop_streams:
  assumes "stream blake3 (sx_io sx) (chunk_requests i dg off (wb_chunks (drop off bs))) (ss_cap st, ss_files st) = (replicate n wb_ok, cap, fy)"
    and "off \<le> length bs" "\<not> sc_closed (ss_cap st)" "str_ok dg" "length dg \<le> 1000"
  shows "write_back_loop (server_call blake3 lc sx) i dg bs off st = (Inr wb_ok, st\<lparr>ss_cap := cap, ss_files := fy\<rparr>)"
  using assms
proof (induction "length bs - off" arbitrary: off st n rule: less_induct)
  case less
  let ?stop = "min (off + WRITEBACK_CHUNK) (length bs)"
  let ?req = "\<lparr>wbq_output_id = i, wbq_digest_hex = dg, wbq_offset = word_of_nat off,
      wbq_bytes = take (?stop - off) (drop off bs), wbq_last = (?stop = length bs)\<rparr>"
  let ?rest = "if length bs \<le> off + WRITEBACK_CHUNK then [] else wb_chunks (drop ?stop bs)"
  have cut: "wb_chunks (drop off bs) = wbq_bytes ?req # ?rest"
    using less.prems(2) by (subst wb_chunks_step) (auto simp: min_def take_all_iff add.commute)
  have lst: "?rest = [] \<longleftrightarrow> ?stop = length bs" using wb_chunks_props(2) less.prems(2) by (auto simp: min_def)
  obtain r cap1 fy1 where one: "write_back blake3 (sx_io sx) ?req (ss_cap st, ss_files st) = (r, cap1, fy1)" by (metis surj_pair)
  have "stream blake3 (sx_io sx) (?req # chunk_requests i dg (off + length (wbq_bytes ?req)) ?rest) (ss_cap st, ss_files st) = (replicate n wb_ok, cap, fy)"
    using less.prems(1) lst unfolding cut by simp
  then obtain resps where s: "stream blake3 (sx_io sx) (chunk_requests i dg (off + length (wbq_bytes ?req)) ?rest) (cap1, fy1) = (resps, cap, fy)"
      "r # resps = replicate n wb_ok"
    using one by (auto split: prod.splits)
  then have ok: "r = wb_ok" "resps = replicate (n - 1) wb_ok" by (cases n; simp)+
  let ?st = "st\<lparr>ss_cap := cap1, ss_files := fy1\<rparr>"
  have over: "sm_bind (server_call blake3 lc sx WriteBack (write_back_request_encode ?req)) (\<lambda>resp. to_io (write_back_response_decode resp)) st
      = (Inr wb_ok, ?st)"
    by (rule write_back_over) (use less.prems one ok in auto)
  show ?case
  proof (cases "?stop = length bs")
    case True
    then show ?thesis using over s(1) lst by (subst write_back_loop.simps) (simp add: Let_def)
  next
    case False
    then have stop: "?stop = off + WRITEBACK_CHUNK" "\<not> length bs \<le> off + WRITEBACK_CHUNK" by (auto simp: min_def split: if_splits)
    have "write_back_loop (server_call blake3 lc sx) i dg bs ?stop ?st = (Inr wb_ok, ?st\<lparr>ss_cap := cap, ss_files := fy\<rparr>)"
    proof (rule less.hyps [where n = "n - 1"])
      have "off + length (wbq_bytes ?req) = ?stop" using stop by simp
      then show "stream blake3 (sx_io sx) (chunk_requests i dg ?stop (wb_chunks (drop ?stop bs))) (ss_cap ?st, ss_files ?st) = (replicate (n - 1) wb_ok, cap, fy)"
        using s(1) ok(2) stop(2) by simp
      show "length bs - ?stop < length bs - off" unfolding stop(1) using stop(2) by (auto simp: WRITEBACK_CHUNK_def)
    qed (use less.prems write_back_closed [OF one] in auto)
    then show ?thesis using over False by (subst write_back_loop.simps) (simp add: Let_def wb_ok_def)
  qed
qed

text \<open>
  C10. An output the worker returns arrives. Writing back the bytes of a declared output over a
  live session, within its size limit and with a file system that works, ends with the
  agent's acknowledgement, and the agent then holds the output staged for its declared final
  path in a file with exactly these bytes, however many chunks the bytes took.
\<close>
theorem output_delivered:
  assumes sp: "map_of (sc_outputs (ss_cap st)) i = Some sp"
    and cap: "\<not> sc_closed (ss_cap st)" "map_of (sc_staged (ss_cap st)) i = None" "map_of (sc_writebacks (ss_cap st)) i = None"
    and io: "io_good (sx_io sx) sp (ss_files st)" and hash: "blake3_output blake3"
    and len: "length bs < 2 ^ 64" "length bs \<le> unat (sp_max_size sp)"
  shows "\<exists>st'. fc_write_back blake3 (server_call blake3 lc sx) i bs st = (Inr wb_ok, st') \<and> staged_as blake3 (ss_cap st') (ss_files st') i sp bs"
proof -
  let ?d = "digest_of blake3 bs" and ?dg = "digest_canonical (digest_of blake3 bs)"
  obtain resps cap' fy' where s: "stream blake3 (sx_io sx) (chunk_requests i ?dg 0 (wb_chunks bs)) (ss_cap st, ss_files st) = (resps, cap', fy')"
    by (metis surj_pair)
  have "stream_outcome blake3 ?dg i sp (concat (wb_chunks bs)) (length (wb_chunks bs))
      (stream blake3 (sx_io sx) (chunk_requests i ?dg 0 (wb_chunks bs)) (ss_cap st, ss_files st))"
    by (rule stream_delivers [OF sp cap io]) (use wb_chunks_props len in simp_all)
  then have staged: "resps = replicate (length (wb_chunks bs)) wb_ok" "staged_as blake3 cap' fy' i sp bs"
    unfolding s by (simp_all add: stream_outcome_def wb_chunks_props(1))
  have ok: "digest_ok ?d" by (rule digest_of_ok [OF hash])
  have "write_back_loop (server_call blake3 lc sx) i ?dg bs 0 st = (Inr wb_ok, st\<lparr>ss_cap := cap', ss_files := fy'\<rparr>)"
    by (rule write_back_loop_streams [where n = "length (wb_chunks bs)"])
       (use s staged(1) cap(1) digest_str_ok [OF ok] ok in \<open>simp_all add: digest_canonical_def digest_ok_def digest_of_def\<close>)
  then show ?thesis using staged(2) by (simp add: fc_write_back_def)
qed

theorem output_delivered_witness:
  "\<exists>st'. fc_write_back toy_hash (server_call toy_hash id demo_sx) 1 [1, 2, 3] (serve_state_of 0 demo_granted) = (Inr wb_ok, st')
     \<and> staged_as toy_hash (ss_cap st') (ss_files st') 1 demo_spec [1, 2, 3]"
proof -
  have "ss_files (serve_state_of 0 demo_granted) = no_files" by (simp add: serve_state_of_def demo_granted_caps)
  then show ?thesis
    using demo_cap_outputs demo_good
    by (intro output_delivered [OF _ _ _ _ _ toy_hash_output]) (simp_all add: demo_state demo_sx_def demo_spec_def)
qed

end
