(* ===== verification/Hydrate.thy ===== *)
theory Hydrate
  imports File_Supply Win_Path
begin

text \<open>
  Hydration, the worker's side of a file open in the compiler (\<open>src/crates/worker/src/vfs_pipe.rs\<close>):
  the digest probe, the worker's content store, the fetch, the atomic publication into the
  scratch tree, and the framing of the pipe the hook library speaks. The worker's files are a
  map from path to content; what the operating system lets a step do is its environment. The
  single-flight registry of concurrent hydrations is in \<open>Hydration_Flight\<close>. Named-pipe
  instances, their security descriptors and the fault-injection harness are not modelled.
\<close>

definition STATUS_OK :: u8 where "STATUS_OK = 0"
definition STATUS_NOT_FOUND :: u8 where "STATUS_NOT_FOUND = 1"
definition STATUS_ERROR :: u8 where "STATUS_ERROR = 2"

lemma status_distinct [simp]: "STATUS_NOT_FOUND \<noteq> STATUS_OK" "STATUS_ERROR \<noteq> STATUS_OK" "STATUS_OK \<noteq> STATUS_NOT_FOUND" "STATUS_OK \<noteq> STATUS_ERROR"
  by (simp_all add: STATUS_OK_def STATUS_NOT_FOUND_def STATUS_ERROR_def)

section \<open>Scratch paths\<close>

fun mirror_chars :: "string \<Rightarrow> string" where
  "mirror_chars [] = []"
| "mirror_chars (c # cs) =
     (if c = CHR '':'' then mirror_chars cs else if c = CHR ''/'' then bsl # mirror_chars cs else c # mirror_chars cs)"

definition scratch_mirror :: "string \<Rightarrow> string \<Rightarrow> string" where
  "scratch_mirror scratch_root logical = path_push scratch_root (trim_start_char bsl (mirror_chars logical))"

definition hydration_key :: "(string \<Rightarrow> string) \<Rightarrow> string \<Rightarrow> string" where
  "hydration_key lc path = lc (replace_char (CHR ''/'') bsl path)"

section \<open>Atomic publication\<close>

record publish_env =
  pe_parent :: bool
  pe_create :: bool
  pe_operation :: "nat option"
  pe_flush :: bool
  pe_rename :: bool
  pe_remove :: bool

text \<open>
  The scratch tree, the process id and the counter of the temp names. \<open>pe_operation\<close> is how
  much of the content a failing write leaves in the temp file. Dropping the uncommitted temp
  tries to remove it.
\<close>

record scratch_fs =
  sh_files :: "string \<rightharpoonup> bytes"
  sh_pid :: nat
  sh_temp_id :: u64

definition hydrate_temp_path :: "string \<Rightarrow> scratch_fs \<Rightarrow> string \<times> scratch_fs" where
  "hydrate_temp_path final_path sh =
     (final_path @ ''.sbz-tmp-'' @ dec (sh_pid sh) @ ''-'' @ dec (unat (sh_temp_id sh)), sh\<lparr>sh_temp_id := sh_temp_id sh + 1\<rparr>)"

definition drop_temp :: "publish_env \<Rightarrow> string \<Rightarrow> scratch_fs \<Rightarrow> scratch_fs" where
  "drop_temp pe temp sh = (if pe_remove pe then sh\<lparr>sh_files := (sh_files sh)(temp := None)\<rparr> else sh)"

definition atomic_publish :: "publish_env \<Rightarrow> string \<Rightarrow> bytes \<Rightarrow> scratch_fs \<Rightarrow> bool \<times> scratch_fs" where
  "atomic_publish pe final_path bs sh =
     (if \<not> pe_parent pe then (False, sh)
      else case hydrate_temp_path final_path sh of (temp, sh) \<Rightarrow>
        if \<not> pe_create pe \<or> sh_files sh temp \<noteq> None then (False, sh)
        else let written = (case pe_operation pe of None \<Rightarrow> bs | Some k \<Rightarrow> take k bs);
                 sh' = sh\<lparr>sh_files := (sh_files sh)(temp \<mapsto> written)\<rparr>
             in if pe_operation pe \<noteq> None \<or> \<not> pe_flush pe \<or> \<not> pe_rename pe then (False, drop_temp pe temp sh')
                else (True, sh'\<lparr>sh_files := (sh_files sh')(temp := None, final_path \<mapsto> written)\<rparr>))"

section \<open>Hydrating a path\<close>

datatype cache_write = CacheNone | CachePut | CacheRepair

text \<open>
  What one hydration meets: whether its two blocking tasks run to their end (one that does not
  was cancelled before it began), the store's and the scratch tree's environment, the allocator.
\<close>

record hydrate_env =
  he_os :: store_os
  he_read_joins :: bool
  he_write_joins :: bool
  he_publish :: publish_env
  he_reserves :: "nat \<Rightarrow> bool"

record 's vfs_world =
  vw_agent :: 's
  vw_connected :: bool
  vw_cas :: blobs
  vw_scratch :: scratch_fs

text \<open>The pooled connection: dialed once; a failed dial is tried again by the next caller.\<close>

definition vfs_client :: "fc_error + unit \<Rightarrow> 's vfs_world \<Rightarrow> bool \<times> 's vfs_world" where
  "vfs_client dialed w =
     (if vw_connected w then (True, w)
      else case dialed of Inl _ \<Rightarrow> (False, w) | Inr _ \<Rightarrow> (True, w\<lparr>vw_connected := True\<rparr>))"

definition materialize ::
    "hash_fn \<Rightarrow> hydrate_env \<Rightarrow> string \<Rightarrow> digest \<Rightarrow> bytes \<Rightarrow> cache_write \<Rightarrow> 's vfs_world \<Rightarrow> bool \<times> 's vfs_world" where
  "materialize blake3 he local d bs cw w =
     (if \<not> he_write_joins he then (False, w)
      else let (persisted, cas) = (case cw of
               CacheNone \<Rightarrow> (Inr d, vw_cas w)
             | CachePut \<Rightarrow> put_verified blake3 (he_os he) bs d (vw_cas w)
             | CacheRepair \<Rightarrow> repair_verified blake3 (he_os he) bs d (vw_cas w));
               w = w\<lparr>vw_cas := cas\<rparr>
           in if (case persisted of Inl (DigestMismatch _ _) \<Rightarrow> True | Inl (CasDigest _) \<Rightarrow> True | _ \<Rightarrow> False) then (False, w)
              else case atomic_publish (he_publish he) local bs (vw_scratch w) of (ok, sh) \<Rightarrow> (ok, w\<lparr>vw_scratch := sh\<rparr>))"

definition hydrate_uncached ::
    "hash_fn \<Rightarrow> hydrate_env \<Rightarrow> 's fc_call \<Rightarrow> fc_error + unit \<Rightarrow> string \<Rightarrow> string \<Rightarrow> 's vfs_world \<Rightarrow> (u8 \<times> string) \<times> 's vfs_world" where
  "hydrate_uncached blake3 he call dialed scratch_root path w =
     (case vfs_client dialed w of
        (False, w) \<Rightarrow> ((STATUS_ERROR, []), w)
      | (True, w) \<Rightarrow>
          (case probe_digest call path (vw_agent w) of
             (Inl _, ag) \<Rightarrow> ((STATUS_ERROR, []), w\<lparr>vw_agent := ag\<rparr>)
           | (Inr None, ag) \<Rightarrow> ((STATUS_NOT_FOUND, []), w\<lparr>vw_agent := ag\<rparr>)
           | (Inr (Some (d, n)), ag) \<Rightarrow>
               let w = w\<lparr>vw_agent := ag\<rparr>;
                   local = scratch_mirror scratch_root path;
                   finish = (\<lambda>bs cw w. case materialize blake3 he local d bs cw w of
                     (True, w') \<Rightarrow> ((STATUS_OK, local), w') | (False, w') \<Rightarrow> ((STATUS_ERROR, []), w'));
                   fetch = (\<lambda>cw. case fetch_by_digest blake3 (he_reserves he) call d n (vw_agent w) of
                     (Inl _, ag) \<Rightarrow> ((STATUS_ERROR, []), w\<lparr>vw_agent := ag\<rparr>)
                   | (Inr bs, ag) \<Rightarrow> finish bs cw (w\<lparr>vw_agent := ag\<rparr>))
               in if \<not> he_read_joins he then ((STATUS_ERROR, []), w)
                  else case get_verified blake3 (he_os he) (vw_cas w) d of
                    Inr (Some bs) \<Rightarrow> finish bs CacheNone w
                  | Inr None \<Rightarrow> fetch CachePut
                  | Inl (Corrupt _) \<Rightarrow> fetch CacheRepair
                  | Inl _ \<Rightarrow> ((STATUS_ERROR, []), w)))"

section \<open>What a hydration leaves behind\<close>

definition temp_of :: "string \<Rightarrow> scratch_fs \<Rightarrow> string" where
  "temp_of final_path sh = fst (hydrate_temp_path final_path sh)"

lemma temp_neq: "temp_of p sh \<noteq> p"
  by (simp add: temp_of_def hydrate_temp_path_def)

text \<open>Only the final name changes, all at once; a failure leaves it as it was and at most a temp behind.\<close>

lemma atomic_publish_spec:
  assumes "atomic_publish pe p bs sh = (ok, sh')"
  shows "ok \<Longrightarrow> sh_files sh' = (sh_files sh)(p \<mapsto> bs)"
    and "\<not> ok \<Longrightarrow> q \<noteq> temp_of p sh \<Longrightarrow> sh_files sh' q = sh_files sh q"
    and "\<not> ok \<Longrightarrow> pe_remove pe \<Longrightarrow> sh_files sh' = sh_files sh"
proof -
  have t: "hydrate_temp_path p sh = (temp_of p sh, sh\<lparr>sh_temp_id := sh_temp_id sh + 1\<rparr>)"
    by (simp add: temp_of_def hydrate_temp_path_def)
  show "ok \<Longrightarrow> sh_files sh' = (sh_files sh)(p \<mapsto> bs)"
    using assms temp_neq [of p sh] by (auto simp: atomic_publish_def t Let_def fun_eq_iff split: if_splits)
  show "\<not> ok \<Longrightarrow> q \<noteq> temp_of p sh \<Longrightarrow> sh_files sh' q = sh_files sh q"
    using assms by (auto simp: atomic_publish_def t Let_def drop_temp_def split: if_splits)
  show "\<not> ok \<Longrightarrow> pe_remove pe \<Longrightarrow> sh_files sh' = sh_files sh"
    using assms by (auto simp: atomic_publish_def t Let_def drop_temp_def fun_upd_idem split: if_splits)
qed

lemma materialize_cases:
  assumes "materialize blake3 he p d bs cw w = (ok, w')"
  obtains (idle) cas where "\<not> ok" "w' = w\<lparr>vw_cas := cas\<rparr>"
  | (published) cas sh where "atomic_publish (he_publish he) p bs (vw_scratch w) = (ok, sh)" "w' = w\<lparr>vw_cas := cas, vw_scratch := sh\<rparr>"
proof -
  obtain persisted cas where c: "(case cw of
               CacheNone \<Rightarrow> (Inr d, vw_cas w)
             | CachePut \<Rightarrow> put_verified blake3 (he_os he) bs d (vw_cas w)
             | CacheRepair \<Rightarrow> repair_verified blake3 (he_os he) bs d (vw_cas w)) = (persisted, cas)" by (metis surj_pair)
  obtain ok' sh where a: "atomic_publish (he_publish he) p bs (vw_scratch w) = (ok', sh)" by (metis surj_pair)
  show ?thesis
    using assms idle [of "vw_cas w"] idle [of cas] published [of sh cas]
    by (auto simp: materialize_def c a Let_def split: if_splits)
qed

lemma materialize_spec:
  assumes "materialize blake3 he p d bs cw w = (ok, w')"
  shows "ok \<Longrightarrow> sh_files (vw_scratch w') = (sh_files (vw_scratch w))(p \<mapsto> bs)"
    and "\<not> ok \<Longrightarrow> q \<noteq> temp_of p (vw_scratch w) \<Longrightarrow> sh_files (vw_scratch w') q = sh_files (vw_scratch w) q"
  using assms by (auto elim!: materialize_cases dest: atomic_publish_spec)

text \<open>A hydration that got past the probe, and what it published when it succeeded.\<close>

lemma hydrate_cases:
  assumes "hydrate_uncached blake3 he call dialed root path w = ((status, local), w')"
  obtains (kept) "status \<noteq> STATUS_OK" "vw_scratch w' = vw_scratch w"
  | (finished) d n ag bs cw w1 ok where "probe_digest call path (vw_agent w) = (Inr (Some (d, n)), ag)" "digest_of blake3 bs = d"
      "vw_scratch w1 = vw_scratch w" "materialize blake3 he (scratch_mirror root path) d bs cw w1 = (ok, w')"
      "status = (if ok then STATUS_OK else STATUS_ERROR)" "local = (if ok then scratch_mirror root path else [])"
proof -
  obtain up w0 where cl: "vfs_client dialed w = (up, w0)" by (metis surj_pair)
  then have w0: "vw_agent w0 = vw_agent w" "vw_scratch w0 = vw_scratch w" by (auto simp: vfs_client_def split: if_splits sum.splits)
  obtain pr ag where pr: "probe_digest call path (vw_agent w) = (pr, ag)" by (metis surj_pair)
  let ?w = "w0\<lparr>vw_agent := ag\<rparr>" and ?p = "scratch_mirror root path"
  show ?thesis
  proof (cases "up \<and> he_read_joins he \<and> (\<exists>d n. pr = Inr (Some (d, n)))")
    case False
    then have "status \<noteq> STATUS_OK \<and> vw_scratch w' = vw_scratch w"
      using assms cl w0 pr by (auto simp: hydrate_uncached_def Let_def split: bool.splits sum.splits option.splits)
    then show ?thesis using kept by blast
  next
    case True
    then obtain d n where d: "up" "he_read_joins he" "pr = Inr (Some (d, n))" by blast
    obtain fr ag' where fr: "fetch_by_digest blake3 (he_reserves he) call d n ag = (fr, ag')" by (metis surj_pair)
    have publish: ?thesis if "digest_of blake3 bs = d" "vw_scratch w1 = vw_scratch w"
        "(case materialize blake3 he ?p d bs cw w1 of (True, w') \<Rightarrow> ((STATUS_OK, ?p), w') | (False, w') \<Rightarrow> ((STATUS_ERROR, []), w'))
           = ((status, local), w')" for bs w1 cw
    proof -
      obtain ok w2 where m: "materialize blake3 he ?p d bs cw w1 = (ok, w2)" by (metis surj_pair)
      then show ?thesis using that pr d(3) by (intro finished [of d n ag bs w1 cw ok]) (auto split: bool.splits)
    qed
    have fetched: ?thesis if "(case fr of Inl _ \<Rightarrow> ((STATUS_ERROR, []), ?w\<lparr>vw_agent := ag'\<rparr>)
        | Inr bs \<Rightarrow> (case materialize blake3 he ?p d bs cw (?w\<lparr>vw_agent := ag'\<rparr>) of
            (True, w') \<Rightarrow> ((STATUS_OK, ?p), w') | (False, w') \<Rightarrow> ((STATUS_ERROR, []), w'))) = ((status, local), w')" for cw
    proof (cases fr)
      case (Inl e)
      then show ?thesis using that w0 by (intro kept) auto
    next
      case (Inr bs)
      then show ?thesis using that fr fetch_by_digest_verified [of blake3 _ call d n ag bs ag'] w0
        by (intro publish [of bs "?w\<lparr>vw_agent := ag'\<rparr>" cw]) simp_all
    qed
    note run = assms [unfolded hydrate_uncached_def cl, simplified d w0 pr prod.case bool.case sum.case option.case Let_def fr]
    show ?thesis
    proof (cases "get_verified blake3 (he_os he) (vw_cas w0) d")
      case (Inl e)
      then show ?thesis using run fetched [of CacheRepair] w0 d fr kept by (cases e) (auto split: sum.splits)
    next
      case (Inr hit)
      then show ?thesis
        using run fetched [of CachePut] publish [of _ ?w CacheNone] get_verified_sound [of blake3 "he_os he" "vw_cas w0" d] w0 d fr
        by (cases hit) (auto split: sum.splits)
    qed
  qed
qed

section \<open>Properties\<close>

text \<open>
  C11. Hydration is genuine against any peer. When it reports success, the scratch file at the
  returned path holds content with exactly the digest the agent reported for the requested
  path, whether it came from the worker's store or over the wire and however corrupt the
  store was, and no other file changed; when it does not, no file other than its own
  temporary one changed.
\<close>
theorem hydrate_genuine:
  assumes "hydrate_uncached blake3 he call dialed root path w = ((status, local), w')"
  shows "if status = STATUS_OK
     then local = scratch_mirror root path \<and> (\<exists>d n ag bs. probe_digest call path (vw_agent w) = (Inr (Some (d, n)), ag)
            \<and> digest_of blake3 bs = d \<and> sh_files (vw_scratch w') = (sh_files (vw_scratch w))(local \<mapsto> bs))
     else \<forall>q. q \<noteq> temp_of (scratch_mirror root path) (vw_scratch w) \<longrightarrow> sh_files (vw_scratch w') q = sh_files (vw_scratch w) q"
  using assms
proof (cases rule: hydrate_cases)
  case (finished d n ag bs cw w1 ok)
  then show ?thesis
    using materialize_spec [OF finished(4)] by (cases ok) (auto simp: finished(1))
qed simp

text \<open>An environment in which nothing of a hydration fails.\<close>

definition hydrate_good :: "hydrate_env \<Rightarrow> nat \<Rightarrow> bool" where
  "hydrate_good he n \<longleftrightarrow> os_open (he_os he) \<and> he_read_joins he \<and> he_write_joins he \<and> he_reserves he n
     \<and> pe_parent (he_publish he) \<and> pe_create (he_publish he) \<and> pe_operation (he_publish he) = None
     \<and> pe_flush (he_publish he) \<and> pe_rename (he_publish he)"

lemma publish_err: "publish_cas_blob blake3 os bs d bl = (Inl e, bl') \<Longrightarrow> e = CasIo"
  by (auto simp: publish_cas_blob_def split: if_splits)

lemma remove_err: "remove_blob_entry os d bl = (Inl e, bl') \<Longrightarrow> e = CasIo"
  by (auto simp: remove_blob_entry_def split: if_splits)

lemma store_known_err:
  assumes "store_digest_known blake3 os bs d bl = (Inl e, bl')"
  shows "e = CasIo"
proof -
  have retry: "e = CasIo" if "(case remove_blob_entry os d bl of
      (Inl e, bl') \<Rightarrow> (Inl e, bl') | (Inr _, bl') \<Rightarrow> publish_cas_blob blake3 os bs d bl') = (Inl e, bl')"
    using that by (auto dest: publish_err remove_err split: prod.splits sum.splits)
  show ?thesis
  proof (cases "get_verified_with blake3 bl d")
    case (Inl x)
    then show ?thesis using assms retry by (cases x) (auto simp: store_digest_known_def split: if_splits)
  next
    case (Inr hit)
    then show ?thesis using assms by (cases hit) (auto simp: store_digest_known_def dest: publish_err split: if_splits)
  qed
qed

lemma put_verified_no_mismatch:
  assumes "digest_of blake3 bs = d" "put_verified blake3 os bs d bl = (r, bl')"
  shows "\<not> (case r of Inl (DigestMismatch _ _) \<Rightarrow> True | Inl (CasDigest _) \<Rightarrow> True | _ \<Rightarrow> False)"
proof (cases r)
  case (Inl e)
  then have "e = CasIo"
    using assms by (auto simp: put_verified_def Let_def dest: store_known_err split: if_splits prod.splits sum.splits)
  then show ?thesis using Inl by simp
qed simp

lemma materialize_good:
  assumes "hydrate_good he n" "digest_of blake3 bs = d" "sh_files (vw_scratch w) (temp_of p (vw_scratch w)) = None"
  shows "fst (materialize blake3 he p d bs cw w)"
proof -
  obtain persisted cas where c: "(case cw of
               CacheNone \<Rightarrow> (Inr d, vw_cas w)
             | CachePut \<Rightarrow> put_verified blake3 (he_os he) bs d (vw_cas w)
             | CacheRepair \<Rightarrow> repair_verified blake3 (he_os he) bs d (vw_cas w)) = (persisted, cas)" by (metis surj_pair)
  have ok: "\<not> (case persisted of Inl (DigestMismatch _ _) \<Rightarrow> True | Inl (CasDigest _) \<Rightarrow> True | _ \<Rightarrow> False)"
    using c put_verified_no_mismatch [OF assms(2), of "he_os he" "vw_cas w" persisted cas] by (cases cw) (auto simp: repair_verified_def)
  have "fst (atomic_publish (he_publish he) p bs (vw_scratch w))"
    using assms(1,3) by (auto simp: hydrate_good_def atomic_publish_def temp_of_def hydrate_temp_path_def Let_def)
  then show ?thesis using assms(1) ok by (auto simp: materialize_def c Let_def hydrate_good_def split: prod.splits)
qed

lemma get_verified_readable:
  assumes "os_open os" "bl (di_hex d) \<noteq> FsError"
  obtains (hit) bs where "get_verified blake3 os bl d = Inr (Some bs)" "digest_of blake3 bs = d"
  | (miss) "get_verified blake3 os bl d = Inr None" | (corrupt) "get_verified blake3 os bl d = Inl (Corrupt d)"
proof (cases "bl (di_hex d)")
  case (FsOk x)
  then show ?thesis using assms hit [of x] corrupt
    by (cases "digest_of blake3 x = d") (simp_all add: get_verified_def get_verified_with_def get_with_def)
qed (use assms miss in \<open>simp_all add: get_verified_def get_verified_with_def get_with_def\<close>)

lemma hydrate_succeeds:
  assumes good: "hydrate_good he n'" and up: "dialed = Inr ()"
    and probe: "probe_digest call path (vw_agent w) = (Inr (Some (d, n)), ag)"
    and fetch: "fetch_by_digest blake3 (he_reserves he) call d n ag = (Inr bs, ag')"
    and cas: "vw_cas w (di_hex d) \<noteq> FsError" and temp: "sh_files (vw_scratch w) (temp_of (scratch_mirror root path) (vw_scratch w)) = None"
  shows "fst (fst (hydrate_uncached blake3 he call dialed root path w)) = STATUS_OK"
proof -
  obtain w0 where cl: "vfs_client dialed w = (True, w0)" and w0: "vw_agent w0 = vw_agent w" "vw_scratch w0 = vw_scratch w" "vw_cas w0 = vw_cas w"
    using up by (cases "vw_connected w") (simp_all add: vfs_client_def)
  let ?p = "scratch_mirror root path"
  have d: "digest_of blake3 bs = d" using fetch by (rule fetch_by_digest_verified)
  have ok: "\<exists>w2. materialize blake3 he ?p d x cw w1 = (True, w2)" if "digest_of blake3 x = d" "vw_scratch w1 = vw_scratch w" for x cw w1
    using materialize_good [OF good that(1), of w1 ?p cw] that(2) temp by (metis prod.collapse)
  have "os_open (he_os he)" "he_read_joins he" using good by (simp_all add: hydrate_good_def)
  note run = hydrate_uncached_def cl w0 probe fetch this
  show ?thesis
  proof (rule get_verified_readable [of "he_os he" "vw_cas w" d blake3, OF \<open>os_open (he_os he)\<close> cas])
    fix x
    assume hit: "get_verified blake3 (he_os he) (vw_cas w) d = Inr (Some x)" "digest_of blake3 x = d"
    obtain w2 where "materialize blake3 he ?p d x CacheNone (w0\<lparr>vw_agent := ag\<rparr>) = (True, w2)"
      using ok [OF hit(2), of "w0\<lparr>vw_agent := ag\<rparr>" CacheNone] w0 by auto
    then show ?thesis using hit by (simp add: run Let_def)
  next
    assume miss: "get_verified blake3 (he_os he) (vw_cas w) d = Inr None"
    obtain w2 where "materialize blake3 he ?p d bs CachePut (w0\<lparr>vw_agent := ag'\<rparr>) = (True, w2)"
      using ok [OF d, of "w0\<lparr>vw_agent := ag'\<rparr>" CachePut] w0 by auto
    then show ?thesis using miss by (simp add: run Let_def)
  next
    assume corrupt: "get_verified blake3 (he_os he) (vw_cas w) d = Inl (Corrupt d)"
    obtain w2 where "materialize blake3 he ?p d bs CacheRepair (w0\<lparr>vw_agent := ag'\<rparr>) = (True, w2)"
      using ok [OF d, of "w0\<lparr>vw_agent := ag'\<rparr>" CacheRepair] w0 by auto
    then show ?thesis using corrupt by (simp add: run Let_def)
  qed
qed

text \<open>
  C8. The compiler reads the agent's file. Hydrating, over the real server, a path the session has
  not pinned before: a success leaves in scratch exactly the bytes the agent's file held when
  it was probed, even when the worker's store holds something else under the digest; and when
  the agent finds the path and nothing fails on the worker, it is a success.
\<close>
theorem compiler_reads_agent_file:
  assumes hash: "blake3_output blake3" "no_second_preimage blake3 bs"
    and content: "agent_content lc (sx_fs sx) (ss_cap (vw_agent w)) path = Some bs" "length bs < 2 ^ 64" "str_ok path"
    and new: "\<not> (\<exists>v. map_of (sc_pinned (ss_cap (vw_agent w))) path = Some (Some v))"
    and run: "hydrate_uncached blake3 he (server_call blake3 lc sx) dialed root path w = ((status, local), w')"
  shows "(status = STATUS_OK \<longrightarrow> local = scratch_mirror root path \<and> sh_files (vw_scratch w') = (sh_files (vw_scratch w))(local \<mapsto> bs))
    \<and> (hydrate_good he (length bs) \<and> dialed = Inr () \<and> os_open (sx_os sx) \<and> vw_cas w (di_hex (digest_of blake3 bs)) \<noteq> FsError
       \<and> sh_files (vw_scratch w) (temp_of (scratch_mirror root path) (vw_scratch w)) = None
       \<and> (\<exists>d n ag. probe_digest (server_call blake3 lc sx) path (vw_agent w) = (Inr (Some (d, n)), ag)) \<longrightarrow> status = STATUS_OK)"
proof (intro conjI impI)
  note reports = probe_reports [OF hash content(1,3) new]
  have both: "local = scratch_mirror root path \<and> sh_files (vw_scratch w') = (sh_files (vw_scratch w))(local \<mapsto> bs)" if s: "status = STATUS_OK"
    using run
  proof (cases rule: hydrate_cases)
    case (finished d n ag x cw w1 ok)
    have "digest_of blake3 x = digest_of blake3 bs" using reports(1) finished(1,2) by simp
    then have "x = bs" by (rule digest_of_preimage [OF hash(2)])
    moreover have "ok" using s finished(5) by (auto split: if_splits)
    ultimately show ?thesis using finished(3,6) materialize_spec(1) [OF finished(4)] by simp
  qed (use s in simp)
  then show "status = STATUS_OK \<Longrightarrow> local = scratch_mirror root path"
      "status = STATUS_OK \<Longrightarrow> sh_files (vw_scratch w') = (sh_files (vw_scratch w))(local \<mapsto> bs)" by blast+
  show "status = STATUS_OK" if g: "hydrate_good he (length bs) \<and> dialed = Inr () \<and> os_open (sx_os sx)
       \<and> vw_cas w (di_hex (digest_of blake3 bs)) \<noteq> FsError
       \<and> sh_files (vw_scratch w) (temp_of (scratch_mirror root path) (vw_scratch w)) = None
       \<and> (\<exists>d n ag. probe_digest (server_call blake3 lc sx) path (vw_agent w) = (Inr (Some (d, n)), ag))"
  proof -
    obtain d n ag where probe: "probe_digest (server_call blake3 lc sx) path (vw_agent w) = (Inr (Some (d, n)), ag)" using g by blast
    have d: "d = digest_of blake3 bs" "n = word_of_nat (length bs)" "serves sx (digest_of blake3 bs) bs ag"
      using reports(1,2) [OF probe] reports(3) [OF probe, of sx] g by auto
    obtain ag' where "fetch_by_digest blake3 (he_reserves he) (server_call blake3 lc sx) d n ag = (Inr bs, ag')"
      using fetch_by_digest_serves [OF d(3) content(2), of "he_reserves he" lc] g d(1,2) by (auto simp: hydrate_good_def)
    then show ?thesis using hydrate_succeeds [OF _ _ probe] g d(1) run by (metis fst_conv)
  qed
qed

subsection \<open>A worked example\<close>

definition demo_he :: hydrate_env where
  "demo_he = \<lparr>he_os = toy_os, he_read_joins = True, he_write_joins = True,
     he_publish = \<lparr>pe_parent = True, pe_create = True, pe_operation = None, pe_flush = True, pe_rename = True, pe_remove = True\<rparr>,
     he_reserves = \<lambda>_. True\<rparr>"

definition demo_world :: "serve_state vfs_world" where
  "demo_world = \<lparr>vw_agent = serve_state_of 0 demo_granted, vw_connected = False, vw_cas = (\<lambda>_. FsNotFound)(di_hex demo_digest := FsOk [9]),
     vw_scratch = \<lparr>sh_files = Map.empty, sh_pid = 7, sh_temp_id = 0\<rparr>\<rparr>"

definition demo_hydrated :: "(u8 \<times> string) \<times> serve_state vfs_world" where
  "demo_hydrated = hydrate_uncached toy_hash demo_he (server_call toy_hash id demo_sx) (Inr ()) (''S'') demo_path demo_world"

theorem compiler_reads_agent_file_witness:
  "fst demo_hydrated = (STATUS_OK, scratch_mirror ''S'' demo_path)
   \<and> sh_files (vw_scratch (snd demo_hydrated)) (scratch_mirror ''S'' demo_path) = Some [1]"
proof -
  obtain status local w' where r: "hydrate_uncached toy_hash demo_he (server_call toy_hash id demo_sx) (Inr ()) (''S'') demo_path demo_world
      = ((status, local), w')" by (metis surj_pair)
  obtain st1 where "probe_digest (server_call toy_hash id demo_sx) demo_path (serve_state_of 0 demo_granted) = (Inr (Some (demo_digest, 1)), st1)"
    by (rule demo_probe)
  then have "status = STATUS_OK" "local = scratch_mirror ''S'' demo_path" "sh_files (vw_scratch w') local = Some [1]"
    using compiler_reads_agent_file [OF toy_hash_output toy_hash_preimage _ _ demo_path_ok _ r] demo_fresh
    by (auto simp: demo_world_def demo_state hydrate_good_def demo_he_def demo_sx_def toy_os_def)
  then show ?thesis using r by (simp add: demo_hydrated_def)
qed

theorem hydrate_genuine_witness:
  "\<exists>d n ag bs. probe_digest (server_call toy_hash id demo_sx) demo_path (vw_agent demo_world) = (Inr (Some (d, n)), ag) \<and> digest_of toy_hash bs = d
     \<and> (fst (fst demo_hydrated) = STATUS_OK \<longrightarrow> sh_files (vw_scratch (snd demo_hydrated)) (snd (fst demo_hydrated)) = Some bs)"
proof -
  obtain status local w' where r: "hydrate_uncached toy_hash demo_he (server_call toy_hash id demo_sx) (Inr ()) (''S'') demo_path demo_world
      = ((status, local), w')" by (metis surj_pair)
  obtain st1 where "probe_digest (server_call toy_hash id demo_sx) demo_path (serve_state_of 0 demo_granted) = (Inr (Some (demo_digest, 1)), st1)"
    by (rule demo_probe)
  then show ?thesis using hydrate_genuine [OF r] r
    by (cases "status = STATUS_OK") (auto simp: demo_hydrated_def demo_world_def)
qed

end
