(* ===== verification/Vfs_Pipe.thy ===== *)
theory Vfs_Pipe
  imports Hydrate Path_Scope Worker_Exec
begin

text \<open>
  The pipe between the hook library in the compiler and the worker
  (\<open>src/crates/worker/src/vfs_pipe.rs\<close>): the length-prefixed messages, the request loop of one
  connection, the metadata probe, and where in the scratch tree a requested path lands. The
  loop takes the hydration and the probe as arguments, computations on the worker's state. The
  pipe accepts what is written to it; the development-only harness is not modelled.
\<close>

section \<open>Messages\<close>

definition METADATA_PIPE_PREFIX :: bytes where
  "METADATA_PIPE_PREFIX = as_bytes ''NUL-SBZ-v1'' @ [0]"
definition MAX_MSG :: nat where "MAX_MSG = 64 * 1024"
definition PREFETCH_CONCURRENCY :: nat where "PREFETCH_CONCURRENCY = 32"

datatype pipe_error = MessageTooLarge | CutMessage | BadMetadataRequest | ProbeFailed fc_error | BadEntry wire_error

text \<open>The next message of what the peer has sent before it closed, and the rest; \<open>None\<close> is a closed pipe.\<close>

definition read_msg :: "bytes \<Rightarrow> pipe_error + (bytes \<times> bytes) option" where
  "read_msg inp =
     (if length inp < 4 then Inr None
      else let len = unat (u32_from_le (take 4 inp)); rest = drop 4 inp in
        if len > MAX_MSG then Inl MessageTooLarge
        else if length rest < len then Inl CutMessage
        else Inr (Some (take len rest, drop len rest)))"

definition frame_msg :: "bytes \<Rightarrow> bytes" where
  "frame_msg payload = u32_to_le (word_of_nat (length payload)) @ payload"

definition write_response :: "u8 \<Rightarrow> string \<Rightarrow> bytes" where
  "write_response status local = frame_msg (status # as_bytes local)"

definition write_metadata_response :: "metadata_entry \<Rightarrow> pipe_error + bytes" where
  "write_metadata_response entry =
     (case metadata_response_encode \<lparr>mdr_entries = [entry]\<rparr> of
        Inl e \<Rightarrow> Inl (BadEntry e)
      | Inr encoded \<Rightarrow> Inr (frame_msg (METADATA_PIPE_PREFIX @ drop 4 encoded)))"

definition metadata_probe :: "'s fc_call \<Rightarrow> fc_error + unit \<Rightarrow> string \<Rightarrow> 's vfs_world \<Rightarrow> (fc_error + metadata_entry) \<times> 's vfs_world" where
  "metadata_probe call dialed path w =
     (case vfs_client dialed w of
        (False, w) \<Rightarrow> (Inl (case dialed of Inl e \<Rightarrow> e | Inr _ \<Rightarrow> FcDial), w)
      | (True, w) \<Rightarrow>
          (case fc_metadata_batch call [path] (vw_agent w) of
             (Inl e, ag) \<Rightarrow> (Inl e, w\<lparr>vw_agent := ag\<rparr>)
           | (Inr resp, ag) \<Rightarrow>
               (case mdr_entries resp of
                  [entry] \<Rightarrow> (Inr entry, w\<lparr>vw_agent := ag\<rparr>)
                | _ \<Rightarrow> (Inl FcCardinality, w\<lparr>vw_agent := ag\<rparr>))))"

section \<open>The request loop\<close>

text \<open>What the loop writes, how it ends, and the state it leaves.\<close>

lemma read_msg_shorter: "read_msg inp = Inr (Some (m, rest)) \<Longrightarrow> length rest < length inp"
  by (auto simp: read_msg_def Let_def split: if_splits)

function handle_client ::
    "(string \<Rightarrow> 'w \<Rightarrow> (u8 \<times> string) \<times> 'w) \<Rightarrow> (string \<Rightarrow> 'w \<Rightarrow> (fc_error + metadata_entry) \<times> 'w) \<Rightarrow> bytes \<Rightarrow> 'w
     \<Rightarrow> bytes \<times> (pipe_error + unit) \<times> 'w" where
  "handle_client hydrate probe inp w =
     (case read_msg inp of
        Inl e \<Rightarrow> ([], Inl e, w)
      | Inr None \<Rightarrow> ([], Inr (), w)
      | Inr (Some (request, rest)) \<Rightarrow>
          (case strip_prefix METADATA_PIPE_PREFIX request of
             Some path_bytes \<Rightarrow>
               (case from_utf8 path_bytes of
                  None \<Rightarrow> ([], Inl BadMetadataRequest, w)
                | Some path \<Rightarrow>
                    if path = [] then ([], Inl BadMetadataRequest, w)
                    else case probe path w of
                      (Inl e, w') \<Rightarrow> ([], Inl (ProbeFailed e), w')
                    | (Inr entry, w') \<Rightarrow>
                        (case write_metadata_response entry of
                           Inl e \<Rightarrow> ([], Inl e, w')
                         | Inr out \<Rightarrow> (case handle_client hydrate probe rest w' of (outs, r) \<Rightarrow> (out @ outs, r))))
           | None \<Rightarrow>
               (case from_utf8 request of
                  None \<Rightarrow> (case handle_client hydrate probe rest w of (outs, r) \<Rightarrow> (write_response STATUS_ERROR [] @ outs, r))
                | Some path \<Rightarrow>
                    (case hydrate path w of
                       ((status, local), w') \<Rightarrow>
                         (case handle_client hydrate probe rest w' of (outs, r) \<Rightarrow> (write_response status local @ outs, r))))))"
  by pat_completeness auto

termination
  by (relation "measure (\<lambda>(hydrate, probe, inp, w). length inp)") (auto dest: read_msg_shorter)

declare handle_client.simps [simp del]

text \<open>The predicted paths that are warmed before the compiler asks.\<close>

definition bounded_prefetch_paths :: "string list \<Rightarrow> string list" where
  "bounded_prefetch_paths paths = take MAX_PREDICTED_PATHS paths"

section \<open>Answers in order\<close>

fun hydrate_all :: "(string \<Rightarrow> 'w \<Rightarrow> (u8 \<times> string) \<times> 'w) \<Rightarrow> string list \<Rightarrow> 'w \<Rightarrow> (u8 \<times> string) list \<times> 'w" where
  "hydrate_all hydrate [] w = ([], w)"
| "hydrate_all hydrate (p # ps) w =
     (case hydrate p w of (r, w') \<Rightarrow> (case hydrate_all hydrate ps w' of (rs, w'') \<Rightarrow> (r # rs, w'')))"

fun read_msgs :: "nat \<Rightarrow> bytes \<Rightarrow> bytes list" where
  "read_msgs 0 inp = []"
| "read_msgs (Suc n) inp = (case read_msg inp of Inr (Some (m, rest)) \<Rightarrow> m # read_msgs n rest | _ \<Rightarrow> [])"

lemma read_framed: "length m \<le> MAX_MSG \<Longrightarrow> read_msg (frame_msg m @ rest) = Inr (Some (m, rest))"
  by (simp add: read_msg_def frame_msg_def Let_def u32_from_le_def u32_to_le_def le_val_le_bytes MAX_MSG_def unat_of_nat)

definition open_request :: "string \<Rightarrow> bool" where
  "open_request p \<longleftrightarrow> utf8_str p \<and> length p \<le> MAX_MSG \<and> strip_prefix METADATA_PIPE_PREFIX (as_bytes p) = None"

lemma handle_open:
  assumes "open_request p"
  shows "handle_client hydrate probe (frame_msg (as_bytes p) @ rest) w =
    (case hydrate p w of ((status, local), w') \<Rightarrow>
       (case handle_client hydrate probe rest w' of (outs, r) \<Rightarrow> (write_response status local @ outs, r)))"
proof -
  have "from_utf8 (as_bytes p) = Some p" using assms by (simp add: open_request_def from_utf8_def utf8_str_def)
  moreover have "read_msg (frame_msg (as_bytes p) @ rest) = Inr (Some (as_bytes p, rest))"
    using assms by (intro read_framed) (simp add: open_request_def)
  ultimately show ?thesis using assms by (subst handle_client.simps) (simp add: open_request_def)
qed

lemma handle_end: "handle_client hydrate probe [] w = ([], Inr (), w)"
  by (subst handle_client.simps) (simp add: read_msg_def)

text \<open>
  One answer per open, in order. However many opens the hook library has sent, the worker
  hydrates the paths one after the other in that order and writes one message per request,
  and reading the answers back yields each request's status and path; the connection then
  ends cleanly.
\<close>
theorem pipe_answers_in_order:
  assumes "\<forall>p \<in> set ps. open_request p" "hydrate_all hydrate ps w = (rs, w')" "\<forall>(status, local) \<in> set rs. length local < MAX_MSG"
  shows "\<exists>outs. handle_client hydrate probe (concat (map (\<lambda>p. frame_msg (as_bytes p)) ps)) w = (outs, Inr (), w')
     \<and> read_msgs (length ps) outs = map (\<lambda>(status, local). status # as_bytes local) rs"
  using assms
proof (induction ps arbitrary: w rs)
  case Nil
  then show ?case by (simp add: handle_end)
next
  case (Cons p ps)
  obtain status local w1 where h: "hydrate p w = ((status, local), w1)" by (metis surj_pair)
  obtain rs1 where rs: "hydrate_all hydrate ps w1 = (rs1, w')" "rs = (status, local) # rs1"
    using Cons.prems(2) h by (auto split: prod.splits)
  obtain outs where o: "handle_client hydrate probe (concat (map (\<lambda>p. frame_msg (as_bytes p)) ps)) w1 = (outs, Inr (), w')"
      "read_msgs (length ps) outs = map (\<lambda>(status, local). status # as_bytes local) rs1"
    using Cons.IH [OF _ rs(1)] Cons.prems(1,3) rs(2) by auto
  have "read_msg (write_response status local @ outs) = Inr (Some (status # as_bytes local, outs))"
    unfolding write_response_def using Cons.prems(3) rs(2) by (intro read_framed) simp
  moreover have "handle_client hydrate probe (concat (map (\<lambda>p. frame_msg (as_bytes p)) (p # ps))) w = (write_response status local @ outs, Inr (), w')"
    using handle_open [of p hydrate probe "concat (map (\<lambda>p. frame_msg (as_bytes p)) ps)" w] o(1) h Cons.prems(1) by simp
  ultimately show ?case using o(2) rs(2) by (intro exI [of _ "write_response status local @ outs"]) simp
qed

theorem pipe_answers_in_order_witness:
  "\<exists>outs. handle_client (\<lambda>p n. ((STATUS_OK, p @ ''x''), n + 1)) (\<lambda>p n. (Inl FcDial, n))
       (concat (map (\<lambda>p. frame_msg (as_bytes p)) [''a'', ''b''])) (3 :: nat) = (outs, Inr (), 5)
     \<and> read_msgs 2 outs = [STATUS_OK # as_bytes ''ax'', STATUS_OK # as_bytes ''bx'']"
proof -
  have open_ab: "\<forall>p \<in> set [''a'', ''b'']. open_request p"
    by (simp add: open_request_def MAX_MSG_def METADATA_PIPE_PREFIX_def utf8_str_def as_bytes_def)
  have all: "hydrate_all (\<lambda>p n. ((STATUS_OK, p @ ''x''), n + 1)) [''a'', ''b''] 3 = ([(STATUS_OK, ''ax''), (STATUS_OK, ''bx'')], 5 :: nat)"
    by simp
  have "\<forall>(status, local) \<in> set [(STATUS_OK, ''ax''), (STATUS_OK, ''bx'')]. length local < MAX_MSG" by (simp add: MAX_MSG_def)
  from pipe_answers_in_order [OF open_ab all this, of "\<lambda>p n. (Inl FcDial, n)"] show ?thesis by (simp add: numeral_2_eq_2)
qed

text \<open>A length prefix that is cut short is taken for a closed pipe, as if no byte of a request had come.\<close>

lemma cut_length_is_closed: "length inp < 4 \<Longrightarrow> read_msg inp = Inr None"
  by (simp add: read_msg_def)

section \<open>Where a path lands in scratch\<close>

text \<open>
  The facts about \<open>str::to_lowercase\<close> the layout depends on: it neither makes nor removes a
  separator, a colon or a dot, and works on the text between separators.
\<close>

definition lower_keeps :: "(string \<Rightarrow> string) \<Rightarrow> bool" where
  "lower_keeps lc \<longleftrightarrow> (\<forall>s. split_on bsl (lc s) = map lc (split_on bsl s))
     \<and> (\<forall>s. filter (\<lambda>c. c \<noteq> CHR '':'') (lc s) = lc (filter (\<lambda>c. c \<noteq> CHR '':'') s))
     \<and> (\<forall>s. CHR '':'' \<in> set (lc s) \<longleftrightarrow> CHR '':'' \<in> set s)
     \<and> (\<forall>s. lc s = [] \<longleftrightarrow> s = []) \<and> (\<forall>s. lc s = ''.'' \<longleftrightarrow> s = ''.'') \<and> (\<forall>s. lc s = ''..'' \<longleftrightarrow> s = ''..'')"

text \<open>Walking down the segments from depth \<open>n\<close> never climbs above where it began.\<close>

fun stays_below :: "nat \<Rightarrow> string list \<Rightarrow> bool" where
  "stays_below n [] = True"
| "stays_below n (seg # rest) =
     (if seg = [] \<or> seg = ''.'' then stays_below n rest
      else if seg = ''..'' then n > 0 \<and> stays_below (n - 1) rest
      else stays_below (Suc n) rest)"

lemma walk_stays_below:
  assumes "lower_keeps lc" "walk_components policy (map lc segs) stack = Some out" "length stack \<le> n"
  shows "stays_below n segs \<and> (\<forall>seg \<in> set segs. CHR '':'' \<notin> set seg)"
  using assms(2,3)
proof (induction segs arbitrary: stack n)
  case (Cons seg segs)
  have lc: "lc seg = [] \<longleftrightarrow> seg = []" "lc seg = ''.'' \<longleftrightarrow> seg = ''.''" "lc seg = ''..'' \<longleftrightarrow> seg = ''..''"
      "CHR '':'' \<in> set (lc seg) \<longleftrightarrow> CHR '':'' \<in> set seg"
    using assms(1) by (simp_all add: lower_keeps_def)
  consider (skip) "seg = [] \<or> seg = ''.''" | (up) "seg = ''..''" | (plain) "seg \<noteq> []" "seg \<noteq> ''.''" "seg \<noteq> ''..''" by blast
  then show ?case
  proof cases
    case skip
    then show ?thesis using Cons.IH [of stack n] Cons.prems lc by auto
  next
    case up
    then have "stack \<noteq> []" "walk_components policy (map lc segs) (butlast stack) = Some out"
      using Cons.prems(1) lc by (simp_all split: if_splits)
    moreover from this have "n > 0" "length (butlast stack) \<le> n - 1" using Cons.prems(2) by (cases stack, simp_all)
    ultimately show ?thesis using Cons.IH [of "butlast stack" "n - 1"] up by simp
  next
    case plain
    then have "\<not> ambiguous_component (lc seg)" "walk_components policy (map lc segs) (stack @ [lc seg]) = Some out"
      using Cons.prems(1) lc by (simp_all split: if_splits)
    then have "CHR '':'' \<notin> set seg" "walk_components policy (map lc segs) (stack @ [lc seg]) = Some out"
      using lc plain by (auto simp: ambiguous_component_def)
    then show ?thesis using Cons.IH [of "stack @ [lc seg]" "Suc n"] Cons.prems(2) plain by auto
  qed
qed simp

lemma mirror_chars_eq: "mirror_chars p = filter (\<lambda>c. c \<noteq> CHR '':'') (replace_char (CHR ''/'') bsl p)"
  by (induction p) (auto simp: replace_char_def)

lemma split_on_filter: "a \<noteq> b \<Longrightarrow> split_on b (filter (\<lambda>c. c \<noteq> a) s) = map (filter (\<lambda>c. c \<noteq> a)) (split_on b s)"
proof (induction s)
  case (Cons x s)
  obtain t ts where "split_on b s = t # ts" by (cases "split_on b s") auto
  then show ?case using Cons by auto
qed simp

lemma no_prefix:
  assumes "CHR '':'' \<notin> set q" "q = c # qs" "\<not> is_sep c"
  shows "parse_prefix q = None" "\<not> has_root q" "\<not> is_absolute q"
proof -
  have "strip_sep_prefix [bsl, bsl] q = None" using assms(2,3) by (auto simp: strip_sep_prefix_def is_sep_def)
  moreover have "parse_drive q = None" using assms(1,2) by (auto simp: parse_drive_def split: list.splits)
  ultimately show p: "parse_prefix q = None" by (simp add: parse_prefix_def)
  then show "\<not> has_root q" "\<not> is_absolute q"
    using assms(2,3) by (simp_all add: has_root_def has_physical_root_def after_prefix_def is_absolute_def)
qed

text \<open>A scratch root as the worker makes it: a plain directory path, not a bare drive or a verbatim path.\<close>

definition plain_root :: "string \<Rightarrow> bool" where
  "plain_root r \<longleftrightarrow> r \<noteq> [] \<and> \<not> is_sep (last r) \<and> length r > 2 \<and> \<not> prefix_verbatim r"

lemma push_plain:
  assumes "plain_root r" "CHR '':'' \<notin> set q" "q = c # qs" "\<not> is_sep c"
  shows "path_push r q = r @ bsl # q"
  using no_prefix [OF assms(2-4)] assms(1) by (auto simp: path_push_def plain_root_def Let_def split: option.splits)

lemma in_scope_walk:
  assumes "path_in_scope lc p (Some root)"
  obtains stack where "is_drive_absolute (lc (replace_char (CHR ''/'') bsl p))"
    "walk_components AllowAlias (split_on bsl (drop 3 (lc (replace_char (CHR ''/'') bsl p)))) [] = Some stack"
  using assms by (auto simp: path_in_scope_def normalize_requested_inner_def Let_def split: if_splits option.splits)

lemma drive_absolute_split:
  assumes "is_drive_absolute p"
  obtains d where "is_ascii_alphabetic d" "split_on bsl p = [d, CHR '':''] # split_on bsl (drop 3 p)"
proof -
  obtain d rest where p: "p = d # CHR '':'' # bsl # rest" "is_ascii_alphabetic d"
    using assms by (cases p; cases "tl p"; cases "tl (tl p)") (auto simp: is_drive_absolute_def numeral_2_eq_2 nth_Cons')
  have "d \<noteq> bsl" using p(2) by (auto simp: is_ascii_alphabetic_def is_ascii_upper_def is_ascii_lower_def)
  then have "split_on bsl ([d, CHR '':''] @ bsl # rest) = [d, CHR '':''] # split_on bsl rest" by (intro split_on_append_sep) auto
  then show ?thesis using that p by simp
qed

text \<open>
  C21. Hydration writes only below the scratch tree. For every path a scoped session can be asked
  for, the scratch location is the scratch root, a first component that stands for the drive,
  and segments that never climb out of it, whatever dots and separators the path contains.
\<close>
theorem scratch_confined:
  assumes lc: "lower_keeps lc" and scope: "path_in_scope lc p (Some root)" and r: "plain_root scratch"
  shows "\<exists>drive segs. scratch_mirror scratch p = scratch @ bsl # join_with bsl (drive # segs)
    \<and> drive \<notin> {[], ''.'', ''..''} \<and> bsl \<notin> set drive \<and> CHR '':'' \<notin> set drive \<and> stays_below 0 segs
    \<and> (\<forall>seg \<in> set segs. bsl \<notin> set seg \<and> CHR '':'' \<notin> set seg)"
proof -
  let ?q = "replace_char (CHR ''/'') bsl p" and ?f = "filter (\<lambda>c. c \<noteq> CHR '':'')"
  obtain stack where w: "is_drive_absolute (lc ?q)" "walk_components AllowAlias (split_on bsl (drop 3 (lc ?q))) [] = Some stack"
    using in_scope_walk [OF scope] by blast
  obtain d where d: "is_ascii_alphabetic d" "split_on bsl (lc ?q) = [d, CHR '':''] # split_on bsl (drop 3 (lc ?q))"
    using drive_absolute_split [OF w(1)] by blast
  obtain s0 segs where q: "split_on bsl ?q = s0 # segs" by (cases "split_on bsl ?q") auto
  then have lcs: "lc s0 = [d, CHR '':'']" "map lc segs = split_on bsl (drop 3 (lc ?q))"
    using d(2) lc by (simp_all add: lower_keeps_def)
  have below: "stays_below 0 segs" "\<forall>seg \<in> set segs. CHR '':'' \<notin> set seg"
    using walk_stays_below [OF lc, of AllowAlias segs "[]" stack 0] w(2) lcs(2) by simp_all
  have no_sep: "bsl \<notin> set seg" if "seg \<in> set (s0 # segs)" for seg using split_on_segments [of seg bsl ?q] that q by simp
  have d': "d \<noteq> CHR '':''" "d \<noteq> CHR ''.''" using d(1) by (auto simp: is_ascii_alphabetic_def is_ascii_upper_def is_ascii_lower_def)
  have "lc (?f s0) = ?f (lc s0)" using lc by (simp add: lower_keeps_def)
  then have "lc (?f s0) = [d]" using lcs(1) d'(1) by simp
  moreover have "lc [] = []" "lc ''.'' = ''.''" "lc ''..'' = ''..''" using lc by (simp_all add: lower_keeps_def)
  ultimately have drive: "?f s0 \<noteq> []" "?f s0 \<noteq> ''.''" "?f s0 \<noteq> ''..''" using d'(2) by auto
  have "map ?f segs = segs" using below(2) by (intro map_idI) (auto simp: filter_id_conv)
  then have split: "split_on bsl (mirror_chars p) = ?f s0 # segs" by (simp add: mirror_chars_eq split_on_filter q)
  then have m: "mirror_chars p = join_with bsl (?f s0 # segs)" by (metis join_split)
  obtain c cs where f0: "?f s0 = c # cs" using drive(1) by (cases "?f s0") auto
  then obtain cs' where mc: "mirror_chars p = c # cs'" using m by (cases segs) auto
  have "c \<in> set (?f s0)" unfolding f0 by simp
  then have "c \<in> set s0" by simp
  then have "c \<noteq> bsl" using no_sep [of s0] by auto
  moreover have "CHR ''/'' \<notin> set (mirror_chars p)" "CHR '':'' \<notin> set (mirror_chars p)" by (auto simp: mirror_chars_eq replace_char_def)
  ultimately have "scratch_mirror scratch p = scratch @ bsl # mirror_chars p"
    using push_plain [OF r _ mc] mc by (auto simp: scratch_mirror_def trim_start_char_def is_sep_def)
  then show ?thesis using m drive below no_sep by (intro exI [of _ "?f s0"] exI [of _ segs]) auto
qed

lemma split_map: "(\<And>x. f x = c \<longleftrightarrow> x = c) \<Longrightarrow> split_on c (map f xs) = map (map f) (split_on c xs)"
proof (induction xs)
  case (Cons x xs)
  obtain t ts where "split_on c xs = t # ts" by (cases "split_on c xs") auto
  then show ?case using Cons by auto
qed simp

lemma ascii_lower_keeps: "lower_keeps to_ascii_lowercase"
proof -
  have keep: "lower_char c = CHR '':'' \<longleftrightarrow> c = CHR '':''" "lower_char c = CHR ''.'' \<longleftrightarrow> c = CHR ''.''" "lower_char c = bsl \<longleftrightarrow> c = bsl" for c
    by (rule lower_char_eq_non_upper; simp add: is_ascii_lower_def is_ascii_upper_def)+
  have "filter (\<lambda>c. c \<noteq> CHR '':'') (to_ascii_lowercase s) = to_ascii_lowercase (filter (\<lambda>c. c \<noteq> CHR '':'') s)" for s
    by (simp add: to_ascii_lowercase_def filter_map o_def keep)
  moreover have "CHR '':'' \<in> set (to_ascii_lowercase s) \<longleftrightarrow> CHR '':'' \<in> set s" for s
    by (induction s) (simp_all add: to_ascii_lowercase_def keep eq_commute [of "CHR '':''"])
  ultimately show ?thesis
    using split_map [of lower_char bsl] keep by (auto simp: lower_keeps_def to_ascii_lowercase_def map_eq_Cons_conv)
qed

definition dotted_path :: string where
  "dotted_path = ''C:'' @ [bsl] @ ''Work/x'' @ [bsl] @ ''..'' @ [bsl] @ ''a.h''"

lemma dotted_path_in_scope: "path_in_scope to_ascii_lowercase dotted_path (Some (''c:'' @ [bsl] @ ''work''))"
  by code_simp

theorem scratch_confined_witness:
  "\<exists>drive segs. scratch_mirror (''D:'' @ [bsl] @ ''s'') dotted_path = ''D:'' @ [bsl] @ ''s'' @ bsl # join_with bsl (drive # segs)
     \<and> drive \<notin> {[], ''.'', ''..''} \<and> stays_below 0 segs"
proof -
  have "plain_root (''D:'' @ [bsl] @ ''s'')" by code_simp
  from scratch_confined [OF ascii_lower_keeps dotted_path_in_scope this] show ?thesis by auto
qed

end
