(* ===== verification/Hydration_Flight.thy ===== *)
theory Hydration_Flight
  imports Hydrate
begin

text \<open>
  Concurrent hydrations of one session (\<open>hydrate\<close>, \<open>HydrationLease\<close> and \<open>HydrationFlight\<close> of
  \<open>src/crates/worker/src/vfs_pipe.rs\<close>): callers of the same path share one flight, whose cell
  is filled by one of them. The callers are tasks that move through the awaits of \<open>hydrate\<close>;
  the step relation interleaves them, lets any of them be dropped at an await and takes the
  lease's destructor in its two parts, the registry update under the lock and the release of
  the reference after it. A weak reference can be upgraded while a task holds the flight. What
  the operation returns is chosen by the step and written to a log.
\<close>

section \<open>Tasks and flights\<close>

type_synonym hydration = "u8 \<times> string"

datatype hydrate_phase =
  HStart
| HMissed
| HLeased nat
| HRunning nat
| HOperating nat
| HStoring nat hydration
| HDropping nat "hydration option"
| HReleasing nat "hydration option"
| HDone hydration
| HGone

record hydrate_task =
  ht_key :: string
  ht_phase :: hydrate_phase

text \<open>\<open>fl_key\<close> is the key the flight was made for; the code does not store it in the flight.\<close>

record flight =
  fl_key :: string
  fl_cell :: "hydration option"

record hydrate_state =
  hs_hydrated :: "(string, string) hmap"
  hs_registry :: "(string, nat) hmap"
  hs_flights :: "flight list"
  hs_tasks :: "hydrate_task list"
  hs_log :: "(string \<times> hydration) list"

definition hydrate_new :: hydrate_state where
  "hydrate_new = \<lparr>hs_hydrated = [], hs_registry = [], hs_flights = [], hs_tasks = [], hs_log = []\<rparr>"

fun held :: "hydrate_phase \<Rightarrow> nat option" where
  "held (HLeased f) = Some f"
| "held (HRunning f) = Some f"
| "held (HOperating f) = Some f"
| "held (HStoring f r) = Some f"
| "held (HDropping f r) = Some f"
| "held (HReleasing f r) = Some f"
| "held _ = None"

text \<open>The task fills the cell of the flight.\<close>

fun filling :: "hydrate_phase \<Rightarrow> nat option" where
  "filling (HRunning f) = Some f"
| "filling (HOperating f) = Some f"
| "filling (HStoring f r) = Some f"
| "filling _ = None"

definition strong_count :: "hydrate_state \<Rightarrow> nat \<Rightarrow> nat" where
  "strong_count m f = length (filter (\<lambda>t. held (ht_phase t) = Some f) (hs_tasks m))"

definition at_phase :: "hydrate_state \<Rightarrow> nat \<Rightarrow> hydrate_phase \<Rightarrow> bool" where
  "at_phase m c ph \<longleftrightarrow> c < length (hs_tasks m) \<and> ht_phase (hs_tasks m ! c) = ph"

definition set_phase :: "nat \<Rightarrow> hydrate_phase \<Rightarrow> hydrate_state \<Rightarrow> hydrate_state" where
  "set_phase c ph m = m\<lparr>hs_tasks := (hs_tasks m)[c := (hs_tasks m ! c)\<lparr>ht_phase := ph\<rparr>]\<rparr>"

definition set_cell :: "nat \<Rightarrow> hydration \<Rightarrow> hydrate_state \<Rightarrow> hydrate_state" where
  "set_cell f r m = m\<lparr>hs_flights := (hs_flights m)[f := (hs_flights m ! f)\<lparr>fl_cell := Some r\<rparr>]\<rparr>"

section \<open>The parts of a hydration\<close>

definition hydrate_call :: "string \<Rightarrow> hydrate_state \<Rightarrow> hydrate_state" where
  "hydrate_call key m = m\<lparr>hs_tasks := hs_tasks m @ [\<lparr>ht_key = key, ht_phase = HStart\<rparr>]\<rparr>"

definition hydrate_lookup :: "nat \<Rightarrow> hydrate_state \<Rightarrow> hydrate_state" where
  "hydrate_lookup c m =
     (case map_of (hs_hydrated m) (ht_key (hs_tasks m ! c)) of
        Some local \<Rightarrow> set_phase c (HDone (STATUS_OK, local)) m
      | None \<Rightarrow> set_phase c HMissed m)"

definition joinable :: "hydrate_state \<Rightarrow> nat \<Rightarrow> bool" where
  "joinable m f \<longleftrightarrow> strong_count m f > 0
     \<and> \<not> (case fl_cell (hs_flights m ! f) of Some (status, _) \<Rightarrow> status \<noteq> STATUS_OK | None \<Rightarrow> False)"

definition lease_join :: "nat \<Rightarrow> hydrate_state \<Rightarrow> hydrate_state" where
  "lease_join c m =
     (let key = ht_key (hs_tasks m ! c);
          fresh = set_phase c (HLeased (length (hs_flights m)))
            (m\<lparr>hs_flights := hs_flights m @ [\<lparr>fl_key = key, fl_cell = None\<rparr>],
               hs_registry := hm_insert key (length (hs_flights m)) (hs_registry m)\<rparr>)
      in case map_of (hs_registry m) key of
           Some f \<Rightarrow> if joinable m f then set_phase c (HLeased f) m else fresh
         | None \<Rightarrow> fresh)"

definition hydrate_check :: "nat \<Rightarrow> nat \<Rightarrow> hydrate_state \<Rightarrow> hydrate_state" where
  "hydrate_check c f m =
     (case map_of (hs_hydrated m) (ht_key (hs_tasks m ! c)) of
        Some local \<Rightarrow> set_phase c (HDropping f (Some (STATUS_OK, local))) (set_cell f (STATUS_OK, local) m)
      | None \<Rightarrow> set_phase c (HOperating f) m)"

definition hydrate_operated :: "nat \<Rightarrow> nat \<Rightarrow> hydration \<Rightarrow> hydrate_state \<Rightarrow> hydrate_state" where
  "hydrate_operated c f r m = set_phase c (HStoring f r) (m\<lparr>hs_log := hs_log m @ [(ht_key (hs_tasks m ! c), r)]\<rparr>)"

definition hydrate_store :: "nat \<Rightarrow> nat \<Rightarrow> hydration \<Rightarrow> hydrate_state \<Rightarrow> hydrate_state" where
  "hydrate_store c f r m =
     set_phase c (HDropping f (Some r)) (set_cell f r
       (if fst r = STATUS_OK then m\<lparr>hs_hydrated := hm_insert (ht_key (hs_tasks m ! c)) (snd r) (hs_hydrated m)\<rparr> else m))"

definition hydration_lease_drop :: "nat \<Rightarrow> nat \<Rightarrow> hydration option \<Rightarrow> hydrate_state \<Rightarrow> hydrate_state" where
  "hydration_lease_drop c f res m =
     (let key = ht_key (hs_tasks m ! c) in
      set_phase c (HReleasing f res)
        (if map_of (hs_registry m) key = Some f \<and> strong_count m f = 1
         then m\<lparr>hs_registry := hm_remove key (hs_registry m)\<rparr> else m))"

definition lease_release :: "nat \<Rightarrow> hydration option \<Rightarrow> hydrate_state \<Rightarrow> hydrate_state" where
  "lease_release c res m = set_phase c (case res of Some r \<Rightarrow> HDone r | None \<Rightarrow> HGone) m"

inductive hydrate_step :: "hydrate_state \<Rightarrow> hydrate_state \<Rightarrow> bool" where
  hy_call: "hydrate_step m (hydrate_call key m)"
| hy_lookup: "at_phase m c HStart \<Longrightarrow> hydrate_step m (hydrate_lookup c m)"
| hy_join: "at_phase m c HMissed \<Longrightarrow> hydrate_step m (lease_join c m)"
| hy_init: "at_phase m c (HLeased f) \<Longrightarrow> fl_cell (hs_flights m ! f) = None \<Longrightarrow>
    \<forall>t \<in> set (hs_tasks m). filling (ht_phase t) \<noteq> Some f \<Longrightarrow> hydrate_step m (set_phase c (HRunning f) m)"
| hy_check: "at_phase m c (HRunning f) \<Longrightarrow> hydrate_step m (hydrate_check c f m)"
| hy_operate: "at_phase m c (HOperating f) \<Longrightarrow> hydrate_step m (hydrate_operated c f r m)"
| hy_store: "at_phase m c (HStoring f r) \<Longrightarrow> hydrate_step m (hydrate_store c f r m)"
| hy_wait: "at_phase m c (HLeased f) \<Longrightarrow> fl_cell (hs_flights m ! f) = Some r \<Longrightarrow> hydrate_step m (set_phase c (HDropping f (Some r)) m)"
| hy_abandon: "at_phase m c ph \<Longrightarrow> ph \<in> {HStart, HMissed} \<Longrightarrow> hydrate_step m (set_phase c HGone m)"
| hy_cancel: "at_phase m c (HLeased f) \<or> at_phase m c (HRunning f) \<or> at_phase m c (HOperating f) \<or> at_phase m c (HStoring f r) \<Longrightarrow>
    hydrate_step m (set_phase c (HDropping f None) m)"
| hy_drop: "at_phase m c (HDropping f res) \<Longrightarrow> hydrate_step m (hydration_lease_drop c f res m)"
| hy_release: "at_phase m c (HReleasing f res) \<Longrightarrow> hydrate_step m (lease_release c res m)"

inductive hydrate_reach :: "hydrate_state \<Rightarrow> bool" where
  hr_start: "hydrate_reach hydrate_new"
| hr_step: "hydrate_reach m \<Longrightarrow> hydrate_step m m' \<Longrightarrow> hydrate_reach m'"

section \<open>The invariant\<close>

fun outcome :: "hydrate_phase \<Rightarrow> hydration option" where
  "outcome (HStoring f r) = Some r"
| "outcome (HDropping f res) = res"
| "outcome (HReleasing f res) = res"
| "outcome (HDone r) = Some r"
| "outcome _ = None"

fun awaiting :: "hydrate_phase \<Rightarrow> nat option" where
  "awaiting (HLeased f) = Some f"
| "awaiting ph = filling ph"

fun operating :: "hydrate_phase \<Rightarrow> bool" where
  "operating (HOperating f) = True"
| "operating (HStoring f r) = True"
| "operating ph = False"

text \<open>
  A task's flight is its key's; while the cell is empty the registry leads to it; the filler's
  cell is empty and its path not hydrated; what it answers came out of an operation for its key.
\<close>

definition task_inv :: "hydrate_state \<Rightarrow> hydrate_task \<Rightarrow> bool" where
  "task_inv m t \<longleftrightarrow>
     (\<forall>f. held (ht_phase t) = Some f \<longrightarrow> f < length (hs_flights m) \<and> fl_key (hs_flights m ! f) = ht_key t)
     \<and> (\<forall>f. awaiting (ht_phase t) = Some f \<and> fl_cell (hs_flights m ! f) = None \<longrightarrow> map_of (hs_registry m) (ht_key t) = Some f)
     \<and> (\<forall>f. filling (ht_phase t) = Some f \<longrightarrow> fl_cell (hs_flights m ! f) = None)
     \<and> (operating (ht_phase t) \<longrightarrow> map_of (hs_hydrated m) (ht_key t) = None)
     \<and> (\<forall>r. outcome (ht_phase t) = Some r \<longrightarrow> (ht_key t, r) \<in> set (hs_log m))"

definition maps_inv :: "hydrate_state \<Rightarrow> bool" where
  "maps_inv m \<longleftrightarrow>
     (\<forall>f < length (hs_flights m). \<forall>r. fl_cell (hs_flights m ! f) = Some r \<longrightarrow> (fl_key (hs_flights m ! f), r) \<in> set (hs_log m))
     \<and> (\<forall>k local. map_of (hs_hydrated m) k = Some local \<longrightarrow> (k, (STATUS_OK, local)) \<in> set (hs_log m))
     \<and> (\<forall>k f. map_of (hs_registry m) k = Some f \<longrightarrow> f < length (hs_flights m) \<and> fl_key (hs_flights m ! f) = k)"

definition one_filler :: "hydrate_state \<Rightarrow> bool" where
  "one_filler m \<longleftrightarrow> (\<forall>c < length (hs_tasks m). \<forall>d < length (hs_tasks m). \<forall>f.
     filling (ht_phase (hs_tasks m ! c)) = Some f \<and> filling (ht_phase (hs_tasks m ! d)) = Some f \<longrightarrow> c = d)"

definition hydrate_inv :: "hydrate_state \<Rightarrow> bool" where
  "hydrate_inv m \<longleftrightarrow> (\<forall>t \<in> set (hs_tasks m). task_inv m t) \<and> maps_inv m \<and> one_filler m"

lemma filling_awaits: "filling ph = Some f \<Longrightarrow> awaiting ph = Some f"
  by (cases ph) simp_all

lemma awaiting_held: "awaiting ph = Some f \<Longrightarrow> held ph = Some f"
  by (cases ph) simp_all

lemma operating_fills: "operating ph \<Longrightarrow> \<exists>f. filling ph = Some f"
  by (cases ph) simp_all

lemma strong_count_pos: "t \<in> set (hs_tasks m) \<Longrightarrow> held (ht_phase t) = Some f \<Longrightarrow> strong_count m f > 0"
  by (auto simp: strong_count_def filter_empty_conv)

lemma strong_count_two:
  assumes "c < length (hs_tasks m)" "d < length (hs_tasks m)" "c \<noteq> d"
    and "held (ht_phase (hs_tasks m ! c)) = Some f" "held (ht_phase (hs_tasks m ! d)) = Some f"
  shows "strong_count m f \<ge> 2"
proof -
  have "{c, d} \<subseteq> {i. i < length (hs_tasks m) \<and> held (ht_phase (hs_tasks m ! i)) = Some f}" using assms by auto
  then have "card {c, d} \<le> card {i. i < length (hs_tasks m) \<and> held (ht_phase (hs_tasks m ! i)) = Some f}" by (intro card_mono) auto
  then show ?thesis using assms(3) by (simp add: strong_count_def length_filter_conv_card)
qed

text \<open>A step that moves one task and leaves the shared state alone.\<close>

lemma set_phase_fields [simp]:
  "hs_hydrated (set_phase c ph m) = hs_hydrated m" "hs_registry (set_phase c ph m) = hs_registry m"
  "hs_flights (set_phase c ph m) = hs_flights m" "hs_log (set_phase c ph m) = hs_log m"
  "hs_tasks (set_phase c ph m) = (hs_tasks m)[c := (hs_tasks m ! c)\<lparr>ht_phase := ph\<rparr>]"
  by (simp_all add: set_phase_def)

lemma task_inv_cong:
  "hs_hydrated m' = hs_hydrated m \<Longrightarrow> hs_registry m' = hs_registry m \<Longrightarrow> hs_flights m' = hs_flights m \<Longrightarrow> hs_log m' = hs_log m
     \<Longrightarrow> task_inv m' t = task_inv m t"
  by (simp add: task_inv_def)

lemma inv_set_phase:
  assumes inv: "hydrate_inv m" and t: "task_inv m ((hs_tasks m ! c)\<lparr>ht_phase := ph\<rparr>)"
    and fill: "\<And>f d. filling ph = Some f \<Longrightarrow> d < length (hs_tasks m) \<Longrightarrow> filling (ht_phase (hs_tasks m ! d)) = Some f \<Longrightarrow> d = c"
  shows "hydrate_inv (set_phase c ph m)"
proof -
  have same: "task_inv (set_phase c ph m) = task_inv m" by (rule ext, rule task_inv_cong) simp_all
  have "\<forall>t \<in> set (hs_tasks (set_phase c ph m)). task_inv m t"
    using inv t set_update_subset_insert [of "hs_tasks m" c] by (auto simp: hydrate_inv_def)
  moreover have "maps_inv (set_phase c ph m)" using inv by (simp add: hydrate_inv_def maps_inv_def)
  moreover have "one_filler (set_phase c ph m)"
    unfolding one_filler_def
  proof (intro allI impI, elim conjE)
    fix i j f
    assume ij: "i < length (hs_tasks (set_phase c ph m))" "j < length (hs_tasks (set_phase c ph m))"
      and fi: "filling (ht_phase (hs_tasks (set_phase c ph m) ! i)) = Some f" and fj: "filling (ht_phase (hs_tasks (set_phase c ph m) ! j)) = Some f"
    have ph: "ht_phase (hs_tasks (set_phase c ph m) ! k) = (if k = c then ph else ht_phase (hs_tasks m ! k))" if "k < length (hs_tasks m)" for k
      using that by (simp add: nth_list_update)
    have len: "i < length (hs_tasks m)" "j < length (hs_tasks m)" using ij by simp_all
    have other: "k = c" if "filling ph = Some f" "k < length (hs_tasks m)" "filling (ht_phase (hs_tasks (set_phase c ph m) ! k)) = Some f" for k
      using fill [OF that(1,2)] that(3) unfolding ph [OF that(2)] by argo
    consider "i = c" | "j = c" | "i \<noteq> c" "j \<noteq> c" by blast
    then show "i = j"
    proof cases
      case 1
      then have "filling ph = Some f" using fi ph [OF len(1)] by simp
      then show ?thesis using other [OF _ len(2) fj] 1 by simp
    next
      case 2
      then have "filling ph = Some f" using fj ph [OF len(2)] by simp
      then show ?thesis using other [OF _ len(1) fi] 2 by simp
    next
      case 3
      then have "filling (ht_phase (hs_tasks m ! i)) = Some f" "filling (ht_phase (hs_tasks m ! j)) = Some f"
        using fi fj unfolding ph [OF len(1)] ph [OF len(2)] by simp_all
      then show ?thesis using len inv unfolding hydrate_inv_def one_filler_def by blast
    qed
  qed
  ultimately show ?thesis by (simp add: hydrate_inv_def same)
qed

text \<open>What is known of a task in a given phase.\<close>

lemma inv_task:
  assumes "hydrate_inv m" "at_phase m c ph"
  shows "c < length (hs_tasks m)" "ht_phase (hs_tasks m ! c) = ph" "task_inv m (hs_tasks m ! c)" "maps_inv m"
  using assms by (auto simp: hydrate_inv_def at_phase_def)

lemma inv_unique:
  assumes "hydrate_inv m" "c < length (hs_tasks m)" "d < length (hs_tasks m)" "filling (ht_phase (hs_tasks m ! c)) = Some f"
    "filling (ht_phase (hs_tasks m ! d)) = Some f"
  shows "d = c"
  using assms unfolding hydrate_inv_def one_filler_def by blast

lemma inv_move:
  assumes inv: "hydrate_inv m" and c: "at_phase m c ph" and ph: "filling ph' \<in> {None, filling ph}"
    and t: "task_inv m ((hs_tasks m ! c)\<lparr>ht_phase := ph'\<rparr>)"
  shows "hydrate_inv (set_phase c ph' m)"
proof (rule inv_set_phase [OF inv t])
  fix f d
  assume "filling ph' = Some f" "d < length (hs_tasks m)" "filling (ht_phase (hs_tasks m ! d)) = Some f"
  moreover from this have "filling (ht_phase (hs_tasks m ! c)) = Some f" using ph inv_task(2) [OF inv c] by auto
  ultimately show "d = c" using inv_unique [OF inv inv_task(1) [OF inv c]] by blast
qed

lemma inv_call: "hydrate_inv m \<Longrightarrow> hydrate_inv (hydrate_call key m)"
  by (auto simp: hydrate_inv_def hydrate_call_def task_inv_def maps_inv_def one_filler_def nth_append less_Suc_eq)

lemma inv_lookup:
  assumes inv: "hydrate_inv m" and c: "at_phase m c HStart"
  shows "hydrate_inv (hydrate_lookup c m)"
  using inv_task [OF inv c]
  by (cases "map_of (hs_hydrated m) (ht_key (hs_tasks m ! c))")
     (auto simp: hydrate_lookup_def task_inv_def maps_inv_def intro!: inv_set_phase [OF inv])

lemma inv_fresh_flight:
  assumes inv: "hydrate_inv m" and old: "\<forall>f. map_of (hs_registry m) key = Some f \<longrightarrow> \<not> joinable m f"
  shows "hydrate_inv (m\<lparr>hs_flights := hs_flights m @ [\<lparr>fl_key = key, fl_cell = None\<rparr>],
               hs_registry := hm_insert key (length (hs_flights m)) (hs_registry m)\<rparr>)" (is "hydrate_inv ?m")
proof -
  have look: "map_of (hm_insert key n (hs_registry m)) = (map_of (hs_registry m))(key \<mapsto> n)" for n
    by (simp add: hm_insert_def hm_look_upsert)
  have "task_inv ?m t" if t: "t \<in> set (hs_tasks m)" for t
  proof -
    have ti: "task_inv m t" using inv t by (simp add: hydrate_inv_def)
    have flight: "hs_flights ?m ! f = hs_flights m ! f" "f < length (hs_flights m)" if "held (ht_phase t) = Some f" for f
      using ti that by (auto simp: task_inv_def nth_append)
    have "ht_key t \<noteq> key" if a: "awaiting (ht_phase t) = Some f" "fl_cell (hs_flights m ! f) = None" for f
    proof
      assume "ht_key t = key"
      then have "map_of (hs_registry m) key = Some f" using ti a unfolding task_inv_def by blast
      moreover have "strong_count m f > 0" by (rule strong_count_pos [OF t awaiting_held [OF a(1)]])
      ultimately show False using old a(2) by (simp add: joinable_def)
    qed
    then show ?thesis
      using ti flight awaiting_held filling_awaits unfolding task_inv_def by (auto simp: look)
  qed
  moreover have "maps_inv ?m"
    using inv by (auto simp: hydrate_inv_def maps_inv_def look nth_append less_Suc_eq split: if_splits)
  ultimately show ?thesis using inv by (simp add: hydrate_inv_def one_filler_def)
qed

lemma inv_join:
  assumes inv: "hydrate_inv m" and c: "at_phase m c HMissed"
  shows "hydrate_inv (lease_join c m)"
proof -
  let ?key = "ht_key (hs_tasks m ! c)"
  note t = inv_task [OF inv c]
  show ?thesis
  proof (cases "\<exists>f. map_of (hs_registry m) ?key = Some f \<and> joinable m f")
    case True
    then obtain f where f: "map_of (hs_registry m) ?key = Some f" "joinable m f" by blast
    have "hydrate_inv (set_phase c (HLeased f) m)"
      by (rule inv_set_phase [OF inv]) (use f t(4) in \<open>auto simp: task_inv_def maps_inv_def\<close>)
    then show ?thesis using f by (simp add: lease_join_def Let_def)
  next
    case False
    let ?m = "m\<lparr>hs_flights := hs_flights m @ [\<lparr>fl_key = ?key, fl_cell = None\<rparr>],
               hs_registry := hm_insert ?key (length (hs_flights m)) (hs_registry m)\<rparr>"
    have "hydrate_inv ?m" by (rule inv_fresh_flight [OF inv]) (use False in blast)
    then have "hydrate_inv (set_phase c (HLeased (length (hs_flights m))) ?m)"
      by (rule inv_set_phase) (auto simp: task_inv_def hm_insert_def hm_look_upsert)
    then show ?thesis using False by (auto simp: lease_join_def Let_def split: option.split)
  qed
qed

lemma inv_set_cell:
  assumes inv: "hydrate_inv m" and idle: "\<forall>t \<in> set (hs_tasks m). filling (ht_phase t) \<noteq> Some f"
    and logged: "(fl_key (hs_flights m ! f), r) \<in> set (hs_log m)"
  shows "hydrate_inv (set_cell f r m)"
proof -
  have cell: "fl_cell (hs_flights (set_cell f r m) ! g) = (if g = f \<and> f < length (hs_flights m) then Some r else fl_cell (hs_flights m ! g))"
    "fl_key (hs_flights (set_cell f r m) ! g) = fl_key (hs_flights m ! g)" for g
    by (cases "f < length (hs_flights m)"; cases "g = f"; simp add: set_cell_def list_update_beyond not_less)+
  have same: "hs_hydrated (set_cell f r m) = hs_hydrated m" "hs_registry (set_cell f r m) = hs_registry m" "hs_log (set_cell f r m) = hs_log m"
    "hs_tasks (set_cell f r m) = hs_tasks m" "length (hs_flights (set_cell f r m)) = length (hs_flights m)" by (simp_all add: set_cell_def)
  have "task_inv (set_cell f r m) t" if "t \<in> set (hs_tasks m)" for t
    using inv idle that unfolding hydrate_inv_def task_inv_def cell same by (auto split: if_splits)
  moreover have "maps_inv (set_cell f r m)"
    using inv logged unfolding hydrate_inv_def maps_inv_def cell same by auto
  ultimately show ?thesis using inv by (simp add: hydrate_inv_def one_filler_def same)
qed

lemma inv_insert:
  assumes inv: "hydrate_inv m" and idle: "\<forall>t \<in> set (hs_tasks m). operating (ht_phase t) \<longrightarrow> ht_key t \<noteq> key"
    and logged: "(key, (STATUS_OK, local)) \<in> set (hs_log m)"
  shows "hydrate_inv (m\<lparr>hs_hydrated := hm_insert key local (hs_hydrated m)\<rparr>)" (is "hydrate_inv ?m")
proof -
  have "task_inv ?m t" if "t \<in> set (hs_tasks m)" for t
    using inv idle that unfolding hydrate_inv_def task_inv_def by (auto simp: hm_insert_def hm_look_upsert)
  moreover have "maps_inv ?m" using inv logged by (auto simp: hydrate_inv_def maps_inv_def hm_insert_def hm_look_upsert)
  ultimately show ?thesis using inv by (simp add: hydrate_inv_def one_filler_def)
qed

lemma inv_log: "hydrate_inv m \<Longrightarrow> hydrate_inv (m\<lparr>hs_log := hs_log m @ l\<rparr>)"
  unfolding hydrate_inv_def task_inv_def maps_inv_def one_filler_def by auto

lemma set_phase_commute: "set_phase c ph (set_cell f r m) = set_cell f r (set_phase c ph m)"
  "set_phase c ph (m\<lparr>hs_hydrated := h\<rparr>) = (set_phase c ph m)\<lparr>hs_hydrated := h\<rparr>"
  "set_cell f r (m\<lparr>hs_hydrated := h\<rparr>) = (set_cell f r m)\<lparr>hs_hydrated := h\<rparr>"
  "(set_cell f r m)\<lparr>hs_hydrated := h\<rparr> = set_cell f r (m\<lparr>hs_hydrated := h\<rparr>)"
  by (simp_all add: set_phase_def set_cell_def)

lemma task_after:
  "t \<in> set (hs_tasks (set_phase c ph m)) \<Longrightarrow> c < length (hs_tasks m) \<Longrightarrow>
     t = (hs_tasks m ! c)\<lparr>ht_phase := ph\<rparr> \<or> (\<exists>d < length (hs_tasks m). d \<noteq> c \<and> t = hs_tasks m ! d)"
  by (auto simp: in_set_conv_nth nth_list_update split: if_splits)

text \<open>The filler leaves with a result: nobody fills its flight any more.\<close>

lemma inv_leave:
  assumes inv: "hydrate_inv m" and c: "at_phase m c ph" "filling ph = Some f"
    and logged: "(ht_key (hs_tasks m ! c), r) \<in> set (hs_log m)"
  shows "hydrate_inv (set_phase c (HDropping f (Some r)) m)"
    and "\<forall>t \<in> set (hs_tasks (set_phase c (HDropping f (Some r)) m)). filling (ht_phase t) \<noteq> Some f"
    and "(fl_key (hs_flights m ! f), r) \<in> set (hs_log m)"
proof -
  note t = inv_task [OF inv c(1)]
  have held: "held ph = Some f" using c(2) filling_awaits awaiting_held by blast
  show "hydrate_inv (set_phase c (HDropping f (Some r)) m)"
    by (rule inv_move [OF inv c(1)]) (use t(2,3) held logged in \<open>auto simp: task_inv_def\<close>)
  show "\<forall>t \<in> set (hs_tasks (set_phase c (HDropping f (Some r)) m)). filling (ht_phase t) \<noteq> Some f"
  proof
    fix u
    assume "u \<in> set (hs_tasks (set_phase c (HDropping f (Some r)) m))"
    from task_after [OF this t(1)] show "filling (ht_phase u) \<noteq> Some f"
      using inv_unique [OF inv t(1)] t(2) c(2) by auto
  qed
  show "(fl_key (hs_flights m ! f), r) \<in> set (hs_log m)"
    using t(2,3) held logged by (simp add: task_inv_def)
qed

lemma inv_check:
  assumes inv: "hydrate_inv m" and c: "at_phase m c (HRunning f)"
  shows "hydrate_inv (hydrate_check c f m)"
proof (cases "map_of (hs_hydrated m) (ht_key (hs_tasks m ! c))")
  case None
  note t = inv_task [OF inv c]
  have "hydrate_inv (set_phase c (HOperating f) m)"
    by (rule inv_move [OF inv c]) (use t None in \<open>auto simp: task_inv_def\<close>)
  then show ?thesis using None by (simp add: hydrate_check_def)
next
  case (Some local)
  then have "(ht_key (hs_tasks m ! c), (STATUS_OK, local)) \<in> set (hs_log m)" using inv_task(4) [OF inv c] by (simp add: maps_inv_def)
  note l = inv_leave [OF inv c _ this, of f]
  have "hydrate_inv (set_cell f (STATUS_OK, local) (set_phase c (HDropping f (Some (STATUS_OK, local))) m))"
    by (rule inv_set_cell) (use l in simp_all)
  then show ?thesis using Some by (simp add: hydrate_check_def set_phase_commute)
qed

lemma inv_operated:
  assumes inv: "hydrate_inv m" and c: "at_phase m c (HOperating f)"
  shows "hydrate_inv (hydrate_operated c f r m)"
proof -
  let ?m = "m\<lparr>hs_log := hs_log m @ [(ht_key (hs_tasks m ! c), r)]\<rparr>"
  have "at_phase ?m c (HOperating f)" using c by (simp add: at_phase_def)
  then show ?thesis unfolding hydrate_operated_def
    by (rule inv_move [OF inv_log [OF inv]]) (use inv_task [OF inv c] in \<open>auto simp: task_inv_def\<close>)
qed

text \<open>While a task fills a flight, no other task operates for the same key.\<close>

lemma filler_excludes:
  assumes inv: "hydrate_inv m" and c: "at_phase m c ph" "filling ph = Some f"
    and d: "d < length (hs_tasks m)" "operating (ht_phase (hs_tasks m ! d))" "ht_key (hs_tasks m ! d) = ht_key (hs_tasks m ! c)"
  shows "d = c"
proof -
  have reg: "map_of (hs_registry m) (ht_key t) = Some g" if "t \<in> set (hs_tasks m)" "filling (ht_phase t) = Some g" for t g
    using inv that filling_awaits unfolding hydrate_inv_def task_inv_def by blast
  obtain g where g: "filling (ht_phase (hs_tasks m ! d)) = Some g" using operating_fills [OF d(2)] by blast
  note t = inv_task [OF inv c(1)]
  have "f = g" using reg [of "hs_tasks m ! c" f] reg [of "hs_tasks m ! d" g] t(1,2) c(2) d(1,3) g by simp
  then show ?thesis using inv_unique [OF inv t(1) d(1)] t(2) c(2) g by simp
qed

lemma inv_store:
  assumes inv: "hydrate_inv m" and c: "at_phase m c (HStoring f r)"
  shows "hydrate_inv (hydrate_store c f r m)"
proof -
  let ?key = "ht_key (hs_tasks m ! c)" and ?m = "set_phase c (HDropping f (Some r)) m"
  note t = inv_task [OF inv c]
  have logged: "(?key, r) \<in> set (hs_log m)" using t(2,3) by (simp add: task_inv_def)
  note l = inv_leave [OF inv c _ logged, of f]
  have cell: "hydrate_inv (set_cell f r ?m)" by (rule inv_set_cell) (use l in simp_all)
  show ?thesis
  proof (cases "fst r = STATUS_OK")
    case False
    then show ?thesis using cell by (simp add: hydrate_store_def set_phase_commute)
  next
    case True
    have "operating (ht_phase u) \<longrightarrow> ht_key u \<noteq> ?key" if "u \<in> set (hs_tasks ?m)" for u
      using task_after [OF that t(1)] filler_excludes [OF inv c, of f] by auto
    then have "hydrate_inv ((set_cell f r ?m)\<lparr>hs_hydrated := hm_insert ?key (snd r) (hs_hydrated (set_cell f r ?m))\<rparr>)"
      using True logged by (intro inv_insert [OF cell]) (auto simp: set_cell_def, metis prod.collapse)
    moreover have "hydrate_store c f r m = (set_cell f r ?m)\<lparr>hs_hydrated := hm_insert ?key (snd r) (hs_hydrated (set_cell f r ?m))\<rparr>"
      using True by (simp add: hydrate_store_def set_phase_def set_cell_def)
    ultimately show ?thesis by simp
  qed
qed

lemma inv_drop:
  assumes inv: "hydrate_inv m" and c: "at_phase m c (HDropping f res)"
  shows "hydrate_inv (hydration_lease_drop c f res m)"
proof -
  let ?key = "ht_key (hs_tasks m ! c)"
  note t = inv_task [OF inv c]
  have moved: "hydrate_inv (set_phase c (HReleasing f res) m)"
    by (rule inv_move [OF inv c]) (use t(2,3) in \<open>auto simp: task_inv_def\<close>)
  show ?thesis
  proof (cases "map_of (hs_registry m) ?key = Some f \<and> strong_count m f = 1")
    case True
    let ?m = "set_phase c (HReleasing f res) m"
    let ?n = "?m\<lparr>hs_registry := hm_remove ?key (hs_registry m)\<rparr>"
    have alone: "held (ht_phase (hs_tasks m ! d)) \<noteq> Some f" if "d < length (hs_tasks m)" "d \<noteq> c" for d
      using strong_count_two [OF t(1) that(1) that(2) [symmetric], of f] True t(2) by auto
    have "task_inv ?n u" if u: "u \<in> set (hs_tasks ?m)" for u
    proof -
      have ui: "task_inv ?m u" using moved u by (simp add: hydrate_inv_def)
      have "ht_key u \<noteq> ?key" if a: "awaiting (ht_phase u) = Some g" "fl_cell (hs_flights m ! g) = None" for g
      proof
        assume "ht_key u = ?key"
        then have "g = f" using ui a True unfolding task_inv_def by auto
        then show False using task_after [OF u t(1)] alone awaiting_held [OF a(1)] a(1) by auto
      qed
      then show ?thesis using ui unfolding task_inv_def by (auto simp: hm_look_remove)
    qed
    moreover have "maps_inv ?n" using moved by (auto simp: hydrate_inv_def maps_inv_def hm_look_remove split: if_splits)
    ultimately have "hydrate_inv ?n" using moved by (simp add: hydrate_inv_def one_filler_def)
    moreover have "hydration_lease_drop c f res m = ?n" using True by (simp add: hydration_lease_drop_def Let_def set_phase_def)
    ultimately show ?thesis by simp
  next
    case False
    then show ?thesis using moved by (auto simp: hydration_lease_drop_def Let_def)
  qed
qed

lemma hydrate_step_inv: "hydrate_step m m' \<Longrightarrow> hydrate_inv m \<Longrightarrow> hydrate_inv m'"
proof (induction rule: hydrate_step.induct)
  case (hy_init m c f)
  have "f < length (hs_flights m) \<and> fl_key (hs_flights m ! f) = ht_key (hs_tasks m ! c) \<and> map_of (hs_registry m) (ht_key (hs_tasks m ! c)) = Some f"
    using inv_task [OF hy_init(4,1)] hy_init(2) by (simp add: task_inv_def)
  then show ?case using hy_init(2,3) by (intro inv_set_phase [OF hy_init(4)]) (auto simp: task_inv_def)
next
  case (hy_wait m c f r)
  then have "(ht_key (hs_tasks m ! c), r) \<in> set (hs_log m)"
    using inv_task [OF hy_wait(3,1)] unfolding task_inv_def maps_inv_def by (metis held.simps(1))
  then show ?case using inv_task(2,3) [OF hy_wait(3,1)] by (intro inv_move [OF hy_wait(3,1)]) (simp_all add: task_inv_def)
next
  case (hy_abandon m c ph)
  then show ?case by (intro inv_move [OF hy_abandon(3,1)]) (simp_all add: task_inv_def)
next
  case (hy_cancel m c f r)
  then obtain ph where ph: "at_phase m c ph" "held ph = Some f" by (metis held.simps(1-4))
  then show ?case using inv_task(2,3) [OF hy_cancel(2) ph(1)] by (intro inv_move [OF hy_cancel(2) ph(1)]) (simp_all add: task_inv_def)
next
  case (hy_release m c f res)
  then show ?case unfolding lease_release_def
    using inv_task(2,3) [OF hy_release(2,1)] by (intro inv_move [OF hy_release(2,1)]) (cases res; simp add: task_inv_def)+
qed (blast intro: inv_call inv_lookup inv_join inv_check inv_operated inv_store inv_drop)+

lemma hydrate_reach_inv: "hydrate_reach m \<Longrightarrow> hydrate_inv m"
proof (induction rule: hydrate_reach.induct)
  case hr_start
  then show ?case by (simp add: hydrate_new_def hydrate_inv_def maps_inv_def one_filler_def)
qed (rule hydrate_step_inv)

section \<open>Single flight\<close>

text \<open>
  C19. Concurrent opens of one path hydrate it once. In every interleaving of callers, cancelled
  ones included, no two hydrations of the same path are under way at a time; none is under way
  for a path that is hydrated already, so a success is final; and every caller that is
  answered gets what a hydration of its own path returned.
\<close>
theorem one_hydration_per_path:
  assumes "hydrate_reach m" "c < length (hs_tasks m)" "d < length (hs_tasks m)"
  shows "(operating (ht_phase (hs_tasks m ! c)) \<and> operating (ht_phase (hs_tasks m ! d)) \<and> ht_key (hs_tasks m ! c) = ht_key (hs_tasks m ! d) \<longrightarrow> c = d)
    \<and> (operating (ht_phase (hs_tasks m ! c)) \<longrightarrow> map_of (hs_hydrated m) (ht_key (hs_tasks m ! c)) = None)
    \<and> (\<forall>r. ht_phase (hs_tasks m ! c) = HDone r \<longrightarrow> (ht_key (hs_tasks m ! c), r) \<in> set (hs_log m))"
proof -
  have inv: "hydrate_inv m" by (rule hydrate_reach_inv [OF assms(1)])
  then have t: "task_inv m (hs_tasks m ! c)" using assms(2) by (simp add: hydrate_inv_def)
  have "c = d" if o: "operating (ht_phase (hs_tasks m ! c))" "operating (ht_phase (hs_tasks m ! d))" "ht_key (hs_tasks m ! c) = ht_key (hs_tasks m ! d)"
  proof -
    obtain f where "filling (ht_phase (hs_tasks m ! c)) = Some f" using operating_fills [OF o(1)] by blast
    then show ?thesis using filler_excludes [OF inv, of c "ht_phase (hs_tasks m ! c)" f d] assms(2,3) o by (simp add: at_phase_def)
  qed
  then show ?thesis using t by (auto simp: task_inv_def)
qed

subsection \<open>Two callers of one path\<close>

definition two_waiting :: hydrate_state where
  "two_waiting = lease_join 1 (hydrate_lookup 1 (set_phase 0 (HRunning 0) (lease_join 0 (hydrate_lookup 0
     (hydrate_call ''k'' (hydrate_call ''k'' hydrate_new))))))"

definition two_operated :: hydrate_state where
  "two_operated = hydrate_operated 0 0 (STATUS_OK, ''l'') (hydrate_check 0 0 two_waiting)"

definition two_answered :: hydrate_state where
  "two_answered = lease_release 1 (Some (STATUS_OK, ''l'')) (hydration_lease_drop 1 0 (Some (STATUS_OK, ''l''))
     (set_phase 1 (HDropping 0 (Some (STATUS_OK, ''l''))) (hydrate_store 0 0 (STATUS_OK, ''l'') two_operated)))"

lemmas flight_defs = hydrate_new_def hydrate_call_def hydrate_lookup_def lease_join_def hydrate_check_def hydrate_operated_def hydrate_store_def
  hydration_lease_drop_def lease_release_def set_phase_def set_cell_def joinable_def strong_count_def at_phase_def Let_def hm_insert_def hm_remove_def

lemma two_waiting_eq:
  "two_waiting = \<lparr>hs_hydrated = [], hs_registry = [(''k'', 0)], hs_flights = [\<lparr>fl_key = ''k'', fl_cell = None\<rparr>],
     hs_tasks = [\<lparr>ht_key = ''k'', ht_phase = HRunning 0\<rparr>, \<lparr>ht_key = ''k'', ht_phase = HLeased 0\<rparr>], hs_log = []\<rparr>"
  by (simp add: two_waiting_def flight_defs)

lemma two_operated_eq:
  "two_operated = \<lparr>hs_hydrated = [], hs_registry = [(''k'', 0)], hs_flights = [\<lparr>fl_key = ''k'', fl_cell = None\<rparr>],
     hs_tasks = [\<lparr>ht_key = ''k'', ht_phase = HStoring 0 (STATUS_OK, ''l'')\<rparr>, \<lparr>ht_key = ''k'', ht_phase = HLeased 0\<rparr>],
     hs_log = [(''k'', (STATUS_OK, ''l''))]\<rparr>"
  by (simp add: two_operated_def two_waiting_eq flight_defs)

lemma two_waiting_reach: "hydrate_reach two_waiting"
  unfolding two_waiting_def
  by (intro hr_step [OF _ hy_join] hr_step [OF _ hy_lookup] hr_step [OF _ hy_init] hr_step [OF _ hy_call] hr_start)
     (simp_all add: flight_defs)

lemma two_operated_reach: "hydrate_reach two_operated"
  unfolding two_operated_def
  by (intro hr_step [OF _ hy_operate] hr_step [OF _ hy_check] two_waiting_reach) (simp_all add: two_waiting_eq flight_defs)

lemma two_answered_reach: "hydrate_reach two_answered"
  unfolding two_answered_def
  by (intro hr_step [OF _ hy_release] hr_step [OF _ hy_drop] hr_step [OF _ hy_wait] hr_step [OF _ hy_store] two_operated_reach)
     (simp_all add: two_operated_eq flight_defs)

theorem one_hydration_per_path_witness:
  "map_of (hs_hydrated two_operated) ''k'' = None \<and> ht_phase (hs_tasks two_answered ! 1) = HDone (STATUS_OK, ''l'')
   \<and> (''k'', (STATUS_OK, ''l'')) \<in> set (hs_log two_answered)"
proof -
  have done_one: "ht_phase (hs_tasks two_answered ! 1) = HDone (STATUS_OK, ''l'')" "ht_key (hs_tasks two_answered ! 1) = ''k''" "1 < length (hs_tasks two_answered)"
    by (simp_all add: two_answered_def two_operated_eq flight_defs)
  have "operating (ht_phase (hs_tasks two_operated ! 0))" "ht_key (hs_tasks two_operated ! 0) = ''k''" "0 < length (hs_tasks two_operated)"
    by (simp_all add: two_operated_eq)
  with one_hydration_per_path [OF two_operated_reach, of 0 0] one_hydration_per_path [OF two_answered_reach done_one(3,3)] done_one
  show ?thesis by simp
qed

end
