(* ===== verification/Worker_Env.thy ===== *)
theory Worker_Env
  imports Capability Toolchain Wide_Str
begin

text \<open>
  What a compiler sees of its environment on a worker: the variables the launcher forwards
  (\<open>src/crates/agent/src/env_filter.rs\<close>) and the environment the worker builds for the child
  from them (\<open>effective_environment\<close> in \<open>src/crates/worker/src/lib.rs\<close>). The worker's own
  environment is the parameter \<open>ambient\<close>, and \<open>str::to_lowercase\<close> beyond ASCII the parameter \<open>lc\<close>.
\<close>

section \<open>The variables the launcher forwards\<close>

definition ENV_PASSTHROUGH_VAR :: string where "ENV_PASSTHROUGH_VAR = ''SEMBAZURU_ENV_PASSTHROUGH''"

definition ALLOW_EXACT :: "string list" where
  "ALLOW_EXACT =
    [''PATH'', ''INCLUDE'', ''LIB'', ''LIBPATH'', ''CL'', ''_CL_'', ''CC'', ''CXX'', ''TMP'', ''TEMP'',
     ''SYSTEMROOT'', ''SYSTEMDRIVE'', ''WINDIR'', ''COMSPEC'', ''PATHEXT'', ''OS'', ''NUMBER_OF_PROCESSORS'',
     ''PROCESSOR_ARCHITECTURE'', ''PROCESSOR_ARCHITEW6432'', ''PROCESSOR_IDENTIFIER'', ''PROCESSOR_LEVEL'', ''PROCESSOR_REVISION'',
     ''PROGRAMDATA'', ''PROGRAMFILES'', ''PROGRAMFILES(X86)'', ''PROGRAMW6432'',
     ''COMMONPROGRAMFILES'', ''COMMONPROGRAMFILES(X86)'', ''COMMONPROGRAMW6432'',
     ''VSINSTALLDIR'', ''VCINSTALLDIR'', ''VCTOOLSINSTALLDIR'', ''VCTOOLSVERSION'', ''VCTOOLSREDISTDIR'', ''VCIDEINSTALLDIR'',
     ''VISUALSTUDIOVERSION'', ''DEVENVDIR'',
     ''WINDOWSSDKDIR'', ''WINDOWSSDKVERSION'', ''WINDOWSSDKBINPATH'', ''WINDOWSSDKVERBINPATH'', ''WINDOWSLIBPATH'', ''UCRTVERSION'',
     ''UNIVERSALCRTSDKDIR'', ''EXTENSIONSDKDIR'', ''FRAMEWORKDIR'', ''FRAMEWORKDIR64'', ''FRAMEWORKVERSION'', ''FRAMEWORKVERSION64'',
     ''FRAMEWORK40VERSION'', ''NETFXSDKDIR'']"

definition ALLOW_PREFIX :: "string list" where
  "ALLOW_PREFIX = [''VSCMD_'', ''__VSCMD'', ''WINDOWSSDK'', ''VCTOOLS'']"

definition is_compiler_env :: "string \<Rightarrow> string list \<Rightarrow> bool" where
  "is_compiler_env name extra =
     (let up = to_ascii_uppercase name in
      if up \<in> set ALLOW_EXACT then True
      else if list_ex (\<lambda>p. starts_with up p) ALLOW_PREFIX then True
      else list_ex (\<lambda>e. eq_ignore_ascii_case e name) extra)"

definition passthrough_names :: "(string, string) hmap \<Rightarrow> string list" where
  "passthrough_names full =
     (case find (\<lambda>(k, _). eq_ignore_ascii_case k ENV_PASSTHROUGH_VAR) full of
        Some (_, v) \<Rightarrow> filter (\<lambda>s. s \<noteq> []) (map str_trim (split_on (CHR '','') v))
      | None \<Rightarrow> [])"

definition filter_compiler_env :: "(string, string) hmap \<Rightarrow> (string, string) hmap" where
  "filter_compiler_env full = (let extra = passthrough_names full in filter (\<lambda>(k, _). is_compiler_env k extra) full)"

section \<open>The child's environment\<close>

definition BASELINE_ENV :: "string list" where
  "BASELINE_ENV =
    [''PATH'', ''PATHEXT'', ''SystemRoot'', ''SystemDrive'', ''ComSpec'', ''WINDIR'', ''ProgramFiles'', ''ProgramFiles(x86)'',
     ''ProgramW6432'', ''CommonProgramFiles'', ''CommonProgramFiles(x86)'', ''CommonProgramW6432'', ''PROCESSOR_ARCHITECTURE'',
     ''PROCESSOR_IDENTIFIER'', ''PROCESSOR_LEVEL'', ''PROCESSOR_REVISION'', ''NUMBER_OF_PROCESSORS'']"

definition VFS_RESERVED_ENV :: "string list" where
  "VFS_RESERVED_ENV =
    [''SEMBAZURU_MODE'', ''SEMBAZURU_VFS_ROOT'', ''SEMBAZURU_VFS_CWD'', ''SEMBAZURU_VFS_PIPE'', ''SEMBAZURU_VFS_SCRATCH'',
     ''SEMBAZURU_VFS_STRICT'', ''SEMBAZURU_VFS_MAPPING_HANDLE'', ''SEMBAZURU_VFS_SEMAPHORE_HANDLE'',
     ''SEMBAZURU_VFS_ATTESTATION_GENERATION'', ''SEMBAZURU_TRACE_DIR'']"

record vfs_environment =
  ve_root :: string
  ve_logical_cwd :: "string option"
  ve_pipe :: string
  ve_scratch :: string
  ve_strict :: bool
  ve_trace :: "string option"
  ve_mapping_handle :: nat
  ve_semaphore_handle :: nat
  ve_generation :: u32

definition utf16_fits_fixed_buffer :: "string \<Rightarrow> nat \<Rightarrow> bool" where
  "utf16_fits_fixed_buffer value capacity \<longleftrightarrow> length (encode_wide value) < capacity"

definition validate_vfs_fixed_environment :: "vfs_environment \<Rightarrow> bool" where
  "validate_vfs_fixed_environment vfs \<longleftrightarrow>
     utf16_fits_fixed_buffer (ve_root vfs) 1024 \<and> utf16_fits_fixed_buffer (ve_pipe vfs) 200
     \<and> utf16_fits_fixed_buffer (ve_scratch vfs) 1024
     \<and> (case ve_logical_cwd vfs of None \<Rightarrow> True | Some cwd \<Rightarrow> utf16_fits_fixed_buffer cwd 1024)
     \<and> ve_mapping_handle vfs \<noteq> 0 \<and> ve_semaphore_handle vfs \<noteq> 0 \<and> ve_mapping_handle vfs \<noteq> ve_semaphore_handle vfs"

type_synonym env_values = "(string, string \<times> string) btree"

definition put_literal :: "string \<times> string \<Rightarrow> env_values \<Rightarrow> env_values" where
  "put_literal nv = bt_insert (to_ascii_lowercase (fst nv)) nv"

definition reserved :: "string \<Rightarrow> bool" where
  "reserved name \<longleftrightarrow> list_ex (\<lambda>r. eq_ignore_ascii_case r name) VFS_RESERVED_ENV"

text \<open>The loop over the submitted variables; \<open>lc\<close> is \<open>str::to_lowercase\<close>.\<close>

fun add_submitted :: "(string \<Rightarrow> string) \<Rightarrow> bool \<Rightarrow> (string \<times> string) list \<Rightarrow> string list \<Rightarrow> env_values \<Rightarrow> string + env_values" where
  "add_submitted lc vfs [] submitted vals = Inr vals"
| "add_submitted lc vfs ((name, value) # rest) submitted vals =
     (if name = [] \<or> CHR ''='' \<in> set name \<or> nul \<in> set name \<or> nul \<in> set value then Inl ''invalid command environment''
      else if lc name \<in> set submitted then Inl ''duplicate command environment key''
      else if vfs \<and> reserved name then add_submitted lc vfs rest (lc name # submitted) vals
      else add_submitted lc vfs rest (lc name # submitted) (bt_insert (lc name) (name, value) vals))"

definition authoritative :: "vfs_environment \<Rightarrow> (string \<times> string) list" where
  "authoritative vfs =
     [(''SEMBAZURU_MODE'', ''vfs''), (''SEMBAZURU_VFS_ROOT'', ve_root vfs), (''SEMBAZURU_VFS_PIPE'', ve_pipe vfs),
      (''SEMBAZURU_VFS_SCRATCH'', ve_scratch vfs), (''SEMBAZURU_VFS_STRICT'', if ve_strict vfs then ''1'' else ''0''),
      (''SEMBAZURU_VFS_MAPPING_HANDLE'', dec (ve_mapping_handle vfs)), (''SEMBAZURU_VFS_SEMAPHORE_HANDLE'', dec (ve_semaphore_handle vfs)),
      (''SEMBAZURU_VFS_ATTESTATION_GENERATION'', dec (unat (ve_generation vfs)))]
     @ (case ve_logical_cwd vfs of Some cwd \<Rightarrow> [(''SEMBAZURU_VFS_CWD'', cwd)] | None \<Rightarrow> [])
     @ (case ve_trace vfs of Some trace \<Rightarrow> [(''SEMBAZURU_TRACE_DIR'', trace)] | None \<Rightarrow> [])"

definition baseline :: "(string \<Rightarrow> string option) \<Rightarrow> (string \<times> string) list" where
  "baseline ambient = List.map_filter (\<lambda>name. map_option (Pair name) (ambient name)) BASELINE_ENV"

definition temp_vars :: "string \<Rightarrow> (string \<times> string) list" where
  "temp_vars scratch = [(''TEMP'', scratch), (''TMP'', scratch)]"

definition effective_environment ::
    "(string \<Rightarrow> string) \<Rightarrow> (string \<Rightarrow> string option) \<Rightarrow> command \<Rightarrow> string \<Rightarrow> vfs_environment option \<Rightarrow> string + (string \<times> string) list" where
  "effective_environment lc ambient cmd scratch vfs =
     (if (case vfs of Some v \<Rightarrow> \<not> validate_vfs_fixed_environment v | None \<Rightarrow> False)
      then Inl ''VFS environment exceeds interceptor fixed buffer''
      else let vals = (if vfs = None then fold put_literal (baseline ambient) [] else []) in
        case add_submitted lc (vfs \<noteq> None) (cmd_env cmd) [] vals of
          Inl e \<Rightarrow> Inl e
        | Inr vals \<Rightarrow>
            let vals = fold put_literal (temp_vars scratch) vals;
                vals = (case vfs of None \<Rightarrow> vals | Some v \<Rightarrow> fold put_literal (authoritative v) vals)
            in Inr (bt_values vals))"

text \<open>\<open>to_str\<close> gives nothing for a value that is not Unicode.\<close>

definition child_environment_value :: "(string \<times> string) list \<Rightarrow> string \<Rightarrow> string option" where
  "child_environment_value env name =
     (case find (\<lambda>(key, _). eq_ignore_ascii_case key name) env of
        Some (_, value) \<Rightarrow> if utf8_str value then Some value else None
      | None \<Rightarrow> None)"

section \<open>What ends up in the environment\<close>

lemma look_put: "bt_inv m \<Longrightarrow> map_of (put_literal nv m) = (map_of m)(to_ascii_lowercase (fst nv) \<mapsto> nv)"
  by (simp add: put_literal_def bt_insert_def bt_look_upsert)

lemma inv_put: "bt_inv m \<Longrightarrow> bt_inv (put_literal nv m)"
  by (simp add: put_literal_def bt_insert_def bt_inv_upsert)

definition lit_key :: "string \<times> string \<Rightarrow> string" where
  "lit_key nv = to_ascii_lowercase (fst nv)"

lemma map_lit_key: "map lit_key l = map to_ascii_lowercase (map fst l)"
  by (simp add: lit_key_def)

text \<open>A layer of variables put over others: it wins where it has a name.\<close>

lemma fold_put:
  assumes "bt_inv m" "distinct (map lit_key l)"
  shows "bt_inv (fold put_literal l m)
    \<and> map_of (fold put_literal l m) k = (case find (\<lambda>nv. lit_key nv = k) l of Some nv \<Rightarrow> Some nv | None \<Rightarrow> map_of m k)"
  using assms
proof (induction l arbitrary: m)
  case (Cons nv l)
  have m: "bt_inv (put_literal nv m)" "distinct (map lit_key l)" using Cons.prems inv_put by auto
  have "find (\<lambda>x. lit_key x = lit_key nv) l = None" using Cons.prems(2) by (simp add: find_None_iff) (metis imageI)
  then show ?case using Cons.IH [OF m] Cons.prems(1) by (auto simp: look_put lit_key_def split: option.splits)
qed simp

definition sub_key :: "(string \<Rightarrow> string) \<Rightarrow> string \<times> string \<Rightarrow> string" where
  "sub_key lc nv = lc (fst nv)"

definition passes :: "bool \<Rightarrow> string \<times> string \<Rightarrow> bool" where
  "passes vfs nv \<longleftrightarrow> \<not> (vfs \<and> reserved (fst nv))"

lemma add_submitted_look:
  assumes "add_submitted lc vfs env seen m = Inr m'" "bt_inv m"
  shows "bt_inv m' \<and> distinct (map (sub_key lc) env) \<and> (\<forall>nv \<in> set env. sub_key lc nv \<notin> set seen)
    \<and> map_of m' k = (case find (\<lambda>nv. sub_key lc nv = k \<and> passes vfs nv) env of Some nv \<Rightarrow> Some nv | None \<Rightarrow> map_of m k)"
  using assms
proof (induction env arbitrary: seen m)
  case (Cons nv env)
  obtain name val where nv: "nv = (name, val)" by (cases nv)
  have fresh: "lc name \<notin> set seen" using Cons.prems(1) nv by (auto split: if_splits)
  let ?m = "if passes vfs nv then bt_insert (lc name) (name, val) m else m"
  have inv: "bt_inv ?m" using Cons.prems(2) by (simp add: bt_insert_def bt_inv_upsert)
  have rest: "add_submitted lc vfs env (lc name # seen) ?m = Inr m'"
    using Cons.prems(1) nv by (auto simp: passes_def split: if_splits)
  have ih: "bt_inv m'" "distinct (map (sub_key lc) env)" "\<forall>nv \<in> set env. sub_key lc nv \<notin> set (lc name # seen)"
      "map_of m' k = (case find (\<lambda>nv. sub_key lc nv = k \<and> passes vfs nv) env of Some nv \<Rightarrow> Some nv | None \<Rightarrow> map_of ?m k)"
    using Cons.IH [OF rest inv] by blast+
  have none: "find (\<lambda>x. sub_key lc x = lc name \<and> passes vfs x) env = None" using ih(3) by (auto simp: find_None_iff)
  have look: "map_of ?m k = (if passes vfs nv \<and> k = lc name then Some nv else map_of m k)"
    using Cons.prems(2) nv by (simp add: bt_insert_def bt_look_upsert)
  have key: "sub_key lc nv = lc name" by (simp add: sub_key_def nv)
  have "map_of m' k = (case find (\<lambda>nv. sub_key lc nv = k \<and> passes vfs nv) (nv # env) of Some nv \<Rightarrow> Some nv | None \<Rightarrow> map_of m k)"
    using ih(4) none unfolding look by (cases "k = lc name") (auto simp: key split: option.splits)
  then show ?case using ih(1,2,3) fresh key by auto
qed simp

lemma authoritative_names: "\<exists>f. map fst (authoritative v) = filter f
    [''SEMBAZURU_MODE'', ''SEMBAZURU_VFS_ROOT'', ''SEMBAZURU_VFS_PIPE'', ''SEMBAZURU_VFS_SCRATCH'', ''SEMBAZURU_VFS_STRICT'',
     ''SEMBAZURU_VFS_MAPPING_HANDLE'', ''SEMBAZURU_VFS_SEMAPHORE_HANDLE'', ''SEMBAZURU_VFS_ATTESTATION_GENERATION'',
     ''SEMBAZURU_VFS_CWD'', ''SEMBAZURU_TRACE_DIR'']"
  by (rule exI [of _ "\<lambda>n. (n = ''SEMBAZURU_VFS_CWD'' \<longrightarrow> ve_logical_cwd v \<noteq> None) \<and> (n = ''SEMBAZURU_TRACE_DIR'' \<longrightarrow> ve_trace v \<noteq> None)"])
     (simp add: authoritative_def split: option.split)

lemma distinct_authoritative: "distinct (map lit_key (authoritative v))"
proof -
  have "distinct (map to_ascii_lowercase
    [''SEMBAZURU_MODE'', ''SEMBAZURU_VFS_ROOT'', ''SEMBAZURU_VFS_PIPE'', ''SEMBAZURU_VFS_SCRATCH'', ''SEMBAZURU_VFS_STRICT'',
     ''SEMBAZURU_VFS_MAPPING_HANDLE'', ''SEMBAZURU_VFS_SEMAPHORE_HANDLE'', ''SEMBAZURU_VFS_ATTESTATION_GENERATION'',
     ''SEMBAZURU_VFS_CWD'', ''SEMBAZURU_TRACE_DIR''])" by code_simp
  then have "distinct (map to_ascii_lowercase (map fst (authoritative v)))"
    using authoritative_names [of v] distinct_map_filter by metis
  then show ?thesis by (simp only: map_lit_key)
qed

lemma names_map_filter: "map fst (List.map_filter (\<lambda>n. map_option (Pair n) (f n)) ns) = filter (\<lambda>n. f n \<noteq> None) ns"
  by (induction ns) (auto simp: List.map_filter_simps)

lemma distinct_baseline: "distinct (map lit_key (baseline ambient))"
proof -
  have "distinct (map to_ascii_lowercase BASELINE_ENV)" by code_simp
  then have "distinct (map to_ascii_lowercase (map fst (baseline ambient)))"
    unfolding baseline_def names_map_filter by (rule distinct_map_filter)
  then show ?thesis by (simp only: map_lit_key)
qed

lemma distinct_temp: "distinct (map lit_key (temp_vars scratch))"
  by (simp add: temp_vars_def lit_key_def) code_simp

text \<open>The layers, the strongest first: what the worker sets, what was submitted, what it lends of its own.\<close>

definition own_vars :: "string \<Rightarrow> vfs_environment option \<Rightarrow> (string \<times> string) list" where
  "own_vars scratch vfs = temp_vars scratch @ (case vfs of Some v \<Rightarrow> authoritative v | None \<Rightarrow> [])"

definition lent_vars :: "(string \<Rightarrow> string option) \<Rightarrow> vfs_environment option \<Rightarrow> (string \<times> string) list" where
  "lent_vars ambient vfs = (case vfs of Some v \<Rightarrow> [] | None \<Rightarrow> baseline ambient)"

definition layered :: "(string \<Rightarrow> string) \<Rightarrow> (string \<Rightarrow> string option) \<Rightarrow> command \<Rightarrow> string \<Rightarrow> vfs_environment option \<Rightarrow> string \<Rightarrow> (string \<times> string) option" where
  "layered lc ambient cmd scratch vfs k =
     (case find (\<lambda>nv. lit_key nv = k) (own_vars scratch vfs) of
        Some nv \<Rightarrow> Some nv
      | None \<Rightarrow>
          (case find (\<lambda>nv. sub_key lc nv = k \<and> passes (vfs \<noteq> None) nv) (cmd_env cmd) of
             Some nv \<Rightarrow> Some nv
           | None \<Rightarrow> find (\<lambda>nv. lit_key nv = k) (lent_vars ambient vfs)))"

lemma distinct_own: "distinct (map lit_key (own_vars scratch vfs))"
proof -
  have "lit_key x \<noteq> lit_key y" if "x \<in> set (temp_vars scratch)" "y \<in> set (authoritative v)" for x y v
  proof -
    have "length (fst x) \<le> 4" using that(1) by (auto simp: temp_vars_def)
    moreover have "length (fst y) > 4" using that(2) by (auto simp: authoritative_def split: option.splits)
    ultimately show ?thesis by (metis length_to_ascii_lowercase lit_key_def not_le)
  qed
  then show ?thesis using distinct_temp distinct_authoritative by (cases vfs) (auto simp: own_vars_def)
qed

lemma find_append: "find P (xs @ ys) = (case find P xs of Some x \<Rightarrow> Some x | None \<Rightarrow> find P ys)"
  by (induction xs) auto

lemma find_own_swap:
  "find (\<lambda>nv. lit_key nv = k) (own_vars scratch (Some v)) =
     (case find (\<lambda>nv. lit_key nv = k) (authoritative v) of Some nv \<Rightarrow> Some nv | None \<Rightarrow> find (\<lambda>nv. lit_key nv = k) (temp_vars scratch))"
proof -
  have "find (\<lambda>nv. lit_key nv = k) (authoritative v) = None \<or> find (\<lambda>nv. lit_key nv = k) (temp_vars scratch) = None"
  proof (rule ccontr)
    assume "\<not> ?thesis"
    then obtain x y where "x \<in> set (authoritative v)" "y \<in> set (temp_vars scratch)" "lit_key x = lit_key y"
      by (auto simp: find_None_iff)
    then show False using distinct_own [of scratch "Some v"] by (auto simp: own_vars_def)
  qed
  then show ?thesis by (auto simp: own_vars_def find_append split: option.splits)
qed

lemma effective_layers:
  assumes "effective_environment lc ambient cmd scratch vfs = Inr env"
  obtains vals where "env = bt_values vals" "bt_inv vals" "map_of vals = layered lc ambient cmd scratch vfs"
    "distinct (map (sub_key lc) (cmd_env cmd))"
proof -
  let ?base = "if vfs = None then fold put_literal (baseline ambient) [] else []"
  have nil: "bt_inv ([] :: env_values)" by (simp add: bt_inv_def)
  have base: "bt_inv ?base" "map_of ?base k = find (\<lambda>nv. lit_key nv = k) (lent_vars ambient vfs)" for k
    using fold_put [OF nil distinct_baseline, of ambient k] nil by (auto simp: lent_vars_def split: option.splits)
  obtain sub where sub: "add_submitted lc (vfs \<noteq> None) (cmd_env cmd) [] ?base = Inr sub"
    using assms by (auto simp: effective_environment_def Let_def split: if_splits sum.splits)
  note s = add_submitted_look [OF sub base(1)]
  note t = fold_put [OF conjunct1 [OF s] distinct_temp, of scratch]
  let ?temp = "fold put_literal (temp_vars scratch) sub"
  let ?vals = "case vfs of None \<Rightarrow> ?temp | Some v \<Rightarrow> fold put_literal (authoritative v) ?temp"
  have env: "env = bt_values ?vals"
    using assms sub by (auto simp: effective_environment_def Let_def split: if_splits option.splits)
  have look: "map_of ?vals k = layered lc ambient cmd scratch vfs k" for k
  proof (cases vfs)
    case None
    then show ?thesis using conjunct2 [OF t, of k] s [of k] base(2) [of k]
      by (simp add: layered_def own_vars_def split: option.splits)
  next
    case (Some v)
    then show ?thesis
      using fold_put [OF conjunct1 [OF t] distinct_authoritative, of v k] conjunct2 [OF t, of k] s [of k] base(2) [of k] find_own_swap [of k scratch v]
      by (simp add: layered_def split: option.splits)
  qed
  have "bt_inv ?vals" using t fold_put [OF conjunct1 [OF t] distinct_authoritative] by (cases vfs) auto
  then show ?thesis using that [OF env] look s by blast
qed

text \<open>The names the worker itself writes are ASCII, where \<open>to_lowercase\<close> is the ASCII one.\<close>

definition folds_literals :: "(string \<Rightarrow> string) \<Rightarrow> bool" where
  "folds_literals lc \<longleftrightarrow> (\<forall>n \<in> set (VFS_RESERVED_ENV @ BASELINE_ENV @ [''TEMP'', ''TMP'']). lc n = to_ascii_lowercase n)"

lemma literal_key:
  assumes "folds_literals lc" "nv \<in> set (own_vars scratch vfs) \<union> set (lent_vars ambient vfs)"
  shows "lc (fst nv) = lit_key nv"
proof -
  have "fst nv \<in> set (VFS_RESERVED_ENV @ BASELINE_ENV @ [''TEMP'', ''TMP''])"
  proof (cases "nv \<in> set (baseline ambient)")
    case True
    then have "fst nv \<in> set (map fst (baseline ambient))" by simp
    then show ?thesis unfolding baseline_def names_map_filter by simp
  next
    case False
    then show ?thesis using assms(2)
      by (auto simp: own_vars_def lent_vars_def temp_vars_def authoritative_def VFS_RESERVED_ENV_def split: option.splits)
  qed
  then show ?thesis using assms(1) by (auto simp: folds_literals_def lit_key_def)
qed

lemma layered_from:
  assumes "layered lc ambient cmd scratch vfs k = Some nv"
  shows "nv \<in> set (own_vars scratch vfs) \<and> lit_key nv = k
    \<or> nv \<in> set (cmd_env cmd) \<and> passes (vfs \<noteq> None) nv \<and> sub_key lc nv = k
    \<or> nv \<in> set (lent_vars ambient vfs) \<and> lit_key nv = k"
  using assms unfolding layered_def by (auto simp: find_Some_iff split: option.splits)

lemma find_only: "distinct (map f xs) \<Longrightarrow> x \<in> set xs \<Longrightarrow> find (\<lambda>y. f y = f x) xs = Some x"
  by (induction xs) (auto simp: image_iff)

lemma find_only_passing: "distinct (map f xs) \<Longrightarrow> x \<in> set xs \<Longrightarrow> P x \<Longrightarrow> find (\<lambda>y. f y = f x \<and> P y) xs = Some x"
  by (induction xs) (auto simp: image_iff)

lemma effective_mem:
  assumes "bt_inv vals" "map_of vals = layered lc ambient cmd scratch vfs"
  shows "nv \<in> set (bt_values vals) \<longleftrightarrow> (\<exists>k. layered lc ambient cmd scratch vfs k = Some nv)"
  using assms(1) by (force simp: bt_values_def bt_inv_def map_of_eq_Some_iff simp flip: assms(2))

lemma effective_sources:
  assumes "effective_environment lc ambient cmd scratch vfs = Inr env"
  shows "set env \<subseteq> set (own_vars scratch vfs) \<union> {nv \<in> set (cmd_env cmd). vfs \<noteq> None \<longrightarrow> \<not> reserved (fst nv)} \<union> set (lent_vars ambient vfs)"
proof -
  obtain vals where "env = bt_values vals" "bt_inv vals" "map_of vals = layered lc ambient cmd scratch vfs"
    using effective_layers [OF assms] by blast
  then show ?thesis using effective_mem [of vals lc ambient cmd scratch vfs] layered_from [of lc ambient cmd scratch vfs] by (fastforce simp: passes_def)
qed



definition demo_env_cmd :: command where
  "demo_env_cmd = \<lparr>cmd_argv = [''cl''], cmd_env = [(''PATH'', ''C:''), (''Tmp'', ''D:''), (''SEMBAZURU_mode'', ''off'')], cmd_cwd = []\<rparr>"

definition demo_vfs_env :: vfs_environment where
  "demo_vfs_env = \<lparr>ve_root = ''R:'', ve_logical_cwd = None, ve_pipe = ''p'', ve_scratch = ''S:'', ve_strict = True, ve_trace = None,
     ve_mapping_handle = 4, ve_semaphore_handle = 8, ve_generation = 1\<rparr>"

lemma folds_ascii: "folds_literals to_ascii_lowercase"
  by (simp add: folds_literals_def)

lemmas demo_fold = to_ascii_lowercase_def lower_char_def is_ascii_upper_def char_of_eq_iff take_bit_eq_mod

lemma demo_names:
  "\<not> reserved ''PATH''" "\<not> reserved ''Tmp''" "reserved ''SEMBAZURU_mode''"
  "distinct (map to_ascii_lowercase [''PATH'', ''Tmp'', ''SEMBAZURU_mode''])"
  by (simp_all add: reserved_def VFS_RESERVED_ENV_def eq_ignore_ascii_case_def demo_fold)

lemma demo_fits: "validate_vfs_fixed_environment demo_vfs_env"
  by (simp add: validate_vfs_fixed_environment_def demo_vfs_env_def utf16_fits_fixed_buffer_def encode_wide_ascii)

lemma demo_effective_ok:
  "\<exists>env. effective_environment to_ascii_lowercase (\<lambda>_. None) demo_env_cmd ''S:'' (Some demo_vfs_env) = Inr env"
  using demo_names demo_fits by (auto simp: effective_environment_def Let_def demo_env_cmd_def)



section \<open>From the build machine to the compiler\<close>

lemma filtered_iff:
  "nv \<in> set (filter_compiler_env full) \<longleftrightarrow> nv \<in> set full \<and> is_compiler_env (fst nv) (passthrough_names full)"
  by (auto simp: filter_compiler_env_def Let_def)

definition demo_plain_cmd :: command where
  "demo_plain_cmd = \<lparr>cmd_argv = [''cl''], cmd_env = [(''PATH'', ''C:''), (''Tmp'', ''D:'')], cmd_cwd = []\<rparr>"

text \<open>
  C23. Nothing of the build machine's environment reaches a compiler on a worker unless it is meant
  to. When the launcher forwards the filtered environment and the worker builds the child's
  environment from it, every variable in the child that neither the worker sets nor lends was in
  the launcher's environment with that value, and its name is a compiler variable, begins like
  one, or is listed in the pass-through variable, under any casing.
\<close>
theorem no_other_variable_reaches_worker:
  assumes eff: "effective_environment lc ambient cmd scratch vfs = Inr env" and lc: "folds_literals lc"
    and sent: "set (cmd_env cmd) = set (filter_compiler_env full)"
    and child: "(name, val) \<in> set env" and other: "(name, val) \<notin> set (own_vars scratch vfs) \<union> set (lent_vars ambient vfs)"
  shows "(name, val) \<in> set full
    \<and> (to_ascii_uppercase name \<in> set ALLOW_EXACT \<or> (\<exists>p \<in> set ALLOW_PREFIX. starts_with (to_ascii_uppercase name) p)
       \<or> (\<exists>e \<in> set (passthrough_names full). eq_ignore_ascii_case e name))"
proof -
  have "(name, val) \<in> set (cmd_env cmd)" using effective_sources [OF eff] child other by auto
  then have "(name, val) \<in> set full" "is_compiler_env name (passthrough_names full)" by (simp_all add: sent filtered_iff)
  then show ?thesis by (auto simp: is_compiler_env_def Let_def list_ex_iff split: if_splits)
qed

theorem no_other_variable_reaches_worker_witness:
  "(''PATH'', ''C:'') \<in> set [(''PATH'', ''C:''), (''Tmp'', ''D:''), (''SECRET'', ''k'')]
    \<and> (to_ascii_uppercase ''PATH'' \<in> set ALLOW_EXACT \<or> (\<exists>p \<in> set ALLOW_PREFIX. starts_with (to_ascii_uppercase ''PATH'') p)
       \<or> (\<exists>e \<in> set (passthrough_names [(''PATH'', ''C:''), (''Tmp'', ''D:''), (''SECRET'', ''k'')]). eq_ignore_ascii_case e ''PATH''))"
proof (rule no_other_variable_reaches_worker)
  show "effective_environment to_ascii_lowercase (\<lambda>_. None) demo_plain_cmd ''S:'' None
      = Inr [(''PATH'', ''C:''), (''TEMP'', ''S:''), (''TMP'', ''S:'')]"
    by (simp add: demo_plain_cmd_def effective_environment_def baseline_def temp_vars_def put_literal_def bt_insert_def demo_fold
      List.map_filter_def less_char_def bt_values_def)
  show "folds_literals to_ascii_lowercase" by (rule folds_ascii)
  show "set (cmd_env demo_plain_cmd) = set (filter_compiler_env [(''PATH'', ''C:''), (''Tmp'', ''D:''), (''SECRET'', ''k'')])"
    by (simp add: demo_plain_cmd_def filter_compiler_env_def is_compiler_env_def passthrough_names_def ENV_PASSTHROUGH_VAR_def
      eq_ignore_ascii_case_def to_ascii_uppercase_def upper_char_def is_ascii_lower_def demo_fold ALLOW_EXACT_def ALLOW_PREFIX_def starts_with_def)
qed (simp_all add: own_vars_def temp_vars_def lent_vars_def baseline_def List.map_filter_def)

end
