(* ===== verification/Spec2Isabelle.thy ===== *)
theory Spec2Isabelle
  imports Submission_Examples Caller_Launch Vfs_Pipe Hydration_Flight Worker_Env
begin

text \<open>
  Sembazuru distributes the processes of a build. A launcher hands a command to the agent
  daemon on the developer's machine; the agent answers it from an action cache, or sends it to
  a worker, or runs it locally. A worker runs the command under hooks that redirect its reads
  to the agent's file server and record what it touches; the agent publishes the outputs the
  worker sends back and records the run. This development models the Rust code under
  \<open>src/crates\<close> that decides what is cached, who may read what, what is published, where an
  action runs and how it ends. Each theory opens with what it holds; this is the whole.

  \<^bold>\<open>Foundations.\<close> \<open>Sbz_Prelude\<close> has byte strings, little-endian integers at their width, UTF-8,
  the reader monad over a cursor, and the interfaces \<open>field_codec\<close> and \<open>canonical_codec\<close> (what a
  writer and a reader of one field promise each other), interpreted for every field of the
  wire format, the trace header, the cache entries and the capability token. \<open>Rust_Str\<close> and
  \<open>Hash_Map\<close> have the string functions and the two maps of the standard library; both maps
  interpret the interface \<open>entry_map\<close>. \<open>Wide_Str\<close> is UTF-16, \<open>Win_Path\<close> is \<open>std::path\<close> on Windows.

  \<^bold>\<open>Data plane\<close> (\<open>dataplane\<close>). \<open>Wire\<close>: frames and fields, the slice decoder and the streaming
  reader over a source that delivers bytes in arbitrary portions, proved equivalent. \<open>Ops\<close>:
  every request and response with its encoder and decoder; round trips and exactness.

  \<^bold>\<open>Tracer\<close> (\<open>tracer\<close>). \<open>Trace_Format\<close>: the binary trace, truncated tails included. \<open>Dep_Graph\<close>:
  path normalization and the fold of the events into inputs, outputs and deletions, refined
  from a specification by event order. \<open>Action_Key\<close>: the input manifest, when it is cacheable,
  and its hash. \<open>Determinism\<close>: SHA-256 and the comparison of artifacts up to time stamps.

  \<^bold>\<open>Content store and action cache\<close> (\<open>cas\<close>, \<open>agent/action_cache.rs\<close>). \<open>Cas_Digest\<close>, \<open>Cas_Store\<close>:
  digests, put and verified read over a disk whose operations may fail, eviction. \<open>Toolchain\<close>:
  which compiler a name stands for and how old its digest may be. \<open>Cas_Action_Cache\<close>,
  \<open>Agent_Cache\<close>, \<open>Cache_Queries\<close>: the fingerprints, the entries and their codecs, recording and
  resolving, predictions. \<open>Cache_History\<close> and \<open>Cache_Hit\<close>: over any history, a hit is never
  stale, and a recorded run is found again.

  \<^bold>\<open>Sessions and file server\<close> (\<open>agent/session_registry.rs\<close>, \<open>agent/fileserver.rs\<close>). \<open>Path_Scope\<close>: the
  lexical scope of a session. \<open>Session_Lifecycle\<close>: the phases of a submission and the owner of
  the pin store. \<open>Session_Registry\<close>, \<open>File_Server\<close>: capabilities, pins, streamed outputs, every
  request handler. \<open>Session_Isolation\<close>, \<open>Output_Staging\<close>: the server as a step relation over all
  sessions, with other processes changing files at will; what a session can read, and where
  and with what bytes its outputs are published.

  \<^bold>\<open>Workers and scheduling\<close> (\<open>agent/coordination.rs\<close>, \<open>scheduler.rs\<close>, \<open>action_tracker.rs\<close>, \<open>lib.rs\<close>,
  \<open>worker/lib.rs\<close>, \<open>proto\<close>). \<open>Capability\<close>: tokens and execution capabilities. \<open>Worker_Table\<close>:
  registration, heartbeats, liveness. \<open>Action_Tracker\<close>: attempts and lanes. \<open>Scheduler\<close>: choice,
  reservation and the dispatch loop. \<open>Worker_Exec\<close>: admission and the life of an action on a
  worker. \<open>Remote_Drive\<close>: how the agent reads a worker's event stream. \<open>Caller_Launch\<close>: the
  environment block and command line of a local process.

  \<^bold>\<open>Supply of a running compiler\<close> (\<open>worker/fileclient.rs\<close>, \<open>worker/vfs_pipe.rs\<close>, \<open>worker/lib.rs\<close>,
  \<open>agent/env_filter.rs\<close>). \<open>File_Client\<close>: the worker's client of the file server, each operation over
  an abstract call, and the shared connection as a step relation of callers and one reader.
  \<open>File_Supply\<close> puts the client over the server of \<open>File_Server\<close>: what is fetched is what the agent
  read, what is written back arrives. \<open>Hydrate\<close>: one file brought to the scratch tree, through the
  worker's own store. \<open>Hydration_Flight\<close>: concurrent opens share one hydration. \<open>Vfs_Pipe\<close>: the
  messages of the hook library's pipe, and that hydration stays below the scratch tree.
  \<open>Worker_Env\<close>: the variables the launcher forwards and the environment of the compiler.

  \<^bold>\<open>The composition\<close> (\<open>agent/intake.rs\<close>, \<open>agent/status.rs\<close>). \<open>Submission\<close> composes the definitions
  above into one submission and proves what spans them: every submission completes, only
  verified remote runs are recorded, a cached answer stands for a real run, and the launcher
  sees what happened. \<open>Submission_Examples\<close> works one submission out.

  \<^bold>\<open>Correspondence.\<close> State is a record per Rust struct and is passed explicitly; an operation that
  holds one lock throughout is one function; where threads or processes interleave, the
  operations are steps of an inductive relation and the theorems are about its reachable
  states. Shared capabilities (\<open>Arc\<close>) are addresses into a list. Errors are values of sums or
  options, one branch per early return. Integers keep their width where they can wrap.

  \<^bold>\<open>Parameters and bounds.\<close> BLAKE3, its keyed mode and the Unicode \<open>to_lowercase\<close> are third-party or
  table-driven and are arguments; theorems that need it assume that the hash does not collide on
  the strings at hand. The environment of a call (files, clocks, failures, the order in which
  workers answer) is a record of functions. The dispatch loop has fuel: it tries each worker id
  at most once, so fuel for one turn more than there are ids is enough
  (\<open>dispatch_completes\<close>). Whether the worker can reserve a buffer, and what fails when it
  publishes a scratch file, are arguments of \<open>fetch_by_digest\<close> and \<open>hydrate_uncached\<close>. \<open>is_blank\<close> and \<open>str_trim\<close> have the length of the string as fuel.

  \<^bold>\<open>Not modelled.\<close> Windows handle, token, job-object and service code (the sandbox, the process
  guardian, directory handles, the security of the pipes, the configuration store's access
  control lists), whose effects are parameters; the harness and the prefetch concurrency of the
  pipe server; gRPC and protobuf encoding; the C++ hooks; the graphical interface.
\<close>

end
